(* ===== verification/Prelude.thy ===== *)
theory Prelude
  imports Main "HOL-Library.Word" "HOL-Library.Char_ord" "HOL-Library.List_Lexorder"
begin

text \<open>
  Shared vocabulary of the development: the machine types of the C++ sources, the result type
  of code that may abort, and the lemmas on words, masks and lists that several components use.

  A C++ \<open>uint64_t\<close>, \<open>uint32_t\<close> or \<open>uint16_t\<close> is a word of that width, so \<open>+\<close>, \<open>-\<close> and \<open>*\<close> wrap
  as they do in the code. A \<open>char\<close> of a buffer is a HOL \<open>char\<close> (exactly one byte, ordered by its
  unsigned value, as \<open>memcmp\<close> and \<open>strcmp\<close> compare). The library is built with glog, so a failed
  \<open>RAW_CHECK\<close>, \<open>DCHECK\<close>, \<open>CHECK\<close> or \<open>assert\<close> terminates the process: in the model it is an error
  value that carries the message.
\<close>

unbundle bit_operations_syntax

section \<open>Machine types and results\<close>

type_synonym u64 = "64 word"
type_synonym u32 = "32 word"
type_synonym u16 = "16 word"

datatype err =
    RawCheck string      \<comment> \<open>\<open>RAW_CHECK\<close> failed: the process aborts\<close>
  | DCheck string        \<comment> \<open>\<open>DCHECK\<close> or \<open>CHECK\<close> failed: the process aborts\<close>
  | AssertFail string    \<comment> \<open>\<open>assert\<close> or \<open>ALWAYS_ASSERT\<close> failed\<close>
  | BadAccess string     \<comment> \<open>the C++ code has no defined behaviour here (null or wild pointer, division by zero)\<close>
  | Spins                \<comment> \<open>the code loops for ever in this state\<close>

type_synonym 'a res = "err + 'a"

text \<open>Sequencing: the first error ends the computation.\<close>

fun rbind :: "'e + 'a \<Rightarrow> ('a \<Rightarrow> 'e + 'b) \<Rightarrow> 'e + 'b" where
  "rbind (Inl e) f = Inl e"
| "rbind (Inr x) f = f x"

text \<open>A check of the source: go on when the condition holds, abort with the error otherwise.\<close>

definition guard :: "bool \<Rightarrow> 'e \<Rightarrow> 'e + unit" where
  "guard b e = (if b then Inr () else Inl e)"

lemma guard_simps [simp]: "guard True e = Inr ()" "guard False e = Inl e"
  by (simp_all add: guard_def)

lemma guard_Inr_iff [simp]: "guard b e = Inr u \<longleftrightarrow> b"
  by (simp add: guard_def)

lemma rbind_Inr_iff: "rbind m f = Inr y \<longleftrightarrow> (\<exists>x. m = Inr x \<and> f x = Inr y)"
  by (cases m) auto

lemma rbind_Inl_iff: "rbind m f = Inl e \<longleftrightarrow> m = Inl e \<or> (\<exists>x. m = Inr x \<and> f x = Inl e)"
  by (cases m) auto

lemma rbind_guard: "rbind (guard b e) f = (if b then f () else Inl e)"
  by (simp add: guard_def)

section \<open>Word lemmas\<close>

named_theorems word_facts \<open>unat-level facts on masks and shifts\<close>

lemma unat_pow2 [word_facts]: "k < LENGTH('a) \<Longrightarrow> unat (2 ^ k :: 'a::len word) = 2 ^ k"
proof -
  assume k: "k < LENGTH('a)"
  have "unat (of_nat (2 ^ k) :: 'a word) = 2 ^ k"
    using k by (simp only: unat_of_nat) simp
  then show ?thesis by simp
qed

text \<open>Masking with \<open>2 ^ k - 1\<close> is the remainder: the ring-buffer index of the garbage lists and
  the probe index of the epoch table.\<close>

lemma and_mask_eq_mod:
  fixes x :: "'a::len word"
  assumes "k < LENGTH('a)"
  shows "unat (x AND (2 ^ k - 1)) = unat x mod 2 ^ k"
proof -
  have "x AND (2 ^ k - 1) = x mod 2 ^ k"
    by (simp add: take_bit_eq_mask [symmetric] mask_eq_exp_minus_1 [symmetric] take_bit_eq_mod)
  then show ?thesis
    using assms by (simp add: unat_mod unat_pow2)
qed

lemma and_mask_less:
  fixes x :: "'a::len word"
  assumes "k < LENGTH('a)"
  shows "unat (x AND (2 ^ k - 1)) < 2 ^ k"
  using and_mask_eq_mod [OF assms, of x] by simp

lemma unat_suc_eq:
  fixes x :: "'a::len word"
  assumes "unat x + 1 < 2 ^ LENGTH('a)"
  shows "unat (x + 1) = unat x + 1"
  using assms by (simp add: unat_word_ariths)

lemma unat_pred_eq:
  fixes x :: "'a::len word"
  assumes "x \<noteq> 0"
  shows "unat (x - 1) = unat x - 1"
  using assms by (metis unat_minus_one)

section \<open>List lemmas\<close>

lemma nth_list_update_if: "i < length xs \<Longrightarrow> xs[i := x] ! j = (if i = j then x else xs ! j)"
  by simp

lemma map_update_same: "i < length xs \<Longrightarrow> f x = f (xs ! i) \<Longrightarrow> map f (xs[i := x]) = map f xs"
  by (metis list_update_id map_update)

end
