(* ===== verification/Interfaces.thy ===== *)
theory Interfaces
  imports Prelude
begin

text \<open>
  The contracts between components, as locales. A client's lemmas are proved from the laws; the
  provider's theory interprets the locale on its own definitions.
\<close>

section \<open>What the garbage list asks of the epoch manager\<close>

text \<open>\<open>ok n s\<close>: the service is initialized and at least \<open>n\<close> more bumps fit before the epoch counter
  wraps. \<open>holds e s\<close>: some protected thread may still use an item that was removed in epoch \<open>e\<close>.\<close>

locale epoch_service =
  fixes ok :: "nat \<Rightarrow> 's \<Rightarrow> bool"
    and current :: "'s \<Rightarrow> u64"
    and is_safe :: "u64 \<Rightarrow> 's \<Rightarrow> bool"
    and bump :: "'s \<Rightarrow> 's res"
    and holds :: "u64 \<Rightarrow> 's \<Rightarrow> bool"
  assumes bump_ok: "ok (Suc n) s \<Longrightarrow> \<exists>s'. bump s = Inr s' \<and> ok n s' \<and>
      (\<forall>e. is_safe e s \<longrightarrow> is_safe e s') \<and> (\<forall>e. holds e s' = holds e s) \<and> current s \<le> current s'"
    and safe_not_held: "ok n s \<Longrightarrow> is_safe e s \<Longrightarrow> \<not> holds e s"
    and current_epoch: "ok n s \<Longrightarrow> current s \<noteq> 0 \<and> current s \<noteq> - 1 \<and> \<not> is_safe (current s) s"
    and ok_mono: "ok n s \<Longrightarrow> n' \<le> n \<Longrightarrow> ok n' s"

section \<open>What a client asks of a key-value store\<close>

text \<open>The operations of a finite map, with their answers, and what each does to the abstract map.\<close>

datatype ('k, 'v) map_op = Find 'k | Erase 'k | Insert 'k 'v | Update 'k 'v

datatype 'v answer = Value "'v option" | Changed bool

fun spec_step :: "('k, 'v) map_op \<Rightarrow> ('k \<rightharpoonup> 'v) \<Rightarrow> 'v answer \<times> ('k \<rightharpoonup> 'v)" where
  "spec_step (Find k) m = (Value (m k), m)"
| "spec_step (Erase k) m = (Changed (m k \<noteq> None), m(k := None))"
| "spec_step (Insert k v) m = (if m k = None then (Changed True, m(k \<mapsto> v)) else (Changed False, m))"
| "spec_step (Update k v) m = (if m k = None then (Changed False, m) else (Changed True, m(k \<mapsto> v)))"

fun spec_run :: "('k, 'v) map_op list \<Rightarrow> ('k \<rightharpoonup> 'v) \<Rightarrow> 'v answer list \<times> ('k \<rightharpoonup> 'v)" where
  "spec_run [] m = ([], m)"
| "spec_run (x # xs) m = (let (a, m') = spec_step x m; (as, m'') = spec_run xs m' in (a # as, m''))"

text \<open>\<open>step x s a s'\<close>: operation \<open>x\<close> in state \<open>s\<close> returns the answer \<open>a\<close> in state \<open>s'\<close>. A sequence of operations, and
  that each of its operations is ready in every state that the ones before it lead to.\<close>

inductive runs :: "('x \<Rightarrow> 's \<Rightarrow> 'a \<Rightarrow> 's \<Rightarrow> bool) \<Rightarrow> 'x list \<Rightarrow> 's \<Rightarrow> 'a list \<Rightarrow> 's \<Rightarrow> bool" for step where
  runs_Nil: "runs step [] s [] s"
| runs_Cons: "step x s a t \<Longrightarrow> runs step xs t as u \<Longrightarrow> runs step (x # xs) s (a # as) u"

inductive_cases runs_NilE: "runs step [] s as u"
inductive_cases runs_ConsE: "runs step (x # xs) s as u"

primrec ready_run :: "('x \<Rightarrow> 's \<Rightarrow> 'a \<Rightarrow> 's \<Rightarrow> bool) \<Rightarrow> ('x \<Rightarrow> 's \<Rightarrow> bool) \<Rightarrow> 'x list \<Rightarrow> 's \<Rightarrow> bool" where
  "ready_run step ready [] s \<longleftrightarrow> True"
| "ready_run step ready (x # xs) s \<longleftrightarrow> ready x s \<and> (\<forall>a t. step x s a t \<longrightarrow> ready_run step ready xs t)"

text \<open>\<open>ready x s\<close>: the conditions under which the store promises the abstract step.\<close>

locale key_value_store =
  fixes step :: "('k, 'v) map_op \<Rightarrow> 's \<Rightarrow> 'v answer \<Rightarrow> 's \<Rightarrow> bool"
    and valid :: "'s \<Rightarrow> bool"
    and contents :: "'s \<Rightarrow> 'k \<rightharpoonup> 'v"
    and ready :: "('k, 'v) map_op \<Rightarrow> 's \<Rightarrow> bool"
  assumes step_refines: "valid s \<Longrightarrow> ready x s \<Longrightarrow>
      \<exists>s'. step x s (fst (spec_step x (contents s))) s' \<and> valid s' \<and> contents s' = snd (spec_step x (contents s))"
    and step_unique: "step x s a s' \<Longrightarrow> step x s b t \<Longrightarrow> a = b \<and> s' = t"
begin

lemma run_refines:
  "valid s \<Longrightarrow> ready_run step ready xs s \<Longrightarrow>
    \<exists>t. runs step xs s (fst (spec_run xs (contents s))) t \<and> valid t \<and> contents t = snd (spec_run xs (contents s))"
proof (induction xs arbitrary: s)
  case Nil
  then show ?case by (auto intro: runs_Nil)
next
  case (Cons x xs)
  obtain t where t: "step x s (fst (spec_step x (contents s))) t" "valid t" "contents t = snd (spec_step x (contents s))"
    using step_refines [of s x] Cons.prems by auto
  moreover obtain u where "runs step xs t (fst (spec_run xs (contents t))) u" "valid u" "contents u = snd (spec_run xs (contents t))"
    using Cons.IH [OF t(2)] Cons.prems(2) t(1) by auto
  ultimately show ?case
    by (intro exI [of _ u]) (auto simp: case_prod_beta Let_def intro: runs_Cons)
qed

lemma run_answers:
  "valid s \<Longrightarrow> ready_run step ready xs s \<Longrightarrow> runs step xs s as t \<Longrightarrow>
    as = fst (spec_run xs (contents s)) \<and> valid t \<and> contents t = snd (spec_run xs (contents s))"
proof (induction xs arbitrary: s as)
  case Nil
  then show ?case by (auto elim: runs_NilE)
next
  case (Cons x xs)
  obtain a bs u where c: "as = a # bs" "step x s a u" "runs step xs u bs t" using Cons.prems(3) by (auto elim: runs_ConsE)
  obtain u' where u: "step x s (fst (spec_step x (contents s))) u'" "valid u'" "contents u' = snd (spec_step x (contents s))"
    using step_refines [of s x] Cons.prems by auto
  with c(2) have "a = fst (spec_step x (contents s))" "u' = u" using step_unique by blast+
  then show ?case using Cons.IH [of u bs] Cons.prems(2) c u by (auto simp: case_prod_beta Let_def)
qed

end

end
