(* ===== verification/StatusSlice.thy ===== *)
theory StatusSlice
  imports Prelude
begin

text \<open>
  The \<open>Slice\<close> byte view (\<open>include/slice.h\<close>) and the \<open>Status\<close> error value
  (\<open>include/status.h\<close>, \<open>util/status.cc\<close>) every fallible operation of the library returns.

  A slice is a pointer and a size: the model keeps the bytes reachable from the pointer
  (\<open>slice_data\<close>, which may be longer than the view) and the size, so \<open>remove_suffix\<close> only shrinks
  \<open>slice_size\<close> as the code does. The lemmas relate each comparison to the lexicographic order of
  the viewed bytes. A status keeps its code and, when it has a message, the heap block the code
  builds: four little-endian length bytes followed by the message.
\<close>

section \<open>Slice\<close>

type_synonym bytes = "char list"

record slice =
  slice_data :: bytes
  slice_size :: nat

definition Slice_empty :: slice where
  "Slice_empty = \<lparr>slice_data = [], slice_size = 0\<rparr>"

definition Slice_ptr :: "bytes \<Rightarrow> nat \<Rightarrow> slice" where
  "Slice_ptr d n = \<lparr>slice_data = d, slice_size = n\<rparr>"

definition Slice_string :: "bytes \<Rightarrow> slice" where
  "Slice_string s = \<lparr>slice_data = s, slice_size = length s\<rparr>"

text \<open>\<open>strlen\<close>: the bytes before the first NUL of a C string.\<close>

definition c_str :: "bytes \<Rightarrow> bytes" where
  "c_str s = takeWhile (\<lambda>c. c \<noteq> CHR 0x00) s"

definition Slice_cstr :: "bytes \<Rightarrow> slice" where
  "Slice_cstr s = \<lparr>slice_data = s, slice_size = length (c_str s)\<rparr>"

definition slice_empty :: "slice \<Rightarrow> bool" where
  "slice_empty s \<longleftrightarrow> slice_size s = 0"

definition slice_index :: "slice \<Rightarrow> nat \<Rightarrow> char res" where
  "slice_index s n = rbind (guard (n < slice_size s) (AssertFail ''n < size()'')) (\<lambda>_. Inr (slice_data s ! n))"

definition slice_clear :: "slice \<Rightarrow> slice" where
  "slice_clear s = s\<lparr>slice_data := [], slice_size := 0\<rparr>"

definition remove_prefix :: "slice \<Rightarrow> nat \<Rightarrow> slice res" where
  "remove_prefix s n = rbind (guard (n \<le> slice_size s) (AssertFail ''n <= size()''))
     (\<lambda>_. Inr (s\<lparr>slice_data := drop n (slice_data s), slice_size := slice_size s - n\<rparr>))"

definition remove_suffix :: "slice \<Rightarrow> nat \<Rightarrow> slice res" where
  "remove_suffix s n = rbind (guard (n \<le> slice_size s) (AssertFail ''n <= size()''))
     (\<lambda>_. Inr (s\<lparr>slice_size := slice_size s - n\<rparr>))"

text \<open>\<open>memcpy\<close> of the slice to a destination buffer, of which the first bytes are replaced.\<close>

definition slice_copy :: "slice \<Rightarrow> bytes \<Rightarrow> bytes res" where
  "slice_copy s dest = rbind (guard (slice_size s \<le> length dest) (AssertFail ''dest_size >= slice_size''))
     (\<lambda>_. Inr (take (slice_size s) (slice_data s) @ drop (slice_size s) dest))"

definition slice_copy_count :: "slice \<Rightarrow> bytes \<Rightarrow> nat \<Rightarrow> bytes res" where
  "slice_copy_count s dest count =
     rbind (guard (count \<le> slice_size s) (AssertFail ''count <= slice_size''))
       (\<lambda>_. rbind (guard (count \<le> length dest) (AssertFail ''dest_size >= count''))
         (\<lambda>_. Inr (take count (slice_data s) @ drop count dest)))"

text \<open>The C library's \<open>memcmp\<close>; the callers use only the sign of its result.\<close>

fun memcmp :: "bytes \<Rightarrow> bytes \<Rightarrow> nat \<Rightarrow> int" where
  "memcmp xs ys 0 = 0"
| "memcmp (x # xs) (y # ys) (Suc n) =
     (if x < y then -1 else if y < x then 1 else memcmp xs ys n)"
| "memcmp _ _ (Suc n) = 0"

text \<open>\<open>memcmp_with_index\<close> also reports the position of the first difference (\<open>size\<close> if none).\<close>

fun memcmp_with_index :: "bytes \<Rightarrow> bytes \<Rightarrow> nat \<Rightarrow> nat \<Rightarrow> int \<times> nat" where
  "memcmp_with_index xs ys 0 index = (0, index)"
| "memcmp_with_index (x # xs) (y # ys) (Suc n) index =
     (if x \<noteq> y then (if x < y then -1 else 1, index)
      else memcmp_with_index xs ys n (Suc index))"
| "memcmp_with_index _ _ (Suc n) index = (0, index)"

definition starts_with :: "slice \<Rightarrow> slice \<Rightarrow> bool" where
  "starts_with s x \<longleftrightarrow> slice_size s \<ge> slice_size x \<and> memcmp (slice_data s) (slice_data x) (slice_size x) = 0"

definition slice_eq :: "slice \<Rightarrow> slice \<Rightarrow> bool" where
  "slice_eq x y \<longleftrightarrow> slice_size x = slice_size y \<and> memcmp (slice_data x) (slice_data y) (slice_size x) = 0"

definition slice_compare :: "slice \<Rightarrow> slice \<Rightarrow> int" where
  "slice_compare a b =
     (let min_len = min (slice_size a) (slice_size b);
          r = memcmp (slice_data a) (slice_data b) min_len
      in if r = 0 then (if slice_size a < slice_size b then -1 else if slice_size a > slice_size b then 1 else r)
         else r)"

definition slice_compare_with_index :: "slice \<Rightarrow> slice \<Rightarrow> int \<times> nat" where
  "slice_compare_with_index a b =
     (let min_len = min (slice_size a) (slice_size b);
          (r, index) = memcmp_with_index (slice_data a) (slice_data b) min_len 0
      in (if r = 0 then (if slice_size a < slice_size b then -1 else if slice_size a > slice_size b then 1 else r)
          else r, index))"

definition slice_compare_len :: "slice \<Rightarrow> slice \<Rightarrow> nat \<Rightarrow> int" where
  "slice_compare_len a b len =
     (let min_len = min (slice_size a) (slice_size b);
          r = memcmp (slice_data a) (slice_data b) (min min_len len)
      in if r = 0 \<and> min_len < len
         then (if slice_size a < slice_size b then -1 else if slice_size a > slice_size b then 1 else r)
         else r)"

definition slice_compare_with_index_len :: "slice \<Rightarrow> slice \<Rightarrow> nat \<Rightarrow> int \<times> nat" where
  "slice_compare_with_index_len a b len =
     (let min_len = min (slice_size a) (slice_size b);
          (r, index) = memcmp_with_index (slice_data a) (slice_data b) (min min_len len) 0
      in (if r = 0 \<and> min_len < len
          then (if slice_size a < slice_size b then -1 else if slice_size a > slice_size b then 1 else r)
          else r, index))"

text \<open>What a slice denotes, and when its size does not run past its buffer.\<close>

definition view :: "slice \<Rightarrow> bytes" where
  "view s = take (slice_size s) (slice_data s)"

definition slice_ok :: "slice \<Rightarrow> bool" where
  "slice_ok s \<longleftrightarrow> slice_size s \<le> length (slice_data s)"

text \<open>The reference order: three-way lexicographic comparison of byte strings.\<close>

definition lexcmp :: "bytes \<Rightarrow> bytes \<Rightarrow> int" where
  "lexcmp xs ys = (if xs < ys then -1 else if xs = ys then 0 else 1)"

fun common_prefix_len :: "bytes \<Rightarrow> bytes \<Rightarrow> nat" where
  "common_prefix_len (x # xs) (y # ys) = (if x = y then Suc (common_prefix_len xs ys) else 0)"
| "common_prefix_len _ _ = 0"

subsection \<open>Lemmas\<close>

lemma lexcmp_simps [simp]:
  "lexcmp [] [] = 0" "lexcmp [] (y # ys) = -1" "lexcmp (x # xs) [] = 1"
  "lexcmp (x # xs) (y # ys) = (if x < y then -1 else if y < x then 1 else lexcmp xs ys)"
  by (auto simp: lexcmp_def)

lemma memcmp_take: "memcmp xs ys n = memcmp (take n xs) (take n ys) n"
  by (induction xs ys n rule: memcmp.induct) auto

lemma memcmp_sign: "memcmp xs ys n = -1 \<or> memcmp xs ys n = 0 \<or> memcmp xs ys n = 1"
  by (induction xs ys n rule: memcmp.induct) auto

lemma memcmp_eq_0_iff:
  "n \<le> length xs \<Longrightarrow> n \<le> length ys \<Longrightarrow> memcmp xs ys n = 0 \<longleftrightarrow> take n xs = take n ys"
  by (induction xs ys n rule: memcmp.induct) auto

text \<open>Comparing up to the shorter length and then the lengths is the lexicographic order.\<close>

lemma memcmp_lex:
  "a \<le> length xs \<Longrightarrow> b \<le> length ys \<Longrightarrow>
   (let r = memcmp xs ys (min a b) in
    if r = 0 then (if a < b then -1 else if a > b then 1 else r) else r) = lexcmp (take a xs) (take b ys)"
proof (induction xs arbitrary: ys a b)
  case Nil
  then show ?case by (cases b; cases ys) auto
next
  case (Cons x xs)
  show ?case
  proof (cases a; cases b)
    fix a' b' assume ab: "a = Suc a'" "b = Suc b'"
    then obtain y ys' where ys: "ys = y # ys'" using Cons.prems by (cases ys) auto
    show ?thesis using Cons.IH [of a' b' ys'] Cons.prems ab ys by (auto simp: Let_def)
  next
    fix b' assume "a = 0" "b = Suc b'"
    then show ?thesis using Cons.prems by (cases ys) auto
  next
    fix a' assume "a = Suc a'" "b = 0"
    then show ?thesis by auto
  next
    assume "a = 0" "b = 0" then show ?thesis by simp
  qed
qed

lemma memcmp_with_index_fst: "fst (memcmp_with_index xs ys n i) = memcmp xs ys n"
  by (induction xs ys n i rule: memcmp_with_index.induct) auto

lemma memcmp_with_index_snd:
  "n \<le> length xs \<Longrightarrow> n \<le> length ys \<Longrightarrow>
   snd (memcmp_with_index xs ys n i) = i + common_prefix_len (take n xs) (take n ys)"
  by (induction xs ys n i rule: memcmp_with_index.induct) auto

lemma common_prefix_len_min:
  "common_prefix_len (take (min a b) xs) (take (min a b) ys)
     = common_prefix_len (take a xs) (take b ys)"
proof (induction xs ys arbitrary: a b rule: common_prefix_len.induct)
  case (1 x xs y ys)
  then show ?case by (cases a; cases b) auto
qed auto

lemma slice_compare_lex:
  "slice_ok a \<Longrightarrow> slice_ok b \<Longrightarrow> slice_compare a b = lexcmp (view a) (view b)"
  using memcmp_lex [of "slice_size a" "slice_data a" "slice_size b" "slice_data b"]
  by (simp add: slice_compare_def view_def slice_ok_def Let_def)

lemma slice_compare_with_index_fst:
  "fst (slice_compare_with_index a b) = slice_compare a b"
  using memcmp_with_index_fst [of "slice_data a" "slice_data b" "min (slice_size a) (slice_size b)" 0]
  by (auto simp: slice_compare_with_index_def slice_compare_def Let_def split: prod.splits)

lemma slice_compare_with_index_snd:
  assumes "slice_ok a" "slice_ok b"
  shows "snd (slice_compare_with_index a b) = common_prefix_len (view a) (view b)"
proof -
  have "snd (slice_compare_with_index a b) =
      snd (memcmp_with_index (slice_data a) (slice_data b) (min (slice_size a) (slice_size b)) 0)"
    by (simp add: slice_compare_with_index_def Let_def split: prod.split)
  also have "\<dots> = common_prefix_len (view a) (view b)"
    using assms
    by (subst memcmp_with_index_snd) (auto simp: slice_ok_def view_def common_prefix_len_min)
  finally show ?thesis .
qed

lemma min_len_less: "\<not> min a b < (len::nat) \<Longrightarrow> min (min a b) len = min (min a len) (min b len)"
  by auto

lemma slice_compare_len_truncates:
  assumes "slice_ok a" "slice_ok b"
  shows "slice_compare_len a b len = lexcmp (take len (view a)) (take len (view b))"
proof (cases "min (slice_size a) (slice_size b) < len")
  case True
  have "slice_compare_len a b len =
      (let r = memcmp (slice_data a) (slice_data b) (min (min (slice_size a) len) (min (slice_size b) len)) in
       if r = 0 then (if min (slice_size a) len < min (slice_size b) len then -1
                      else if min (slice_size a) len > min (slice_size b) len then 1 else r) else r)"
    using True by (auto simp: slice_compare_len_def Let_def min_def)
  then show ?thesis
    using assms memcmp_lex [of "min (slice_size a) len" "slice_data a" "min (slice_size b) len" "slice_data b"]
    by (simp add: slice_ok_def view_def min.commute)
next
  case False
  then have "slice_compare_len a b len = memcmp (slice_data a) (slice_data b) (min len len)"
    by (auto simp: slice_compare_len_def Let_def min_def)
  with False assms memcmp_lex [of len "slice_data a" len "slice_data b"] show ?thesis
    by (auto simp: slice_ok_def view_def Let_def min_def split: if_splits)
qed

lemma starts_with_prefix:
  assumes "slice_ok s" "slice_ok x"
  shows "starts_with s x \<longleftrightarrow> (\<exists>rest. view s = view x @ rest)"
proof -
  have "starts_with s x \<longleftrightarrow> slice_size s \<ge> slice_size x \<and> take (slice_size x) (slice_data s) = take (slice_size x) (slice_data x)"
    using assms memcmp_eq_0_iff [of "slice_size x" "slice_data s" "slice_data x"]
    by (auto simp: starts_with_def slice_ok_def)
  also have "\<dots> \<longleftrightarrow> take (slice_size x) (view s) = view x \<and> slice_size x \<le> slice_size s"
    by (auto simp: view_def min_def)
  also have "\<dots> \<longleftrightarrow> (\<exists>rest. view s = view x @ rest)"
  proof
    assume "take (slice_size x) (view s) = view x \<and> slice_size x \<le> slice_size s"
    then show "\<exists>rest. view s = view x @ rest" by (metis append_take_drop_id)
  next
    assume "\<exists>rest. view s = view x @ rest"
    then obtain rest where r: "view s = view x @ rest" ..
    then have "length (view x) \<le> length (view s)" by simp
    then have "slice_size x \<le> slice_size s" using assms by (simp add: view_def slice_ok_def)
    moreover have "length (view x) = slice_size x" using assms by (simp add: view_def slice_ok_def)
    ultimately show "take (slice_size x) (view s) = view x \<and> slice_size x \<le> slice_size s" using r by simp
  qed
  finally show ?thesis .
qed

lemma view_remove_prefix: "remove_prefix s n = Inr s' \<Longrightarrow> view s' = drop n (view s)"
  by (auto simp: remove_prefix_def rbind_guard view_def drop_take split: if_splits)

lemma view_remove_suffix:
  "slice_ok s \<Longrightarrow> remove_suffix s n = Inr s' \<Longrightarrow> view s' = take (length (view s) - n) (view s)"
  by (auto simp: remove_suffix_def rbind_guard view_def slice_ok_def min_def split: if_splits)

section \<open>Status\<close>

text \<open>\<open>Status::Code\<close>, with the numbers of the enum.\<close>

datatype code =
    kOk | kNotFound | kCorruption | kNotSupported | kInvalidArgument | kIOError | kMergeInProgress
  | kIncomplete | kShutdownInProgress | kTimedOut | kAborted | kBusy | kOutOfMemory
  | kKeyAlreadyExists | kUnableToMerge | kMwCASFailure

fun code_num :: "code \<Rightarrow> nat" where
  "code_num kOk = 0" | "code_num kNotFound = 1" | "code_num kCorruption = 2"
| "code_num kNotSupported = 3" | "code_num kInvalidArgument = 4" | "code_num kIOError = 5"
| "code_num kMergeInProgress = 6" | "code_num kIncomplete = 7" | "code_num kShutdownInProgress = 8"
| "code_num kTimedOut = 9" | "code_num kAborted = 10" | "code_num kBusy = 11"
| "code_num kOutOfMemory = 12" | "code_num kKeyAlreadyExists = 13" | "code_num kUnableToMerge = 14"
| "code_num kMwCASFailure = 15"

text \<open>\<open>state_\<close> is null or points to a block: four length bytes, then the message.\<close>

record status =
  status_code :: code
  status_state :: "bytes option"

definition Status_OK :: status where
  "Status_OK = \<lparr>status_code = kOk, status_state = None\<rparr>"

definition Status_code :: "code \<Rightarrow> status" where
  "Status_code c = \<lparr>status_code = c, status_state = None\<rparr>"

text \<open>A 32-bit length in memory, as \<open>memcpy\<close> of a \<open>uint32_t\<close> stores it (little endian).\<close>

definition le32 :: "u32 \<Rightarrow> bytes" where
  "le32 n = map (\<lambda>i. char_of (unat n div 256 ^ i)) [0..<4]"

definition of_le32 :: "bytes \<Rightarrow> nat" where
  "of_le32 b = of_char (b ! 0) + 256 * of_char (b ! 1) + 65536 * of_char (b ! 2)
     + 16777216 * of_char (b ! 3)"

text \<open>The message constructor: \<open>len1\<close>, \<open>len2\<close> and \<open>size\<close> are \<open>uint32_t\<close>.\<close>

definition Status_msg :: "code \<Rightarrow> slice \<Rightarrow> slice \<Rightarrow> status res" where
  "Status_msg c msg msg2 = rbind (guard (c \<noteq> kOk) (AssertFail ''code_ != kOk'')) (\<lambda>_.
     let len1 = word_of_nat (slice_size msg) :: u32;
         len2 = word_of_nat (slice_size msg2) :: u32;
         size = len1 + (if len2 \<noteq> 0 then 2 + len2 else 0)
     in Inr \<lparr>status_code = c,
             status_state = Some (le32 size @ take (unat len1) (slice_data msg) @
               (if len2 \<noteq> 0 then '': '' @ take (unat len2) (slice_data msg2) else []))\<rparr>)"

text \<open>\<open>CopyState\<close> copies the length field and as many bytes as it says.\<close>

definition CopyState :: "bytes \<Rightarrow> bytes" where
  "CopyState state = take (of_le32 state + 4) state"

definition Status_copy :: "status \<Rightarrow> status" where
  "Status_copy s = \<lparr>status_code = status_code s,
     status_state = map_option CopyState (status_state s)\<rparr>"

definition Status_assign :: "status \<Rightarrow> status \<Rightarrow> status" where
  "Status_assign this s = \<lparr>status_code = status_code s,
     status_state = (if status_state this \<noteq> status_state s
                     then map_option CopyState (status_state s) else status_state this)\<rparr>"

definition Status_eq :: "status \<Rightarrow> status \<Rightarrow> bool" where
  "Status_eq a b \<longleftrightarrow> status_code a = status_code b"

definition Status_ok :: "status \<Rightarrow> bool" where
  "Status_ok s \<longleftrightarrow> status_code s = kOk"

text \<open>Decimal digits of a code number, as \<open>%d\<close> prints them.\<close>

definition digits2 :: "nat \<Rightarrow> string" where
  "digits2 n = (if n < 10 then [char_of (48 + n)] else [char_of (48 + n div 10), char_of (48 + n mod 10)])"

text \<open>The \<open>switch\<close> of \<open>ToString\<close>; codes without a case print their number.\<close>

fun type_string :: "code \<Rightarrow> string" where
  "type_string kNotFound = ''NotFound: ''"
| "type_string kCorruption = ''Corruption: ''"
| "type_string kNotSupported = ''Not implemented: ''"
| "type_string kInvalidArgument = ''Invalid argument: ''"
| "type_string kIOError = ''IO error: ''"
| "type_string kMergeInProgress = ''Merge in progress: ''"
| "type_string kUnableToMerge = ''Cannot merge: ''"
| "type_string kIncomplete = ''Result incomplete: ''"
| "type_string kShutdownInProgress = ''Shutdown in progress: ''"
| "type_string kAborted = ''Operation aborted: ''"
| "type_string kBusy = ''Resource busy: ''"
| "type_string c = ''Unknown code('' @ digits2 (code_num c) @ ''): ''"

definition Status_ToString :: "status \<Rightarrow> string" where
  "Status_ToString s =
     (if status_code s = kOk then ''OK''
      else type_string (status_code s) @
        (case status_state s of None \<Rightarrow> []
         | Some st \<Rightarrow> take (of_le32 st) (drop 4 st)))"

subsection \<open>Lemmas\<close>

lemma of_char_mod_256: "of_char (char_of (n::nat)) = n mod 256"
  by simp

lemma length_le32 [simp]: "length (le32 n) = 4"
  by (simp add: le32_def)

lemma base256_expand:
  "(n::nat) mod 256 + 256 * (n div 256 mod 256) + 65536 * (n div 65536 mod 256)
     + 16777216 * (n div 16777216) = n"
proof -
  define a b where "a = n div 256" and "b = a div 256"
  have e: "n div 65536 = b" "n div 16777216 = b div 256"
    using div_mult2_eq [of n 256 256] div_mult2_eq [of n 65536 256]
    by (simp_all add: a_def b_def)
  have "n = 256 * a + n mod 256" "a = 256 * b + a mod 256" "b = 256 * (b div 256) + b mod 256"
    by (simp_all add: a_def b_def)
  then show ?thesis unfolding a_def [symmetric] e by linarith
qed

lemma of_le32_le32: "of_le32 (le32 n @ rest) = unat n"
proof -
  have "unat n < 4294967296" using unsigned_less [of n] by simp
  then have "unat n div 16777216 < 256" by (simp add: less_mult_imp_div_less)
  then show ?thesis using base256_expand [of "unat n"]
    by (simp add: of_le32_def le32_def nth_append of_char_mod_256)
qed

text \<open>The block a message constructor builds, when the lengths fit their 32 bits.\<close>

lemma Status_msg_state:
  assumes "c \<noteq> kOk" "slice_ok m" "slice_ok m2" "slice_size m + slice_size m2 + 2 < 4294967296"
  shows "Status_msg c m m2 = Inr \<lparr>status_code = c,
     status_state = Some (le32 (word_of_nat (length (view m @ (if view m2 = [] then [] else '': '' @ view m2))))
        @ view m @ (if view m2 = [] then [] else '': '' @ view m2))\<rparr>"
proof -
  have u: "unat (word_of_nat (slice_size m) :: u32) = slice_size m"
    "unat (word_of_nat (slice_size m2) :: u32) = slice_size m2"
    using assms by (auto simp: unat_of_nat take_bit_eq_mod)
  then have z: "(word_of_nat (slice_size m2) :: u32) \<noteq> 0 \<longleftrightarrow> view m2 \<noteq> []"
    using assms(3) by (auto simp: view_def slice_ok_def simp flip: unat_eq_0)
  have l: "length (view m) = slice_size m" "length (view m2) = slice_size m2"
    using assms by (auto simp: view_def slice_ok_def)
  have t: "take (slice_size m) (slice_data m) = view m" "take (slice_size m2) (slice_data m2) = view m2"
    by (simp_all add: view_def)
  show ?thesis
    using assms(1) by (simp add: Status_msg_def Let_def u z t l algebra_simps)
qed

lemma Status_ToString_msg:
  assumes "c \<noteq> kOk" "slice_ok m" "slice_ok m2" "slice_size m + slice_size m2 + 2 < 4294967296"
    and s: "Status_msg c m m2 = Inr s"
  shows "Status_ToString s =
    type_string c @ view m @ (if view m2 = [] then [] else '': '' @ view m2)"
    and "map_option CopyState (status_state s) = status_state s"
proof -
  let ?body = "view m @ (if view m2 = [] then [] else '': '' @ view m2)"
  have st: "s = \<lparr>status_code = c, status_state = Some (le32 (word_of_nat (length ?body)) @ ?body)\<rparr>"
    using Status_msg_state [OF assms(1-4)] s by simp
  have "length ?body < 4294967296"
    using assms by (auto simp: view_def slice_ok_def)
  then have u: "unat (word_of_nat (length ?body) :: u32) = length ?body"
    by (simp only: unat_of_nat) (simp add: take_bit_eq_mod)
  show "Status_ToString s = type_string c @ ?body"
    using assms(1) u by (simp only: st Status_ToString_def) (simp add: of_le32_le32)
  show "map_option CopyState (status_state s) = status_state s"
    using u by (simp only: st) (simp add: CopyState_def of_le32_le32)
qed

end
