(* ===== verification/Library.thy ===== *)
theory Library
  imports StatusSlice
begin

text \<open>
  Library-wide state (\<open>src/common\<close>): the allocator and environment singletons with
  \<open>InitLibrary\<close> and \<open>UninitLibrary\<close>, and the registry of thread-local variables
  (\<open>Thread\<close> in \<open>environment_internal.h\<close>) that resets them when a thread is joined or a pool is torn
  down. The create functions the user passes to \<open>InitLibrary\<close> are parameters; destroying an object
  is recorded in a log, since the destroy function is the user's too.
\<close>

section \<open>Allocator, environment and library initialization\<close>

record ('a, 'e) library =
  lib_allocator :: "'a option"
  lib_environment :: "'e option"
  lib_destroyed :: "('a + 'e) list"

text \<open>\<open>Status\<close> factories with one message (\<open>status.h\<close>).\<close>

definition Corruption :: "string \<Rightarrow> status" where
  "Corruption m = projr (Status_msg kCorruption (Slice_string m) Slice_empty)"

definition InvalidArgument :: "string \<Rightarrow> status" where
  "InvalidArgument m = projr (Status_msg kInvalidArgument (Slice_string m) Slice_empty)"

definition Allocator_Initialize ::
  "(unit \<Rightarrow> status \<times> 'a) \<Rightarrow> ('a, 'e) library \<Rightarrow> status \<times> ('a, 'e) library" where
  "Allocator_Initialize create l =
     (if lib_allocator l \<noteq> None then (Corruption ''Allocator has already been initialized.'', l)
      else let (s, a) = create ()
           in if \<not> Status_ok s then (s, l) else (Status_OK, l\<lparr>lib_allocator := Some a\<rparr>))"

definition Allocator_Uninitialize :: "('a, 'e) library \<Rightarrow> ('a, 'e) library" where
  "Allocator_Uninitialize l =
     (case lib_allocator l of None \<Rightarrow> l
      | Some a \<Rightarrow> l\<lparr>lib_allocator := None, lib_destroyed := lib_destroyed l @ [Inl a]\<rparr>)"

definition Environment_Initialize ::
  "(unit \<Rightarrow> status \<times> 'e) \<Rightarrow> ('a, 'e) library \<Rightarrow> status \<times> ('a, 'e) library" where
  "Environment_Initialize create l =
     (if lib_environment l \<noteq> None then (Corruption ''Environment has already been initialized.'', l)
      else let (s, e) = create ()
           in if \<not> Status_ok s then (s, l) else (Status_OK, l\<lparr>lib_environment := Some e\<rparr>))"

definition Environment_Uninitialize :: "('a, 'e) library \<Rightarrow> ('a, 'e) library" where
  "Environment_Uninitialize l =
     (case lib_environment l of None \<Rightarrow> l
      | Some e \<Rightarrow> l\<lparr>lib_environment := None, lib_destroyed := lib_destroyed l @ [Inr e]\<rparr>)"

definition InitLibrary_alloc ::
  "(unit \<Rightarrow> status \<times> 'a) \<Rightarrow> ('a, 'e) library \<Rightarrow> status \<times> ('a, 'e) library" where
  "InitLibrary_alloc ca l = Allocator_Initialize ca l"

definition InitLibrary ::
  "(unit \<Rightarrow> status \<times> 'a) \<Rightarrow> (unit \<Rightarrow> status \<times> 'e) \<Rightarrow> ('a, 'e) library \<Rightarrow> status \<times> ('a, 'e) library" where
  "InitLibrary ca ce l =
     (let (s, l) = Allocator_Initialize ca l
      in if \<not> Status_ok s then (s, l) else Environment_Initialize ce l)"

definition UninitLibrary :: "('a, 'e) library \<Rightarrow> ('a, 'e) library" where
  "UninitLibrary l = Allocator_Uninitialize (Environment_Uninitialize l)"

lemma Status_ok_OK [simp]: "Status_ok Status_OK"
  by (simp add: Status_ok_def Status_OK_def)

lemma code_of_msg [simp]:
  "status_code (Corruption m) = kCorruption" "status_code (InvalidArgument m) = kInvalidArgument"
  by (simp_all add: Corruption_def InvalidArgument_def Status_msg_def Let_def)

lemma not_ok_msg [simp]: "\<not> Status_ok (Corruption m)" "\<not> Status_ok (InvalidArgument m)"
  by (simp_all add: Status_ok_def)

section \<open>The registry of thread-local variables\<close>

text \<open>The two thread-local variables the library registers: the epoch table entry of
  \<open>MinEpochTable::GetEntryForThread\<close> and the partition of \<open>DescriptorPool::AllocateDescriptor\<close>. A
  pointer to such a variable is the pair of its thread and the variable; its value is null or points
  to an entry of some epoch table or to a partition of some pool.\<close>

datatype tls_var = EpochEntryTls | PartitionTls

datatype tls_val = Nullptr | EntryPtr nat nat | PartitionPtr nat nat

type_synonym tls_ptr = "u64 \<times> tls_var"

record tls_state =
  tls :: "tls_ptr \<Rightarrow> tls_val"
  tls_registry :: "(u64 \<times> (tls_ptr \<times> tls_val) list) list"

definition RegisterTls :: "u64 \<Rightarrow> tls_ptr \<Rightarrow> tls_val \<Rightarrow> 'x tls_state_scheme \<Rightarrow> 'x tls_state_scheme" where
  "RegisterTls tid ptr val s =
     (let reg = (if map_of (tls_registry s) tid = None then tls_registry s @ [(tid, [])] else tls_registry s)
      in s\<lparr>tls_registry := map (\<lambda>(t, l). (t, if t = tid then l @ [(ptr, val)] else l)) reg\<rparr>)"

text \<open>\<open>*entry.first = entry.second\<close> for every entry of a list.\<close>

definition reset_vars :: "(tls_ptr \<times> tls_val) list \<Rightarrow> (tls_ptr \<Rightarrow> tls_val) \<Rightarrow> tls_ptr \<Rightarrow> tls_val" where
  "reset_vars l v = foldl (\<lambda>v (p, x). v(p := x)) v l"

definition ClearTls :: "u64 \<Rightarrow> bool \<Rightarrow> 'x tls_state_scheme \<Rightarrow> 'x tls_state_scheme" where
  "ClearTls tid destroy s =
     (case map_of (tls_registry s) tid of
        None \<Rightarrow> s
      | Some l \<Rightarrow> s\<lparr>tls := reset_vars l (tls s),
          tls_registry := (if destroy then filter (\<lambda>(t, _). t \<noteq> tid) (tls_registry s)
                       else map (\<lambda>(t, l). (t, if t = tid then [] else l)) (tls_registry s))\<rparr>)"

definition ClearRegistry :: "bool \<Rightarrow> 'x tls_state_scheme \<Rightarrow> 'x tls_state_scheme" where
  "ClearRegistry destroy s =
     s\<lparr>tls := foldl (\<lambda>v (t, l). reset_vars l v) (tls s) (tls_registry s),
       tls_registry := (if destroy then [] else map (\<lambda>(t, l). (t, [])) (tls_registry s))\<rparr>"

text \<open>Invariant: every thread has one list, and every variable that is not null is registered with the
  default null in its own thread's list.\<close>

definition registry_ok :: "'x tls_state_scheme \<Rightarrow> bool" where
  "registry_ok s \<longleftrightarrow> distinct (map fst (tls_registry s)) \<and>
     (\<forall>(t, l) \<in> set (tls_registry s). \<forall>(p, x) \<in> set l. fst p = t \<and> x = Nullptr) \<and>
     (\<forall>p. tls s p \<noteq> Nullptr \<longrightarrow> (\<exists>l. (fst p, l) \<in> set (tls_registry s) \<and> (p, Nullptr) \<in> set l))"

lemma reset_vars_null:
  "(\<forall>(p, x) \<in> set l. x = Nullptr) \<Longrightarrow>
   reset_vars l v p = (if p \<in> fst ` set l then Nullptr else v p)"
  unfolding reset_vars_def
  by (induction l arbitrary: v) (auto simp: case_prod_beta)

lemma foldl_reset_null:
  "(\<forall>(t, l) \<in> set r. \<forall>(p, x) \<in> set l. x = Nullptr) \<Longrightarrow>
   foldl (\<lambda>v (t, l). reset_vars l v) v r p =
     (if \<exists>(t, l) \<in> set r. p \<in> fst ` set l then Nullptr else v p)"
proof (induction r arbitrary: v)
  case (Cons a r)
  obtain t l where a: "a = (t, l)" by force
  have "reset_vars l v p = (if p \<in> fst ` set l then Nullptr else v p)"
    using Cons.prems a by (intro reset_vars_null) auto
  then show ?case using Cons a by auto
qed simp

lemma ClearRegistry_all_null:
  assumes "registry_ok s"
  shows "tls (ClearRegistry d s) p = Nullptr"
proof -
  have "\<forall>(t, l) \<in> set (tls_registry s). \<forall>(p, x) \<in> set l. x = Nullptr"
    using assms unfolding registry_ok_def by fast
  from foldl_reset_null [OF this, of "tls s" p]
  have "tls (ClearRegistry d s) p =
    (if \<exists>(t, l) \<in> set (tls_registry s). p \<in> fst ` set l then Nullptr else tls s p)"
    by (simp add: ClearRegistry_def)
  moreover have "\<exists>(t, l) \<in> set (tls_registry s). p \<in> fst ` set l" if "tls s p \<noteq> Nullptr"
  proof -
    obtain l where l: "(fst p, l) \<in> set (tls_registry s)" "(p, Nullptr) \<in> set l"
      using assms \<open>tls s p \<noteq> Nullptr\<close> unfolding registry_ok_def by meson
    have "p \<in> fst ` set l" using l(2) by (rule image_eqI [rotated]) simp
    then show ?thesis using l(1) by (intro bexI [of _ "(fst p, l)"]) auto
  qed
  ultimately show ?thesis by (cases "tls s p = Nullptr") simp_all
qed

lemma registry_ok_ClearRegistry: "registry_ok s \<Longrightarrow> registry_ok (ClearRegistry d s)"
  unfolding registry_ok_def [of "ClearRegistry d s"]
  using ClearRegistry_all_null [of s d]
  by (auto simp: ClearRegistry_def registry_ok_def comp_def case_prod_beta)

lemma registry_ok_register:
  assumes "registry_ok s"
  shows "registry_ok (RegisterTls tid (tid, var) Nullptr (s\<lparr>tls := (tls s)((tid, var) := x)\<rparr>))"
proof -
  define reg where "reg = (if map_of (tls_registry s) tid = None then tls_registry s @ [(tid, [])] else tls_registry s)"
  have dom: "map_of (tls_registry s) tid = None \<longleftrightarrow> tid \<notin> fst ` set (tls_registry s)"
    by (rule map_of_eq_None_iff)
  let ?add = "\<lambda>(t, l). (t, if t = tid then l @ [((tid, var), Nullptr)] else l)"
  let ?v = "(tls s)((tid, var) := x)"
  have d: "distinct (map fst (map ?add reg))"
  proof -
    have "map fst (map ?add reg) = map fst reg" by (simp add: comp_def case_prod_beta)
    moreover have "distinct (map fst (tls_registry s))" using assms by (simp add: registry_ok_def)
    then have "distinct (map fst reg)" using dom by (simp add: reg_def)
    ultimately show ?thesis by (simp only:)
  qed
  have sub: "set (tls_registry s) \<subseteq> set reg" by (auto simp: reg_def)
  have e: "\<forall>(t, l) \<in> set reg. \<forall>(p, x) \<in> set l. fst p = t \<and> x = Nullptr"
    using assms unfolding registry_ok_def by (simp add: reg_def)
  have e': "\<forall>(t, l) \<in> set (map ?add reg). \<forall>(p, x) \<in> set l. fst p = t \<and> x = Nullptr"
  proof clarsimp
    fix t l p p' y
    assume "(t, l) \<in> set reg" and "((p, p'), y) \<in> set (if t = tid then l @ [((tid, var), Nullptr)] else l)"
    with e show "p = t \<and> y = Nullptr" by (fastforce split: if_splits)
  qed
  have old: "tls s p \<noteq> Nullptr \<Longrightarrow> \<exists>l. (fst p, l) \<in> set reg \<and> (p, Nullptr) \<in> set l" for p
    using assms sub unfolding registry_ok_def by (meson subsetD)
  obtain l0 where l0: "(tid, l0) \<in> set reg" using dom unfolding reg_def by (cases "map_of (tls_registry s) tid") (auto dest: map_of_SomeD)
  have r: "\<exists>l. (fst p, l) \<in> set (map ?add reg) \<and> (p, Nullptr) \<in> set l" if h: "?v p \<noteq> Nullptr" for p
  proof (cases "p = (tid, var)")
    case True
    have "?add (tid, l0) \<in> set (map ?add reg)" using l0 by (simp only: set_map imageI)
    then show ?thesis using True by auto
  next
    case False
    then obtain l where l: "(fst p, l) \<in> set reg" "(p, Nullptr) \<in> set l"
      using old [of p] h by auto
    have "?add (fst p, l) \<in> set (map ?add reg)" using l(1) by (simp only: set_map imageI)
    then show ?thesis using l(2) by (cases "fst p = tid") auto
  qed
  let ?s = "RegisterTls tid (tid, var) Nullptr (s\<lparr>tls := ?v\<rparr>)"
  have "tls_registry ?s = map ?add reg" "tls ?s = ?v"
    by (simp_all add: RegisterTls_def reg_def Let_def)
  then show ?thesis
    unfolding registry_ok_def using d e' r by (simp only:) blast
qed

end
