(* ===== verification/Util.thy ===== *)
theory Util
  imports StatusSlice
begin

text \<open>
  The small utilities of \<open>src/util\<close> and the arithmetic of \<open>environment_linux.cc\<close>: the Murmur3
  finalizers that place threads in the epoch table, the power-of-two test, the atomic
  primitives, the xorshift generator, the clock readings and the thread-to-core maps.
\<close>

section \<open>Hash functions and macros\<close>

definition Murmur3_32 :: "u32 \<Rightarrow> u32" where
  "Murmur3_32 h =
     (let h = h XOR drop_bit 16 h; h = h * 0x85ebca6b;
          h = h XOR drop_bit 13 h; h = h * 0xc2b2ae35
      in h XOR drop_bit 16 h)"

definition Murmur3_64 :: "u64 \<Rightarrow> u64" where
  "Murmur3_64 h =
     (let h = h XOR drop_bit 33 h; h = h * 0xff51afd7ed558ccd;
          h = h XOR drop_bit 33 h; h = h * 0xc4ceb9fe1a85ec53
      in h XOR drop_bit 33 h)"

definition IS_POWER_OF_TWO :: "u64 \<Rightarrow> bool" where
  "IS_POWER_OF_TWO x \<longleftrightarrow> x \<noteq> 0 \<and> x AND (x - 1) = 0"

text \<open>The inverse of the 64-bit finalizer: each xor-shift by 33 undoes itself, and the two odd
  constants have inverses modulo \<open>2 ^ 64\<close>.\<close>

definition Murmur3_64_inv :: "u64 \<Rightarrow> u64" where
  "Murmur3_64_inv h =
     (let h = h XOR drop_bit 33 h; h = h * 0x9cb4b2f8129337db;
          h = h XOR drop_bit 33 h; h = h * 0x4f74430c22a54005
      in h XOR drop_bit 33 h)"

definition Murmur3_32_inv :: "u32 \<Rightarrow> u32" where
  "Murmur3_32_inv h =
     (let h = h XOR drop_bit 16 h; h = h * 0x7ed1b41d;
          h = h XOR drop_bit 13 h XOR drop_bit 26 h; h = h * 0xa5cb9243
      in h XOR drop_bit 16 h)"

lemma xorshift_involution:
  "LENGTH('a) \<le> 2 * k \<Longrightarrow> (x XOR drop_bit k x) XOR drop_bit k (x XOR drop_bit k (x::'a::len word)) = x"
  by (rule bit_word_eqI) (auto simp: bit_simps dest: bit_imp_le_length)

lemma xorshift13_inverse:
  "(x XOR drop_bit 13 x) XOR drop_bit 13 (x XOR drop_bit 13 x) XOR drop_bit 26 (x XOR drop_bit 13 x) = (x::u32)"
  by (rule bit_word_eqI) (auto simp: bit_simps dest: bit_imp_le_length)

lemma Murmur3_64_left_inverse: "Murmur3_64_inv (Murmur3_64 h) = h"
proof -
  have x: "(y XOR drop_bit 33 y) XOR drop_bit 33 (y XOR drop_bit 33 y) = y" for y :: u64
    by (rule xorshift_involution) simp
  have m1: "y * 0xc4ceb9fe1a85ec53 * 0x9cb4b2f8129337db = y" for y :: u64
  proof -
    have "(0xc4ceb9fe1a85ec53 :: u64) * 0x9cb4b2f8129337db = 1" by simp
    then show ?thesis by (simp only: mult.assoc mult_1_right)
  qed
  have m2: "y * 0xff51afd7ed558ccd * 0x4f74430c22a54005 = y" for y :: u64
  proof -
    have "(0xff51afd7ed558ccd :: u64) * 0x4f74430c22a54005 = 1" by simp
    then show ?thesis by (simp only: mult.assoc mult_1_right)
  qed
  show ?thesis by (simp only: Murmur3_64_def Murmur3_64_inv_def Let_def x m1 m2)
qed

lemma Murmur3_32_left_inverse: "Murmur3_32_inv (Murmur3_32 h) = h"
proof -
  have x: "(y XOR drop_bit 16 y) XOR drop_bit 16 (y XOR drop_bit 16 y) = y" for y :: u32
    by (rule xorshift_involution) simp
  have m1: "y * 0xc2b2ae35 * 0x7ed1b41d = y" for y :: u32
  proof -
    have "(0xc2b2ae35 :: u32) * 0x7ed1b41d = 1" by simp
    then show ?thesis by (simp only: mult.assoc mult_1_right)
  qed
  have m2: "y * 0x85ebca6b * 0xa5cb9243 = y" for y :: u32
  proof -
    have "(0x85ebca6b :: u32) * 0xa5cb9243 = 1" by simp
    then show ?thesis by (simp only: mult.assoc mult_1_right)
  qed
  show ?thesis
    by (simp only: Murmur3_32_def Murmur3_32_inv_def Let_def x xorshift13_inverse m1 m2)
qed

text \<open>The power-of-two test, through the lowest bit of a natural number.\<close>

lemma nat_and_pred_even: "0 < m \<Longrightarrow> (2 * m) AND (2 * m - 1) = 2 * (m AND (m - 1 :: nat))"
proof -
  assume "0 < m"
  then have "2 * m - 1 = 1 + 2 * (m - 1)" by simp
  then show ?thesis
    by (subst and_rec) (simp add: \<open>0 < m\<close>)
qed

lemma nat_and_pred_odd: "(2 * m + 1) AND (2 * m) = 2 * (m::nat)"
  by (subst and_rec) simp

lemma nat_pow2_test: "0 < n \<Longrightarrow> n AND (n - 1) = 0 \<longleftrightarrow> (\<exists>k. n = 2 ^ k)" for n :: nat
proof (induction n rule: less_induct)
  case (less n)
  show ?case
  proof (cases "even n")
    case True
    then obtain m where m: "n = 2 * m" by blast
    then have "0 < m" "m < n" using less.prems by auto
    then have "m AND (m - 1) = 0 \<longleftrightarrow> (\<exists>k. m = 2 ^ k)" by (rule less.IH [rotated])
    moreover have "n AND (n - 1) = 0 \<longleftrightarrow> m AND (m - 1) = 0"
      unfolding m by (simp only: nat_and_pred_even [OF \<open>0 < m\<close>]) simp
    ultimately have "n AND (n - 1) = 0 \<longleftrightarrow> (\<exists>k. m = 2 ^ k)" by simp
    also have "\<dots> \<longleftrightarrow> (\<exists>k. n = 2 ^ k)"
    proof
      assume "\<exists>k. m = 2 ^ k"
      then show "\<exists>k. n = 2 ^ k" using m by (metis power_Suc)
    next
      assume "\<exists>k. n = 2 ^ k"
      then obtain k where k: "n = 2 ^ k" ..
      with True have "k \<noteq> 0" by (metis odd_one power_0)
      then show "\<exists>k. m = 2 ^ k" using k m by (cases k) auto
    qed
    finally show ?thesis .
  next
    case False
    then obtain m where m: "n = 2 * m + 1" using oddE by blast
    then have "n AND (n - 1) = 0 \<longleftrightarrow> n = 1"
      by (simp add: nat_and_pred_odd [simplified])
    also have "\<dots> \<longleftrightarrow> (\<exists>k. n = 2 ^ k)"
      using False by (metis even_power dvd_refl power_0 gr0I)
    finally show ?thesis .
  qed
qed

lemma IS_POWER_OF_TWO_iff: "IS_POWER_OF_TWO x \<longleftrightarrow> (\<exists>k < 64. x = 2 ^ k)"
proof (cases "x = 0")
  case False
  then have u: "0 < unat x" "unat (x - 1) = unat x - 1"
    by (auto simp: unat_pred_eq unat_gt_0)
  have "x AND (x - 1) = 0 \<longleftrightarrow> unat x AND (unat x - 1) = 0"
    unfolding u(2) [symmetric] unsigned_and_eq [symmetric] by (simp only: unsigned_eq_0_iff)
  also have "\<dots> \<longleftrightarrow> (\<exists>k. unat x = 2 ^ k)" by (rule nat_pow2_test [OF u(1)])
  also have "\<dots> \<longleftrightarrow> (\<exists>k < 64. x = 2 ^ k)"
  proof
    assume "\<exists>k. unat x = 2 ^ k"
    then obtain k where k: "unat x = 2 ^ k" ..
    have "unat x < 2 ^ 64" using unsigned_less [of x] by simp
    then have "(2::nat) ^ k < 2 ^ 64" using k by simp
    then have k64: "k < 64" by (metis nat_power_less_imp_less numeral_2_eq_2 zero_less_Suc)
    have "unat x = unat (2 ^ k :: u64)" using k k64 by (simp add: unat_pow2)
    then show "\<exists>k < 64. x = 2 ^ k" using k64 by (auto dest: unsigned_word_eqI)
  next
    assume "\<exists>k < 64. x = 2 ^ k"
    then show "\<exists>k. unat x = 2 ^ k" by (auto simp: unat_pow2)
  qed
  finally show ?thesis using False by (simp add: IS_POWER_OF_TWO_def)
next
  case True
  then show ?thesis by (auto simp: IS_POWER_OF_TWO_def)
qed

lemma IS_POWER_OF_TWO_E:
  assumes "IS_POWER_OF_TWO x" obtains k where "k < 64" "x = 2 ^ k"
  using assms by (auto simp: IS_POWER_OF_TWO_iff)

section \<open>Random numbers\<close>

text \<open>\<open>RandomNumberGenerator\<close>: a xorshift generator over four 32-bit words. The seed 0 asks the
  operating system (\<open>std::random_device\<close>) for a value, which is a parameter here.\<close>

record rng =
  rng_max :: u32
  rng_x :: u32
  rng_y :: u32
  rng_z :: u32
  rng_w :: u32

definition RandomNumberGenerator :: "u32 \<Rightarrow> u32 \<Rightarrow> u32 \<Rightarrow> u32 \<Rightarrow> rng" where
  "RandomNumberGenerator rd seed mn mx =
     \<lparr>rng_max = mx, rng_x = (if seed = 0 then rd AND 0x0FFFFFFF else seed),
      rng_y = 362436069, rng_z = 521288629, rng_w = 88675123\<rparr>"

definition rng_step :: "rng \<Rightarrow> rng" where
  "rng_step g =
     (let t = rng_x g XOR push_bit 11 (rng_x g)
      in g\<lparr>rng_x := rng_y g, rng_y := rng_z g, rng_z := rng_w g,
           rng_w := (rng_w g XOR drop_bit 19 (rng_w g)) XOR (t XOR drop_bit 8 t)\<rparr>)"

definition Generate :: "rng \<Rightarrow> u32 \<times> rng" where
  "Generate g = (let g' = rng_step g; result = rng_w g'
     in (if rng_max g > 0 then result mod rng_max g else result, g'))"

text \<open>\<open>Generate(max)\<close> divides by \<open>max\<close>.\<close>

definition Generate_max :: "rng \<Rightarrow> u32 \<Rightarrow> (u32 \<times> rng) res" where
  "Generate_max g m = rbind (guard (m \<noteq> 0) (BadAccess ''modulo by zero''))
     (\<lambda>_. let (r, g') = Generate g in Inr (r mod m, g'))"

text \<open>\<open>ScrambledZipfRandomNumberGenerator::FnvHash64\<close>: eight rounds over the octets of the value;
  the \<open>int64_t\<close> accumulator is the same 64-bit word, and \<open>std::abs\<close> works on its signed value.\<close>

fun fnv_rounds :: "nat \<Rightarrow> u64 \<Rightarrow> u64 \<Rightarrow> u64" where
  "fnv_rounds 0 val hashval = hashval"
| "fnv_rounds (Suc n) val hashval =
     fnv_rounds n (drop_bit 8 val) ((hashval XOR (val AND 0xff)) * 1099511628211)"

definition FnvHash64 :: "u64 \<Rightarrow> u64" where
  "FnvHash64 val = word_of_int \<bar>sint (fnv_rounds 8 val 0xCBF29CE484222325)\<bar>"

lemma Generate_below_max: "0 < rng_max g \<Longrightarrow> fst (Generate g) < rng_max g"
  by (simp add: Generate_def Let_def word_less_nat_alt unat_mod word_gt_0_no unat_gt_0)

lemma rng_max_Generate: "rng_max (snd (Generate g)) = rng_max g"
  by (simp add: Generate_def rng_step_def Let_def)

section \<open>Clock and thread affinity on Linux\<close>

text \<open>\<open>LinuxEnvironment::NowMicros\<close> and \<open>NowNanos\<close>, of the \<open>timespec\<close> that \<open>clock_gettime\<close>
  returns (seconds, nanoseconds).\<close>

definition NowMicros :: "u64 \<times> u64 \<Rightarrow> u64" where
  "NowMicros ts = (let ns = fst ts * 1000000000 + snd ts
     in ns div 1000 + (if ns mod 1000 \<ge> 500 then 1 else 0))"

definition NowNanos :: "u64 \<times> u64 \<Rightarrow> u64" where
  "NowNanos ts = (let ns = fst ts * 1000000000 + snd ts
     in ns div 1000 + (if ns mod 1000 \<ge> 500 then 1 else 0))"

text \<open>The core a thread is pinned to (\<open>SetThreadAffinity\<close>), for the machine's core count. Pattern
  3 is \<open>BalanceNumaNodes\<close>; 4 and 5 are the unnamed patterns of the code. The table of pattern 4 has
  a label \<open>defautl:\<close>, so a core outside the table is left as it is. Cores are small numbers: the
  arithmetic is on \<open>nat\<close>, where none of the subtractions below can be negative.\<close>

definition crossfire_table :: "nat list" where
  "crossfire_table = [0, 4, 8, 12, 16, 20, 1, 5, 9, 13, 17, 21, 2, 6, 10, 14, 18, 22, 3, 7, 11, 15, 19, 23]"

definition affinity_core :: "nat \<Rightarrow> nat \<Rightarrow> nat \<Rightarrow> nat res" where
  "affinity_core core_count pattern core =
     (if pattern = 3 then
        let numa_node_count = 4
        in rbind (guard (core_count mod numa_node_count = 0) (DCheck ''Unexpected system configuration!'')) (\<lambda>_.
           let logical_core_count = core_count div numa_node_count
           in rbind (guard (logical_core_count mod 2 = 0) (DCheck ''Unexpected system configuration!'')) (\<lambda>_.
              let physical_core_count = logical_core_count div 2;
                  numa_node = core mod numa_node_count;
                  numa_core = core div numa_node_count;
                  numa_core = (if numa_core < physical_core_count then numa_core * 2
                               else (numa_core - physical_core_count) * 2 + 1)
              in Inr (numa_node * logical_core_count + numa_core)))
      else if pattern = 4 then
        Inr (if core < 24 then crossfire_table ! core else core)
      else if pattern = 5 then
        let orig_core = core;
            core = (if core \<ge> 32 then core - 32 else core);
            nodes = 4; cores_per_node = 8;
            pcore = (core mod nodes) * cores_per_node + core div nodes
        in Inr (if orig_core \<ge> 32 then pcore + 32 else pcore)
      else Inr core)"

text \<open>On a machine whose core count is a multiple of 8, pattern 3 sends distinct cores to distinct
  cores.\<close>

lemma div_mod_unique: "a * n + b = c * n + d \<Longrightarrow> b < n \<Longrightarrow> d < n \<Longrightarrow> a = c \<and> b = (d::nat)"
  by (metis add.commute div_mult_self1 div_less mult.commute add_right_cancel
      add_cancel_left_left less_nat_zero_code mod_mult_self1 mod_less)

definition numa_slot :: "nat \<Rightarrow> nat \<Rightarrow> nat" where
  "numa_slot p c = (if c < p then c * 2 else (c - p) * 2 + 1)"

lemma numa_slot_bound: "c < 2 * p \<Longrightarrow> numa_slot p c < 2 * p"
  by (auto simp: numa_slot_def)

lemma numa_slot_inj: "numa_slot p c = numa_slot p d \<Longrightarrow> c = d"
  unfolding numa_slot_def by (auto split: if_splits) presburger+

lemma affinity_balance_eq:
  "affinity_core (8 * p) 3 core = Inr ((core mod 4) * (2 * p) + numa_slot p (core div 4))"
proof -
  have "(8 * p) div 4 = 2 * p" "(8 * p) mod 4 = 0" by simp_all
  then show ?thesis by (simp add: affinity_core_def numa_slot_def Let_def)
qed

lemma affinity_balance_bound:
  "core < 8 * p \<Longrightarrow> affinity_core (8 * p) 3 core = Inr r \<Longrightarrow> r < 8 * p"
proof -
  assume a: "core < 8 * p" and r: "affinity_core (8 * p) 3 core = Inr r"
  have s: "numa_slot p (core div 4) < 2 * p" using a by (intro numa_slot_bound) auto
  have "core mod 4 \<le> 3" by simp
  then have "(core mod 4) * (2 * p) \<le> 3 * (2 * p)" by (rule mult_le_mono1)
  moreover have "(core mod 4) * (2 * p) + numa_slot p (core div 4) = r"
    using r by (simp only: affinity_balance_eq) simp
  ultimately show ?thesis using s by linarith
qed

lemma affinity_balance_inj:
  assumes "a < 8 * p" "b < 8 * p"
    and "affinity_core (8 * p) 3 a = affinity_core (8 * p) 3 b"
  shows "a = b"
proof -
  have "numa_slot p (a div 4) < 2 * p" "numa_slot p (b div 4) < 2 * p"
    using assms by (auto intro!: numa_slot_bound)
  moreover have "(a mod 4) * (2 * p) + numa_slot p (a div 4) = (b mod 4) * (2 * p) + numa_slot p (b div 4)"
    using assms(3) by (simp add: affinity_balance_eq)
  ultimately have "a mod 4 = b mod 4" "numa_slot p (a div 4) = numa_slot p (b div 4)"
    using div_mod_unique by blast+
  then have "a mod 4 = b mod 4" "a div 4 = b div 4" by (auto dest: numa_slot_inj)
  then show "a = b" by (metis div_mult_mod_eq)
qed

end
