(* ===== verification/Epoch.thy ===== *)
theory Epoch
  imports Interfaces Library Util
begin

text \<open>
  \<open>EpochManager\<close> and its \<open>MinEpochTable\<close> (\<open>common/epoch.h\<close>, \<open>common/epoch.cc\<close>).

  Each manager keeps the current epoch, the epoch that is safe to reclaim and a table with one entry
  per thread. The thread's entry is found through a thread-local variable of the function
  \<open>GetEntryForThread\<close>: there is one such variable per thread, not one per manager, so the model keeps
  all managers of the process in one state and the variable names the manager whose table was
  asked first. Epochs are 64-bit words. The operations here run one at a time; the theory
  \<open>EpochInterleaving\<close> splits them into their atomic accesses.
\<close>

type_synonym epoch = u64

record entry =
  protected_epoch :: epoch
  last_unprotected_epoch :: epoch
  entry_thread_id :: u64

record min_epoch_table =
  table :: "entry list option"
  table_size :: u64

record epoch_manager =
  current_epoch :: epoch
  safe_to_reclaim_epoch :: epoch
  epoch_table :: "min_epoch_table option"

record epoch_world = tls_state +
  managers :: "nat \<Rightarrow> epoch_manager"

section \<open>MinEpochTable\<close>

definition empty_entry :: entry where
  "empty_entry = \<lparr>protected_epoch = 0, last_unprotected_epoch = 0, entry_thread_id = 0\<rparr>"

definition new_table :: min_epoch_table where
  "new_table = \<lparr>table = None, table_size = 0\<rparr>"

definition kDefaultSize :: u64 where
  "kDefaultSize = 128"

text \<open>\<open>mem_ok\<close>: whether the aligned allocation of the entries returns memory.\<close>

definition MinEpochTable_Initialize :: "bool \<Rightarrow> u64 \<Rightarrow> min_epoch_table \<Rightarrow> status \<times> min_epoch_table" where
  "MinEpochTable_Initialize mem_ok sz t =
     (if table t \<noteq> None then (Status_OK, t)
      else if \<not> IS_POWER_OF_TWO sz then (InvalidArgument ''size not a power of two'', t)
      else if \<not> mem_ok then (Corruption ''Out of memory'', t)
      else (Status_OK, t\<lparr>table := Some (replicate (unat sz) empty_entry), table_size := sz\<rparr>))"

definition MinEpochTable_Uninitialize :: "min_epoch_table \<Rightarrow> status \<times> min_epoch_table" where
  "MinEpochTable_Uninitialize t =
     (if table t = None then (Status_OK, t)
      else (Status_OK, t\<lparr>table_size := 0, table := None\<rparr>))"

text \<open>The loop of \<open>ComputeNewSafeToReclaimEpoch\<close> over the entries.\<close>

fun oldest_call :: "epoch \<Rightarrow> entry list \<Rightarrow> epoch" where
  "oldest_call oldest [] = oldest"
| "oldest_call oldest (e # es) =
     oldest_call (if protected_epoch e \<noteq> 0 \<and> protected_epoch e < oldest then protected_epoch e else oldest) es"

definition table_safe_epoch :: "epoch \<Rightarrow> entry list \<Rightarrow> epoch" where
  "table_safe_epoch current es = oldest_call current es - 1"

text \<open>One pass of \<open>ReserveEntry\<close>: probe the table from the start index for an entry that no thread
  holds. When the pass finds none the code calls \<open>ReclaimOldEntries\<close>, which does nothing, and
  starts again.\<close>

fun probe :: "entry list \<Rightarrow> u64 \<Rightarrow> u64 \<Rightarrow> nat \<Rightarrow> nat \<Rightarrow> nat option" where
  "probe es sz start i 0 = None"
| "probe es sz start i (Suc n) =
     (let idx = unat ((start + word_of_nat i) AND (sz - 1))
      in if entry_thread_id (es ! idx) = 0 then Some idx else probe es sz start (Suc i) n)"

definition ReserveEntry :: "u64 \<Rightarrow> u64 \<Rightarrow> min_epoch_table \<Rightarrow> (nat \<times> min_epoch_table) res" where
  "ReserveEntry start tid t =
     (case table t of
        None \<Rightarrow> Inl (BadAccess ''null table'')
      | Some es \<Rightarrow>
         (case probe es (table_size t) start 0 (unat (table_size t)) of
            None \<Rightarrow> Inl Spins
          | Some idx \<Rightarrow> Inr (idx, t\<lparr>table := Some (es[idx := (es ! idx)\<lparr>entry_thread_id := tid\<rparr>])\<rparr>)))"

definition ReserveEntryForThread :: "u64 \<Rightarrow> min_epoch_table \<Rightarrow> (nat \<times> min_epoch_table) res" where
  "ReserveEntryForThread tid t = ReserveEntry (Murmur3_64 tid) tid t"

section \<open>Access to the managers and the thread's entry\<close>

definition set_mgr :: "nat \<Rightarrow> epoch_manager \<Rightarrow> epoch_world \<Rightarrow> epoch_world" where
  "set_mgr m em w = w\<lparr>managers := (managers w)(m := em)\<rparr>"

definition the_table :: "nat \<Rightarrow> epoch_world \<Rightarrow> min_epoch_table res" where
  "the_table m w = (case epoch_table (managers w m) of None \<Rightarrow> Inl (BadAccess ''null epoch_table_'')
                    | Some t \<Rightarrow> Inr t)"

definition get_entry :: "nat \<Rightarrow> nat \<Rightarrow> epoch_world \<Rightarrow> entry res" where
  "get_entry m i w = rbind (the_table m w) (\<lambda>t.
     case table t of None \<Rightarrow> Inl (BadAccess ''dangling entry'')
     | Some es \<Rightarrow> if i < length es then Inr (es ! i) else Inl (BadAccess ''dangling entry''))"

definition put_entry :: "nat \<Rightarrow> nat \<Rightarrow> entry \<Rightarrow> epoch_world \<Rightarrow> epoch_world" where
  "put_entry m i e w =
     set_mgr m ((managers w m)\<lparr>epoch_table :=
       map_option (\<lambda>t. t\<lparr>table := map_option (\<lambda>es. es[i := e]) (table t)\<rparr>) (epoch_table (managers w m))\<rparr>) w"

definition GetEntryForThread :: "nat \<Rightarrow> u64 \<Rightarrow> epoch_world \<Rightarrow> ((nat \<times> nat) \<times> epoch_world) res" where
  "GetEntryForThread m tid w =
     (case tls w (tid, EpochEntryTls) of
        EntryPtr m' i \<Rightarrow> Inr ((m', i), w)
      | _ \<Rightarrow> rbind (the_table m w) (\<lambda>t.
          rbind (ReserveEntryForThread tid t) (\<lambda>(i, t').
            let w1 = set_mgr m ((managers w m)\<lparr>epoch_table := Some t'\<rparr>) w;
                w2 = w1\<lparr>tls := (tls w1)((tid, EpochEntryTls) := EntryPtr m i)\<rparr>
            in Inr ((m, i), RegisterTls tid (tid, EpochEntryTls) Nullptr w2))))"

section \<open>EpochManager\<close>

definition new_manager :: epoch_manager where
  "new_manager = \<lparr>current_epoch = 1, safe_to_reclaim_epoch = 0, epoch_table = None\<rparr>"

definition Initialize :: "bool \<Rightarrow> nat \<Rightarrow> epoch_world \<Rightarrow> status \<times> epoch_world" where
  "Initialize mem_ok m w =
     (if epoch_table (managers w m) \<noteq> None then (Status_OK, w)
      else let (s, t) = MinEpochTable_Initialize mem_ok kDefaultSize new_table
           in if \<not> Status_ok s then (s, w)
              else (Status_OK, set_mgr m ((managers w m)\<lparr>current_epoch := 1,
                      safe_to_reclaim_epoch := 0, epoch_table := Some t\<rparr>) w))"

definition Uninitialize :: "nat \<Rightarrow> epoch_world \<Rightarrow> status \<times> epoch_world" where
  "Uninitialize m w =
     (case epoch_table (managers w m) of
        None \<Rightarrow> (Status_OK, w)
      | Some t \<Rightarrow> (fst (MinEpochTable_Uninitialize t),
          set_mgr m ((managers w m)\<lparr>epoch_table := None, current_epoch := 1, safe_to_reclaim_epoch := 0\<rparr>) w))"

definition Protect :: "nat \<Rightarrow> u64 \<Rightarrow> epoch_world \<Rightarrow> epoch_world res" where
  "Protect m tid w =
     rbind (GetEntryForThread m tid w) (\<lambda>((m', i), w1).
       rbind (get_entry m' i w1) (\<lambda>e.
         Inr (put_entry m' i (e\<lparr>last_unprotected_epoch := 0, protected_epoch := current_epoch (managers w m)\<rparr>) w1)))"

definition Unprotect :: "nat \<Rightarrow> u64 \<Rightarrow> epoch_world \<Rightarrow> epoch_world res" where
  "Unprotect m tid w =
     rbind (GetEntryForThread m tid w) (\<lambda>((m', i), w1).
       rbind (get_entry m' i w1) (\<lambda>e.
         rbind (guard (entry_thread_id e = tid) (DCheck ''entry->thread_id == GetThreadId()'')) (\<lambda>_.
           Inr (put_entry m' i (e\<lparr>last_unprotected_epoch := current_epoch (managers w m), protected_epoch := 0\<rparr>) w1))))"

definition IsProtected :: "nat \<Rightarrow> u64 \<Rightarrow> epoch_world \<Rightarrow> (bool \<times> epoch_world) res" where
  "IsProtected m tid w =
     rbind (GetEntryForThread m tid w) (\<lambda>((m', i), w1).
       rbind (get_entry m' i w1) (\<lambda>e. Inr (protected_epoch e \<noteq> 0, w1)))"

definition GetCurrentEpoch :: "nat \<Rightarrow> epoch_world \<Rightarrow> epoch" where
  "GetCurrentEpoch m w = current_epoch (managers w m)"

definition IsSafeToReclaim :: "nat \<Rightarrow> epoch \<Rightarrow> epoch_world \<Rightarrow> bool" where
  "IsSafeToReclaim m e w \<longleftrightarrow> e \<le> safe_to_reclaim_epoch (managers w m)"

definition ComputeNewSafeToReclaimEpoch :: "nat \<Rightarrow> epoch \<Rightarrow> epoch_world \<Rightarrow> epoch_world res" where
  "ComputeNewSafeToReclaimEpoch m current w =
     rbind (the_table m w) (\<lambda>t.
       Inr (set_mgr m ((managers w m)\<lparr>safe_to_reclaim_epoch :=
              table_safe_epoch current (case table t of None \<Rightarrow> [] | Some es \<Rightarrow> es)\<rparr>) w))"

definition BumpCurrentEpoch :: "nat \<Rightarrow> epoch_world \<Rightarrow> epoch_world res" where
  "BumpCurrentEpoch m w =
     (let newEpoch = current_epoch (managers w m);
          w1 = set_mgr m ((managers w m)\<lparr>current_epoch := newEpoch + 1\<rparr>) w
      in ComputeNewSafeToReclaimEpoch m newEpoch w1)"

text \<open>\<open>EpochGuard\<close>: protect on construction (unless attaching), unprotect on destruction.\<close>

record epoch_guard =
  guard_manager :: "nat option"
  unprotect_at_exit :: bool

definition EpochGuard :: "nat \<Rightarrow> bool \<Rightarrow> u64 \<Rightarrow> epoch_world \<Rightarrow> (epoch_guard \<times> epoch_world) res" where
  "EpochGuard m protect tid w =
     (if protect then rbind (Protect m tid w) (\<lambda>w1. Inr (\<lparr>guard_manager = Some m, unprotect_at_exit = True\<rparr>, w1))
      else Inr (\<lparr>guard_manager = Some m, unprotect_at_exit = False\<rparr>, w))"

definition EpochGuard_destroy :: "epoch_guard \<Rightarrow> u64 \<Rightarrow> epoch_world \<Rightarrow> epoch_world res" where
  "EpochGuard_destroy g tid w =
     (case guard_manager g of
        Some m \<Rightarrow> if unprotect_at_exit g then Unprotect m tid w else Inr w
      | None \<Rightarrow> Inr w)"

definition EpochGuard_Release :: "epoch_guard \<Rightarrow> nat option \<times> epoch_guard" where
  "EpochGuard_Release g = (guard_manager g, g\<lparr>guard_manager := None\<rparr>)"

section \<open>The table scan\<close>

text \<open>The scan computes a minimum, so one less than it is below every protected epoch.\<close>

lemma oldest_call_le: "oldest_call c es \<le> c"
  by (induction es arbitrary: c) (auto intro: order_trans dest: less_imp_le)

lemma oldest_call_le_protected:
  "e \<in> set es \<Longrightarrow> protected_epoch e \<noteq> 0 \<Longrightarrow> oldest_call c es \<le> protected_epoch e"
proof (induction es arbitrary: c)
  case (Cons a es)
  show ?case
  proof (cases "e = a")
    case True
    then show ?thesis
      using Cons.prems oldest_call_le [of "if protected_epoch a < c then protected_epoch a else c" es]
      by (auto split: if_splits intro: order_trans)
  qed (use Cons in auto)
qed simp

lemma oldest_call_cases:
  "oldest_call c es = c \<or> (\<exists>e \<in> set es. protected_epoch e \<noteq> 0 \<and> oldest_call c es = protected_epoch e)"
proof (induction es arbitrary: c)
  case (Cons a es)
  from Cons.IH [of "if protected_epoch a \<noteq> 0 \<and> protected_epoch a < c then protected_epoch a else c"]
  show ?case by (auto split: if_splits)
qed simp

lemma word_pred_less: "(x::'a::len word) \<noteq> 0 \<Longrightarrow> x - 1 < x"
  by (simp add: word_less_nat_alt unat_pred_eq unat_gt_0)

lemma word_le_pred_iff: "(x::'a::len word) \<noteq> 0 \<Longrightarrow> y \<le> x - 1 \<longleftrightarrow> y < x"
  using unat_gt_0 [of x] by (simp add: word_less_nat_alt word_le_nat_alt unat_pred_eq) linarith

lemma oldest_call_nonzero: "c \<noteq> 0 \<Longrightarrow> oldest_call c es \<noteq> 0"
  using oldest_call_cases [of c es] by auto

text \<open>What the safe epoch means: an epoch is safe exactly when it is before the current epoch and before
  every protected epoch.\<close>

lemma le_table_safe_epoch_iff:
  assumes "c \<noteq> 0"
  shows "x \<le> table_safe_epoch c es \<longleftrightarrow>
    x < c \<and> (\<forall>e \<in> set es. protected_epoch e \<noteq> 0 \<longrightarrow> x < protected_epoch e)"
proof -
  have "x \<le> table_safe_epoch c es \<longleftrightarrow> x < oldest_call c es"
    using word_le_pred_iff [OF oldest_call_nonzero [OF assms]] by (simp add: table_safe_epoch_def)
  also have "\<dots> \<longleftrightarrow> x < c \<and> (\<forall>e \<in> set es. protected_epoch e \<noteq> 0 \<longrightarrow> x < protected_epoch e)"
  proof
    assume x: "x < oldest_call c es"
    show "x < c \<and> (\<forall>e \<in> set es. protected_epoch e \<noteq> 0 \<longrightarrow> x < protected_epoch e)"
      using order.strict_trans2 [OF x oldest_call_le] order.strict_trans2 [OF x oldest_call_le_protected]
      by blast
  qed (use oldest_call_cases [of c es] in fastforce)
  finally show ?thesis .
qed

section \<open>Reservation of an entry\<close>

definition wf_table :: "min_epoch_table \<Rightarrow> bool" where
  "wf_table t \<longleftrightarrow> (\<exists>es k. table t = Some es \<and> k < 64 \<and> table_size t = 2 ^ k \<and> length es = 2 ^ k)"

lemma probe_sound:
  "probe es sz start i n = Some idx \<Longrightarrow>
     entry_thread_id (es ! idx) = 0 \<and> (\<exists>j. idx = unat ((start + word_of_nat j) AND (sz - 1)))"
  by (induction n arbitrary: i) (auto simp: Let_def split: if_splits)

lemma probe_complete:
  "probe es sz start i n = None \<Longrightarrow> i \<le> j \<Longrightarrow> j < i + n \<Longrightarrow>
     entry_thread_id (es ! unat ((start + word_of_nat j) AND (sz - 1))) \<noteq> 0"
proof (induction n arbitrary: i)
  case (Suc n)
  then show ?case by (cases "i = j") (auto simp: Let_def split: if_splits)
qed simp

text \<open>The probe sequence visits every entry of the table.\<close>

lemma probe_onto:
  assumes "k < 64" and "idx < (2::nat) ^ k"
  shows "\<exists>j < 2 ^ k. unat (((start::u64) + word_of_nat j) AND (2 ^ k - 1)) = idx"
proof -
  let ?n = "(2::nat) ^ k"
  define s where "s = unat start"
  have s: "s < 2 ^ 64" using unsigned_less [of start] by (simp add: s_def)
  have dvd: "?n dvd 2 ^ 64" using assms(1) by (intro le_imp_power_dvd) simp
  define j where "j = (idx + (?n - s mod ?n)) mod ?n"
  have j: "j < ?n" by (simp add: j_def)
  have "(s + j) mod ?n = (s mod ?n + (idx + (?n - s mod ?n))) mod ?n"
    by (simp only: j_def mod_add_eq mod_add_right_eq mod_add_left_eq)
  also have "s mod ?n + (idx + (?n - s mod ?n)) = idx + ?n"
  proof -
    define r where "r = s mod ?n"
    have "r < ?n" by (simp add: r_def)
    then show ?thesis unfolding r_def [symmetric] by linarith
  qed
  finally have m: "(s + j) mod ?n = idx" using assms(2) by simp
  have "unat (start + word_of_nat j) = (s + j) mod 2 ^ 64"
    by (simp add: unat_word_ariths s_def unat_of_nat mod_add_right_eq)
  then have "unat ((start + word_of_nat j) AND (2 ^ k - 1)) = (s + j) mod 2 ^ 64 mod ?n"
    using and_mask_eq_mod [where x = "start + word_of_nat j" and k = k] assms(1) by simp
  also have "\<dots> = idx" using m dvd by (simp only: mod_mod_cancel)
  finally show ?thesis using j by blast
qed

lemma ReserveEntry_cases:
  assumes "wf_table t" and es: "table t = Some es"
  shows "if \<forall>e \<in> set es. entry_thread_id e \<noteq> 0 then ReserveEntry start tid t = Inl Spins
    else \<exists>i < length es. entry_thread_id (es ! i) = 0 \<and>
      ReserveEntry start tid t = Inr (i, t\<lparr>table := Some (es[i := (es ! i)\<lparr>entry_thread_id := tid\<rparr>])\<rparr>)"
proof -
  obtain k where k: "k < 64" "table_size t = 2 ^ k" "length es = 2 ^ k"
    using assms by (auto simp: wf_table_def)
  have sz: "unat (table_size t) = 2 ^ k" using k by (simp add: unat_pow2)
  show ?thesis
  proof (cases "probe es (table_size t) start 0 (unat (table_size t))")
    case None
    have "entry_thread_id (es ! i) \<noteq> 0" if i: "i < length es" for i
      using probe_onto [OF k(1), of i start] probe_complete [OF None] i k sz by auto
    then show ?thesis
      using None es by (simp add: ReserveEntry_def all_set_conv_all_nth)
  next
    case (Some i)
    from probe_sound [OF Some] have z: "entry_thread_id (es ! i) = 0" and "i < 2 ^ k"
      using and_mask_less [where 'a = 64, of k] k by auto
    then have "i < length es" using k by simp
    then show ?thesis using Some z es by (auto simp: ReserveEntry_def)
  qed
qed

section \<open>The manager's invariant\<close>

definition entries :: "nat \<Rightarrow> epoch_world \<Rightarrow> entry list" where
  "entries m w = (case epoch_table (managers w m) of None \<Rightarrow> []
     | Some t \<Rightarrow> (case table t of None \<Rightarrow> [] | Some es \<Rightarrow> es))"

text \<open>The manager is initialized, the safe epoch is before the current epoch and before every protected
  epoch, no protected epoch is in the future, and the threads' cached entries are entries of this
  manager's table that carry the thread's id.\<close>

definition mgr_inv :: "nat \<Rightarrow> epoch_world \<Rightarrow> bool" where
  "mgr_inv m w \<longleftrightarrow>
     (\<exists>t. epoch_table (managers w m) = Some t \<and> wf_table t) \<and>
     safe_to_reclaim_epoch (managers w m) < current_epoch (managers w m) \<and>
     (\<forall>e \<in> set (entries m w). protected_epoch e \<noteq> 0 \<longrightarrow>
        safe_to_reclaim_epoch (managers w m) < protected_epoch e \<and>
        protected_epoch e \<le> current_epoch (managers w m)) \<and>
     (\<forall>tid m' i. tls w (tid, EpochEntryTls) = EntryPtr m' i \<longrightarrow>
        m' = m \<and> i < length (entries m w) \<and> entry_thread_id (entries m w ! i) = tid \<and> tid \<noteq> 0)"

definition has_room :: "nat \<Rightarrow> u64 \<Rightarrow> epoch_world \<Rightarrow> bool" where
  "has_room m tid w \<longleftrightarrow> (\<exists>m' i. tls w (tid, EpochEntryTls) = EntryPtr m' i) \<or>
     (\<exists>e \<in> set (entries m w). entry_thread_id e = 0)"

lemma entries_set_mgr:
  "entries m (set_mgr m' em w) =
     (if m = m' then (case epoch_table em of None \<Rightarrow> [] | Some t \<Rightarrow> (case table t of None \<Rightarrow> [] | Some es \<Rightarrow> es))
      else entries m w)"
  by (simp add: entries_def set_mgr_def)

lemma set_mgr_simps [simp]:
  "managers (set_mgr m em w) = (managers w)(m := em)" "tls (set_mgr m em w) = tls w"
  "tls_registry (set_mgr m em w) = tls_registry w"
  by (simp_all add: set_mgr_def)

lemma RegisterTls_simps [simp]:
  "managers (RegisterTls tid p v w) = managers w" "tls (RegisterTls tid p v w) = tls w"
  "entries m (RegisterTls tid p v w) = entries m w"
  by (simp_all add: RegisterTls_def Let_def entries_def)

lemma put_entry_simps [simp]:
  "tls (put_entry m i e w) = tls w"
  "current_epoch (managers (put_entry m i e w) m') = current_epoch (managers w m')"
  "safe_to_reclaim_epoch (managers (put_entry m i e w) m') = safe_to_reclaim_epoch (managers w m')"
  "entries m (put_entry m i e w) = (entries m w)[i := e]"
  by (auto simp: put_entry_def entries_set_mgr entries_def split: option.splits)

lemma mgr_invI:
  assumes "epoch_table (managers w m) = Some t" and "wf_table t"
    and "safe_to_reclaim_epoch (managers w m) < current_epoch (managers w m)"
    and "\<And>e. e \<in> set (entries m w) \<Longrightarrow> protected_epoch e \<noteq> 0 \<Longrightarrow>
        safe_to_reclaim_epoch (managers w m) < protected_epoch e \<and>
        protected_epoch e \<le> current_epoch (managers w m)"
    and "\<And>tid m' i. tls w (tid, EpochEntryTls) = EntryPtr m' i \<Longrightarrow>
        m' = m \<and> i < length (entries m w) \<and> entry_thread_id (entries m w ! i) = tid \<and> tid \<noteq> 0"
  shows "mgr_inv m w"
  unfolding mgr_inv_def using assms by metis

lemma mgr_inv_epochs:
  assumes "mgr_inv m w"
  shows "safe_to_reclaim_epoch (managers w m) < current_epoch (managers w m)"
    and "e \<in> set (entries m w) \<Longrightarrow> protected_epoch e \<noteq> 0 \<Longrightarrow>
      safe_to_reclaim_epoch (managers w m) < protected_epoch e \<and>
      protected_epoch e \<le> current_epoch (managers w m)"
    and "tls w (tid, EpochEntryTls) = EntryPtr m' i \<Longrightarrow>
      m' = m \<and> i < length (entries m w) \<and> entry_thread_id (entries m w ! i) = tid \<and> tid \<noteq> 0"
  using assms unfolding mgr_inv_def by metis+

lemma mgr_invD:
  assumes "mgr_inv m w"
  obtains t k where "epoch_table (managers w m) = Some t" "table t = Some (entries m w)"
    "wf_table t" "k < 64" "length (entries m w) = 2 ^ k"
  using assms by (auto simp: mgr_inv_def wf_table_def entries_def)

lemma get_entry_entries:
  assumes "mgr_inv m w" and "i < length (entries m w)"
  shows "get_entry m i w = Inr (entries m w ! i)"
proof -
  obtain t where "epoch_table (managers w m) = Some t" "table t = Some (entries m w)"
    using mgr_invD [OF assms(1)] by metis
  then show ?thesis using assms(2) by (simp add: get_entry_def the_table_def)
qed

lemma put_entry_table:
  assumes "mgr_inv m w"
  shows "\<exists>t. epoch_table (managers (put_entry m i e w) m) = Some t \<and> wf_table t"
  using assms by (force simp: mgr_inv_def put_entry_def wf_table_def)

text \<open>Storing an entry with the same thread id and a protected epoch that is zero or the current one
  keeps the invariant.\<close>

lemma mgr_inv_put_entry:
  assumes inv: "mgr_inv m w" and i: "i < length (entries m w)"
    and "entry_thread_id e = entry_thread_id (entries m w ! i)"
    and p: "protected_epoch e = 0 \<or> protected_epoch e = current_epoch (managers w m)"
  shows "mgr_inv m (put_entry m i e w)"
proof -
  let ?w = "put_entry m i e w"
  obtain t where t: "epoch_table (managers ?w m) = Some t" "wf_table t"
    using put_entry_table [OF inv] by metis
  show ?thesis
  proof (rule mgr_invI [OF t])
    show "safe_to_reclaim_epoch (managers ?w m) < current_epoch (managers ?w m)"
      using mgr_inv_epochs(1) [OF inv] by simp
  next
    fix x assume x: "x \<in> set (entries m ?w)" and n: "protected_epoch x \<noteq> 0"
    have "x = e \<or> x \<in> set (entries m w)"
      using x set_update_subset_insert [of "entries m w" i e] by auto
    then show "safe_to_reclaim_epoch (managers ?w m) < protected_epoch x \<and>
        protected_epoch x \<le> current_epoch (managers ?w m)"
      using mgr_inv_epochs(1) [OF inv] mgr_inv_epochs(2) [OF inv, of x] p n by auto
  next
    fix tid m' j assume h: "tls ?w (tid, EpochEntryTls) = EntryPtr m' j"
    then have "tls w (tid, EpochEntryTls) = EntryPtr m' j" by simp
    from mgr_inv_epochs(3) [OF inv this]
    show "m' = m \<and> j < length (entries m ?w) \<and> entry_thread_id (entries m ?w ! j) = tid \<and> tid \<noteq> 0"
      using i assms(3) by (simp add: nth_list_update_if)
  qed
qed

lemma GetEntryForThread_spec:
  assumes inv: "mgr_inv m w" and room: "has_room m tid w" and tid: "tid \<noteq> 0"
  obtains i w1 where "GetEntryForThread m tid w = Inr ((m, i), w1)" "mgr_inv m w1"
    "i < length (entries m w)" "entry_thread_id (entries m w1 ! i) = tid"
    "tls w1 = (tls w)((tid, EpochEntryTls) := EntryPtr m i)"
    "map protected_epoch (entries m w1) = map protected_epoch (entries m w)"
    "current_epoch (managers w1 m) = current_epoch (managers w m)"
    "safe_to_reclaim_epoch (managers w1 m) = safe_to_reclaim_epoch (managers w m)"
proof (cases "\<exists>m' i. tls w (tid, EpochEntryTls) = EntryPtr m' i")
  case True
  then obtain m' i where t: "tls w (tid, EpochEntryTls) = EntryPtr m' i" by blast
  with inv have "m' = m" "i < length (entries m w)" "entry_thread_id (entries m w ! i) = tid"
    by (auto simp: mgr_inv_def)
  then show ?thesis
    using t inv by (intro that [of i w]) (auto simp: GetEntryForThread_def)
next
  case False
  obtain t k where t: "epoch_table (managers w m) = Some t" "table t = Some (entries m w)" "wf_table t"
    using mgr_invD [OF inv] by metis
  obtain i where i: "i < length (entries m w)" "entry_thread_id (entries m w ! i) = 0"
    and r: "ReserveEntryForThread tid t =
      Inr (i, t\<lparr>table := Some ((entries m w)[i := (entries m w ! i)\<lparr>entry_thread_id := tid\<rparr>])\<rparr>)"
    using ReserveEntry_cases [OF t(3,2), of "Murmur3_64 tid" tid] room False
    unfolding has_room_def ReserveEntryForThread_def by (metis (lifting))
  define es where "es = (entries m w)[i := (entries m w ! i)\<lparr>entry_thread_id := tid\<rparr>]"
  define w1 where "w1 = RegisterTls tid (tid, EpochEntryTls) Nullptr
    ((set_mgr m ((managers w m)\<lparr>epoch_table := Some (t\<lparr>table := Some es\<rparr>)\<rparr>) w)
      \<lparr>tls := (tls w)((tid, EpochEntryTls) := EntryPtr m i)\<rparr>)"
  have g: "GetEntryForThread m tid w = Inr ((m, i), w1)"
    using False r t(1)
    by (auto simp: GetEntryForThread_def the_table_def w1_def Let_def es_def split: tls_val.splits)
  have e1: "entries m w1 = es" by (simp add: w1_def entries_def)
  have len: "length es = length (entries m w)" by (simp add: es_def)
  have p: "map protected_epoch es = map protected_epoch (entries m w)"
    unfolding es_def using i(1) by (intro map_update_same) simp_all
  have tl: "tls w1 = (tls w)((tid, EpochEntryTls) := EntryPtr m i)" by (simp add: w1_def)
  have cur: "current_epoch (managers w1 m) = current_epoch (managers w m)"
    "safe_to_reclaim_epoch (managers w1 m) = safe_to_reclaim_epoch (managers w m)"
    by (simp_all add: w1_def)
  have prot: "x \<in> set (map protected_epoch es) \<Longrightarrow> x \<noteq> 0 \<Longrightarrow>
      safe_to_reclaim_epoch (managers w m) < x \<and> x \<le> current_epoch (managers w m)" for x
    unfolding p using mgr_inv_epochs(2) [OF inv] by auto
  have "mgr_inv m w1"
  proof (rule mgr_invI)
    show "epoch_table (managers w1 m) = Some (t\<lparr>table := Some es\<rparr>)" by (simp add: w1_def)
    show "wf_table (t\<lparr>table := Some es\<rparr>)" using t len by (auto simp: wf_table_def)
    show "safe_to_reclaim_epoch (managers w1 m) < current_epoch (managers w1 m)"
      using mgr_inv_epochs(1) [OF inv] by (simp add: cur)
  next
    fix e assume "e \<in> set (entries m w1)" "protected_epoch e \<noteq> 0"
    then show "safe_to_reclaim_epoch (managers w1 m) < protected_epoch e \<and>
        protected_epoch e \<le> current_epoch (managers w1 m)"
      using prot [of "protected_epoch e"] by (simp add: cur e1)
  next
    fix tid' m' j assume h: "tls w1 (tid', EpochEntryTls) = EntryPtr m' j"
    show "m' = m \<and> j < length (entries m w1) \<and> entry_thread_id (entries m w1 ! j) = tid' \<and> tid' \<noteq> 0"
    proof (cases "tid' = tid")
      case True
      then have "m' = m" "j = i" using h by (simp_all add: tl)
      then show ?thesis using True i(1) tid by (simp add: e1 es_def)
    next
      case False
      then have j: "m' = m" "j < length (entries m w)" "entry_thread_id (entries m w ! j) = tid'" "tid' \<noteq> 0"
        using mgr_inv_epochs(3) [OF inv, of tid' m' j] h by (simp_all add: tl)
      moreover have "j \<noteq> i" using i(2) j by auto
      ultimately show ?thesis by (simp add: e1 es_def)
    qed
  qed
  then show ?thesis
    using g i(1) e1 p tl cur by (intro that [of i w1]) (simp_all add: es_def)
qed

section \<open>Behaviour of the operations\<close>

lemma Protect_spec:
  assumes inv: "mgr_inv m w" and room: "has_room m tid w" and tid: "tid \<noteq> 0"
  obtains i w' where "Protect m tid w = Inr w'" "mgr_inv m w'" "i < length (entries m w)"
    "tls w' = (tls w)((tid, EpochEntryTls) := EntryPtr m i)"
    "map protected_epoch (entries m w') = (map protected_epoch (entries m w))[i := current_epoch (managers w m)]"
    "current_epoch (managers w' m) = current_epoch (managers w m)"
    "safe_to_reclaim_epoch (managers w' m) = safe_to_reclaim_epoch (managers w m)"
proof -
  obtain i w1 where g: "GetEntryForThread m tid w = Inr ((m, i), w1)" "mgr_inv m w1"
    "i < length (entries m w)" "entry_thread_id (entries m w1 ! i) = tid"
    "tls w1 = (tls w)((tid, EpochEntryTls) := EntryPtr m i)"
    "map protected_epoch (entries m w1) = map protected_epoch (entries m w)"
    "current_epoch (managers w1 m) = current_epoch (managers w m)"
    "safe_to_reclaim_epoch (managers w1 m) = safe_to_reclaim_epoch (managers w m)"
    using GetEntryForThread_spec [OF assms] .
  have l: "i < length (entries m w1)" using g(3,6) by (metis length_map)
  define e where "e = (entries m w1 ! i)\<lparr>last_unprotected_epoch := 0,
    protected_epoch := current_epoch (managers w m)\<rparr>"
  have r: "Protect m tid w = Inr (put_entry m i e w1)"
    using g(1) get_entry_entries [OF g(2) l] by (simp add: Protect_def e_def)
  have "mgr_inv m (put_entry m i e w1)"
    using g l by (intro mgr_inv_put_entry) (simp_all add: e_def)
  then show ?thesis
    using r g l by (intro that [of "put_entry m i e w1" i]) (simp_all add: map_update e_def)
qed

lemma Unprotect_spec:
  assumes inv: "mgr_inv m w" and room: "has_room m tid w" and tid: "tid \<noteq> 0"
  obtains i w' where "Unprotect m tid w = Inr w'" "mgr_inv m w'" "i < length (entries m w)"
    "tls w' = (tls w)((tid, EpochEntryTls) := EntryPtr m i)"
    "map protected_epoch (entries m w') = (map protected_epoch (entries m w))[i := 0]"
    "current_epoch (managers w' m) = current_epoch (managers w m)"
    "safe_to_reclaim_epoch (managers w' m) = safe_to_reclaim_epoch (managers w m)"
proof -
  obtain i w1 where g: "GetEntryForThread m tid w = Inr ((m, i), w1)" "mgr_inv m w1"
    "i < length (entries m w)" "entry_thread_id (entries m w1 ! i) = tid"
    "tls w1 = (tls w)((tid, EpochEntryTls) := EntryPtr m i)"
    "map protected_epoch (entries m w1) = map protected_epoch (entries m w)"
    "current_epoch (managers w1 m) = current_epoch (managers w m)"
    "safe_to_reclaim_epoch (managers w1 m) = safe_to_reclaim_epoch (managers w m)"
    using GetEntryForThread_spec [OF assms] .
  have l: "i < length (entries m w1)" using g(3,6) by (metis length_map)
  define e where "e = (entries m w1 ! i)\<lparr>last_unprotected_epoch := current_epoch (managers w m),
    protected_epoch := 0\<rparr>"
  have r: "Unprotect m tid w = Inr (put_entry m i e w1)"
    using g(1,4) get_entry_entries [OF g(2) l] by (simp add: Unprotect_def e_def)
  have "mgr_inv m (put_entry m i e w1)"
    using g l by (intro mgr_inv_put_entry) (simp_all add: e_def)
  then show ?thesis
    using r g l by (intro that [of "put_entry m i e w1" i]) (simp_all add: map_update e_def)
qed

text \<open>A bump never fails on an initialized manager, moves the safe epoch forward only, and keeps the
  invariant as long as the epoch counter does not wrap.\<close>

lemma BumpCurrentEpoch_eq:
  assumes "mgr_inv m w"
  shows "BumpCurrentEpoch m w = Inr (set_mgr m ((managers w m)\<lparr>current_epoch := current_epoch (managers w m) + 1,
     safe_to_reclaim_epoch := table_safe_epoch (current_epoch (managers w m)) (entries m w)\<rparr>) w)"
proof -
  obtain t where "epoch_table (managers w m) = Some t" "table t = Some (entries m w)"
    using mgr_invD [OF assms] by metis
  then show ?thesis
    by (simp add: BumpCurrentEpoch_def ComputeNewSafeToReclaimEpoch_def the_table_def set_mgr_def Let_def)
qed

lemma Bump_spec:
  assumes inv: "mgr_inv m w" and wrap: "unat (current_epoch (managers w m)) + 1 < 2 ^ 64"
  obtains w' where "BumpCurrentEpoch m w = Inr w'" "mgr_inv m w'" "tls w' = tls w" "entries m w' = entries m w"
    "unat (current_epoch (managers w' m)) = unat (current_epoch (managers w m)) + 1"
    "safe_to_reclaim_epoch (managers w m) \<le> safe_to_reclaim_epoch (managers w' m)"
proof -
  define c where "c = current_epoch (managers w m)"
  define s where "s = table_safe_epoch c (entries m w)"
  define w' where "w' = set_mgr m ((managers w m)\<lparr>current_epoch := c + 1, safe_to_reclaim_epoch := s\<rparr>) w"
  have b: "BumpCurrentEpoch m w = Inr w'"
    using BumpCurrentEpoch_eq [OF inv] by (simp add: w'_def c_def s_def)
  have c0: "c \<noteq> 0" using mgr_inv_epochs(1) [OF inv] by (auto simp: c_def)
  have c1: "unat (c + 1) = unat c + 1" using wrap by (intro unat_suc_eq) (simp add: c_def)
  have cc: "c < c + 1" using c1 by (simp add: word_less_nat_alt)
  have s: "x \<le> s \<longleftrightarrow> x < c \<and> (\<forall>e \<in> set (entries m w). protected_epoch e \<noteq> 0 \<longrightarrow> x < protected_epoch e)" for x
    unfolding s_def by (rule le_table_safe_epoch_iff [OF c0])
  have mono: "safe_to_reclaim_epoch (managers w m) \<le> s"
    using mgr_inv_epochs(1,2) [OF inv] unfolding s by (auto simp: c_def)
  have ss: "s < c" "\<And>e. e \<in> set (entries m w) \<Longrightarrow> protected_epoch e \<noteq> 0 \<Longrightarrow> s < protected_epoch e"
    using s [of s] by auto
  have e: "entries m w' = entries m w" by (simp add: w'_def entries_set_mgr) (simp add: entries_def)
  obtain t where t: "epoch_table (managers w m) = Some t" "wf_table t" using mgr_invD [OF inv] by metis
  have "mgr_inv m w'"
  proof (rule mgr_invI)
    show "epoch_table (managers w' m) = Some t" "wf_table t" using t by (simp_all add: w'_def)
    show "safe_to_reclaim_epoch (managers w' m) < current_epoch (managers w' m)"
      using ss(1) cc by (simp add: w'_def)
    show "safe_to_reclaim_epoch (managers w' m) < protected_epoch x \<and>
        protected_epoch x \<le> current_epoch (managers w' m)"
      if "x \<in> set (entries m w')" "protected_epoch x \<noteq> 0" for x
      using that ss(2) [of x] mgr_inv_epochs(2) [OF inv, of x] cc unfolding e
      by (auto simp: w'_def c_def)
    show "m' = m \<and> i < length (entries m w') \<and> entry_thread_id (entries m w' ! i) = tid \<and> tid \<noteq> 0"
      if "tls w' (tid, EpochEntryTls) = EntryPtr m' i" for tid m' i
      using mgr_inv_epochs(3) [OF inv, of tid m' i] that unfolding e by (simp add: w'_def)
  qed
  then show ?thesis
    using b e c1 mono by (intro that [of w']) (simp_all add: w'_def c_def)
qed

lemma Initialize_inv:
  assumes "epoch_table (managers w m) = None" and "\<And>tid m' i. tls w (tid, EpochEntryTls) \<noteq> EntryPtr m' i"
  shows "mgr_inv m (snd (Initialize True m w))"
    and "fst (Initialize True m w) = Status_OK"
proof -
  have p: "IS_POWER_OF_TWO kDefaultSize"
    by (simp add: IS_POWER_OF_TWO_def kDefaultSize_def)
  define t where "t = \<lparr>table = Some (replicate 128 empty_entry), table_size = kDefaultSize\<rparr>"
  define w' where "w' = set_mgr m ((managers w m)\<lparr>current_epoch := 1, safe_to_reclaim_epoch := 0, epoch_table := Some t\<rparr>) w"
  have i: "Initialize True m w = (Status_OK, w')"
    using assms(1) p
    by (simp add: Initialize_def MinEpochTable_Initialize_def new_table_def w'_def t_def kDefaultSize_def)
  have e: "entries m w' = replicate 128 empty_entry" by (simp add: w'_def entries_set_mgr t_def)
  have "mgr_inv m w'"
  proof (rule mgr_invI)
    show "epoch_table (managers w' m) = Some t" by (simp add: w'_def)
    show "wf_table t" unfolding wf_table_def t_def
      by (intro exI [of _ "replicate 128 empty_entry"] exI [of _ 7]) (simp add: kDefaultSize_def)
    show "safe_to_reclaim_epoch (managers w' m) < current_epoch (managers w' m)" by (simp add: w'_def)
    have z: "x \<in> set (entries m w') \<Longrightarrow> protected_epoch x = 0" for x
      by (simp add: e empty_entry_def)
    show "safe_to_reclaim_epoch (managers w' m) < protected_epoch x \<and> protected_epoch x \<le> current_epoch (managers w' m)"
      if "x \<in> set (entries m w')" "protected_epoch x \<noteq> 0" for x
      using z that by simp
  qed (use assms(2) in \<open>simp add: w'_def\<close>)
  then show "mgr_inv m (snd (Initialize True m w))" "fst (Initialize True m w) = Status_OK"
    by (simp_all add: i)
qed

lemma no_room_spins:
  assumes inv: "mgr_inv m w" and "\<not> has_room m tid w"
  shows "GetEntryForThread m tid w = Inl Spins"
proof -
  obtain t where t: "epoch_table (managers w m) = Some t" "table t = Some (entries m w)" "wf_table t"
    using mgr_invD [OF inv] by metis
  have "\<forall>e \<in> set (entries m w). entry_thread_id e \<noteq> 0"
    using assms(2) by (auto simp: has_room_def)
  then have "ReserveEntryForThread tid t = Inl Spins"
    using ReserveEntry_cases [OF t(3,2), of "Murmur3_64 tid" tid] by (simp add: ReserveEntryForThread_def)
  then show ?thesis
    using assms(2) t(1) by (simp add: GetEntryForThread_def the_table_def has_room_def split: tls_val.splits)
qed

lemma Protect_no_room: "mgr_inv m w \<Longrightarrow> \<not> has_room m tid w \<Longrightarrow> Protect m tid w = Inl Spins"
  by (simp add: Protect_def no_room_spins)

lemma Unprotect_no_room: "mgr_inv m w \<Longrightarrow> \<not> has_room m tid w \<Longrightarrow> Unprotect m tid w = Inl Spins"
  by (simp add: Unprotect_def no_room_spins)

section \<open>Sequences of operations\<close>

datatype epoch_op = OpProtect u64 | OpUnprotect u64 | OpBump

fun run_op :: "nat \<Rightarrow> epoch_op \<Rightarrow> epoch_world \<Rightarrow> epoch_world res" where
  "run_op m (OpProtect tid) w = Protect m tid w"
| "run_op m (OpUnprotect tid) w = Unprotect m tid w"
| "run_op m OpBump w = BumpCurrentEpoch m w"

fun run_ops :: "nat \<Rightarrow> epoch_op list \<Rightarrow> epoch_world \<Rightarrow> epoch_world res" where
  "run_ops m [] w = Inr w"
| "run_ops m (x # xs) w = rbind (run_op m x w) (run_ops m xs)"

fun op_thread :: "epoch_op \<Rightarrow> u64 option" where
  "op_thread (OpProtect tid) = Some tid"
| "op_thread (OpUnprotect tid) = Some tid"
| "op_thread OpBump = None"

text \<open>The thread's own view: its cached entry shows that it entered at epoch \<open>p\<close>.\<close>

definition protected_at :: "nat \<Rightarrow> u64 \<Rightarrow> epoch \<Rightarrow> epoch_world \<Rightarrow> bool" where
  "protected_at m tid p w \<longleftrightarrow> p \<noteq> 0 \<and> (\<exists>i. tls w (tid, EpochEntryTls) = EntryPtr m i \<and>
     map protected_epoch (entries m w) ! i = p)"

text \<open>Two threads never share an entry.\<close>

lemma entry_not_shared:
  assumes "mgr_inv m w" and "tls w (a, EpochEntryTls) = EntryPtr m i"
    and "tls w (b, EpochEntryTls) = EntryPtr m i"
  shows "a = b"
  using mgr_inv_epochs(3) [OF assms(1,2)] mgr_inv_epochs(3) [OF assms(1,3)] by simp

lemma protected_at_other:
  assumes "mgr_inv m w'" and "protected_at m tid p w" and "a \<noteq> tid"
    and "tls w' = (tls w)((a, EpochEntryTls) := EntryPtr m i)"
    and "map protected_epoch (entries m w') = (map protected_epoch (entries m w))[i := q]"
  shows "protected_at m tid p w'"
proof -
  obtain j where j: "tls w (tid, EpochEntryTls) = EntryPtr m j" "map protected_epoch (entries m w) ! j = p" "p \<noteq> 0"
    using assms(2) by (auto simp: protected_at_def)
  then have "tls w' (tid, EpochEntryTls) = EntryPtr m j" "tls w' (a, EpochEntryTls) = EntryPtr m i"
    using assms(3,4) by simp_all
  then have "i \<noteq> j" using entry_not_shared [OF assms(1)] assms(3) by blast
  then show ?thesis
    using j \<open>tls w' (tid, EpochEntryTls) = EntryPtr m j\<close> assms(5) by (auto simp: protected_at_def)
qed

lemma run_op_step:
  assumes "mgr_inv m w" and "protected_at m tid p w" and "run_op m x w = Inr w'"
    and "op_thread x \<noteq> Some tid" and "op_thread x \<noteq> Some 0" and wrap: "unat (current_epoch (managers w m)) + 1 < 2 ^ 64"
  shows "mgr_inv m w' \<and> protected_at m tid p w' \<and>
    unat (current_epoch (managers w' m)) \<le> unat (current_epoch (managers w m)) + 1"
proof (cases x)
  case (OpProtect a)
  then have a: "a \<noteq> tid" "a \<noteq> 0" "Protect m a w = Inr w'" using assms(3,4,5) by auto
  then have "has_room m a w" using Protect_no_room [OF assms(1), of a] by force
  from Protect_spec [OF assms(1) this a(2)] a(3)
  obtain i where "mgr_inv m w'" "tls w' = (tls w)((a, EpochEntryTls) := EntryPtr m i)"
    "map protected_epoch (entries m w') = (map protected_epoch (entries m w))[i := current_epoch (managers w m)]"
    "current_epoch (managers w' m) = current_epoch (managers w m)"
    by (metis sum.inject(2))
  then show ?thesis using protected_at_other [OF _ assms(2) a(1)] by simp
next
  case (OpUnprotect a)
  then have a: "a \<noteq> tid" "a \<noteq> 0" "Unprotect m a w = Inr w'" using assms(3,4,5) by auto
  then have "has_room m a w" using Unprotect_no_room [OF assms(1), of a] by force
  from Unprotect_spec [OF assms(1) this a(2)] a(3)
  obtain i where "mgr_inv m w'" "tls w' = (tls w)((a, EpochEntryTls) := EntryPtr m i)"
    "map protected_epoch (entries m w') = (map protected_epoch (entries m w))[i := 0]"
    "current_epoch (managers w' m) = current_epoch (managers w m)"
    by (metis sum.inject(2))
  then show ?thesis using protected_at_other [OF _ assms(2) a(1)] by simp
next
  case OpBump
  with Bump_spec [OF assms(1) wrap] assms(3)
  have "mgr_inv m w'" "tls w' = tls w" "entries m w' = entries m w"
    "unat (current_epoch (managers w' m)) = unat (current_epoch (managers w m)) + 1"
    by (metis run_op.simps(3) sum.inject(2))+
  then show ?thesis using assms(2) by (simp add: protected_at_def)
qed

lemma protected_not_safe:
  assumes "mgr_inv m w" and "protected_at m tid p w" and "p \<le> e"
  shows "\<not> IsSafeToReclaim m e w"
proof -
  obtain i where i: "tls w (tid, EpochEntryTls) = EntryPtr m i" "map protected_epoch (entries m w) ! i = p" "p \<noteq> 0"
    using assms(2) by (auto simp: protected_at_def)
  then have "i < length (entries m w)" using mgr_inv_epochs(3) [OF assms(1)] by blast
  then have "safe_to_reclaim_epoch (managers w m) < p"
    using mgr_inv_epochs(2) [OF assms(1) nth_mem, of i] i by simp
  then show ?thesis using assms(3) by (auto simp: IsSafeToReclaim_def)
qed

lemma run_ops_protected:
  "mgr_inv m w \<Longrightarrow> protected_at m tid p w \<Longrightarrow> run_ops m xs w = Inr w' \<Longrightarrow>
   Some tid \<notin> op_thread ` set xs \<Longrightarrow> Some 0 \<notin> op_thread ` set xs \<Longrightarrow>
   unat (current_epoch (managers w m)) + length xs < 2 ^ 64 \<Longrightarrow>
   mgr_inv m w' \<and> protected_at m tid p w'"
proof (induction xs arbitrary: w)
  case (Cons x xs)
  obtain w1 where w1: "run_op m x w = Inr w1" "run_ops m xs w1 = Inr w'"
    using Cons.prems(3) by (auto simp: rbind_Inr_iff)
  have "mgr_inv m w1 \<and> protected_at m tid p w1 \<and>
      unat (current_epoch (managers w1 m)) \<le> unat (current_epoch (managers w m)) + 1"
    using Cons.prems(4,5,6) by (intro run_op_step [OF Cons.prems(1,2) w1(1)]) auto
  with Cons.IH [OF _ _ w1(2)] Cons.prems(4,5,6) show ?case by simp
qed simp

section \<open>The service the garbage list relies on\<close>

text \<open>A thread that entered at or before the epoch of an item may still use the item.\<close>

definition may_hold :: "nat \<Rightarrow> epoch \<Rightarrow> epoch_world \<Rightarrow> bool" where
  "may_hold m e w \<longleftrightarrow> (\<exists>x \<in> set (entries m w). protected_epoch x \<noteq> 0 \<and> protected_epoch x \<le> e)"

definition epoch_ok :: "nat \<Rightarrow> nat \<Rightarrow> epoch_world \<Rightarrow> bool" where
  "epoch_ok m n w \<longleftrightarrow> mgr_inv m w \<and> unat (current_epoch (managers w m)) + n + 1 < 2 ^ 64"

interpretation em: epoch_service "epoch_ok m" "GetCurrentEpoch m" "IsSafeToReclaim m" "BumpCurrentEpoch m" "may_hold m" for m
proof
  fix n w assume ok: "epoch_ok m (Suc n) w"
  then have inv: "mgr_inv m w" and wr: "unat (current_epoch (managers w m)) + 1 < 2 ^ 64"
    by (simp_all add: epoch_ok_def)
  obtain w' where w': "BumpCurrentEpoch m w = Inr w'" "mgr_inv m w'" "entries m w' = entries m w"
    "unat (current_epoch (managers w' m)) = unat (current_epoch (managers w m)) + 1"
    "safe_to_reclaim_epoch (managers w m) \<le> safe_to_reclaim_epoch (managers w' m)"
    using Bump_spec [OF inv wr] .
  show "\<exists>w'. BumpCurrentEpoch m w = Inr w' \<and> epoch_ok m n w' \<and>
      (\<forall>e. IsSafeToReclaim m e w \<longrightarrow> IsSafeToReclaim m e w') \<and> (\<forall>e. may_hold m e w' = may_hold m e w) \<and>
      GetCurrentEpoch m w \<le> GetCurrentEpoch m w'"
    using w' ok
    by (intro exI [of _ w'])
      (auto simp: epoch_ok_def IsSafeToReclaim_def may_hold_def GetCurrentEpoch_def word_le_nat_alt)
next
  fix n e w assume "epoch_ok m n w" and s: "IsSafeToReclaim m e w"
  then have inv: "mgr_inv m w" by (simp add: epoch_ok_def)
  show "\<not> may_hold m e w"
    using mgr_inv_epochs(2) [OF inv] s unfolding may_hold_def IsSafeToReclaim_def
    by (meson leD order.strict_trans1 order_trans)
next
  fix n w assume ok: "epoch_ok m n w"
  then have "safe_to_reclaim_epoch (managers w m) < current_epoch (managers w m)"
    "unat (current_epoch (managers w m)) < 2 ^ 64 - 1"
    using mgr_inv_epochs(1) by (auto simp: epoch_ok_def)
  then show "GetCurrentEpoch m w \<noteq> 0 \<and> GetCurrentEpoch m w \<noteq> - 1 \<and> \<not> IsSafeToReclaim m (GetCurrentEpoch m w) w"
    by (auto simp: GetCurrentEpoch_def IsSafeToReclaim_def unsigned_minus_1_eq_mask mask_eq_exp_minus_1)
next
  show "epoch_ok m n w \<Longrightarrow> n' \<le> n \<Longrightarrow> epoch_ok m n' w" for n n' w
    by (simp add: epoch_ok_def)
qed

section \<open>Properties\<close>

text \<open>C23. While a thread is protected, nothing that was removed in its epoch or later becomes reclaimable:
  after any sequence of \<open>Protect\<close> and \<open>Unprotect\<close> calls by other threads and of epoch bumps, an item
  stamped with an epoch at or after the one the thread entered in is still not safe to reclaim
  (as long as the 64-bit counter does not wrap).\<close>

theorem protected_items_stay_unreclaimable:
  assumes "mgr_inv m w" and "protected_at m tid p w" and "run_ops m xs w = Inr w'"
    and "Some tid \<notin> op_thread ` set xs" and "Some 0 \<notin> op_thread ` set xs"
    and "unat (GetCurrentEpoch m w) + length xs < 2 ^ 64" and "p \<le> e"
  shows "\<not> IsSafeToReclaim m e w'"
  using run_ops_protected [OF assms(1-5)] assms(6,7) protected_not_safe
  unfolding GetCurrentEpoch_def by blast

definition world0 :: epoch_world where
  "world0 = snd (Initialize True 0 \<lparr>tls = \<lambda>_. Nullptr, tls_registry = [], managers = \<lambda>_. new_manager\<rparr>)"

lemma world0_inv: "mgr_inv 0 world0"
  unfolding world0_def by (rule Initialize_inv) (simp_all add: new_manager_def)

lemma has_room_world0: "has_room 0 tid world0"
  unfolding has_room_def world0_def
  by (auto simp: Initialize_def MinEpochTable_Initialize_def new_manager_def new_table_def
      IS_POWER_OF_TWO_def kDefaultSize_def entries_def empty_entry_def)

lemma world0_epoch: "GetCurrentEpoch 0 world0 = 1"
  unfolding world0_def
  by (simp add: Initialize_def MinEpochTable_Initialize_def new_manager_def new_table_def
      IS_POWER_OF_TWO_def kDefaultSize_def GetCurrentEpoch_def)

theorem protected_items_stay_unreclaimable_witness:
  "\<exists>w w'. Protect 0 7 world0 = Inr w \<and> protected_at 0 7 1 w \<and>
     run_ops 0 [OpBump, OpBump] w = Inr w' \<and> \<not> IsSafeToReclaim 0 1 w'"
proof -
  obtain i w where w: "Protect 0 7 world0 = Inr w" "mgr_inv 0 w" "i < length (entries 0 world0)"
    "tls w = (tls world0)((7, EpochEntryTls) := EntryPtr 0 i)"
    "map protected_epoch (entries 0 w) = (map protected_epoch (entries 0 world0))[i := current_epoch (managers world0 0)]"
    "current_epoch (managers w 0) = current_epoch (managers world0 0)"
    by (rule Protect_spec [OF world0_inv has_room_world0, of 7]) auto
  have c: "current_epoch (managers w 0) = 1" using w(6) world0_epoch by (simp add: GetCurrentEpoch_def)
  have p: "protected_at 0 7 1 w" using w(3,4,5,6) c by (auto simp: protected_at_def)
  obtain w1 where w1: "BumpCurrentEpoch 0 w = Inr w1" "mgr_inv 0 w1"
    "unat (current_epoch (managers w1 0)) = unat (current_epoch (managers w 0)) + 1"
    using c by (auto intro: Bump_spec [OF w(2)])
  obtain w2 where w2: "BumpCurrentEpoch 0 w1 = Inr w2" using BumpCurrentEpoch_eq [OF w1(2)] by blast
  have r: "run_ops 0 [OpBump, OpBump] w = Inr w2" by (simp add: w1 w2)
  from protected_items_stay_unreclaimable [OF w(2) p r, of 1] w(1) p r c
  show ?thesis by (auto simp: GetCurrentEpoch_def)
qed

text \<open>C24. What a bump makes reclaimable, exactly: an epoch is safe after \<open>BumpCurrentEpoch\<close> if and only if
  it is before the epoch that the bump ended and before the epoch of every protected thread. In
  particular nothing is held back once no thread is protected.\<close>

theorem bump_reclaims_exactly:
  assumes "mgr_inv m w"
  shows "\<exists>w'. BumpCurrentEpoch m w = Inr w' \<and> GetCurrentEpoch m w' = GetCurrentEpoch m w + 1 \<and>
    (\<forall>e. IsSafeToReclaim m e w' \<longleftrightarrow> e < GetCurrentEpoch m w \<and>
       (\<forall>x \<in> set (entries m w). protected_epoch x \<noteq> 0 \<longrightarrow> e < protected_epoch x))"
proof -
  have "current_epoch (managers w m) \<noteq> 0" using mgr_inv_epochs(1) [OF assms] by auto
  from le_table_safe_epoch_iff [OF this] BumpCurrentEpoch_eq [OF assms]
  show ?thesis by (simp add: IsSafeToReclaim_def GetCurrentEpoch_def)
qed

theorem bump_reclaims_exactly_witness:
  "mgr_inv 0 world0 \<and> (\<exists>w'. BumpCurrentEpoch 0 world0 = Inr w' \<and> GetCurrentEpoch 0 w' = 2)"
  using bump_reclaims_exactly [OF world0_inv] world0_inv world0_epoch by auto

text \<open>C25. A thread's entry is remembered in one thread-local variable for all epoch managers. Once a
  thread has an entry in the table of manager \<open>a\<close>, its \<open>Protect\<close> on another manager \<open>b\<close> succeeds without
  touching the table of \<open>b\<close>, so a bump of \<open>b\<close> makes the epoch the thread has just entered
  reclaimable.\<close>

theorem second_manager_unprotected:
  assumes "mgr_inv a w" and "tls w (tid, EpochEntryTls) = EntryPtr a i" and "a \<noteq> b"
    and "epoch_table (managers w b) \<noteq> None" and "GetCurrentEpoch b w = 1"
    and "\<forall>x \<in> set (entries b w). protected_epoch x = 0"
  shows "\<exists>w1 w2 w3. Protect b tid w = Inr w1 \<and> entries b w1 = entries b w \<and>
    BumpCurrentEpoch b w1 = Inr w2 \<and> BumpCurrentEpoch b w2 = Inr w3 \<and> IsSafeToReclaim b 1 w3"
proof -
  have i: "i < length (entries a w)" using mgr_inv_epochs(3) [OF assms(1,2)] by simp
  define e where "e = (entries a w ! i)\<lparr>last_unprotected_epoch := 0, protected_epoch := 1\<rparr>"
  define w1 where "w1 = put_entry a i e w"
  have p: "Protect b tid w = Inr w1"
    using assms(2,5) get_entry_entries [OF assms(1) i]
    by (simp add: Protect_def GetEntryForThread_def w1_def e_def GetCurrentEpoch_def)
  have m: "managers w1 b = managers w b" using assms(3) by (simp add: w1_def put_entry_def)
  obtain t where t: "epoch_table (managers w b) = Some t" using assms(4) by blast
  have es: "entries b w1 = entries b w" by (simp add: entries_def m)
  have tb: "(case table t of None \<Rightarrow> [] | Some es \<Rightarrow> es) = entries b w" by (simp add: entries_def t)
  define w2 where "w2 = set_mgr b ((managers w b)\<lparr>current_epoch := 2,
    safe_to_reclaim_epoch := table_safe_epoch 1 (entries b w)\<rparr>) w1"
  define w3 where "w3 = set_mgr b ((managers w b)\<lparr>current_epoch := 3,
    safe_to_reclaim_epoch := table_safe_epoch 2 (entries b w)\<rparr>) w1"
  have b1: "BumpCurrentEpoch b w1 = Inr w2"
    using assms(5) t tb by (simp add: BumpCurrentEpoch_def ComputeNewSafeToReclaimEpoch_def the_table_def
        w2_def m GetCurrentEpoch_def Let_def set_mgr_def)
  have b2: "BumpCurrentEpoch b w2 = Inr w3"
    using t tb by (simp add: BumpCurrentEpoch_def ComputeNewSafeToReclaimEpoch_def the_table_def
        w2_def w3_def Let_def set_mgr_def)
  have "1 \<le> table_safe_epoch 2 (entries b w)"
    using assms(6) by (subst le_table_safe_epoch_iff) simp_all
  then show ?thesis
    using p es b1 b2 by (intro exI [of _ w1] exI [of _ w2] exI [of _ w3]) (simp add: IsSafeToReclaim_def w3_def)
qed

theorem second_manager_unprotected_witness:
  "\<exists>w1 w2 w3 w. Protect 1 7 w = Inr w1 \<and> BumpCurrentEpoch 1 w1 = Inr w2 \<and>
     BumpCurrentEpoch 1 w2 = Inr w3 \<and> IsSafeToReclaim 1 1 w3"
proof -
  obtain i w where w: "Protect 0 7 world0 = Inr w" "mgr_inv 0 w"
    "tls w = (tls world0)((7, EpochEntryTls) := EntryPtr 0 i)"
    by (rule Protect_spec [OF world0_inv has_room_world0, of 7]) auto
  define v where "v = snd (Initialize True 1 (w\<lparr>managers := (managers w)(1 := new_manager)\<rparr>))"
  have m: "managers v 0 = managers w 0" "tls v = tls w"
    by (simp_all add: v_def Initialize_def MinEpochTable_Initialize_def new_manager_def new_table_def
        IS_POWER_OF_TWO_def kDefaultSize_def)
  have "entries 0 v = entries 0 w" by (simp add: entries_def m)
  then have "mgr_inv 0 v" using w(2) unfolding mgr_inv_def by (simp add: m)
  moreover have "tls v (7, EpochEntryTls) = EntryPtr 0 i" using w(3) by (simp add: m)
  moreover have "epoch_table (managers v 1) \<noteq> None \<and> GetCurrentEpoch 1 v = 1 \<and>
      (\<forall>x \<in> set (entries 1 v). protected_epoch x = 0)"
    by (simp add: v_def Initialize_def MinEpochTable_Initialize_def new_manager_def new_table_def
        IS_POWER_OF_TWO_def kDefaultSize_def entries_def GetCurrentEpoch_def empty_entry_def)
  ultimately show ?thesis
    using second_manager_unprotected [of 0 v 7 i 1] by (metis zero_neq_one)
qed

text \<open>C26. \<open>Protect\<close> by a thread returns exactly when the thread already has an entry or the table has a
  free one; then it records the current epoch in the thread's own entry and changes no other
  thread's epoch. Otherwise it spins for ever, since entries are never released.\<close>

theorem protect_returns_iff_room:
  assumes "mgr_inv m w" and "tid \<noteq> 0"
  shows "if has_room m tid w
    then \<exists>w' i. Protect m tid w = Inr w' \<and> mgr_inv m w' \<and> protected_at m tid (GetCurrentEpoch m w) w' \<and>
      map protected_epoch (entries m w') = (map protected_epoch (entries m w))[i := GetCurrentEpoch m w]
    else Protect m tid w = Inl Spins"
proof (cases "has_room m tid w")
  case True
  obtain i w' where w: "Protect m tid w = Inr w'" "mgr_inv m w'" "i < length (entries m w)"
    "tls w' = (tls w)((tid, EpochEntryTls) := EntryPtr m i)"
    "map protected_epoch (entries m w') = (map protected_epoch (entries m w))[i := current_epoch (managers w m)]"
    using Protect_spec [OF assms(1) True assms(2)] by metis
  have "current_epoch (managers w m) \<noteq> 0" using mgr_inv_epochs(1) [OF assms(1)] by auto
  with w have "protected_at m tid (GetCurrentEpoch m w) w'"
    by (simp add: protected_at_def GetCurrentEpoch_def)
  then show ?thesis using True w by (auto simp: GetCurrentEpoch_def)
next
  case False
  then show ?thesis by (simp add: Protect_no_room [OF assms(1)])
qed

theorem protect_returns_iff_room_witness:
  "has_room 0 7 world0 \<and> (\<exists>w'. Protect 0 7 world0 = Inr w' \<and> protected_at 0 7 1 w')"
  using protect_returns_iff_room [OF world0_inv, of 7] has_room_world0 [of 7] world0_epoch by auto

end
