(* ===== verification/GarbageList.thy ===== *)
theory GarbageList
  imports Epoch "HOL-Library.Multiset"
begin

text \<open>
  The garbage lists (\<open>common/garbage_list.h\<close> and \<open>common/garbage_list_unsafe.h\<close>): rings of removed
  items, each stamped with the epoch of its removal. \<open>GarbageListUnsafe\<close> belongs to one thread and is
  the one the descriptor pool uses; \<open>GarbageList\<close> is shared, and its operations are modelled
  without interference, so its compare-and-swap on a slot succeeds.

  The lists use three operations of the epoch manager; they come as a record, so that the
  lemmas can be proved from the laws of \<open>epoch_service\<close>. A destroy callback is a function pointer of
  the client: the operations return the calls they make, in order, and the client's model runs them. Between
  the moment a slot is taken and the moment it is refilled its epoch is \<open>invalid_epoch\<close>; the callback
  has no access to the list, so only the final value of the slot is kept.
\<close>

record 's epoch_ops =
  ops_current :: "'s \<Rightarrow> u64"
  ops_is_safe :: "u64 \<Rightarrow> 's \<Rightarrow> bool"
  ops_bump :: "'s \<Rightarrow> 's res"

text \<open>The operations of the epoch manager \<open>m\<close>.\<close>

definition manager_ops :: "nat \<Rightarrow> epoch_world epoch_ops" where
  "manager_ops m = \<lparr>ops_current = GetCurrentEpoch m, ops_is_safe = IsSafeToReclaim m, ops_bump = BumpCurrentEpoch m\<rparr>"

record 'c gl_item =
  removal_epoch :: epoch
  destroy_callback :: "'c option"
  destroy_callback_context :: u64
  removed_item :: u64

record 'c garbage_list =
  gl_epoch_manager :: "nat option"
  gl_tail :: u64
  gl_item_count :: u64
  gl_items :: "'c gl_item list"

type_synonym 'c destroy_call = "'c option \<times> u64 \<times> u64"

definition invalid_epoch :: epoch where
  "invalid_epoch = NOT 0"

definition empty_item :: "'c gl_item" where
  "empty_item = \<lparr>removal_epoch = 0, destroy_callback = None, destroy_callback_context = 0, removed_item = 0\<rparr>"

definition destroy_call :: "'c gl_item \<Rightarrow> 'c destroy_call" where
  "destroy_call it = (destroy_callback it, destroy_callback_context it, removed_item it)"

definition GarbageList_new :: "'c garbage_list" where
  "GarbageList_new = \<lparr>gl_epoch_manager = None, gl_tail = 0, gl_item_count = 0, gl_items = []\<rparr>"

definition GarbageList_Initialize ::
  "bool \<Rightarrow> nat option \<Rightarrow> u64 \<Rightarrow> 'c garbage_list \<Rightarrow> status \<times> 'c garbage_list" where
  "GarbageList_Initialize mem_ok em item_count gl =
     (if gl_epoch_manager gl \<noteq> None then (Status_OK, gl)
      else if em = None then (InvalidArgument ''Null pointer'', gl)
      else if item_count = 0 \<or> \<not> IS_POWER_OF_TWO item_count then (InvalidArgument ''items not a power of two'', gl)
      else if \<not> mem_ok then (Corruption ''Out of memory'', gl)
      else (Status_OK, gl\<lparr>gl_items := replicate (unat item_count) empty_item, gl_item_count := item_count,
              gl_tail := 0, gl_epoch_manager := em\<rparr>))"

definition GarbageList_Uninitialize ::
  "'c garbage_list \<Rightarrow> status \<times> 'c garbage_list \<times> 'c destroy_call list" where
  "GarbageList_Uninitialize gl =
     (if gl_epoch_manager gl = None then (Status_OK, gl, [])
      else (Status_OK, gl\<lparr>gl_items := [], gl_tail := 0, gl_item_count := 0, gl_epoch_manager := None\<rparr>,
            map destroy_call (filter (\<lambda>it. removed_item it \<noteq> 0) (gl_items gl))))"

section \<open>Push\<close>

text \<open>The common part of one round: bump when a quarter of the ring has been passed.\<close>

definition round_bump :: "'s epoch_ops \<Rightarrow> u64 \<Rightarrow> u64 \<Rightarrow> 's \<Rightarrow> 's res" where
  "round_bump E item_count slot s =
     (if push_bit 2 slot AND (item_count - 1) = 0 then ops_bump E s else Inr s)"

definition new_item :: "epoch \<Rightarrow> 'c \<Rightarrow> u64 \<Rightarrow> u64 \<Rightarrow> 'c gl_item" where
  "new_item e cb ctx item = \<lparr>removal_epoch = e, destroy_callback = Some cb,
     destroy_callback_context = ctx, removed_item = item\<rparr>"

text \<open>\<open>GarbageListUnsafe::Push\<close>; the first argument bounds the rounds of its endless loop.\<close>

fun push_rounds ::
  "nat \<Rightarrow> 's epoch_ops \<Rightarrow> epoch \<Rightarrow> 'c \<Rightarrow> u64 \<Rightarrow> u64 \<Rightarrow> 'c garbage_list \<Rightarrow> 's \<Rightarrow>
   (status \<times> 'c garbage_list \<times> 's \<times> 'c destroy_call list) res" where
  "push_rounds 0 E e cb ctx item gl s = Inl Spins"
| "push_rounds (Suc n) E e cb ctx item gl s =
     (let slot = gl_tail gl AND (gl_item_count gl - 1);
          gl1 = gl\<lparr>gl_tail := gl_tail gl + 1\<rparr>
      in rbind (round_bump E (gl_item_count gl) slot s) (\<lambda>s1.
           let it = gl_items gl1 ! unat slot; prior = removal_epoch it
           in rbind (guard (prior \<noteq> invalid_epoch) (RawCheck ''invalid priorItemEpoch'')) (\<lambda>_.
                if prior \<noteq> 0 \<and> \<not> ops_is_safe E prior s1 then push_rounds n E e cb ctx item gl1 s1
                else Inr (Status_OK, gl1\<lparr>gl_items := (gl_items gl1)[unat slot := new_item e cb ctx item]\<rparr>, s1,
                       if prior \<noteq> 0 then [destroy_call it] else []))))"

definition Push_unsafe ::
  "nat \<Rightarrow> 's epoch_ops \<Rightarrow> u64 \<Rightarrow> 'c \<Rightarrow> u64 \<Rightarrow> 'c garbage_list \<Rightarrow> 's \<Rightarrow>
   (status \<times> 'c garbage_list \<times> 's \<times> 'c destroy_call list) res" where
  "Push_unsafe fuel E item cb ctx gl s = push_rounds fuel E (ops_current E s) cb ctx item gl s"

text \<open>\<open>GarbageList::Push\<close>: the slot is one behind the tail, and a slot another thread is modifying is
  skipped.\<close>

fun push_rounds_shared ::
  "nat \<Rightarrow> 's epoch_ops \<Rightarrow> epoch \<Rightarrow> 'c \<Rightarrow> u64 \<Rightarrow> u64 \<Rightarrow> 'c garbage_list \<Rightarrow> 's \<Rightarrow>
   (status \<times> 'c garbage_list \<times> 's \<times> 'c destroy_call list) res" where
  "push_rounds_shared 0 E e cb ctx item gl s = Inl Spins"
| "push_rounds_shared (Suc n) E e cb ctx item gl s =
     (let slot = (gl_tail gl - 1) AND (gl_item_count gl - 1);
          gl1 = gl\<lparr>gl_tail := gl_tail gl + 1\<rparr>
      in rbind (round_bump E (gl_item_count gl) slot s) (\<lambda>s1.
           let it = gl_items gl1 ! unat slot; prior = removal_epoch it
           in if prior = invalid_epoch \<or> prior \<noteq> 0 \<and> \<not> ops_is_safe E prior s1
              then push_rounds_shared n E e cb ctx item gl1 s1
              else Inr (Status_OK, gl1\<lparr>gl_items := (gl_items gl1)[unat slot := new_item e cb ctx item]\<rparr>, s1,
                     if prior \<noteq> 0 then [destroy_call it] else [])))"

definition Push_shared ::
  "nat \<Rightarrow> 's epoch_ops \<Rightarrow> u64 \<Rightarrow> 'c \<Rightarrow> u64 \<Rightarrow> 'c garbage_list \<Rightarrow> 's \<Rightarrow>
   (status \<times> 'c garbage_list \<times> 's \<times> 'c destroy_call list) res" where
  "Push_shared fuel E item cb ctx gl s = push_rounds_shared fuel E (ops_current E s) cb ctx item gl s"

section \<open>Scavenge\<close>

text \<open>The loop over the slots, with the calls made and the number of slots reset.\<close>

fun scavenge_items ::
  "'s epoch_ops \<Rightarrow> 's \<Rightarrow> 'c gl_item list \<Rightarrow> 'c gl_item list \<times> 'c destroy_call list \<times> u32" where
  "scavenge_items E s [] = ([], [], 0)"
| "scavenge_items E s (it # its) =
     (let (its', calls, k) = scavenge_items E s its; prior = removal_epoch it
      in if prior = 0 \<or> prior = invalid_epoch \<or> \<not> ops_is_safe E prior s then (it # its', calls, k)
         else (empty_item # its', destroy_call it # calls, k + 1))"

definition Scavenge_unsafe ::
  "'s epoch_ops \<Rightarrow> 'c garbage_list \<Rightarrow> 's \<Rightarrow> u32 \<times> 'c garbage_list \<times> 'c destroy_call list" where
  "Scavenge_unsafe E gl s = (let (its, calls, k) = scavenge_items E s (gl_items gl) in (k, gl\<lparr>gl_items := its\<rparr>, calls))"

text \<open>\<open>GarbageList::Scavenge\<close>. A slot is taken with a compare-and-swap of its epoch; \<open>other slot\<close> is what other threads do to the
  slot between the read of the epoch and the compare-and-swap. The counter is returned as it was initialized.\<close>

fun scavenge_slots ::
  "(nat \<Rightarrow> 'c gl_item \<Rightarrow> 'c gl_item) \<Rightarrow> 's epoch_ops \<Rightarrow> 's \<Rightarrow> nat list \<Rightarrow> 'c gl_item list \<Rightarrow> u32 \<Rightarrow>
   'c gl_item list \<times> 'c destroy_call list \<times> u32" where
  "scavenge_slots other E s [] its scavenged = (its, [], scavenged)"
| "scavenge_slots other E s (slot # slots) its scavenged =
     (let prior = removal_epoch (its ! slot)
      in if prior = 0 \<or> prior = invalid_epoch then scavenge_slots other E s slots its scavenged
         else let its1 = its[slot := other slot (its ! slot)]; item = its1 ! slot
              in if removal_epoch item \<noteq> prior then scavenge_slots other E s slots its1 scavenged
                 else let its2 = its1[slot := item\<lparr>removal_epoch := invalid_epoch\<rparr>]
                      in if \<not> ops_is_safe E prior s
                         then scavenge_slots other E s slots (its2[slot := (its2 ! slot)\<lparr>removal_epoch := prior\<rparr>]) scavenged
                         else let (its', calls, k) = scavenge_slots other E s slots (its2[slot := empty_item]) scavenged
                              in (its', destroy_call (its2 ! slot) # calls, k))"

definition Scavenge_shared ::
  "(nat \<Rightarrow> 'c gl_item \<Rightarrow> 'c gl_item) \<Rightarrow> 's epoch_ops \<Rightarrow> 'c garbage_list \<Rightarrow> 's \<Rightarrow> u32 \<times> 'c garbage_list \<times> 'c destroy_call list" where
  "Scavenge_shared other E gl s =
     (let (its, calls, k) = scavenge_slots other E s [0..<length (gl_items gl)] (gl_items gl) 0
      in (k, gl\<lparr>gl_items := its\<rparr>, calls))"

section \<open>Invariant\<close>

definition wf_item :: "'c gl_item \<Rightarrow> bool" where
  "wf_item it \<longleftrightarrow> removal_epoch it \<noteq> invalid_epoch \<and> (removal_epoch it = 0 \<longleftrightarrow> removed_item it = 0) \<and>
     (removal_epoch it \<noteq> 0 \<longrightarrow> destroy_callback it \<noteq> None)"

definition wf_gl :: "'c garbage_list \<Rightarrow> bool" where
  "wf_gl gl \<longleftrightarrow> gl_epoch_manager gl \<noteq> None \<and> (\<exists>k < 64. gl_item_count gl = 2 ^ k \<and> length (gl_items gl) = 2 ^ k) \<and>
     list_all wf_item (gl_items gl)"

text \<open>The items on the list, as the calls that destroying them makes.\<close>

definition pending :: "'c garbage_list \<Rightarrow> 'c destroy_call list" where
  "pending gl = map destroy_call (filter (\<lambda>it. removal_epoch it \<noteq> 0) (gl_items gl))"

lemma GarbageList_Initialize_wf:
  assumes "gl_epoch_manager gl = None"
  shows "Status_ok (fst (GarbageList_Initialize mem_ok em n gl)) \<Longrightarrow>
    wf_gl (snd (GarbageList_Initialize mem_ok em n gl)) \<and> pending (snd (GarbageList_Initialize mem_ok em n gl)) = []"
proof -
  have "wf_item (empty_item :: 'a gl_item)" by (simp add: wf_item_def empty_item_def invalid_epoch_def)
  moreover have "IS_POWER_OF_TWO n \<Longrightarrow> \<exists>k < 64. n = 2 ^ k \<and> unat n = 2 ^ k"
    by (auto simp: IS_POWER_OF_TWO_iff unat_pow2)
  ultimately show "Status_ok (fst (GarbageList_Initialize mem_ok em n gl)) \<Longrightarrow> ?thesis"
    using assms by (auto simp: GarbageList_Initialize_def wf_gl_def pending_def list_all_length empty_item_def split: if_splits)
qed

lemma filter_update_mset:
  "i < length xs \<Longrightarrow> \<not> P (xs ! i) \<Longrightarrow> P x \<Longrightarrow>
     mset (map f (filter P (xs[i := x]))) = mset (map f (filter P xs)) + {#f x#}"
  "i < length xs \<Longrightarrow> P (xs ! i) \<Longrightarrow> P x \<Longrightarrow>
     mset (map f (filter P (xs[i := x]))) + {#f (xs ! i)#} = mset (map f (filter P xs)) + {#f x#}"
proof -
  assume i: "i < length xs"
  define ys zs a where "ys = take i xs" and "zs = drop (Suc i) xs" and "a = xs ! i"
  have x: "xs = ys @ a # zs" using id_take_nth_drop [OF i] by (simp add: ys_def zs_def a_def)
  have u: "xs[i := x] = ys @ x # zs" using upd_conv_take_nth_drop [OF i] by (simp add: ys_def zs_def)
  show "\<not> P (xs ! i) \<Longrightarrow> P x \<Longrightarrow> mset (map f (filter P (xs[i := x]))) = mset (map f (filter P xs)) + {#f x#}"
    unfolding u unfolding a_def [symmetric] by (simp add: x)
  show "P (xs ! i) \<Longrightarrow> P x \<Longrightarrow>
    mset (map f (filter P (xs[i := x]))) + {#f (xs ! i)#} = mset (map f (filter P xs)) + {#f x#}"
    unfolding u unfolding a_def [symmetric] by (simp add: x)
qed

text \<open>One slot of the ring is replaced by the new item; its old item, if any, is destroyed.\<close>

definition slot_taken ::
  "nat \<Rightarrow> 'c gl_item \<Rightarrow> 'c garbage_list \<Rightarrow> 'c garbage_list \<Rightarrow> 'c destroy_call list \<Rightarrow> bool" where
  "slot_taken i it gl gl' calls \<longleftrightarrow> i < length (gl_items gl) \<and> gl_items gl' = (gl_items gl)[i := it] \<and>
     gl_item_count gl' = gl_item_count gl \<and> gl_epoch_manager gl' = gl_epoch_manager gl \<and>
     calls = (if removal_epoch (gl_items gl ! i) \<noteq> 0 then [destroy_call (gl_items gl ! i)] else [])"

lemma slot_taken_wf:
  assumes "slot_taken i it gl gl' calls" and "wf_gl gl" and "wf_item it"
  shows "wf_gl gl'"
  using assms set_update_subset_insert [of "gl_items gl" i it]
  by (auto simp: slot_taken_def wf_gl_def list_all_iff)

lemma slot_taken_pending:
  assumes "slot_taken i it gl gl' calls" and "removal_epoch it \<noteq> 0"
  shows "mset (pending gl') + mset calls = mset (pending gl) + {#destroy_call it#}"
proof (cases "removal_epoch (gl_items gl ! i) = 0")
  case True
  then show ?thesis
    using assms filter_update_mset(1) [of i "gl_items gl" "\<lambda>it. removal_epoch it \<noteq> 0" it destroy_call]
    by (simp add: slot_taken_def pending_def)
next
  case False
  then show ?thesis
    using assms filter_update_mset(2) [of i "gl_items gl" "\<lambda>it. removal_epoch it \<noteq> 0" it destroy_call]
    by (simp add: slot_taken_def pending_def)
qed

definition ring_slot :: "'c garbage_list \<Rightarrow> nat \<Rightarrow> nat" where
  "ring_slot gl d = (unat (gl_tail gl) + d) mod length (gl_items gl)"

lemma ring_slot_0:
  "wf_gl gl \<Longrightarrow> unat (gl_tail gl AND (gl_item_count gl - 1)) = ring_slot gl 0"
  using and_mask_eq_mod [where x = "gl_tail gl"] by (auto simp: wf_gl_def ring_slot_def)

lemma ring_slot_Suc:
  assumes "wf_gl gl"
  shows "ring_slot (gl\<lparr>gl_tail := gl_tail gl + 1\<rparr>) d = ring_slot gl (Suc d)"
proof -
  obtain k where k: "k < 64" "length (gl_items gl) = 2 ^ k" using assms by (auto simp: wf_gl_def)
  have dvd: "(2::nat) ^ k dvd 2 ^ 64" using k(1) by (intro le_imp_power_dvd) simp
  have "unat (gl_tail gl + 1) = (unat (gl_tail gl) + 1) mod 2 ^ 64" by (simp add: unat_word_ariths)
  then have "(unat (gl_tail gl + 1) + d) mod 2 ^ k = ((unat (gl_tail gl) + 1) mod 2 ^ 64 mod 2 ^ k + d) mod 2 ^ k"
    by (simp only: mod_add_left_eq)
  also have "\<dots> = (unat (gl_tail gl) + Suc d) mod 2 ^ k"
    by (simp only: mod_mod_cancel [OF dvd] mod_add_left_eq) simp
  finally show ?thesis by (simp add: ring_slot_def k)
qed

lemma wf_gl_tail [simp]: "wf_gl (gl\<lparr>gl_tail := t\<rparr>) = wf_gl gl"
  by (simp add: wf_gl_def)

lemma slot_taken_tail [simp]: "slot_taken i it (gl\<lparr>gl_tail := t\<rparr>) gl' calls = slot_taken i it gl gl' calls"
  by (simp add: slot_taken_def)

section \<open>What the lists guarantee, from the laws of the epoch service\<close>

text \<open>A slot can be taken when it is empty or its item is safe.\<close>

definition takeable :: "(u64 \<Rightarrow> 's \<Rightarrow> bool) \<Rightarrow> 's \<Rightarrow> 'c gl_item \<Rightarrow> bool" where
  "takeable safe s it \<longleftrightarrow> removal_epoch it = 0 \<or> safe (removal_epoch it) s"

context epoch_service
begin

lemma round_bump_ok:
  assumes "ok (Suc n) s"
  shows "\<exists>s'. round_bump \<lparr>ops_current = current, ops_is_safe = is_safe, ops_bump = bump\<rparr> c slot s = Inr s' \<and>
    ok n s' \<and> (\<forall>e. is_safe e s \<longrightarrow> is_safe e s') \<and> (\<forall>e. holds e s' = holds e s)"
  using bump_ok [OF assms] ok_mono [OF assms, of n] by (auto simp: round_bump_def)

text \<open>If the slot \<open>d\<close> rounds ahead can be taken, the push ends within \<open>d + 1\<close> rounds, and the item it
  destroys is one no thread can hold.\<close>

lemma push_rounds_ends:
  "wf_gl gl \<Longrightarrow> ok n s \<Longrightarrow> d < fuel \<Longrightarrow> fuel \<le> n \<Longrightarrow>
   takeable is_safe s (gl_items gl ! ring_slot gl d) \<Longrightarrow>
   \<exists>i gl' s' calls.
     push_rounds fuel \<lparr>ops_current = current, ops_is_safe = is_safe, ops_bump = bump\<rparr> e cb ctx item gl s
       = Inr (Status_OK, gl', s', calls) \<and>
     slot_taken i (new_item e cb ctx item) gl gl' calls \<and> takeable is_safe s' (gl_items gl ! i) \<and>
     (\<exists>k. ok k s' \<and> n - fuel \<le> k) \<and> (\<forall>x. holds x s' = holds x s)"
proof (induction fuel arbitrary: gl n s d)
  case (Suc fuel)
  let ?E = "\<lparr>ops_current = current, ops_is_safe = is_safe, ops_bump = bump\<rparr>"
  obtain m where n: "n = Suc m" "fuel \<le> m" using Suc.prems(4) by (cases n) auto
  define slot where "slot = gl_tail gl AND (gl_item_count gl - 1)"
  define gl1 where "gl1 = gl\<lparr>gl_tail := gl_tail gl + 1\<rparr>"
  obtain s1 where s1: "round_bump ?E (gl_item_count gl) slot s = Inr s1" "ok m s1"
    "\<forall>e. is_safe e s \<longrightarrow> is_safe e s1" "\<forall>e. holds e s1 = holds e s"
    using round_bump_ok [of m s "gl_item_count gl" slot] Suc.prems(2) n by blast
  have u: "unat slot = ring_slot gl 0" using ring_slot_0 [OF Suc.prems(1)] by (simp add: slot_def)
  have len: "unat slot < length (gl_items gl)"
    using Suc.prems(1) by (auto simp: u ring_slot_def wf_gl_def)
  define it where "it = gl_items gl ! unat slot"
  have w: "removal_epoch it \<noteq> invalid_epoch"
    using Suc.prems(1) len by (simp add: wf_gl_def wf_item_def it_def list_all_length)
  have step: "push_rounds (Suc fuel) ?E e cb ctx item gl s =
      (if \<not> takeable is_safe s1 it then push_rounds fuel ?E e cb ctx item gl1 s1
       else Inr (Status_OK, gl1\<lparr>gl_items := (gl_items gl)[unat slot := new_item e cb ctx item]\<rparr>, s1,
         if removal_epoch it \<noteq> 0 then [destroy_call it] else []))"
    using s1(1) w unfolding slot_def it_def
    by (simp add: gl1_def takeable_def slot_def [symmetric] it_def [symmetric])
  show ?case
  proof (cases "takeable is_safe s1 it")
    case True
    then show ?thesis
      using step len s1 n by (intro exI [of _ "unat slot"]) (auto simp: slot_taken_def it_def gl1_def)
  next
    case False
    then obtain d' where d: "d = Suc d'"
      using Suc.prems(5) s1(3) u by (cases d) (auto simp: takeable_def it_def)
    have "takeable is_safe s1 (gl_items gl1 ! ring_slot gl1 d')"
      using Suc.prems(5) s1(3) ring_slot_Suc [OF Suc.prems(1)] by (auto simp: d gl1_def takeable_def)
    moreover have "wf_gl gl1" "d' < fuel" using Suc.prems(1,3) d by (simp_all add: gl1_def)
    ultimately obtain i gl' s' calls where r: "push_rounds fuel ?E e cb ctx item gl1 s1 = Inr (Status_OK, gl', s', calls)"
      "slot_taken i (new_item e cb ctx item) gl1 gl' calls" "takeable is_safe s' (gl_items gl1 ! i)"
      "\<exists>k. ok k s' \<and> m - fuel \<le> k" "\<forall>x. holds x s' = holds x s1"
      using Suc.IH [of gl1 m s1 d'] s1(2) n(2) by blast
    then show ?thesis
      using step False s1(4) n by (intro exI [of _ i] exI [of _ gl'] exI [of _ s'] exI [of _ calls]) (auto simp: gl1_def)
  qed
qed simp

text \<open>A scavenge destroys exactly the safe items and keeps the others where they are.\<close>

lemma scavenge_items_spec:
  "list_all wf_item its \<Longrightarrow> length its < 2 ^ 31 \<Longrightarrow>
   scavenge_items \<lparr>ops_current = current, ops_is_safe = is_safe, ops_bump = bump\<rparr> s its =
     (map (\<lambda>it. if removal_epoch it \<noteq> 0 \<and> is_safe (removal_epoch it) s then empty_item else it) its,
      map destroy_call (filter (\<lambda>it. removal_epoch it \<noteq> 0 \<and> is_safe (removal_epoch it) s) its),
      of_nat (length (filter (\<lambda>it. removal_epoch it \<noteq> 0 \<and> is_safe (removal_epoch it) s) its)))"
  by (induction its) (auto simp: wf_item_def Let_def)

end

lemma wf_new_item: "e \<noteq> 0 \<Longrightarrow> e \<noteq> invalid_epoch \<Longrightarrow> item \<noteq> 0 \<Longrightarrow> wf_item (new_item e cb ctx item)"
  by (simp add: wf_item_def new_item_def)

lemma ring_slot_onto:
  assumes "j < length (gl_items gl)"
  shows "\<exists>d < length (gl_items gl). ring_slot gl d = j"
proof -
  let ?n = "length (gl_items gl)"
  define r where "r = unat (gl_tail gl) mod ?n"
  have n: "0 < ?n" using assms by linarith
  have r: "r < ?n" unfolding r_def by (rule mod_less_divisor [OF n])
  have "(unat (gl_tail gl) + (j + (?n - r)) mod ?n) mod ?n = (r + (j + (?n - r))) mod ?n"
    unfolding r_def by (simp only: mod_add_eq mod_add_right_eq mod_add_left_eq)
  also have "r + (j + (?n - r)) = j + ?n" using r by linarith
  finally have "(unat (gl_tail gl) + (j + (?n - r)) mod ?n) mod ?n = j" using assms by simp
  then show ?thesis
    using mod_less_divisor [OF n] by (intro exI [of _ "(j + (?n - r)) mod ?n"]) (simp add: ring_slot_def)
qed

section \<open>Properties\<close>

text \<open>C27. \<open>GarbageListUnsafe::Push\<close> ends within one turn of the ring whenever some slot is empty or holds an
  item that is safe to reclaim. It then keeps the list well formed, neither loses an item nor destroys
  one twice (destroyed and remaining items together grow by the pushed one), and destroys only an
  item that no protected thread can still hold.\<close>

theorem push_terminates_and_reclaims_safely:
  assumes "wf_gl gl" and "epoch_ok m n w" and "length (gl_items gl) \<le> n" and "item \<noteq> 0"
    and "\<exists>it \<in> set (gl_items gl). takeable (IsSafeToReclaim m) w it"
  shows "\<exists>gl' w' calls.
    Push_unsafe (length (gl_items gl)) (manager_ops m) item cb ctx gl w = Inr (Status_OK, gl', w', calls) \<and>
    wf_gl gl' \<and> mgr_inv m w' \<and>
    mset (pending gl') + mset calls = mset (pending gl) + {#(Some cb, ctx, item)#} \<and>
    (\<forall>c \<in> set calls. \<exists>it \<in> set (gl_items gl). c = destroy_call it \<and> \<not> may_hold m (removal_epoch it) w)"
proof -
  obtain j where j: "j < length (gl_items gl)" "takeable (IsSafeToReclaim m) w (gl_items gl ! j)"
    using assms(5) by (auto simp: in_set_conv_nth)
  obtain d where d: "d < length (gl_items gl)" "ring_slot gl d = j" using ring_slot_onto [OF j(1)] by blast
  define e where "e = GetCurrentEpoch m w"
  obtain i gl' w' calls where r:
    "push_rounds (length (gl_items gl)) (manager_ops m) e cb ctx item gl w = Inr (Status_OK, gl', w', calls)"
    "slot_taken i (new_item e cb ctx item) gl gl' calls" "takeable (IsSafeToReclaim m) w' (gl_items gl ! i)"
    "\<exists>k. epoch_ok m k w'" "\<forall>x. may_hold m x w' = may_hold m x w"
    using em.push_rounds_ends [OF assms(1,2) d(1) assms(3), of e cb ctx item] j(2) d(2)
    unfolding manager_ops_def by metis
  have e: "e \<noteq> 0" "e \<noteq> invalid_epoch"
    using em.current_epoch [OF assms(2)] by (simp_all add: e_def invalid_epoch_def)
  have p: "Push_unsafe (length (gl_items gl)) (manager_ops m) item cb ctx gl w = Inr (Status_OK, gl', w', calls)"
    using r(1) by (simp add: Push_unsafe_def e_def manager_ops_def)
  have "\<forall>c \<in> set calls. \<exists>it \<in> set (gl_items gl). c = destroy_call it \<and> \<not> may_hold m (removal_epoch it) w"
    using r(2,3,5) r(4) em.safe_not_held by (fastforce simp: slot_taken_def takeable_def)
  moreover have "mgr_inv m w'" using r(4) by (auto simp: epoch_ok_def)
  ultimately show ?thesis
    using p slot_taken_wf [OF r(2) assms(1) wf_new_item [OF e assms(4)]] slot_taken_pending [OF r(2)] e
    by (auto simp: new_item_def destroy_call_def)
qed

definition gl0 :: "unit garbage_list" where
  "gl0 = snd (GarbageList_Initialize True (Some 0) 4 GarbageList_new)"

lemma gl0_eq: "gl0 = \<lparr>gl_epoch_manager = Some 0, gl_tail = 0, gl_item_count = 4, gl_items = replicate 4 empty_item\<rparr>"
  by (simp add: gl0_def GarbageList_Initialize_def GarbageList_new_def IS_POWER_OF_TWO_def)

lemma gl0_wf: "wf_gl gl0"
  unfolding wf_gl_def gl0_eq
  by (auto intro!: exI [of _ 2] simp: wf_item_def empty_item_def invalid_epoch_def list_all_length)

theorem push_terminates_and_reclaims_safely_witness:
  "\<exists>gl' w' calls. Push_unsafe 4 (manager_ops 0) 64 () 0 gl0 world0 = Inr (Status_OK, gl', w', calls) \<and>
     mset (pending gl') + mset calls = {#(Some (), 0, 64)#}"
proof -
  have "epoch_ok 0 4 world0" using world0_inv world0_epoch by (simp add: epoch_ok_def GetCurrentEpoch_def)
  moreover have "\<exists>it \<in> set (gl_items gl0). takeable (IsSafeToReclaim 0) world0 it"
    by (simp add: gl0_eq takeable_def empty_item_def)
  moreover have "pending gl0 = []" by (simp add: gl0_eq pending_def empty_item_def)
  ultimately show ?thesis
    using push_terminates_and_reclaims_safely [OF gl0_wf, of 0 4 world0 64 "()" 0] by (auto simp: gl0_eq)
qed

text \<open>C28. \<open>GarbageListUnsafe::Scavenge\<close> destroys exactly the items whose epoch is safe to reclaim, in slot
  order and once each, empties their slots, leaves the other slots alone, and returns the number of items
  it destroyed.\<close>

theorem scavenge_exact:
  fixes w :: epoch_world and m :: nat and gl :: "'c garbage_list"
  assumes "wf_gl gl" and "length (gl_items gl) < 2 ^ 31"
  defines "ready \<equiv> filter (\<lambda>it. removal_epoch it \<noteq> 0 \<and> IsSafeToReclaim m (removal_epoch it) w) (gl_items gl)"
  shows "Scavenge_unsafe (manager_ops m) gl w =
    (of_nat (length ready),
     gl\<lparr>gl_items := map (\<lambda>it. if removal_epoch it \<noteq> 0 \<and> IsSafeToReclaim m (removal_epoch it) w
                             then empty_item else it) (gl_items gl)\<rparr>,
     map destroy_call ready)"
  using em.scavenge_items_spec [of "gl_items gl" m w] assms(1,2)
  by (simp add: Scavenge_unsafe_def manager_ops_def wf_gl_def ready_def)

theorem scavenge_exact_witness:
  "Scavenge_unsafe (manager_ops 0) (gl0\<lparr>gl_items := [empty_item, new_item 1 () 0 64, new_item 2 () 0 128, empty_item]\<rparr>)
     (set_mgr 0 (new_manager\<lparr>safe_to_reclaim_epoch := 1\<rparr>) world0) =
   (1, gl0\<lparr>gl_items := [empty_item, empty_item, new_item 2 () 0 128, empty_item]\<rparr>, [(Some (), 0, 64)])"
proof -
  have "wf_gl (gl0\<lparr>gl_items := [empty_item, new_item 1 () 0 64, new_item 2 () 0 128, empty_item]\<rparr>)"
    unfolding wf_gl_def gl0_eq
    by (auto intro!: exI [of _ 2] simp: wf_item_def empty_item_def new_item_def invalid_epoch_def)
  note eq = scavenge_exact [OF this, where m = 0 and w = "set_mgr 0 (new_manager\<lparr>safe_to_reclaim_epoch := 1\<rparr>) world0"]
  have n: "\<not> (2::u64) \<le> 1" by (simp add: word_le_nat_alt)
  from eq show ?thesis by (simp add: n IsSafeToReclaim_def empty_item_def new_item_def destroy_call_def)
qed

section \<open>The shared list\<close>

text \<open>Whatever other threads do, \<open>GarbageList::Scavenge\<close> reports zero.\<close>

lemma scavenge_slots_count: "snd (snd (scavenge_slots other E s slots its k)) = k"
  by (induction other E s slots its k rule: scavenge_slots.induct) (auto simp: Let_def split: prod.splits)

lemma shared_scavenge_reports_zero: "fst (Scavenge_shared other E gl s) = 0"
  using scavenge_slots_count [of other E s "[0..<length (gl_items gl)]" "gl_items gl" 0]
  by (simp add: Scavenge_shared_def case_prod_beta)

text \<open>Undisturbed, it makes the same destroy calls as \<open>GarbageListUnsafe::Scavenge\<close> and leaves the same list.\<close>

lemma scavenge_slots_quiet:
  "scavenge_slots (\<lambda>_ it. it) E s [length xs..<length xs + length ys] (xs @ ys) k =
     (case scavenge_items E s ys of (its, calls, _) \<Rightarrow> (xs @ its, calls, k))"
proof (induction ys arbitrary: xs)
  case (Cons y ys)
  have u: "[length xs..<length xs + length (y # ys)] = length xs # [length (xs @ [z])..<length (xs @ [z]) + length ys]" for z
    by (simp add: upt_conv_Cons del: upt_Suc)
  have d: "destroy_call (y\<lparr>removal_epoch := e\<rparr>) = destroy_call y" for e by (simp add: destroy_call_def)
  note IH = Cons.IH [of "xs @ [y]"] Cons.IH [of "xs @ [empty_item]"]
  show ?case
    unfolding u [of y] using IH by (auto simp: Let_def d list_update_append split: prod.splits)
qed simp

lemma shared_scavenge_quiet: "snd (Scavenge_shared (\<lambda>_ it. it) E gl s) = snd (Scavenge_unsafe E gl s)"
  using scavenge_slots_quiet [of E s "[]" "gl_items gl" 0]
  by (simp add: Scavenge_shared_def Scavenge_unsafe_def case_prod_beta)

end
