(* ===== verification/Metrics.thy ===== *)
theory Metrics
  imports Library
begin

text \<open>
  Per-thread statistics: \<open>CoreLocal\<close> (\<open>util/core_local.h\<close>) and \<open>MwCASMetrics\<close>
  (\<open>mwcas/metrics.h\<close>). A \<open>CoreLocal\<close> of pointers allocates one cache line per core but indexes the
  block as an array of 8-byte pointers, so the block has room for eight pointers per core, of which
  \<open>MyObject\<close> accepts the first \<open>core_count\<close>. The objects are pointers to counters: null or the counters
  themselves, since no two slots share them.
\<close>

record metrics =
  succeeded_update_count :: u64
  failed_update_count :: u64
  read_count :: u64
  descriptor_scavenge_count :: u64
  help_attempt_count :: u64
  bailed_help_count :: u64
  descriptor_alloc_count :: u64

definition new_metrics :: metrics where
  "new_metrics = \<lparr>succeeded_update_count = 0, failed_update_count = 0, read_count = 0,
     descriptor_scavenge_count = 0, help_attempt_count = 0, bailed_help_count = 0, descriptor_alloc_count = 0\<rparr>"

definition metrics_add :: "metrics \<Rightarrow> metrics \<Rightarrow> metrics" where
  "metrics_add a b = \<lparr>succeeded_update_count = succeeded_update_count a + succeeded_update_count b,
     failed_update_count = failed_update_count a + failed_update_count b,
     read_count = read_count a + read_count b,
     descriptor_scavenge_count = descriptor_scavenge_count a + descriptor_scavenge_count b,
     help_attempt_count = help_attempt_count a + help_attempt_count b,
     bailed_help_count = bailed_help_count a + bailed_help_count b,
     descriptor_alloc_count = descriptor_alloc_count a + descriptor_alloc_count b\<rparr>"

definition metrics_sub :: "metrics \<Rightarrow> metrics \<Rightarrow> metrics" where
  "metrics_sub a b = \<lparr>succeeded_update_count = succeeded_update_count a - succeeded_update_count b,
     failed_update_count = failed_update_count a - failed_update_count b,
     read_count = read_count a - read_count b,
     descriptor_scavenge_count = descriptor_scavenge_count a - descriptor_scavenge_count b,
     help_attempt_count = help_attempt_count a - help_attempt_count b,
     bailed_help_count = bailed_help_count a - bailed_help_count b,
     descriptor_alloc_count = descriptor_alloc_count a - descriptor_alloc_count b\<rparr>"

definition GetUpdateAttemptCount :: "metrics \<Rightarrow> u64" where
  "GetUpdateAttemptCount m = succeeded_update_count m + failed_update_count m"

section \<open>CoreLocal\<close>

record 'a core_local =
  objects :: "'a option list option"
  core_count :: nat
  next_free_object :: u32
  my_idx :: "u64 \<Rightarrow> u32 option"

definition new_core_local :: "'a core_local" where
  "new_core_local = \<lparr>objects = None, core_count = 0, next_free_object = 0, my_idx = \<lambda>_. None\<rparr>"

definition CoreLocal_Initialize :: "bool \<Rightarrow> nat \<Rightarrow> 'a core_local \<Rightarrow> (status \<times> 'a core_local) res" where
  "CoreLocal_Initialize mem_ok cores c =
     rbind (guard (objects c = None) (RawCheck ''already initialized'')) (\<lambda>_.
     rbind (guard (cores \<noteq> 0) (RawCheck ''invalid core count'')) (\<lambda>_.
       let c1 = c\<lparr>core_count := cores\<rparr>
       in if \<not> mem_ok then Inr (Status_code kOutOfMemory, c1)
          else Inr (Status_OK, c1\<lparr>objects := Some (replicate (8 * cores) None)\<rparr>)))"

definition CoreLocal_Uninitialize :: "'a core_local \<Rightarrow> status \<times> 'a core_local" where
  "CoreLocal_Uninitialize c =
     (if objects c = None then (Corruption ''not initialized?'', c)
      else (Status_OK, c\<lparr>objects := None, next_free_object := 0\<rparr>))"

text \<open>\<open>MyObject\<close> returns the index of the calling thread's slot; only a remembered index is checked
  against the core count. Before \<open>Initialize\<close>, the bound of that check is below the null pointer and wraps around.\<close>

definition MyObject :: "u64 \<Rightarrow> 'a core_local \<Rightarrow> (nat \<times> 'a core_local) res" where
  "MyObject tid c =
     (let fresh = Inr (unat (next_free_object c), c\<lparr>next_free_object := next_free_object c + 1,
                         my_idx := (my_idx c)(tid := Some (next_free_object c))\<rparr>)
      in case my_idx c tid of
           None \<Rightarrow> fresh
         | Some i \<Rightarrow>
             if objects c = None \<and> i = 0 then fresh
             else rbind (guard (objects c = None \<and> core_count c = 0 \<or> unat i + 1 \<le> core_count c) (RawCheck ''invalid tls value'')) (\<lambda>_. Inr (unat i, c)))"

definition NumberOfObjects :: "'a core_local \<Rightarrow> nat" where
  "NumberOfObjects c = unat (next_free_object c)"

definition read_object :: "nat \<Rightarrow> 'a core_local \<Rightarrow> 'a option res" where
  "read_object i c = (case objects c of None \<Rightarrow> Inl (BadAccess ''null objects_'')
     | Some os \<Rightarrow> if i < length os then Inr (os ! i) else Inl (BadAccess ''objects_ out of bounds''))"

definition write_object :: "nat \<Rightarrow> 'a option \<Rightarrow> 'a core_local \<Rightarrow> 'a core_local res" where
  "write_object i x c = (case objects c of None \<Rightarrow> Inl (BadAccess ''null objects_'')
     | Some os \<Rightarrow> if i < length os then Inr (c\<lparr>objects := Some (os[i := x])\<rparr>)
                  else Inl (BadAccess ''objects_ out of bounds''))"

section \<open>MwCASMetrics\<close>

record metrics_state =
  enabled :: bool
  instance_cl :: "metrics core_local"

definition Metrics_Initialize :: "bool \<Rightarrow> nat \<Rightarrow> metrics_state \<Rightarrow> (status \<times> metrics_state) res" where
  "Metrics_Initialize mem_ok cores ms =
     (if enabled ms then rbind (CoreLocal_Initialize mem_ok cores (instance_cl ms)) (\<lambda>(_, c).
        Inr (Status_OK, ms\<lparr>instance_cl := c\<rparr>))
      else Inr (Status_OK, ms))"

definition Metrics_Uninitialize :: "metrics_state \<Rightarrow> status \<times> metrics_state" where
  "Metrics_Uninitialize ms =
     (if enabled ms then let (s, c) = CoreLocal_Uninitialize (instance_cl ms) in (s, ms\<lparr>instance_cl := c\<rparr>)
      else (Status_OK, ms))"

definition ThreadInitialize :: "bool \<Rightarrow> u64 \<Rightarrow> metrics_state \<Rightarrow> (status \<times> metrics_state) res" where
  "ThreadInitialize mem_ok tid ms =
     (if \<not> enabled ms then Inr (Status_OK, ms)
      else if \<not> mem_ok then Inr (Status_code kOutOfMemory, ms)
      else rbind (MyObject tid (instance_cl ms)) (\<lambda>(i, c).
             rbind (write_object i (Some new_metrics) c) (\<lambda>c'. Inr (Status_OK, ms\<lparr>instance_cl := c'\<rparr>))))"

text \<open>The \<open>Add\<close> functions differ only in the counter they increment.\<close>

definition bump_metric :: "(metrics \<Rightarrow> metrics) \<Rightarrow> u64 \<Rightarrow> metrics_state \<Rightarrow> metrics_state res" where
  "bump_metric inc tid ms =
     (if \<not> enabled ms then Inr ms
      else rbind (MyObject tid (instance_cl ms)) (\<lambda>(i, c).
             rbind (read_object i c) (\<lambda>obj.
               case obj of None \<Rightarrow> Inl (BadAccess ''null MwCASMetrics'')
               | Some m \<Rightarrow> rbind (write_object i (Some (inc m)) c) (\<lambda>c'. Inr (ms\<lparr>instance_cl := c'\<rparr>)))))"

definition AddRead :: "u64 \<Rightarrow> metrics_state \<Rightarrow> metrics_state res" where
  "AddRead = bump_metric (\<lambda>m. m\<lparr>read_count := read_count m + 1\<rparr>)"

definition AddSucceededUpdate :: "u64 \<Rightarrow> metrics_state \<Rightarrow> metrics_state res" where
  "AddSucceededUpdate = bump_metric (\<lambda>m. m\<lparr>succeeded_update_count := succeeded_update_count m + 1\<rparr>)"

definition AddFailedUpdate :: "u64 \<Rightarrow> metrics_state \<Rightarrow> metrics_state res" where
  "AddFailedUpdate = bump_metric (\<lambda>m. m\<lparr>failed_update_count := failed_update_count m + 1\<rparr>)"

definition AddDescriptorScavenge :: "u64 \<Rightarrow> metrics_state \<Rightarrow> metrics_state res" where
  "AddDescriptorScavenge = bump_metric (\<lambda>m. m\<lparr>descriptor_scavenge_count := descriptor_scavenge_count m + 1\<rparr>)"

definition AddHelpAttempt :: "u64 \<Rightarrow> metrics_state \<Rightarrow> metrics_state res" where
  "AddHelpAttempt = bump_metric (\<lambda>m. m\<lparr>help_attempt_count := help_attempt_count m + 1\<rparr>)"

definition AddBailedHelp :: "u64 \<Rightarrow> metrics_state \<Rightarrow> metrics_state res" where
  "AddBailedHelp = bump_metric (\<lambda>m. m\<lparr>bailed_help_count := bailed_help_count m + 1\<rparr>)"

definition AddDescriptorAlloc :: "u64 \<Rightarrow> metrics_state \<Rightarrow> metrics_state res" where
  "AddDescriptorAlloc = bump_metric (\<lambda>m. m\<lparr>descriptor_alloc_count := descriptor_alloc_count m + 1\<rparr>)"

fun sum_objects :: "nat \<Rightarrow> metrics core_local \<Rightarrow> metrics \<Rightarrow> metrics res" where
  "sum_objects 0 c acc = Inr acc"
| "sum_objects (Suc i) c acc = rbind (sum_objects i c acc) (\<lambda>acc'.
     rbind (read_object i c) (\<lambda>obj. case obj of None \<Rightarrow> Inl (BadAccess ''null MwCASMetrics'')
       | Some m \<Rightarrow> Inr (metrics_add acc' m)))"

definition Sum :: "metrics_state \<Rightarrow> metrics \<Rightarrow> metrics res" where
  "Sum ms acc = (if enabled ms then sum_objects (NumberOfObjects (instance_cl ms)) (instance_cl ms) acc else Inr acc)"

lemmas metric_defs = AddRead_def AddSucceededUpdate_def AddFailedUpdate_def AddDescriptorScavenge_def
  AddHelpAttempt_def AddBailedHelp_def AddDescriptorAlloc_def

lemma bump_disabled [simp]: "\<not> enabled ms \<Longrightarrow> bump_metric inc tid ms = Inr ms"
  by (simp add: bump_metric_def)

section \<open>Summation\<close>

text \<open>Every registered thread has counters in its own slot.\<close>

definition metrics_inv :: "metrics_state \<Rightarrow> bool" where
  "metrics_inv ms \<longleftrightarrow> enabled ms \<and> (\<exists>os. objects (instance_cl ms) = Some os \<and>
     NumberOfObjects (instance_cl ms) \<le> core_count (instance_cl ms) \<and>
     core_count (instance_cl ms) \<le> length os \<and>
     (\<forall>i < NumberOfObjects (instance_cl ms). os ! i \<noteq> None) \<and>
     (\<forall>tid i. my_idx (instance_cl ms) tid = Some i \<longrightarrow> unat i < NumberOfObjects (instance_cl ms)))"

lemma metrics_eqI:
  "succeeded_update_count a = succeeded_update_count b \<Longrightarrow> failed_update_count a = failed_update_count b \<Longrightarrow>
   read_count a = read_count b \<Longrightarrow> descriptor_scavenge_count a = descriptor_scavenge_count b \<Longrightarrow>
   help_attempt_count a = help_attempt_count b \<Longrightarrow> bailed_help_count a = bailed_help_count b \<Longrightarrow>
   descriptor_alloc_count a = descriptor_alloc_count b \<Longrightarrow> a = (b :: metrics)"
  by (cases a; cases b) simp

lemma metrics_add_assoc: "metrics_add (metrics_add a b) c = metrics_add a (metrics_add b c)"
  by (rule metrics_eqI) (simp_all add: metrics_add_def)

lemma metrics_add_commute: "metrics_add a b = metrics_add b a"
  by (rule metrics_eqI) (simp_all add: metrics_add_def)

lemma metrics_sub_add: "metrics_sub (metrics_add a b) b = a"
  by (rule metrics_eqI) (simp_all add: metrics_add_def metrics_sub_def)

text \<open>Changing one slot by adding \<open>d\<close> changes the sum by \<open>d\<close>.\<close>

lemma sum_objects_total:
  assumes "objects c = Some os" and "n \<le> length os" and "\<forall>i < n. os ! i \<noteq> None"
  shows "\<exists>t. sum_objects n c acc = Inr t"
  using assms by (induction n) (auto simp: read_object_def)

lemma sum_objects_update:
  assumes "objects c = Some os" and "n \<le> length os" and "\<forall>i < n. os ! i \<noteq> None" and "os ! j = Some m"
    and "sum_objects n c acc = Inr t"
  shows "sum_objects n (c\<lparr>objects := Some (os[j := Some (metrics_add m d)])\<rparr>) acc =
    Inr (if j < n then metrics_add t d else t)"
  using assms
proof (induction n arbitrary: t)
  case (Suc n)
  obtain t' where t': "sum_objects n c acc = Inr t'" using sum_objects_total [OF Suc.prems(1)] Suc.prems(2,3) by fastforce
  obtain x where x: "os ! n = Some x" using Suc.prems(3) by blast
  have t: "t = metrics_add t' x" using Suc.prems(1,2,5) t' x by (simp add: read_object_def)
  have ih: "sum_objects n (c\<lparr>objects := Some (os[j := Some (metrics_add m d)])\<rparr>) acc =
      Inr (if j < n then metrics_add t' d else t')"
    using Suc.IH [OF Suc.prems(1) _ _ Suc.prems(4) t'] Suc.prems(2,3) by simp
  show ?case
  proof (cases "j = n")
    case True
    then have "x = m" using Suc.prems(4) x by simp
    with True show ?thesis using ih Suc.prems(2) by (simp add: read_object_def t metrics_add_assoc)
  next
    case False
    have "metrics_add (metrics_add t' d) x = metrics_add t d"
      using metrics_add_assoc metrics_add_commute t by metis
    then show ?thesis using ih False Suc.prems(2) x by (simp add: read_object_def t)
  qed
qed simp

lemma bump_metric_sum:
  assumes inv: "metrics_inv ms" and idx: "my_idx (instance_cl ms) tid = Some i"
    and inc: "\<And>m. inc m = metrics_add m d" and t: "Sum ms acc = Inr t"
  shows "\<exists>ms'. bump_metric inc tid ms = Inr ms' \<and> metrics_inv ms' \<and> Sum ms' acc = Inr (metrics_add t d)"
proof -
  let ?c = "instance_cl ms"
  obtain os where os: "objects ?c = Some os" "NumberOfObjects ?c \<le> core_count ?c" "core_count ?c \<le> length os"
    "\<forall>i < NumberOfObjects ?c. os ! i \<noteq> None" "unat i < NumberOfObjects ?c" and e: "enabled ms"
    using inv idx by (auto simp: metrics_inv_def)
  obtain m where m: "os ! unat i = Some m" using os(4,5) by blast
  define c' where "c' = ?c\<lparr>objects := Some (os[unat i := Some (metrics_add m d)])\<rparr>"
  have b: "bump_metric inc tid ms = Inr (ms\<lparr>instance_cl := c'\<rparr>)"
    using os e idx m inc
    by (simp add: bump_metric_def MyObject_def read_object_def write_object_def c'_def)
  have s: "sum_objects (NumberOfObjects ?c) c' acc = Inr (metrics_add t d)"
    using sum_objects_update [OF os(1) _ os(4) m, of acc t d] os t e unfolding c'_def
    by (simp add: Sum_def)
  have "\<forall>j < NumberOfObjects ?c. os[unat i := Some (metrics_add m d)] ! j \<noteq> None"
    using os by (auto simp: nth_list_update_if)
  then have "metrics_inv (ms\<lparr>instance_cl := c'\<rparr>)"
    using inv os(1) unfolding metrics_inv_def by (simp add: c'_def NumberOfObjects_def)
  then show ?thesis using b s e by (simp add: Sum_def c'_def NumberOfObjects_def)
qed

section \<open>Properties\<close>

text \<open>C33. Recording an event adds exactly one to that counter of the process-wide sum and nothing to the
  others: for a registered thread \<open>AddSucceededUpdate\<close> succeeds and \<open>Sum\<close> afterwards is the former sum
  plus one succeeded update.\<close>

theorem succeeded_update_counted_once:
  assumes "metrics_inv ms" and "my_idx (instance_cl ms) tid = Some i" and "Sum ms acc = Inr t"
  shows "\<exists>ms'. AddSucceededUpdate tid ms = Inr ms' \<and> metrics_inv ms' \<and>
    Sum ms' acc = Inr (t\<lparr>succeeded_update_count := succeeded_update_count t + 1\<rparr>)"
proof -
  let ?d = "new_metrics\<lparr>succeeded_update_count := 1\<rparr>"
  have inc: "m\<lparr>succeeded_update_count := succeeded_update_count m + 1\<rparr> = metrics_add m ?d" for m
    by (rule metrics_eqI) (simp_all add: metrics_add_def new_metrics_def)
  show ?thesis
    unfolding AddSucceededUpdate_def inc [of t]
    by (rule bump_metric_sum [OF assms(1,2) _ assms(3)]) (rule inc)
qed

definition metrics0 :: metrics_state where
  "metrics0 = \<lparr>enabled = True, instance_cl = \<lparr>objects = Some (Some new_metrics # replicate 15 None), core_count = 2,
     next_free_object = 1, my_idx = (\<lambda>_. None)(7 := Some 0)\<rparr>\<rparr>"

theorem succeeded_update_counted_once_witness:
  "\<exists>ms'. AddSucceededUpdate 7 metrics0 = Inr ms' \<and>
     Sum ms' new_metrics = Inr (new_metrics\<lparr>succeeded_update_count := 1\<rparr>)"
proof -
  have "metrics_inv metrics0"
    by (auto simp: metrics_inv_def metrics0_def NumberOfObjects_def split: if_splits)
  moreover have "my_idx (instance_cl metrics0) 7 = Some 0" by (simp add: metrics0_def)
  moreover have "Sum metrics0 new_metrics = Inr new_metrics"
    by (simp add: Sum_def metrics0_def NumberOfObjects_def read_object_def numeral_eq_Suc metrics_add_def new_metrics_def)
  ultimately show ?thesis
    using succeeded_update_counted_once [of metrics0 7 0 new_metrics new_metrics] by (auto simp: new_metrics_def)
qed

text \<open>C34. A thread that asks for its slot when all \<open>core_count\<close> slots are handed out gets one beyond them the
  first time, and aborts the process the next time: the counters support at most \<open>core_count\<close> threads.\<close>

theorem thread_beyond_core_count_aborts:
  assumes "my_idx c tid = None" and "objects c \<noteq> None" and "core_count c \<le> unat (next_free_object c)"
  shows "\<exists>c'. MyObject tid c = Inr (unat (next_free_object c), c') \<and>
    MyObject tid c' = Inl (RawCheck ''invalid tls value'')"
  using assms by (auto simp: MyObject_def Let_def guard_def)

theorem thread_beyond_core_count_aborts_witness:
  "\<exists>c'. MyObject 9 ((instance_cl metrics0)\<lparr>core_count := 1\<rparr>) = Inr (1, c') \<and>
     MyObject 9 c' = Inl (RawCheck ''invalid tls value'')"
  using thread_beyond_core_count_aborts [of "(instance_cl metrics0)\<lparr>core_count := 1\<rparr>" 9] by (simp add: metrics0_def)

end
