(* ===== verification/MwWord.thy ===== *)
theory MwWord
  imports Prelude
begin

text \<open>
  The encoding of a target word of a multi-word compare-and-swap (\<open>mwcas/mwcas.h\<close>): the three most
  significant bits say whether the word holds a pointer to an \<open>MwCAS\<close> descriptor (bit 63), a pointer to
  a word descriptor of a conditional CAS (bit 62), and whether its content may not have been
  persisted (bit 61). A status word uses its bit 31 in the same way.
\<close>

definition kDirtyFlag :: u64 where "kDirtyFlag = push_bit 61 1"
definition kCondCASFlag :: u64 where "kCondCASFlag = push_bit 62 1"
definition kMwCASFlag :: u64 where "kMwCASFlag = push_bit 63 1"
definition kStatusDirtyFlag :: u32 where "kStatusDirtyFlag = push_bit 31 1"
definition kNewValueReserved :: u64 where "kNewValueReserved = NOT 0"
definition kAllocNullAddress :: u64 where "kAllocNullAddress = 0"

definition IsMwCASDescriptorPtr :: "u64 \<Rightarrow> bool" where
  "IsMwCASDescriptorPtr v \<longleftrightarrow> v AND kMwCASFlag \<noteq> 0"

definition IsCondCASDescriptorPtr :: "u64 \<Rightarrow> bool" where
  "IsCondCASDescriptorPtr v \<longleftrightarrow> v AND kCondCASFlag \<noteq> 0"

definition IsDirtyPtr :: "u64 \<Rightarrow> bool" where
  "IsDirtyPtr v \<longleftrightarrow> v AND kDirtyFlag \<noteq> 0"

definition IsCleanPtr :: "u64 \<Rightarrow> bool" where
  "IsCleanPtr v \<longleftrightarrow> v AND (kCondCASFlag OR kMwCASFlag OR kDirtyFlag) = 0"

definition CleanPtr :: "u64 \<Rightarrow> u64" where
  "CleanPtr v = v AND NOT (kMwCASFlag OR kCondCASFlag OR kDirtyFlag)"

definition SetFlags :: "u64 \<Rightarrow> u64 \<Rightarrow> u64 res" where
  "SetFlags v flags =
     rbind (guard (flags AND NOT (kMwCASFlag OR kCondCASFlag OR kDirtyFlag) = 0) (RawCheck ''invalid flags''))
       (\<lambda>_. Inr (v OR flags))"

section \<open>The flags as bits\<close>

lemma bit_flags [simp]:
  "bit kDirtyFlag n \<longleftrightarrow> n = 61" "bit kCondCASFlag n \<longleftrightarrow> n = 62" "bit kMwCASFlag n \<longleftrightarrow> n = 63"
  by (auto simp only: kDirtyFlag_def kCondCASFlag_def kMwCASFlag_def push_bit_of_1 bit_exp_iff possible_bit_word)
    simp_all

lemma bit_kStatusDirtyFlag [simp]: "bit kStatusDirtyFlag n \<longleftrightarrow> n = 31"
  by (auto simp only: kStatusDirtyFlag_def push_bit_of_1 bit_exp_iff possible_bit_word) simp_all

lemma and_flag_eq_0_iff:
  "(v::'a::len word) AND f = 0 \<longleftrightarrow> (\<forall>n. bit f n \<longrightarrow> \<not> bit v n)"
  by (auto simp: bit_eq_iff [of "v AND f"] bit_and_iff dest: bit_imp_le_length)

lemma ptr_bits:
  "IsMwCASDescriptorPtr v \<longleftrightarrow> bit v 63" "IsCondCASDescriptorPtr v \<longleftrightarrow> bit v 62" "IsDirtyPtr v \<longleftrightarrow> bit v 61"
  "IsCleanPtr v \<longleftrightarrow> \<not> bit v 61 \<and> \<not> bit v 62 \<and> \<not> bit v 63"
  by (auto simp: IsMwCASDescriptorPtr_def IsCondCASDescriptorPtr_def IsDirtyPtr_def IsCleanPtr_def
      and_flag_eq_0_iff bit_or_iff)

lemma u64_bit_less: "bit (v::u64) n \<Longrightarrow> n < 64"
  using bit_imp_le_length [of v n] by simp

lemma bit_CleanPtr: "bit (CleanPtr v) n \<longleftrightarrow> bit v n \<and> n < 61"
proof -
  have "bit v n \<Longrightarrow> n \<noteq> 61 \<Longrightarrow> n \<noteq> 62 \<Longrightarrow> n \<noteq> 63 \<Longrightarrow> n < 61"
    using u64_bit_less [of v n] by linarith
  then show ?thesis
    using u64_bit_less [of v n]
    by (auto simp: CleanPtr_def bit_and_iff bit_not_iff bit_or_iff)
qed

lemma clean_bit: "IsCleanPtr v \<Longrightarrow> bit v n \<Longrightarrow> n < 61"
proof -
  assume c: "IsCleanPtr v" and b: "bit v n"
  have "n < 64" using b by (rule u64_bit_less)
  moreover have "n \<noteq> 61" "n \<noteq> 62" "n \<noteq> 63" using c b by (auto simp: ptr_bits)
  ultimately show ?thesis by linarith
qed

lemma CleanPtr_or_flags [simp]:
  assumes "IsCleanPtr v"
  shows "CleanPtr v = v" "CleanPtr (v OR kMwCASFlag) = v" "CleanPtr (v OR kCondCASFlag) = v"
    "CleanPtr (v OR kDirtyFlag) = v" "CleanPtr (v OR (kMwCASFlag OR kDirtyFlag)) = v"
  by (rule bit_eqI, use assms clean_bit in \<open>auto simp: bit_CleanPtr bit_or_iff\<close>)+

lemma IsCleanPtr_CleanPtr [simp]: "IsCleanPtr (CleanPtr v)"
  by (simp add: ptr_bits bit_CleanPtr)

lemma CleanPtr_idem [simp]: "CleanPtr (CleanPtr v) = CleanPtr v"
  by simp

lemma tag_tests [simp]:
  assumes "IsCleanPtr v"
  shows "\<not> IsMwCASDescriptorPtr v" "\<not> IsCondCASDescriptorPtr v" "\<not> IsDirtyPtr v"
    "IsCondCASDescriptorPtr (v OR kCondCASFlag)" "\<not> IsMwCASDescriptorPtr (v OR kCondCASFlag)"
    "\<not> IsDirtyPtr (v OR kCondCASFlag)"
    "IsMwCASDescriptorPtr (v OR kMwCASFlag)" "\<not> IsCondCASDescriptorPtr (v OR kMwCASFlag)"
    "\<not> IsDirtyPtr (v OR kMwCASFlag)"
    "IsMwCASDescriptorPtr (v OR (kMwCASFlag OR kDirtyFlag))" "IsDirtyPtr (v OR (kMwCASFlag OR kDirtyFlag))"
    "\<not> IsCondCASDescriptorPtr (v OR (kMwCASFlag OR kDirtyFlag))"
    "IsDirtyPtr (v OR kDirtyFlag)" "\<not> IsMwCASDescriptorPtr (v OR kDirtyFlag)"
    "\<not> IsCondCASDescriptorPtr (v OR kDirtyFlag)"
  using assms by (auto simp: ptr_bits bit_or_iff)

text \<open>Differently tagged words are different, and the tag hides nothing of a clean value.\<close>

lemma tag_neq:
  assumes "IsCleanPtr v" "IsCleanPtr w"
  shows "v \<noteq> w OR kMwCASFlag" "v \<noteq> w OR kCondCASFlag" "v \<noteq> w OR kDirtyFlag" "v \<noteq> w OR (kMwCASFlag OR kDirtyFlag)"
    "v OR kCondCASFlag \<noteq> w OR kMwCASFlag" "v OR kCondCASFlag \<noteq> w OR kDirtyFlag"
    "v OR kCondCASFlag \<noteq> w OR (kMwCASFlag OR kDirtyFlag)"
    "v OR kMwCASFlag \<noteq> w OR kDirtyFlag" "v OR kMwCASFlag \<noteq> w OR (kMwCASFlag OR kDirtyFlag)"
    "v OR kDirtyFlag \<noteq> w OR (kMwCASFlag OR kDirtyFlag)"
  using assms tag_tests by metis+

lemma tag_inj:
  assumes "IsCleanPtr v" "IsCleanPtr w"
  shows "v OR kMwCASFlag = w OR kMwCASFlag \<longleftrightarrow> v = w" "v OR kCondCASFlag = w OR kCondCASFlag \<longleftrightarrow> v = w"
    "v OR kDirtyFlag = w OR kDirtyFlag \<longleftrightarrow> v = w"
    "v OR (kMwCASFlag OR kDirtyFlag) = w OR (kMwCASFlag OR kDirtyFlag) \<longleftrightarrow> v = w"
  using assms CleanPtr_or_flags by metis+

lemma clear_dirty [simp]:
  assumes "IsCleanPtr v"
  shows "v AND NOT kDirtyFlag = v" "(v OR kDirtyFlag) AND NOT kDirtyFlag = v"
    "(v OR (kMwCASFlag OR kDirtyFlag)) AND NOT kDirtyFlag = v OR kMwCASFlag"
    "(v OR kMwCASFlag) AND NOT kDirtyFlag = v OR kMwCASFlag"
  using clean_bit [OF assms] assms
  by (auto intro!: bit_eqI simp: bit_and_iff bit_or_iff bit_not_iff ptr_bits dest: u64_bit_less)

lemma or_dirty_dirty [simp]: "IsDirtyPtr (v OR kDirtyFlag)"
  by (simp add: ptr_bits bit_or_iff)

lemma flags_valid:
  assumes "\<forall>n. bit f n \<longrightarrow> n = 61 \<or> n = 62 \<or> n = 63"
  shows "f AND NOT (kMwCASFlag OR kCondCASFlag OR kDirtyFlag) = 0"
  unfolding and_flag_eq_0_iff using assms by (auto simp: bit_and_iff bit_or_iff bit_not_iff)

lemma SetFlags_eq [simp]:
  "SetFlags v kCondCASFlag = Inr (v OR kCondCASFlag)"
  "SetFlags v kMwCASFlag = Inr (v OR kMwCASFlag)"
  "SetFlags v (kMwCASFlag OR kDirtyFlag) = Inr (v OR (kMwCASFlag OR kDirtyFlag))"
proof -
  have f: "kCondCASFlag AND NOT (kMwCASFlag OR kCondCASFlag OR kDirtyFlag) = 0"
    "kMwCASFlag AND NOT (kMwCASFlag OR kCondCASFlag OR kDirtyFlag) = 0"
    "(kMwCASFlag OR kDirtyFlag) AND NOT (kMwCASFlag OR kCondCASFlag OR kDirtyFlag) = 0"
    by (rule flags_valid, simp add: bit_or_iff; blast?)+
  show "SetFlags v kCondCASFlag = Inr (v OR kCondCASFlag)"
    "SetFlags v kMwCASFlag = Inr (v OR kMwCASFlag)"
    "SetFlags v (kMwCASFlag OR kDirtyFlag) = Inr (v OR (kMwCASFlag OR kDirtyFlag))"
    by (simp_all only: SetFlags_def f rbind_guard simp_thms if_True)
qed

section \<open>Property\<close>

text \<open>C32. The encoding is unambiguous: for a clean value (one that leaves the three top bits to the library)
  every combination of flags the library sets can be told apart from every other and from a clean
  value, and \<open>CleanPtr\<close> recovers the value.\<close>

theorem flags_unambiguous:
  assumes "IsCleanPtr v" and "f \<in> {0, kDirtyFlag, kCondCASFlag, kMwCASFlag, kMwCASFlag OR kDirtyFlag}"
  shows "CleanPtr (v OR f) = v \<and>
    (IsMwCASDescriptorPtr (v OR f) \<longleftrightarrow> f \<in> {kMwCASFlag, kMwCASFlag OR kDirtyFlag}) \<and>
    (IsCondCASDescriptorPtr (v OR f) \<longleftrightarrow> f = kCondCASFlag) \<and>
    (IsDirtyPtr (v OR f) \<longleftrightarrow> f \<in> {kDirtyFlag, kMwCASFlag OR kDirtyFlag}) \<and>
    (IsCleanPtr (v OR f) \<longleftrightarrow> f = 0)"
proof (intro conjI)
  have d: "kDirtyFlag \<noteq> 0" "kCondCASFlag \<noteq> 0" "kMwCASFlag \<noteq> 0" "kDirtyFlag \<noteq> kCondCASFlag"
    "kDirtyFlag \<noteq> kMwCASFlag" "kCondCASFlag \<noteq> kMwCASFlag" "kMwCASFlag OR kDirtyFlag \<noteq> 0"
    "kMwCASFlag OR kDirtyFlag \<noteq> kDirtyFlag" "kMwCASFlag OR kDirtyFlag \<noteq> kCondCASFlag"
    "kMwCASFlag OR kDirtyFlag \<noteq> kMwCASFlag"
    by (simp_all add: kDirtyFlag_def kCondCASFlag_def kMwCASFlag_def)
  show "CleanPtr (v OR f) = v" using assms by auto
  show "IsMwCASDescriptorPtr (v OR f) \<longleftrightarrow> f \<in> {kMwCASFlag, kMwCASFlag OR kDirtyFlag}"
    using assms d by auto
  show "IsCondCASDescriptorPtr (v OR f) \<longleftrightarrow> f = kCondCASFlag" using assms d by auto
  show "IsDirtyPtr (v OR f) \<longleftrightarrow> f \<in> {kDirtyFlag, kMwCASFlag OR kDirtyFlag}" using assms d by auto
  show "IsCleanPtr (v OR f) \<longleftrightarrow> f = 0" using assms by (auto simp: ptr_bits bit_or_iff)
qed

theorem flags_unambiguous_witness:
  "CleanPtr (4096 OR kCondCASFlag) = 4096 \<and> IsCondCASDescriptorPtr (4096 OR kCondCASFlag)"
proof -
  have "IsCleanPtr 4096" by (simp add: IsCleanPtr_def kDirtyFlag_def kCondCASFlag_def kMwCASFlag_def)
  from flags_unambiguous [OF this, of kCondCASFlag] show ?thesis by simp
qed

end
