(* ===== verification/Descriptor.thy ===== *)
theory Descriptor
  imports GarbageList Metrics MwWord
begin

text \<open>
  Descriptors of multi-word compare-and-swap operations and their life cycle (\<open>mwcas/mwcas.h\<close>,
  \<open>mwcas/mwcas.cc\<close>): the state of the library, the monad its code runs in, \<open>AddEntry\<close> and its variants,
  \<open>Cleanup\<close>, \<open>Abort\<close>, \<open>DeallocateMemory\<close> and \<open>FreeDescriptor\<close>.

  The state has one descriptor pool. Application words live in \<open>mem\<close>, descriptors in \<open>descs\<close> (the
  array \<open>descriptors_\<close>, by index); pointers to descriptors and to their word descriptors are addresses
  computed from the layout of the C++ class (256 bytes per descriptor, its status at offset 16, word
  descriptors of 40 bytes from offset 40). \<open>nv\<close> is the durable image of the application words: what a
  \<open>Flush\<close> has written back.

  Every store to shared memory consumes one unit of \<open>budget\<close> when there is one; a run with budget \<open>n\<close> stops
  before its store number \<open>n + 1\<close>, as a thread does that is descheduled for ever or whose process is
  killed there. \<open>None\<close> is a run that is not stopped.
\<close>

section \<open>State\<close>

datatype callback = NullCallback | DefaultCallback | UserCallback nat

datatype gl_callback = FreeDescriptorCallback

record word_desc =
  address :: u64
  old_value :: u64
  new_value :: u64
  status_address :: u64
  recycle_policy :: u32

record descriptor =
  next_ptr :: u64
  owner_partition :: nat
  d_status :: u32
  d_count :: nat
  free_callback :: callback
  allocate_callback :: callback
  words :: "word_desc list"

record partition =
  free_list :: u64
  part_garbage :: "gl_callback garbage_list"
  allocated_desc :: u32

record desc_pool =
  pool_size :: nat
  desc_per_partition :: nat
  descriptors :: u64
  partition_count :: nat
  partition_table :: "partition list"
  next_partition :: u32
  pool_epoch :: nat
  pmdk_pool :: u64

record mw_world =
  ew :: epoch_world
  mem :: "u64 \<Rightarrow> u64"
  nv :: "u64 \<Rightarrow> u64"
  descs :: "nat \<Rightarrow> descriptor"
  pool :: desc_pool
  freed :: "(callback \<times> u64) list"
  mstats :: metrics_state
  budget :: "nat option"

definition DESC_CAP :: nat where "DESC_CAP = 4"
definition kRecycleOnRecovery :: u32 where "kRecycleOnRecovery = 1"
definition kRecycleNever :: u32 where "kRecycleNever = 2"
definition kRecycleAlways :: u32 where "kRecycleAlways = 3"
definition kRecycleOldOnSuccess :: u32 where "kRecycleOldOnSuccess = 4"
definition kRecycleNewOnFailure :: u32 where "kRecycleNewOnFailure = 5"
definition kStatusInvalid :: u32 where "kStatusInvalid = 0"
definition kStatusFinished :: u32 where "kStatusFinished = 1"
definition kStatusSucceeded :: u32 where "kStatusSucceeded = 2"
definition kStatusFailed :: u32 where "kStatusFailed = 3"
definition kStatusUndecided :: u32 where "kStatusUndecided = 4"

lemmas status_defs = kStatusInvalid_def kStatusFinished_def kStatusSucceeded_def kStatusFailed_def
  kStatusUndecided_def
lemmas recycle_defs = kRecycleOnRecovery_def kRecycleNever_def kRecycleAlways_def
  kRecycleOldOnSuccess_def kRecycleNewOnFailure_def

definition empty_word :: word_desc where
  "empty_word = \<lparr>address = 0, old_value = 0, new_value = 0, status_address = 0, recycle_policy = 0\<rparr>"

text \<open>Addresses of descriptors and word descriptors, and back.\<close>

definition desc_addr :: "desc_pool \<Rightarrow> nat \<Rightarrow> u64" where
  "desc_addr p d = descriptors p + 256 * of_nat d"

definition word_addr :: "desc_pool \<Rightarrow> nat \<Rightarrow> nat \<Rightarrow> u64" where
  "word_addr p d i = desc_addr p d + 40 + 40 * of_nat i"

definition status_addr :: "desc_pool \<Rightarrow> nat \<Rightarrow> u64" where
  "status_addr p d = desc_addr p d + 16"

definition desc_at :: "desc_pool \<Rightarrow> u64 \<Rightarrow> nat option" where
  "desc_at p a = (let off = unat (a - descriptors p)
     in if off mod 256 = 0 \<and> off div 256 < pool_size p then Some (off div 256) else None)"

definition word_at :: "desc_pool \<Rightarrow> u64 \<Rightarrow> (nat \<times> nat) option" where
  "word_at p a = (let off = unat (a - descriptors p); r = off mod 256
     in if off div 256 < pool_size p \<and> 40 \<le> r \<and> (r - 40) mod 40 = 0 \<and> (r - 40) div 40 < DESC_CAP
        then Some (off div 256, (r - 40) div 40) else None)"

text \<open>\<open>WordDescriptor::GetDescriptor\<close>\<close>

definition GetDescriptor :: "word_desc \<Rightarrow> u64" where
  "GetDescriptor w = status_address w - 16"

section \<open>The monad\<close>

datatype ('a, 's) outcome = Done 'a 's | Crashed 's | Aborted err | NoFuel

type_synonym 'a mw = "mw_world \<Rightarrow> ('a, mw_world) outcome"

definition mret :: "'a \<Rightarrow> 'a mw" where
  "mret x s = Done x s"

definition mbind :: "'a mw \<Rightarrow> ('a \<Rightarrow> 'b mw) \<Rightarrow> 'b mw" where
  "mbind m f s = (case m s of Done x s' \<Rightarrow> f x s' | Crashed s' \<Rightarrow> Crashed s' | Aborted e \<Rightarrow> Aborted e | NoFuel \<Rightarrow> NoFuel)"

definition mcheck :: "bool \<Rightarrow> err \<Rightarrow> unit mw" where
  "mcheck b e s = (if b then Done () s else Aborted e)"

definition mget :: "(mw_world \<Rightarrow> 'a) \<Rightarrow> 'a mw" where
  "mget f s = Done (f s) s"

definition mlift :: "'a res \<Rightarrow> 'a mw" where
  "mlift r s = (case r of Inl e \<Rightarrow> Aborted e | Inr x \<Rightarrow> Done x s)"

definition mwhen :: "bool \<Rightarrow> unit mw \<Rightarrow> unit mw" where
  "mwhen b m = (if b then m else mret ())"

definition no_fuel :: "'a mw" where
  "no_fuel s = NoFuel"

definition mstore :: "(mw_world \<Rightarrow> mw_world) \<Rightarrow> unit mw" where
  "mstore f s = (case budget s of None \<Rightarrow> Done () (f s)
     | Some 0 \<Rightarrow> Crashed s
     | Some (Suc n) \<Rightarrow> Done () (f (s\<lparr>budget := Some n\<rparr>)))"

fun mfor :: "('x \<Rightarrow> unit mw) \<Rightarrow> 'x list \<Rightarrow> unit mw" where
  "mfor f [] = mret ()"
| "mfor f (x # xs) = mbind (f x) (\<lambda>_. mfor f xs)"

section \<open>Memory accesses\<close>

definition set_mem :: "u64 \<Rightarrow> u64 \<Rightarrow> mw_world \<Rightarrow> mw_world" where
  "set_mem a v s = s\<lparr>mem := (mem s)(a := v)\<rparr>"

definition upd_desc :: "nat \<Rightarrow> (descriptor \<Rightarrow> descriptor) \<Rightarrow> mw_world \<Rightarrow> mw_world" where
  "upd_desc d f s = s\<lparr>descs := (descs s)(d := f (descs s d))\<rparr>"

text \<open>\<open>CompareExchange64\<close> and \<open>CompareExchange32\<close> (\<open>util/atomics.h\<close>) return the value found; the
  latter is only used on a descriptor's status.\<close>

definition CompareExchange64 :: "u64 \<Rightarrow> u64 \<Rightarrow> u64 \<Rightarrow> u64 mw" where
  "CompareExchange64 a new_val comparand =
     mbind (mget (\<lambda>s. mem s a)) (\<lambda>v.
     mbind (mstore (if v = comparand then set_mem a new_val else (\<lambda>s. s))) (\<lambda>_. mret v))"

definition CompareExchange32 :: "nat \<Rightarrow> u32 \<Rightarrow> u32 \<Rightarrow> u32 mw" where
  "CompareExchange32 d new_val comparand =
     mbind (mget (\<lambda>s. d_status (descs s d))) (\<lambda>v.
     mbind (mstore (if v = comparand then upd_desc d (\<lambda>D. D\<lparr>d_status := new_val\<rparr>) else (\<lambda>s. s))) (\<lambda>_. mret v))"

text \<open>\<open>NVRAM::Flush\<close> writes back the cache lines of the given range.\<close>

definition in_lines :: "u64 \<Rightarrow> u64 \<Rightarrow> u64 \<Rightarrow> bool" where
  "in_lines p bytes a \<longleftrightarrow> unat p div 64 \<le> unat a div 64 \<and> unat a div 64 \<le> (unat p + unat bytes - 1) div 64"

definition Flush :: "u64 \<Rightarrow> u64 \<Rightarrow> unit mw" where
  "Flush bytes p s = Done () (s\<lparr>nv := (\<lambda>a. if in_lines p bytes a then mem s a else nv s a)\<rparr>)"

definition PersistStatus :: "nat \<Rightarrow> unit mw" where
  "PersistStatus d = mbind (mget (\<lambda>s. status_addr (pool s) d)) (\<lambda>p. Flush 4 p)"

text \<open>\<open>WordDescriptor::PersistAddress\<close> flushes the field \<open>address_\<close> of the word descriptor.\<close>

definition PersistAddress :: "nat \<Rightarrow> nat \<Rightarrow> unit mw" where
  "PersistAddress d i = mbind (mget (\<lambda>s. word_addr (pool s) d i)) (\<lambda>p. Flush 8 p)"

definition the_part :: "mw_world \<Rightarrow> nat \<Rightarrow> partition" where
  "the_part s p = partition_table (pool s) ! p"

definition set_part :: "nat \<Rightarrow> (partition \<Rightarrow> partition) \<Rightarrow> mw_world \<Rightarrow> mw_world" where
  "set_part p f s = s\<lparr>pool := (pool s)\<lparr>partition_table := (partition_table (pool s))[p := f (the_part s p)]\<rparr>\<rparr>"

text \<open>\<open>DCHECK(owner_partition_->garbage_list->GetEpoch()->IsProtected())\<close>\<close>

definition check_protected :: "u64 \<Rightarrow> nat \<Rightarrow> unit mw" where
  "check_protected tid d s =
     (case gl_epoch_manager (part_garbage (the_part s (owner_partition (descs s d)))) of
        None \<Rightarrow> Aborted (BadAccess ''null epoch manager'')
      | Some m \<Rightarrow> (case IsProtected m tid (ew s) of
           Inl e \<Rightarrow> Aborted e
         | Inr (b, w) \<Rightarrow> if b then Done () (s\<lparr>ew := w\<rparr>) else Aborted (DCheck ''IsProtected()'')))"

definition metric :: "(u64 \<Rightarrow> metrics_state \<Rightarrow> metrics_state res) \<Rightarrow> u64 \<Rightarrow> unit mw" where
  "metric add tid s = (case add tid (mstats s) of Inl e \<Rightarrow> Aborted e | Inr m \<Rightarrow> Done () (s\<lparr>mstats := m\<rparr>))"

section \<open>Building a descriptor\<close>

definition Descriptor_Initialize :: "nat \<Rightarrow> unit mw" where
  "Descriptor_Initialize d = mstore (upd_desc d (\<lambda>D. D\<lparr>d_status := kStatusFinished, d_count := 0, next_ptr := 0,
     words := replicate DESC_CAP empty_word\<rparr>))"

text \<open>\<open>GetInsertPosition\<close>: the loop over the entries added so far looks for the same address.\<close>

definition GetInsertPosition :: "nat \<Rightarrow> u64 \<Rightarrow> int mw" where
  "GetInsertPosition d addr =
     mbind (mcheck (unat addr mod 8 = 0) (DCheck ''uint64_t(addr) % sizeof(uint64_t) == 0'')) (\<lambda>_.
     mbind (mget (\<lambda>s. descs s d)) (\<lambda>D.
     mbind (mcheck (d_count D < DESC_CAP) (RawCheck ''too many words'')) (\<lambda>_.
       mret (if \<exists>i < d_count D. addr \<noteq> kAllocNullAddress \<and> address (words D ! i) = addr
             then -2 else int (d_count D)))))"

definition set_entry :: "nat \<Rightarrow> int \<Rightarrow> word_desc \<Rightarrow> unit mw" where
  "set_entry d pos w = mstore (upd_desc d (\<lambda>D. D\<lparr>words := (words D)[nat pos := w], d_count := d_count D + 1\<rparr>))"

definition AddEntry :: "u64 \<Rightarrow> nat \<Rightarrow> u64 \<Rightarrow> u64 \<Rightarrow> u64 \<Rightarrow> u32 \<Rightarrow> int mw" where
  "AddEntry tid d addr oldval newval policy =
     mbind (check_protected tid d) (\<lambda>_.
     mbind (mcheck (IsCleanPtr oldval) (DCheck ''IsCleanPtr(oldval)'')) (\<lambda>_.
     mbind (mcheck (IsCleanPtr newval \<or> newval = kNewValueReserved) (DCheck ''IsCleanPtr(newval)'')) (\<lambda>_.
     mbind (GetInsertPosition d addr) (\<lambda>pos.
     mbind (mcheck (0 \<le> pos) (RawCheck ''invalid insert position'')) (\<lambda>_.
     mbind (mget (\<lambda>s. status_addr (pool s) d)) (\<lambda>sa.
     mbind (set_entry d pos \<lparr>address = addr, old_value = oldval, new_value = newval, status_address = sa,
              recycle_policy = policy\<rparr>) (\<lambda>_. mret pos)))))))"

text \<open>\<open>memory\<close> is what the allocate callback of the application returns.\<close>

definition AllocateAndAddEntry :: "u64 \<Rightarrow> nat \<Rightarrow> u64 \<Rightarrow> u64 \<Rightarrow> u64 \<Rightarrow> u32 \<Rightarrow> int mw" where
  "AllocateAndAddEntry tid d addr oldval memory policy =
     mbind (check_protected tid d) (\<lambda>_.
     mbind (mcheck (IsCleanPtr oldval) (DCheck ''IsCleanPtr(oldval)'')) (\<lambda>_.
     mbind (GetInsertPosition d addr) (\<lambda>pos.
     mbind (mcheck (0 \<le> pos) (RawCheck ''invalid insert position'')) (\<lambda>_.
     mbind (mcheck (memory \<noteq> 0) (RawCheck ''allocation failed'')) (\<lambda>_.
     mbind (mget (\<lambda>s. status_addr (pool s) d)) (\<lambda>sa.
     mbind (set_entry d pos \<lparr>address = addr, old_value = oldval, new_value = memory, status_address = sa,
              recycle_policy = policy\<rparr>) (\<lambda>_. mret pos)))))))"

definition ReserveAndAddEntry :: "u64 \<Rightarrow> nat \<Rightarrow> u64 \<Rightarrow> u64 \<Rightarrow> u32 \<Rightarrow> int mw" where
  "ReserveAndAddEntry tid d addr oldval policy = AddEntry tid d addr oldval kNewValueReserved policy"

definition GetNewValue :: "nat \<Rightarrow> nat \<Rightarrow> u64 mw" where
  "GetNewValue d i = mget (\<lambda>s. new_value (words (descs s d) ! i))"

definition assert_valid_status :: "nat \<Rightarrow> unit mw" where
  "assert_valid_status d = mbind (mget (\<lambda>s. d_status (descs s d) AND NOT kStatusDirtyFlag)) (\<lambda>st.
     mcheck (st = kStatusFinished \<or> st = kStatusFailed \<or> st = kStatusSucceeded \<or> st = kStatusUndecided)
       (RawCheck ''invalid status''))"

definition ReadPersistStatus :: "nat \<Rightarrow> u32 mw" where
  "ReadPersistStatus d =
     mbind (mget (\<lambda>s. d_status (descs s d))) (\<lambda>curr.
       let stable = curr AND NOT kStatusDirtyFlag
       in mbind (mwhen (curr AND kStatusDirtyFlag \<noteq> 0)
                  (mbind (PersistStatus d) (\<lambda>_. mbind (CompareExchange32 d stable curr) (\<lambda>_. mret ()))))
            (\<lambda>_. mret stable))"

section \<open>Recycling\<close>

text \<open>What \<open>DeallocateMemory\<close> frees for one word, given the descriptor's status.\<close>

definition word_frees :: "u32 \<Rightarrow> word_desc \<Rightarrow> u64 list res" where
  "word_frees st w =
     (let p = recycle_policy w; keep = (\<lambda>v. if v \<noteq> kNewValueReserved then [v] else [])
      in if p = kRecycleNever \<or> p = kRecycleOnRecovery then Inr []
         else if p = kRecycleAlways then
           (if st = kStatusSucceeded then Inr (keep (old_value w))
            else rbind (guard (st = kStatusFailed \<or> st = kStatusFinished)
                   (RawCheck ''incorrect status found on used/discarded descriptor'')) (\<lambda>_. Inr (keep (new_value w))))
         else if p = kRecycleOldOnSuccess then Inr (if st = kStatusSucceeded then keep (old_value w) else [])
         else if p = kRecycleNewOnFailure then Inr (if st \<noteq> kStatusSucceeded then keep (new_value w) else [])
         else Inl (DCheck ''invalid recycle policy''))"

definition log_free :: "callback \<Rightarrow> u64 list \<Rightarrow> unit mw" where
  "log_free cb vs s = Done () (s\<lparr>freed := freed s @ map (Pair cb) vs\<rparr>)"

definition DeallocateMemory :: "nat \<Rightarrow> unit mw" where
  "DeallocateMemory d =
     mbind (mget (\<lambda>s. descs s d)) (\<lambda>D.
     mbind (mfor (\<lambda>i. mbind (mlift (word_frees (d_status D) (words D ! i))) (log_free (free_callback D)))
            [0..<d_count D]) (\<lambda>_.
     mstore (upd_desc d (\<lambda>D. D\<lparr>d_count := 0\<rparr>))))"

definition FreeDescriptor :: "u64 \<Rightarrow> unit mw" where
  "FreeDescriptor p =
     mbind (mget (\<lambda>s. desc_at (pool s) p)) (\<lambda>od.
       case od of None \<Rightarrow> mlift (Inl (BadAccess ''not a descriptor''))
       | Some d \<Rightarrow>
          mbind (DeallocateMemory d) (\<lambda>_.
          mbind (Descriptor_Initialize d) (\<lambda>_.
          mbind (mget (\<lambda>s. descs s d)) (\<lambda>D.
          mbind (mcheck (d_status D = kStatusFinished) (RawCheck ''invalid status'')) (\<lambda>_.
          mbind (mget (\<lambda>s. free_list (the_part s (owner_partition D)))) (\<lambda>fl.
          mbind (mstore (upd_desc d (\<lambda>D. D\<lparr>next_ptr := fl\<rparr>))) (\<lambda>_.
          mstore (set_part (owner_partition D) (\<lambda>q. q\<lparr>free_list := p\<rparr>)))))))))"

text \<open>A destroy call of the garbage list: the only callback the library pushes is \<open>FreeDescriptor\<close>.\<close>

definition run_destroy :: "gl_callback destroy_call \<Rightarrow> unit mw" where
  "run_destroy c = (case c of (Some FreeDescriptorCallback, _, item) \<Rightarrow> FreeDescriptor item
     | (None, _, _) \<Rightarrow> mlift (Inl (BadAccess ''null destroy_callback'')))"

text \<open>Pushing a descriptor on its partition's garbage list. Four turns of the ring are enough: with no
  other thread running, two bumps of the epoch make safe whatever will ever become safe.\<close>

definition push_fuel :: "'c garbage_list \<Rightarrow> nat" where
  "push_fuel gl = 4 * unat (gl_item_count gl)"

definition push_garbage :: "nat \<Rightarrow> status mw" where
  "push_garbage d s =
     (let p = owner_partition (descs s d); gl = part_garbage (the_part s p)
      in case gl_epoch_manager gl of
           None \<Rightarrow> Aborted (BadAccess ''null epoch manager'')
         | Some m \<Rightarrow>
            (case Push_unsafe (push_fuel gl) (manager_ops m) (desc_addr (pool s) d) FreeDescriptorCallback 0 gl (ew s) of
               Inl e \<Rightarrow> Aborted e
             | Inr (st, gl', w', calls) \<Rightarrow>
                 mbind (mfor run_destroy calls) (\<lambda>_. mret st)
                   (set_part p (\<lambda>q. q\<lparr>part_garbage := gl'\<rparr>) (s\<lparr>ew := w'\<rparr>))))"

definition Cleanup :: "u64 \<Rightarrow> nat \<Rightarrow> bool mw" where
  "Cleanup tid d =
     mbind (mget (\<lambda>s. d_status (descs s d))) (\<lambda>st.
     mbind (mcheck (st AND kStatusDirtyFlag = 0) (RawCheck ''invalid status'')) (\<lambda>_.
     mbind (mcheck (st = kStatusFailed \<or> st = kStatusSucceeded) (RawCheck ''invalid status'')) (\<lambda>_.
       let success = (st = kStatusSucceeded)
       in mbind (metric (if success then AddSucceededUpdate else AddFailedUpdate) tid) (\<lambda>_.
          mbind (push_garbage d) (\<lambda>r.
          mbind (mcheck (Status_ok r) (RawCheck ''garbage list push() failed'')) (\<lambda>_.
          mbind (check_protected tid d) (\<lambda>_. mret success)))))))"

definition Descriptor_Abort :: "nat \<Rightarrow> status mw" where
  "Descriptor_Abort d =
     mbind (mget (\<lambda>s. d_status (descs s d))) (\<lambda>st.
     mbind (mcheck (st = kStatusFinished) (RawCheck ''cannot abort under current status'')) (\<lambda>_.
     mbind (mstore (upd_desc d (\<lambda>D. D\<lparr>d_status := kStatusFailed\<rparr>))) (\<lambda>_.
     mbind (push_garbage d) (\<lambda>r.
     mbind (mcheck (Status_ok r) (RawCheck ''garbage list push() failed'')) (\<lambda>_. mret r)))))"

end
