(* ===== verification/MwCAS.thy ===== *)
theory MwCAS
  imports Descriptor
begin

text \<open>
  The multi-word compare-and-swap itself (\<open>mwcas/mwcas.cc\<close>): the conditional CAS that installs descriptor
  pointers, \<open>PersistentMwCAS\<close> with the help it gives to operations it meets, the variants that stop
  half-way for failure tests, and the reads of a target field that complete the operation they find.

  A retry loop and the recursion into other operations take a fuel argument; running out of it is the
  outcome \<open>NoFuel\<close>, which the theorems exclude.
\<close>

section \<open>CondCAS\<close>

fun CondCAS :: "nat \<Rightarrow> nat \<Rightarrow> nat \<Rightarrow> u64 \<Rightarrow> u64 mw" where
  "CondCAS 0 d i dirty_flag = no_fuel"
| "CondCAS (Suc n) d i dirty_flag =
     mbind (mget (\<lambda>s. words (descs s d) ! i)) (\<lambda>w.
     mbind (mget (\<lambda>s. word_addr (pool s) d i)) (\<lambda>wa.
     mbind (mlift (SetFlags wa kCondCASFlag)) (\<lambda>cond_descptr.
     mbind (CompareExchange64 (address w) cond_descptr (old_value w)) (\<lambda>ret.
       if IsCondCASDescriptorPtr ret then
         mbind (mget (\<lambda>s. word_at (pool s) (CleanPtr ret))) (\<lambda>owd.
         case owd of None \<Rightarrow> mlift (Inl (BadAccess ''not a word descriptor''))
         | Some (d', i') \<Rightarrow>
           mbind (mget (\<lambda>s. words (descs s d') ! i')) (\<lambda>wd.
           mbind (mcheck (address wd = address w) (RawCheck ''wrong address'')) (\<lambda>_.
           mbind (mlift (SetFlags (GetDescriptor wd) (kMwCASFlag OR dirty_flag))) (\<lambda>dptr.
           mbind (mget (\<lambda>s. desc_at (pool s) (GetDescriptor wd))) (\<lambda>odd.
           case odd of None \<Rightarrow> mlift (Inl (BadAccess ''status_address_''))
           | Some d'' \<Rightarrow>
             mbind (mget (\<lambda>s. d_status (descs s d''))) (\<lambda>st1.
               let desired = (if st1 = kStatusUndecided then dptr else old_value wd) in
             mbind (mget (\<lambda>s. mem s (address wd))) (\<lambda>now.
               if now \<noteq> ret then CondCAS n d i dirty_flag
               else
                 mbind (mget (\<lambda>s. d_status (descs s d''))) (\<lambda>st2.
                 mbind (CompareExchange64 (address wd) (if st2 = kStatusUndecided then dptr else old_value wd) ret) (\<lambda>rval.
                   if rval = ret \<and> desired = dptr then mret dptr
                   else CondCAS n d i dirty_flag)))))))))
       else if ret = old_value w then
         mbind (mget (\<lambda>s. desc_addr (pool s) d)) (\<lambda>da.
         mbind (mlift (SetFlags da (kMwCASFlag OR dirty_flag))) (\<lambda>mwcas_descptr.
         mbind (mget (\<lambda>s. d_status (descs s d))) (\<lambda>st.
         mbind (CompareExchange64 (address w) (if st = kStatusUndecided then mwcas_descptr else old_value w) cond_descptr)
           (\<lambda>_. mret ret))))
       else mret ret))))"

section \<open>PersistentMwCAS\<close>

text \<open>\<open>std::sort\<close> of the entries by address. Entries without an address have equal keys; the insertion
  sort that the standard library uses on short arrays is stable.\<close>

definition sort_words :: "nat \<Rightarrow> unit mw" where
  "sort_words d = mstore (upd_desc d (\<lambda>D. D\<lparr>words :=
     sort_key address (take (d_count D) (words D)) @ drop (d_count D) (words D)\<rparr>))"

text \<open>The installation loop: the entries are installed in order until one fails; \<open>skip_null\<close> says
  whether entries without an address are passed over.\<close>

fun install_all :: "bool \<Rightarrow> (nat \<Rightarrow> bool mw) \<Rightarrow> nat \<Rightarrow> nat list \<Rightarrow> bool mw" where
  "install_all skip_null install d [] = mret True"
| "install_all skip_null install d (i # is) =
     mbind (mget (\<lambda>s. address (words (descs s d) ! i))) (\<lambda>a.
       if skip_null \<and> a = kAllocNullAddress then install_all skip_null install d is
       else mbind (install i) (\<lambda>ok. if ok then install_all skip_null install d is else mret False))"

definition persist_target :: "bool \<Rightarrow> nat \<Rightarrow> nat \<Rightarrow> unit mw" where
  "persist_target skip_null d i =
     mbind (mget (\<lambda>s. address (words (descs s d) ! i))) (\<lambda>a.
       if skip_null \<and> a = kAllocNullAddress then mret ()
       else mbind (mget (\<lambda>s. desc_addr (pool s) d)) (\<lambda>da.
            mbind (mlift (SetFlags da (kMwCASFlag OR kDirtyFlag))) (\<lambda>descptr.
            mbind (mget (\<lambda>s. mem s a)) (\<lambda>val.
              mwhen (val = descptr)
                (mbind (PersistAddress d i) (\<lambda>_.
                 mbind (CompareExchange64 a (descptr AND NOT kDirtyFlag) descptr) (\<lambda>_. mret ())))))))"

definition finish_word :: "bool \<Rightarrow> nat \<Rightarrow> nat \<Rightarrow> unit mw" where
  "finish_word succeeded d i =
     mbind (mget (\<lambda>s. words (descs s d) ! i)) (\<lambda>wd.
       if address wd = kAllocNullAddress then mret ()
       else
         mbind (mget (\<lambda>s. desc_addr (pool s) d)) (\<lambda>da.
         mbind (mlift (SetFlags da (kMwCASFlag OR kDirtyFlag))) (\<lambda>descptr.
           let val = (if succeeded then new_value wd else old_value wd) OR kDirtyFlag;
               clean_descptr = descptr AND NOT kDirtyFlag in
         mbind (CompareExchange64 (address wd) val descptr) (\<lambda>r.
         mbind (mwhen (r = clean_descptr)
                  (mbind (CompareExchange64 (address wd) val clean_descptr) (\<lambda>_. mret ()))) (\<lambda>_.
         mbind (PersistAddress d i) (\<lambda>_.
         mbind (mcheck (IsDirtyPtr val) (RawCheck ''invalid final value'')) (\<lambda>_.
         mbind (CompareExchange64 (address wd) (val AND NOT kDirtyFlag) val) (\<lambda>_. mret ()))))))))"

text \<open>The prologue: persist the descriptor before it becomes visible, and read a stable status.\<close>

definition stable_status :: "nat \<Rightarrow> nat \<Rightarrow> u32 mw" where
  "stable_status depth d =
     mbind (mwhen (depth = 0)
       (mbind (mget (\<lambda>s. d_status (descs s d))) (\<lambda>st.
        mbind (mcheck (st = kStatusUndecided) (RawCheck ''invalid status'')) (\<lambda>_.
        mbind (mget (\<lambda>s. desc_addr (pool s) d)) (\<lambda>da. Flush 256 da))))) (\<lambda>_.
     mbind (mget (\<lambda>s. d_status (descs s d))) (\<lambda>st.
       if st AND kStatusDirtyFlag \<noteq> 0 then
         mbind (PersistStatus d) (\<lambda>_.
         mbind (CompareExchange32 d (st AND NOT kStatusDirtyFlag) st) (\<lambda>_.
         mret (st AND NOT kStatusDirtyFlag)))
       else mret st))"

text \<open>The decision: switch the status, persist it and clear its dirty bit.\<close>

definition decide :: "nat \<Rightarrow> u32 \<Rightarrow> unit mw" where
  "decide d my_status =
     mbind (CompareExchange32 d (my_status OR kStatusDirtyFlag) kStatusUndecided) (\<lambda>_.
     mbind (mget (\<lambda>s. d_status (descs s d))) (\<lambda>st.
     mbind (mcheck (st AND NOT kStatusDirtyFlag \<noteq> kStatusUndecided) (RawCheck ''invalid status'')) (\<lambda>_.
     mbind (PersistStatus d) (\<lambda>_.
     mstore (upd_desc d (\<lambda>D. D\<lparr>d_status := d_status D AND NOT kStatusDirtyFlag\<rparr>))))))"

text \<open>\<open>install_word\<close> is the body of the installation loop with its label \<open>retry_entry\<close>. A value with the
  dirty bit makes it retry, so the test of that bit inside the next branch is never true.\<close>

fun PersistentMwCAS :: "nat \<Rightarrow> u64 \<Rightarrow> nat \<Rightarrow> nat \<Rightarrow> bool mw"
and install_word :: "nat \<Rightarrow> u64 \<Rightarrow> nat \<Rightarrow> nat \<Rightarrow> nat \<Rightarrow> bool mw" where
  "PersistentMwCAS 0 tid depth d = no_fuel"
| "PersistentMwCAS (Suc n) tid depth d =
     mbind (check_protected tid d) (\<lambda>_.
     mbind (stable_status depth d) (\<lambda>st.
       if st \<noteq> kStatusUndecided then
         (if depth > 0 then mbind (metric AddBailedHelp tid) (\<lambda>_. mret (st = kStatusSucceeded))
          else Cleanup tid d)
       else
         mbind (sort_words d) (\<lambda>_.
         mbind (mget (\<lambda>s. d_count (descs s d))) (\<lambda>count.
         mbind (install_all True (install_word n tid depth d) d [0..<count]) (\<lambda>ok.
         mbind (mwhen ok (mfor (persist_target True d) [0..<count])) (\<lambda>_.
         mbind (decide d (if ok then kStatusSucceeded else kStatusFailed)) (\<lambda>_.
         mbind (mget (\<lambda>s. d_status (descs s d) = kStatusSucceeded)) (\<lambda>succeeded.
         mbind (mfor (finish_word succeeded d) [0..<count]) (\<lambda>_.
           if depth = 0 then Cleanup tid d else mret succeeded)))))))))"
| "install_word 0 tid depth d i = no_fuel"
| "install_word (Suc n) tid depth d i =
     mbind (CondCAS n d i kDirtyFlag) (\<lambda>rval.
     mbind (mget (\<lambda>s. words (descs s d) ! i)) (\<lambda>wd.
     mbind (mget (\<lambda>s. desc_addr (pool s) d)) (\<lambda>da.
       if rval = old_value wd \<or> CleanPtr rval = da then mret True
       else if IsDirtyPtr rval then install_word n tid depth d i
       else if IsMwCASDescriptorPtr rval then
         mbind (mwhen (IsDirtyPtr rval)
           (mbind (PersistAddress d i) (\<lambda>_.
            mbind (CompareExchange64 (address wd) (rval AND NOT kDirtyFlag) rval) (\<lambda>_. mret ())))) (\<lambda>_.
         mbind (mget (\<lambda>s. desc_at (pool s) (CleanPtr rval))) (\<lambda>other.
           case other of None \<Rightarrow> mlift (Inl (BadAccess ''not a descriptor''))
           | Some d' \<Rightarrow>
             mbind (PersistentMwCAS n tid (depth + 1) d') (\<lambda>_.
             mbind (metric AddHelpAttempt tid) (\<lambda>_. install_word n tid depth d i))))
       else mret False)))"

definition MwCAS :: "nat \<Rightarrow> u64 \<Rightarrow> nat \<Rightarrow> bool mw" where
  "MwCAS n tid d =
     mbind (mget (\<lambda>s. d_status (descs s d))) (\<lambda>st.
     mbind (mcheck (st = kStatusFinished) (RawCheck ''status of descriptor is not kStatusFinished'')) (\<lambda>_.
     mbind (mstore (upd_desc d (\<lambda>D. D\<lparr>d_status := kStatusUndecided\<rparr>))) (\<lambda>_.
     PersistentMwCAS n tid 0 d)))"

text \<open>The version that stops before the final phase, for failure tests. It neither sorts the entries nor
  skips those without an address.\<close>

definition PersistentMwCASWithFailure :: "nat \<Rightarrow> u64 \<Rightarrow> nat \<Rightarrow> bool \<Rightarrow> nat \<Rightarrow> bool mw" where
  "PersistentMwCASWithFailure n tid depth complete_descriptor_install d =
     mbind (check_protected tid d) (\<lambda>_.
     mbind (stable_status depth d) (\<lambda>st.
       if st \<noteq> kStatusUndecided then
         (if depth > 0 then mbind (metric AddBailedHelp tid) (\<lambda>_. mret (st = kStatusSucceeded))
          else Cleanup tid d)
       else
         mbind (mget (\<lambda>s. d_count (descs s d))) (\<lambda>count.
         mbind (install_all False (install_word n tid depth d) d [0..<count]) (\<lambda>ok.
         mbind (mwhen ok (mfor (persist_target False d) [0..<count])) (\<lambda>_.
           if \<not> complete_descriptor_install then mret False
           else mbind (decide d (if ok then kStatusSucceeded else kStatusFailed)) (\<lambda>_. mret False))))))"

definition MwCASWithFailure :: "nat \<Rightarrow> u64 \<Rightarrow> nat \<Rightarrow> bool \<Rightarrow> nat \<Rightarrow> bool mw" where
  "MwCASWithFailure n tid depth complete d =
     mbind (mget (\<lambda>s. d_status (descs s d))) (\<lambda>st.
     mbind (mcheck (st = kStatusFinished) (RawCheck ''status of descriptor is not kStatusFinished'')) (\<lambda>_.
     mbind (mstore (upd_desc d (\<lambda>D. D\<lparr>d_status := kStatusUndecided\<rparr>))) (\<lambda>_.
     PersistentMwCASWithFailure n tid depth complete d)))"

section \<open>Reading a target field\<close>

fun GetValueProtectedPersistent :: "nat \<Rightarrow> u64 \<Rightarrow> u64 \<Rightarrow> u64 mw" where
  "GetValueProtectedPersistent 0 tid a = no_fuel"
| "GetValueProtectedPersistent (Suc n) tid a =
     mbind (mget (\<lambda>s. mem s a)) (\<lambda>val.
       if IsCondCASDescriptorPtr val then
         mbind (mcheck (\<not> IsDirtyPtr val) (RawCheck ''dirty flag set on CondCAS descriptor'')) (\<lambda>_.
         mbind (mget (\<lambda>s. word_at (pool s) (CleanPtr val))) (\<lambda>owd.
         case owd of None \<Rightarrow> mlift (Inl (BadAccess ''not a word descriptor''))
         | Some (d', i') \<Rightarrow>
           mbind (mget (\<lambda>s. words (descs s d') ! i')) (\<lambda>wd.
           mbind (mlift (SetFlags (GetDescriptor wd) (kMwCASFlag OR kDirtyFlag))) (\<lambda>dptr.
           mbind (mget (\<lambda>s. desc_at (pool s) (GetDescriptor wd))) (\<lambda>odd.
           case odd of None \<Rightarrow> mlift (Inl (BadAccess ''status_address_''))
           | Some d'' \<Rightarrow>
             mbind (mget (\<lambda>s. d_status (descs s d''))) (\<lambda>st.
             mbind (CompareExchange64 (address wd) (if st = kStatusUndecided then dptr else old_value wd) val)
               (\<lambda>_. GetValueProtectedPersistent n tid a)))))))
       else
         mbind (if IsDirtyPtr val then
                  mbind (Flush 8 a) (\<lambda>_. mbind (CompareExchange64 a (val AND NOT kDirtyFlag) val)
                    (\<lambda>_. mret (val AND NOT kDirtyFlag)))
                else mret val) (\<lambda>val1.
         mbind (mcheck (\<not> IsDirtyPtr val1) (RawCheck ''dirty flag set on return value'')) (\<lambda>_.
           if IsMwCASDescriptorPtr val1 then
             mbind (mcheck (CleanPtr val1 \<noteq> 0) (RawCheck ''invalid descriptor pointer'')) (\<lambda>_.
             mbind (mget (\<lambda>s. desc_at (pool s) (CleanPtr val1))) (\<lambda>od.
               case od of None \<Rightarrow> mlift (Inl (BadAccess ''not a descriptor''))
               | Some d' \<Rightarrow> mbind (PersistentMwCAS n tid 1 d') (\<lambda>_. GetValueProtectedPersistent n tid a)))
           else mbind (mcheck (IsCleanPtr val1) (RawCheck ''dirty flag set on return value'')) (\<lambda>_. mret val1))))"

definition GetValueProtected :: "nat \<Rightarrow> u64 \<Rightarrow> u64 \<Rightarrow> u64 mw" where
  "GetValueProtected n tid a = mbind (metric AddRead tid) (\<lambda>_. GetValueProtectedPersistent n tid a)"

text \<open>\<open>GetValue\<close> enters the epoch of the given manager for the duration of the read, unless the thread is
  already protected.\<close>

definition epoch_step :: "(epoch_world \<Rightarrow> ('a \<times> epoch_world) res) \<Rightarrow> 'a mw" where
  "epoch_step f s = (case f (ew s) of Inl e \<Rightarrow> Aborted e | Inr (x, w) \<Rightarrow> Done x (s\<lparr>ew := w\<rparr>))"

definition GetValue :: "nat \<Rightarrow> u64 \<Rightarrow> nat \<Rightarrow> u64 \<Rightarrow> u64 mw" where
  "GetValue n tid m a =
     mbind (metric AddRead tid) (\<lambda>_.
     mbind (epoch_step (IsProtected m tid)) (\<lambda>prot.
     mbind (epoch_step (EpochGuard m (\<not> prot) tid)) (\<lambda>g.
     mbind (GetValueProtectedPersistent n tid a) (\<lambda>v.
     mbind (epoch_step (\<lambda>w. rbind (EpochGuard_destroy g tid w) (\<lambda>w'. Inr ((), w')))) (\<lambda>_. mret v)))))"

end
