(* ===== verification/MwLogic.thy ===== *)
theory MwLogic
  imports MwCAS
begin

text \<open>
  Weakest preconditions for the library's monad. \<open>wp op Q C s\<close>: from \<open>s\<close> the operation neither aborts nor
  runs out of fuel; if it is not stopped it ends with a result and state that satisfy \<open>Q\<close>, and wherever it is
  stopped the state satisfies \<open>C\<close>.

  Most of a multi-word compare-and-swap changes only the target words and the status of its own
  descriptor; \<open>wpo\<close> is the same notion for states given by those two.
\<close>

named_theorems wp_rules \<open>introduction rules for weakest preconditions\<close>

definition wp :: "'a mw \<Rightarrow> ('a \<Rightarrow> mw_world \<Rightarrow> bool) \<Rightarrow> (mw_world \<Rightarrow> bool) \<Rightarrow> mw_world \<Rightarrow> bool" where
  "wp op Q C s = (case op s of
      Done x s' \<Rightarrow> Q x s' \<and> (budget s = None \<longrightarrow> budget s' = None)
    | Crashed s' \<Rightarrow> C s' \<and> budget s \<noteq> None
    | Aborted e \<Rightarrow> False
    | NoFuel \<Rightarrow> False)"

lemma mbind_Done: "f s = Done x s' \<Longrightarrow> mbind f g s = g x s'"
  by (simp add: mbind_def)

lemma wp_mono:
  assumes "wp op Q C s" and "\<And>x s. Q x s \<Longrightarrow> Q' x s" and "\<And>s. C s \<Longrightarrow> C' s"
  shows "wp op Q' C' s"
  using assms by (auto simp: wp_def split: outcome.splits)

lemma wp_DoneE:
  assumes "wp op Q C s" and "budget s = None"
  obtains x s' where "op s = Done x s'" "Q x s'" "budget s' = None"
  using assms by (auto simp: wp_def split: outcome.splits)

lemma wp_mret [wp_rules]: "Q x s \<Longrightarrow> wp (mret x) Q C s"
  by (simp add: wp_def mret_def)

lemma wp_mbind [wp_rules]: "wp m (\<lambda>x. wp (f x) Q C) C s \<Longrightarrow> wp (mbind m f) Q C s"
  by (auto simp: wp_def mbind_def split: outcome.splits)

lemma wp_mcheck [wp_rules]: "b \<Longrightarrow> Q () s \<Longrightarrow> wp (mcheck b e) Q C s"
  by (simp add: wp_def mcheck_def)

lemma wp_mget [wp_rules]: "Q (f s) s \<Longrightarrow> wp (mget f) Q C s"
  by (simp add: wp_def mget_def)

lemma wp_mlift [wp_rules]: "r = Inr x \<Longrightarrow> Q x s \<Longrightarrow> wp (mlift r) Q C s"
  by (simp add: wp_def mlift_def)

lemma wp_mwhen [wp_rules]: "(b \<Longrightarrow> wp m Q C s) \<Longrightarrow> (\<not> b \<Longrightarrow> Q () s) \<Longrightarrow> wp (mwhen b m) Q C s"
  by (simp add: mwhen_def wp_mret)

lemma wp_mstore [wp_rules]:
  assumes "C s" and "\<And>b. (budget s = None \<Longrightarrow> b = None) \<Longrightarrow> Q () (f (s\<lparr>budget := b\<rparr>))"
    and "\<And>s. budget (f s) = budget s"
  shows "wp (mstore f) Q C s"
proof -
  have n: "budget s = None \<Longrightarrow> f s = f (s\<lparr>budget := None\<rparr>)" by (cases s) simp
  show ?thesis
    using assms(1,3) assms(2) [of None] assms(2) n
    by (auto simp: wp_def mstore_def split: option.splits nat.splits)
qed

lemma wp_mfor:
  assumes "I 0 s"
    and "\<And>j s. j < length xs \<Longrightarrow> I j s \<Longrightarrow> wp (f (xs ! j)) (\<lambda>_. I (Suc j)) C s"
    and "\<And>s. I (length xs) s \<Longrightarrow> Q () s"
  shows "wp (mfor f xs) Q C s"
  using assms
proof (induction xs arbitrary: I s)
  case Nil
  then show ?case by (simp add: wp_mret)
next
  case (Cons x xs)
  have "wp (f x) (\<lambda>_. I (Suc 0)) C s" using Cons.prems(2) [of 0 s] Cons.prems(1) by simp
  then have "wp (f x) (\<lambda>_. wp (mfor f xs) Q C) C s"
  proof (rule wp_mono)
    fix s assume "I (Suc 0) s"
    then show "wp (mfor f xs) Q C s"
      by (rule Cons.IH [of "\<lambda>j. I (Suc j)"]) (use Cons.prems(2,3) in fastforce)+
  qed simp
  then show ?case by (simp add: wp_mbind)
qed

section \<open>States that differ in the target words and one status\<close>

definition opst ::
  "mw_world \<Rightarrow> nat \<Rightarrow> (u64 \<Rightarrow> u64) \<Rightarrow> u32 \<Rightarrow> nat option \<Rightarrow> (u64 \<Rightarrow> u64) \<Rightarrow> mw_world" where
  "opst s0 d m st b v = s0\<lparr>mem := m, nv := v, descs := (descs s0)(d := (descs s0 d)\<lparr>d_status := st\<rparr>), budget := b\<rparr>"

lemma opst_simps [simp]:
  "mem (opst s0 d m st b v) = m" "nv (opst s0 d m st b v) = v" "budget (opst s0 d m st b v) = b"
  "pool (opst s0 d m st b v) = pool s0" "ew (opst s0 d m st b v) = ew s0"
  "freed (opst s0 d m st b v) = freed s0" "mstats (opst s0 d m st b v) = mstats s0"
  "d_status (descs (opst s0 d m st b v) d) = st" "words (descs (opst s0 d m st b v) d') = words (descs s0 d')"
  "d_count (descs (opst s0 d m st b v) d') = d_count (descs s0 d')"
  "owner_partition (descs (opst s0 d m st b v) d') = owner_partition (descs s0 d')"
  "the_part (opst s0 d m st b v) p = the_part s0 p"
  "d' \<noteq> d \<Longrightarrow> descs (opst s0 d m st b v) d' = descs s0 d'"
  by (simp_all add: opst_def the_part_def)

lemma opst_updates [simp]:
  "set_mem a x (opst s0 d m st b v) = opst s0 d (m(a := x)) st b v"
  "(opst s0 d m st b v)\<lparr>budget := b'\<rparr> = opst s0 d m st b' v"
  "(opst s0 d m st b v)\<lparr>ew := ew s0\<rparr> = opst s0 d m st b v"
  "(opst s0 d m st b v)\<lparr>mstats := mstats s0\<rparr> = opst s0 d m st b v"
  "(opst s0 d m st b v)\<lparr>nv := v'\<rparr> = opst s0 d m st b v'"
  by (simp_all add: opst_def set_mem_def)

lemma budget_updates [simp]:
  "budget (set_mem a x s) = budget s" "budget (upd_desc d f s) = budget s" "budget (set_part p g s) = budget s"
  by (simp_all add: set_mem_def upd_desc_def set_part_def)

lemma opst_upd_status [simp]:
  "upd_desc d (\<lambda>D. D\<lparr>d_status := f D\<rparr>) (opst s0 d m st b v) =
     opst s0 d m (f ((descs s0 d)\<lparr>d_status := st\<rparr>)) b v"
  by (simp add: opst_def upd_desc_def)

text \<open>Words whose cache line holds no part of a descriptor of the pool.\<close>

definition app_word :: "desc_pool \<Rightarrow> u64 \<Rightarrow> bool" where
  "app_word p a \<longleftrightarrow> (\<forall>d < pool_size p. \<not> in_lines (desc_addr p d) 256 a)"

definition wpo ::
  "mw_world \<Rightarrow> nat \<Rightarrow> 'a mw \<Rightarrow> ('a \<Rightarrow> (u64 \<Rightarrow> u64) \<Rightarrow> u32 \<Rightarrow> bool) \<Rightarrow> ((u64 \<Rightarrow> u64) \<Rightarrow> u32 \<Rightarrow> bool) \<Rightarrow>
   (u64 \<Rightarrow> u64) \<Rightarrow> u32 \<Rightarrow> bool" where
  "wpo s0 d op Q C m st = (\<forall>b v. wp op
     (\<lambda>x s'. \<exists>m' st' b' v'. s' = opst s0 d m' st' b' v' \<and> Q x m' st' \<and> (\<forall>a. app_word (pool s0) a \<longrightarrow> v' a = v a))
     (\<lambda>s'. \<exists>m' st' b' v'. s' = opst s0 d m' st' b' v' \<and> C m' st' \<and> (\<forall>a. app_word (pool s0) a \<longrightarrow> v' a = v a))
     (opst s0 d m st b v))"

lemma wpoD:
  assumes "wpo s0 d op Q C m st"
  shows "wp op
     (\<lambda>x s'. \<exists>m' st' b' v'. s' = opst s0 d m' st' b' v' \<and> Q x m' st' \<and> (\<forall>a. app_word (pool s0) a \<longrightarrow> v' a = v a))
     (\<lambda>s'. \<exists>m' st' b' v'. s' = opst s0 d m' st' b' v' \<and> C m' st' \<and> (\<forall>a. app_word (pool s0) a \<longrightarrow> v' a = v a))
     (opst s0 d m st b v)"
  using assms by (simp add: wpo_def)

lemma wpo_mono:
  assumes "wpo s0 d op Q C m st" and "\<And>x m st. Q x m st \<Longrightarrow> Q' x m st" and "\<And>m st. C m st \<Longrightarrow> C' m st"
  shows "wpo s0 d op Q' C' m st"
  unfolding wpo_def
proof (intro allI)
  fix b v
  show "wp op
     (\<lambda>x s'. \<exists>m' st' b' v'. s' = opst s0 d m' st' b' v' \<and> Q' x m' st' \<and> (\<forall>a. app_word (pool s0) a \<longrightarrow> v' a = v a))
     (\<lambda>s'. \<exists>m' st' b' v'. s' = opst s0 d m' st' b' v' \<and> C' m' st' \<and> (\<forall>a. app_word (pool s0) a \<longrightarrow> v' a = v a))
     (opst s0 d m st b v)"
    using assms(1) unfolding wpo_def
    by (elim allE [of _ b] allE [of _ v] wp_mono) (use assms(2,3) in blast)+
qed

lemma wpo_mret [wp_rules]: "Q x m st \<Longrightarrow> wpo s0 d (mret x) Q C m st"
  by (auto simp: wpo_def wp_def mret_def)

lemma wpo_mbind [wp_rules]:
  assumes "wpo s0 d f (\<lambda>x. wpo s0 d (g x) Q C) C m st"
  shows "wpo s0 d (mbind f g) Q C m st"
  unfolding wpo_def
proof (intro allI)
  fix b v
  let ?K = "\<lambda>R s'. \<exists>m' st' b' v'. s' = opst s0 d m' st' b' v' \<and> R m' st' \<and> (\<forall>a. app_word (pool s0) a \<longrightarrow> v' a = v a)"
  show "wp (mbind f g) (\<lambda>x. ?K (Q x)) (?K C) (opst s0 d m st b v)"
  proof (rule wp_mbind, rule wp_mono)
    show "wp f (\<lambda>x. ?K (wpo s0 d (g x) Q C)) (?K C) (opst s0 d m st b v)"
      using assms unfolding wpo_def [of s0 d f] by blast
    show "wp (g x) (\<lambda>x. ?K (Q x)) (?K C) s" if h: "?K (wpo s0 d (g x) Q C) s" for x s
    proof -
      obtain m' st' b' v' where s: "s = opst s0 d m' st' b' v'" and w: "wpo s0 d (g x) Q C m' st'"
        and v: "\<forall>a. app_word (pool s0) a \<longrightarrow> v' a = v a" using h by blast
      show ?thesis
        unfolding s by (rule wp_mono [OF w [unfolded wpo_def, rule_format]]) (use v in force)+
    qed
  qed
qed

lemma wpo_mget [wp_rules]:
  assumes "\<And>b v. f (opst s0 d m st b v) = f (opst s0 d m st None (nv s0))"
    and "Q (f (opst s0 d m st None (nv s0))) m st"
  shows "wpo s0 d (mget f) Q C m st"
proof -
  have "Q (f (opst s0 d m st b v)) m st" for b v using assms(1) [of b v] assms(2) by simp
  then show ?thesis unfolding wpo_def wp_def mget_def by (simp, blast)
qed

lemma wpo_mcheck [wp_rules]: "b \<Longrightarrow> Q () m st \<Longrightarrow> wpo s0 d (mcheck b e) Q C m st"
  by (auto simp: wpo_def wp_def mcheck_def)

lemma wpo_mlift [wp_rules]: "r = Inr x \<Longrightarrow> Q x m st \<Longrightarrow> wpo s0 d (mlift r) Q C m st"
  by (auto simp: wpo_def wp_def mlift_def)

lemma wpo_mwhen [wp_rules]:
  "(b \<Longrightarrow> wpo s0 d f Q C m st) \<Longrightarrow> (\<not> b \<Longrightarrow> Q () m st) \<Longrightarrow> wpo s0 d (mwhen b f) Q C m st"
  by (auto simp: mwhen_def intro: wpo_mret)

lemma wpo_CAS64 [wp_rules]:
  assumes "C m st" and "Q (m a) (if m a = y then m(a := x) else m) st"
  shows "wpo s0 d (CompareExchange64 a x y) Q C m st"
  unfolding wpo_def CompareExchange64_def
  using assms by (intro allI wp_rules) (auto intro!: exI)

lemma wpo_CAS32 [wp_rules]:
  assumes "C m st" and "Q st m (if st = y then x else st)"
  shows "wpo s0 d (CompareExchange32 d x y) Q C m st"
  unfolding wpo_def CompareExchange32_def
  using assms by (intro allI wp_rules) (auto intro!: exI)

lemma wpo_mfor:
  assumes "I 0 m st"
    and "\<And>j m st. j < length xs \<Longrightarrow> I j m st \<Longrightarrow> wpo s0 d (f (xs ! j)) (\<lambda>_. I (Suc j)) C m st"
    and "\<And>m st. I (length xs) m st \<Longrightarrow> Q () m st"
  shows "wpo s0 d (mfor f xs) Q C m st"
  using assms
proof (induction xs arbitrary: I m st)
  case Nil
  then show ?case by (simp add: wpo_mret)
next
  case (Cons x xs)
  have "wpo s0 d (f x) (\<lambda>_. I (Suc 0)) C m st" using Cons.prems(2) [of 0 m st] Cons.prems(1) by simp
  then have "wpo s0 d (f x) (\<lambda>_. wpo s0 d (mfor f xs) Q C) C m st"
  proof (rule wpo_mono)
    fix m st assume "I (Suc 0) m st"
    then show "wpo s0 d (mfor f xs) Q C m st"
      by (rule Cons.IH [of "\<lambda>j. I (Suc j)"]) (use Cons.prems(2,3) in fastforce)+
  qed simp
  then show ?case by (simp add: wpo_mbind)
qed

end
