(* ===== verification/MwAtomic.thy ===== *)
theory MwAtomic
  imports MwLogic
begin

text \<open>
  Correctness of one multi-word compare-and-swap: from any point at which its owner can have been
  stopped, \<open>PersistentMwCAS\<close> carries the operation through and changes the target words all or not at all.
\<close>

section \<open>Addresses of the pool\<close>

definition pool_ok :: "desc_pool \<Rightarrow> bool" where
  "pool_ok p \<longleftrightarrow> descriptors p \<noteq> 0 \<and> unat (descriptors p) + 256 * pool_size p \<le> 2 ^ 61"

lemma u64_of_nat_small: "n < 2 ^ 64 \<Longrightarrow> unat (of_nat n :: u64) = n"
  by (simp add: unat_of_nat)

lemma unat_add_of_nat: "unat (x::u64) + n < 2 ^ 64 \<Longrightarrow> unat (x + of_nat n) = unat x + n"
  by (simp add: unat_word_ariths u64_of_nat_small)

lemma desc_addr_alt: "desc_addr p d = descriptors p + of_nat (256 * d)"
  by (simp add: desc_addr_def)

lemma word_addr_alt: "word_addr p d i = descriptors p + of_nat (256 * d + 40 + 40 * i)"
  by (simp add: word_addr_def desc_addr_def)

lemma pool_offset:
  assumes "pool_ok p" and "d < pool_size p" and "k < 256"
  shows "unat (descriptors p) + (256 * d + k) < 2 ^ 61"
proof -
  have "256 * d + 256 \<le> 256 * pool_size p" using assms(2) by linarith
  then show ?thesis using assms(1,3) by (simp add: pool_ok_def)
qed

lemma unat_pool_addr:
  assumes "pool_ok p" and "d < pool_size p" and "k < 256"
  shows "unat (descriptors p + of_nat (256 * d + k)) = unat (descriptors p) + (256 * d + k)"
  using pool_offset [OF assms] by (intro unat_add_of_nat) simp

lemma small_clean: "unat v < 2 ^ 61 \<Longrightarrow> IsCleanPtr v"
proof -
  assume v: "unat v < 2 ^ 61"
  have "\<not> bit v n" if n: "61 \<le> n" for n
  proof
    assume b: "bit v n"
    then have "bit (unat v) n" by (simp add: bit_unsigned_iff u64_bit_less)
    moreover have "unat v < 2 ^ n" using v n power_increasing [of 61 n "2::nat"] by linarith
    ultimately show False by (simp add: bit_iff_odd)
  qed
  then show ?thesis by (simp add: ptr_bits)
qed

lemma pool_addr_clean:
  assumes "pool_ok p" and "d < pool_size p" and "k < 256"
  shows "IsCleanPtr (descriptors p + of_nat (256 * d + k))"
  using pool_offset [OF assms] unat_pool_addr [OF assms] by (intro small_clean) simp

lemma desc_addr_clean [simp]: "pool_ok p \<Longrightarrow> d < pool_size p \<Longrightarrow> IsCleanPtr (desc_addr p d)"
  using pool_addr_clean [of p d 0] by (simp add: desc_addr_alt)

lemma word_addr_clean [simp]: "pool_ok p \<Longrightarrow> d < pool_size p \<Longrightarrow> i < 4 \<Longrightarrow> IsCleanPtr (word_addr p d i)"
  using pool_addr_clean [of p d "40 + 40 * i"] by (simp add: word_addr_alt add.assoc)

lemma desc_addr_nonzero [simp]: "pool_ok p \<Longrightarrow> d < pool_size p \<Longrightarrow> desc_addr p d \<noteq> 0"
  using unat_pool_addr [of p d 0] by (auto simp: desc_addr_alt pool_ok_def unat_eq_0)

lemma addr_diff: "unat ((descriptors p + of_nat n) - descriptors p) = n" if "n < 2 ^ 64" for n
  using that by (simp add: u64_of_nat_small)

lemma desc_at_addr [simp]:
  assumes "pool_ok p" and "d < pool_size p"
  shows "desc_at p (desc_addr p d) = Some d"
proof -
  have "unat (desc_addr p d - descriptors p) = 256 * d"
    unfolding desc_addr_alt using pool_offset [OF assms, of 0] by (intro addr_diff) simp
  then show ?thesis using assms(2) by (simp add: desc_at_def)
qed

lemma word_at_addr [simp]:
  assumes "pool_ok p" and "d < pool_size p" and "i < 4"
  shows "word_at p (word_addr p d i) = Some (d, i)"
proof -
  have "unat (word_addr p d i - descriptors p) = 256 * d + (40 + 40 * i)"
    unfolding word_addr_alt add.assoc
    using pool_offset [OF assms(1,2), of "40 + 40 * i"] assms(3) by (intro addr_diff) simp
  moreover have "(256 * d + (40 + 40 * i)) mod 256 = 40 + 40 * i" "(256 * d + (40 + 40 * i)) div 256 = d"
    using assms(3) by simp_all
  ultimately show ?thesis using assms(2,3) by (simp add: word_at_def DESC_CAP_def)
qed

lemma in_lines_sub:
  "in_lines q k a \<Longrightarrow> unat p \<le> unat q \<Longrightarrow> unat q + unat k \<le> unat p + unat n \<Longrightarrow> in_lines p n a"
proof -
  assume l: "in_lines q k a" and p: "unat p \<le> unat q" and q: "unat q + unat k \<le> unat p + unat n"
  have "unat p div 64 \<le> unat q div 64" using p by (rule div_le_mono)
  moreover have "(unat q + unat k - 1) div 64 \<le> (unat p + unat n - 1) div 64"
    using q by (intro div_le_mono diff_le_mono)
  ultimately show "in_lines p n a" using l unfolding in_lines_def by (meson le_trans)
qed

lemma pool_lines:
  assumes "pool_ok p" and "d < pool_size p" and "off + unat k \<le> 256" and "0 < unat k"
    and "app_word p a"
  shows "\<not> in_lines (descriptors p + of_nat (256 * d + off)) k a"
proof
  define q where "q = descriptors p + of_nat (256 * d + off)"
  define r where "r = desc_addr p d"
  assume "in_lines (descriptors p + of_nat (256 * d + off)) k a"
  then have l: "in_lines q k a" by (simp only: q_def)
  have off: "off < 256" using assms(3,4) by linarith
  have q: "unat q = unat (descriptors p) + (256 * d + off)"
    unfolding q_def by (rule unat_pool_addr [OF assms(1,2) off])
  have r: "unat r = unat (descriptors p) + 256 * d"
    using unat_pool_addr [OF assms(1,2), of 0] by (simp add: r_def desc_addr_alt)
  have n: "unat (256::u64) = 256" by simp
  have "in_lines r 256 a"
    by (rule in_lines_sub [OF l]) (use q r n assms(3) in linarith)+
  then show False using assms(2,5) by (simp add: app_word_def r_def)
qed

lemma wpo_Flush:
  assumes "\<And>a. app_word (pool s0) a \<Longrightarrow> \<not> in_lines p k a" and "Q () m st"
  shows "wpo s0 d (Flush k p) Q C m st"
  using assms by (auto simp: wpo_def wp_def Flush_def intro!: exI)

lemma wpo_PersistStatus:
  assumes "pool_ok (pool s0)" and "d < pool_size (pool s0)" and "Q () m st"
  shows "wpo s0 d' (PersistStatus d) Q C m st"
proof -
  have "status_addr (pool s0) d = descriptors (pool s0) + of_nat (256 * d + 16)"
    by (simp add: status_addr_def desc_addr_alt)
  then show ?thesis
    unfolding PersistStatus_def using pool_lines [OF assms(1,2), of 16 4] assms(3)
    by (intro wp_rules wpo_Flush) simp_all
qed

lemma wpo_PersistAddress:
  assumes "pool_ok (pool s0)" and "d < pool_size (pool s0)" and "i < 4" and "Q () m st"
  shows "wpo s0 d' (PersistAddress d i) Q C m st"
proof -
  have "word_addr (pool s0) d i = descriptors (pool s0) + of_nat (256 * d + (40 + 40 * i))"
    by (simp add: word_addr_alt)
  then show ?thesis
    unfolding PersistAddress_def using pool_lines [OF assms(1,2), of "40 + 40 * i" 8] assms(3,4)
    by (intro wp_rules wpo_Flush) simp_all
qed

lemma wpo_Flush_desc:
  assumes "pool_ok (pool s0)" and "d < pool_size (pool s0)" and "Q () m st"
  shows "wpo s0 d' (Flush 256 (desc_addr (pool s0) d)) Q C m st"
  using pool_lines [OF assms(1,2), of 0 256] assms(3)
  by (intro wpo_Flush) (simp_all add: desc_addr_alt)

section \<open>The operation\<close>

definition wrd :: "mw_world \<Rightarrow> nat \<Rightarrow> nat \<Rightarrow> word_desc" where
  "wrd s0 d i = words (descs s0 d) ! i"

lemma wrd_opst [simp]: "wrd (opst s0 d m st b v) d' i = wrd s0 d' i"
  by (simp add: wrd_def)

definition tgt :: "mw_world \<Rightarrow> nat \<Rightarrow> nat \<Rightarrow> bool" where
  "tgt s0 d i \<longleftrightarrow> i < d_count (descs s0 d) \<and> address (wrd s0 d i) \<noteq> kAllocNullAddress"

text \<open>The three pointers an operation installs: its word descriptor, and itself with and without the dirty bit.\<close>

definition cptr :: "mw_world \<Rightarrow> nat \<Rightarrow> nat \<Rightarrow> u64" where
  "cptr s0 d i = word_addr (pool s0) d i OR kCondCASFlag"

definition dptr :: "mw_world \<Rightarrow> nat \<Rightarrow> u64" where
  "dptr s0 d = desc_addr (pool s0) d OR kMwCASFlag"

definition dptr_dirty :: "mw_world \<Rightarrow> nat \<Rightarrow> u64" where
  "dptr_dirty s0 d = desc_addr (pool s0) d OR (kMwCASFlag OR kDirtyFlag)"

definition protected_thread :: "mw_world \<Rightarrow> nat \<Rightarrow> u64 \<Rightarrow> bool" where
  "protected_thread s0 d tid \<longleftrightarrow>
     (\<exists>m. gl_epoch_manager (part_garbage (the_part s0 (owner_partition (descs s0 d)))) = Some m \<and>
        IsProtected m tid (ew s0) = Inr (True, ew s0))"

text \<open>A value of the application: no management flag, and not the address of a descriptor.\<close>

definition app_value :: "desc_pool \<Rightarrow> u64 \<Rightarrow> bool" where
  "app_value p v \<longleftrightarrow> IsCleanPtr v \<and> (\<forall>d < pool_size p. v \<noteq> desc_addr p d \<and> (\<forall>i < DESC_CAP. v \<noteq> word_addr p d i))"

text \<open>A well-formed operation: the entries have distinct addresses and application values, and the words they
  name held application values when the operation started (\<open>m0\<close>).\<close>

definition op_ctx :: "mw_world \<Rightarrow> nat \<Rightarrow> (u64 \<Rightarrow> u64) \<Rightarrow> bool" where
  "op_ctx s0 d m0 \<longleftrightarrow>
     pool_ok (pool s0) \<and> d < pool_size (pool s0) \<and> d_count (descs s0 d) \<le> DESC_CAP \<and>
     length (words (descs s0 d)) = DESC_CAP \<and>
     (\<forall>i < d_count (descs s0 d). app_value (pool s0) (old_value (wrd s0 d i)) \<and> app_value (pool s0) (new_value (wrd s0 d i)) \<and>
        status_address (wrd s0 d i) = status_addr (pool s0) d) \<and>
     (\<forall>i j. tgt s0 d i \<longrightarrow> tgt s0 d j \<longrightarrow> address (wrd s0 d i) = address (wrd s0 d j) \<longrightarrow> i = j) \<and>
     (\<forall>i. tgt s0 d i \<longrightarrow> app_value (pool s0) (m0 (address (wrd s0 d i))))"

definition sorted_words :: "mw_world \<Rightarrow> nat \<Rightarrow> bool" where
  "sorted_words s0 d \<longleftrightarrow> sorted (map address (take (d_count (descs s0 d)) (words (descs s0 d))))"

lemma op_ctxD:
  assumes "op_ctx s0 d m0"
  shows "pool_ok (pool s0)" "d < pool_size (pool s0)" "d_count (descs s0 d) \<le> 4" "d_count (descs s0 d) \<le> DESC_CAP"
    "length (words (descs s0 d)) = DESC_CAP"
    "tgt s0 d i \<Longrightarrow> IsCleanPtr (old_value (wrd s0 d i))" "tgt s0 d i \<Longrightarrow> IsCleanPtr (new_value (wrd s0 d i))"
    "tgt s0 d i \<Longrightarrow> IsCleanPtr (m0 (address (wrd s0 d i)))" "tgt s0 d i \<Longrightarrow> i < 4"
    "tgt s0 d i \<Longrightarrow> GetDescriptor (wrd s0 d i) = desc_addr (pool s0) d"
    "tgt s0 d i \<Longrightarrow> m0 (address (wrd s0 d i)) \<noteq> desc_addr (pool s0) d"
  using assms by (auto simp: op_ctx_def tgt_def DESC_CAP_def GetDescriptor_def status_addr_def app_value_def)

lemma tgt_inj:
  "op_ctx s0 d m0 \<Longrightarrow> tgt s0 d i \<Longrightarrow> tgt s0 d j \<Longrightarrow> address (wrd s0 d i) = address (wrd s0 d j) \<longleftrightarrow> i = j"
  by (auto simp: op_ctx_def)

lemma wpo_check_protected:
  assumes "protected_thread s0 d tid" and "Q () m st"
  shows "wpo s0 d (check_protected tid d) Q C m st"
  using assms by (auto simp: wpo_def wp_def check_protected_def protected_thread_def intro!: exI)

lemma wpo_metric:
  assumes "\<not> enabled (mstats s0)" and "add \<in> {AddRead, AddSucceededUpdate, AddFailedUpdate, AddHelpAttempt, AddBailedHelp}"
    and "Q () m st"
  shows "wpo s0 d (metric add tid) Q C m st"
  using assms by (auto simp: wpo_def wp_def metric_def metric_defs intro!: exI)

section \<open>The conditional CAS on a target\<close>

lemmas wpo_steps = wpo_mbind wpo_mget wpo_mlift wpo_CAS64 SetFlags_eq

lemma CondCAS_installed:
  assumes ctx: "op_ctx s0 d m0" and t: "tgt s0 d i"
    and v: "m (address (wrd s0 d i)) \<in> {dptr s0 d, dptr_dirty s0 d}"
    and "C m st" and "Q (m (address (wrd s0 d i))) m st"
  shows "wpo s0 d (CondCAS (Suc n) d i kDirtyFlag) Q C m st"
proof -
  note facts = op_ctxD [OF ctx]
  have c: "\<not> IsCondCASDescriptorPtr (m (address (wrd s0 d i)))" and o: "m (address (wrd s0 d i)) \<noteq> old_value (wrd s0 d i)"
    using v facts(1,2) facts(6) [OF t] tag_neq [of "old_value (wrd s0 d i)" "desc_addr (pool s0) d"]
    by (auto simp: dptr_def dptr_dirty_def)
  show ?thesis
    unfolding CondCAS.simps
    by (rule wpo_steps | simp add: wrd_def [symmetric] c o assms(4,5) wpo_mret)+
qed

lemma CondCAS_fresh:
  assumes ctx: "op_ctx s0 d m0" and t: "tgt s0 d i"
    and v: "m (address (wrd s0 d i)) = old_value (wrd s0 d i)"
    and "C m kStatusUndecided" and "C (m(address (wrd s0 d i) := cptr s0 d i)) kStatusUndecided"
    and "Q (old_value (wrd s0 d i)) (m(address (wrd s0 d i) := dptr_dirty s0 d)) kStatusUndecided"
  shows "wpo s0 d (CondCAS (Suc n) d i kDirtyFlag) Q C m kStatusUndecided"
proof -
  have c: "\<not> IsCondCASDescriptorPtr (old_value (wrd s0 d i))" using op_ctxD(6) [OF ctx t] by simp
  show ?thesis
    unfolding CondCAS.simps
    by (rule wpo_steps | simp add: wrd_def [symmetric] c v assms(4) assms(5,6) [unfolded cptr_def dptr_dirty_def] wpo_mret)+
qed

lemma CondCAS_cond:
  assumes ctx: "op_ctx s0 d m0" and t: "tgt s0 d i"
    and v: "m (address (wrd s0 d i)) = cptr s0 d i"
    and "C m kStatusUndecided"
    and "Q (dptr_dirty s0 d) (m(address (wrd s0 d i) := dptr_dirty s0 d)) kStatusUndecided"
  shows "wpo s0 d (CondCAS (Suc n) d i kDirtyFlag) Q C m kStatusUndecided"
proof -
  note facts = op_ctxD(1,2) [OF ctx] op_ctxD(6,9,10) [OF ctx t]
  have c: "IsCondCASDescriptorPtr (cptr s0 d i)" "CleanPtr (cptr s0 d i) = word_addr (pool s0) d i"
    "cptr s0 d i \<noteq> old_value (wrd s0 d i)"
    using facts tag_neq(2) [of "old_value (wrd s0 d i)" "word_addr (pool s0) d i"] by (auto simp: cptr_def)
  show ?thesis
    unfolding CondCAS.simps
    by (rule wpo_steps wpo_mcheck | simp add: wrd_def [symmetric] c v facts assms(4) assms(5) [unfolded dptr_dirty_def] wpo_mret Let_def)+
qed

lemma CondCAS_other:
  assumes ctx: "op_ctx s0 d m0" and t: "tgt s0 d i"
    and v: "IsCleanPtr (m (address (wrd s0 d i)))" "m (address (wrd s0 d i)) \<noteq> old_value (wrd s0 d i)"
    and "C m st" and "Q (m (address (wrd s0 d i))) m st"
  shows "wpo s0 d (CondCAS (Suc n) d i kDirtyFlag) Q C m st"
  unfolding CondCAS.simps
  by (rule wpo_steps | simp add: wrd_def [symmetric] v assms(5,6) wpo_mret)+

section \<open>The invariant of a stopped operation\<close>

definition frame :: "mw_world \<Rightarrow> nat \<Rightarrow> (u64 \<Rightarrow> u64) \<Rightarrow> (u64 \<Rightarrow> u64) \<Rightarrow> bool" where
  "frame s0 d m0 m \<longleftrightarrow> (\<forall>a. (\<forall>i. tgt s0 d i \<longrightarrow> a \<noteq> address (wrd s0 d i)) \<longrightarrow> m a = m0 a)"

definition matches :: "mw_world \<Rightarrow> nat \<Rightarrow> (u64 \<Rightarrow> u64) \<Rightarrow> nat \<Rightarrow> bool" where
  "matches s0 d m0 i \<longleftrightarrow> m0 (address (wrd s0 d i)) = old_value (wrd s0 d i)"

text \<open>Undecided: the targets before \<open>k\<close> hold the descriptor, the target \<open>k\<close> may hold its word descriptor,
  those after \<open>k\<close> are untouched.\<close>

definition installed_to :: "mw_world \<Rightarrow> nat \<Rightarrow> (u64 \<Rightarrow> u64) \<Rightarrow> nat \<Rightarrow> (u64 \<Rightarrow> u64) \<Rightarrow> bool" where
  "installed_to s0 d m0 k m \<longleftrightarrow> frame s0 d m0 m \<and>
     (\<forall>i. tgt s0 d i \<longrightarrow>
        (i < k \<longrightarrow> matches s0 d m0 i \<and> m (address (wrd s0 d i)) \<in> {dptr s0 d, dptr_dirty s0 d}) \<and>
        (i = k \<longrightarrow> m (address (wrd s0 d i)) = m0 (address (wrd s0 d i)) \<or>
                   matches s0 d m0 i \<and> m (address (wrd s0 d i)) = cptr s0 d i) \<and>
        (k < i \<longrightarrow> m (address (wrd s0 d i)) = m0 (address (wrd s0 d i))))"

text \<open>Succeeded: every target held its old value and now holds the descriptor or the new value.\<close>

definition rolling_forward :: "mw_world \<Rightarrow> nat \<Rightarrow> (u64 \<Rightarrow> u64) \<Rightarrow> (u64 \<Rightarrow> u64) \<Rightarrow> bool" where
  "rolling_forward s0 d m0 m \<longleftrightarrow> frame s0 d m0 m \<and>
     (\<forall>i. tgt s0 d i \<longrightarrow> matches s0 d m0 i \<and>
        m (address (wrd s0 d i)) \<in> {dptr s0 d, dptr_dirty s0 d, new_value (wrd s0 d i) OR kDirtyFlag, new_value (wrd s0 d i)})"

text \<open>Failed: some target did not hold its old value; every target is unchanged, or held its old value and
  still shows the descriptor or the old value to be persisted.\<close>

definition rolling_back :: "mw_world \<Rightarrow> nat \<Rightarrow> (u64 \<Rightarrow> u64) \<Rightarrow> (u64 \<Rightarrow> u64) \<Rightarrow> bool" where
  "rolling_back s0 d m0 m \<longleftrightarrow> frame s0 d m0 m \<and> (\<exists>i. tgt s0 d i \<and> \<not> matches s0 d m0 i) \<and>
     (\<forall>i. tgt s0 d i \<longrightarrow> m (address (wrd s0 d i)) = m0 (address (wrd s0 d i)) \<or>
        matches s0 d m0 i \<and> m (address (wrd s0 d i)) \<in> {dptr s0 d, dptr_dirty s0 d, old_value (wrd s0 d i) OR kDirtyFlag})"

definition stopped :: "mw_world \<Rightarrow> nat \<Rightarrow> (u64 \<Rightarrow> u64) \<Rightarrow> (u64 \<Rightarrow> u64) \<Rightarrow> u32 \<Rightarrow> bool" where
  "stopped s0 d m0 m st \<longleftrightarrow>
     st = kStatusUndecided \<and> (\<exists>k \<le> d_count (descs s0 d). installed_to s0 d m0 k m) \<or>
     st \<in> {kStatusSucceeded, kStatusSucceeded OR kStatusDirtyFlag} \<and> rolling_forward s0 d m0 m \<or>
     st \<in> {kStatusFailed, kStatusFailed OR kStatusDirtyFlag} \<and> rolling_back s0 d m0 m"

text \<open>The memory after a successful operation.\<close>

definition committed :: "mw_world \<Rightarrow> nat \<Rightarrow> (u64 \<Rightarrow> u64) \<Rightarrow> (u64 \<Rightarrow> u64) \<Rightarrow> bool" where
  "committed s0 d m0 m \<longleftrightarrow> frame s0 d m0 m \<and> (\<forall>i. tgt s0 d i \<longrightarrow> m (address (wrd s0 d i)) = new_value (wrd s0 d i))"

lemma frame_update: "frame s0 d m0 m \<Longrightarrow> tgt s0 d i \<Longrightarrow> frame s0 d m0 (m(address (wrd s0 d i) := x))"
  by (auto simp: frame_def)

section \<open>Installation\<close>

lemma upd_other_target:
  assumes "op_ctx s0 d m0" and "tgt s0 d i" and "tgt s0 d j" and "i \<noteq> j"
  shows "(m(address (wrd s0 d i) := x)) (address (wrd s0 d j)) = m (address (wrd s0 d j))"
  using tgt_inj [OF assms(1-3)] assms(4) by simp

lemma installed_to_step:
  assumes ctx: "op_ctx s0 d m0" and i: "installed_to s0 d m0 k m" and t: "tgt s0 d k" and m: "matches s0 d m0 k"
  shows "installed_to s0 d m0 (Suc k) (m(address (wrd s0 d k) := dptr_dirty s0 d))"
  unfolding installed_to_def
proof (intro conjI allI impI)
  show "frame s0 d m0 (m(address (wrd s0 d k) := dptr_dirty s0 d))"
    using i t by (auto simp: installed_to_def intro: frame_update)
  fix j assume j: "tgt s0 d j"
  note o = upd_other_target [OF ctx t j, of m "dptr_dirty s0 d"]
  show "matches s0 d m0 j" if "j < Suc k" using i j m that by (cases "j = k") (auto simp: installed_to_def)
  show "(m(address (wrd s0 d k) := dptr_dirty s0 d)) (address (wrd s0 d j)) \<in> {dptr s0 d, dptr_dirty s0 d}"
    if "j < Suc k" using i j o that by (cases "j = k") (auto simp: installed_to_def)
  show "(m(address (wrd s0 d k) := dptr_dirty s0 d)) (address (wrd s0 d j)) = m0 (address (wrd s0 d j)) \<or>
      matches s0 d m0 j \<and> (m(address (wrd s0 d k) := dptr_dirty s0 d)) (address (wrd s0 d j)) = cptr s0 d j"
    if "j = Suc k" using i j o that by (auto simp: installed_to_def)
  show "(m(address (wrd s0 d k) := dptr_dirty s0 d)) (address (wrd s0 d j)) = m0 (address (wrd s0 d j))"
    if "Suc k < j" using i j o that by (auto simp: installed_to_def)
qed

lemma installed_to_cond:
  assumes ctx: "op_ctx s0 d m0" and i: "installed_to s0 d m0 k m" and t: "tgt s0 d k" and m: "matches s0 d m0 k"
  shows "installed_to s0 d m0 k (m(address (wrd s0 d k) := cptr s0 d k))"
  unfolding installed_to_def
proof (intro conjI allI impI)
  show "frame s0 d m0 (m(address (wrd s0 d k) := cptr s0 d k))"
    using i t by (auto simp: installed_to_def intro: frame_update)
  fix j assume j: "tgt s0 d j"
  note o = upd_other_target [OF ctx t j, of m "cptr s0 d k"]
  show "matches s0 d m0 j" if "j < k" using i j that by (auto simp: installed_to_def)
  show "(m(address (wrd s0 d k) := cptr s0 d k)) (address (wrd s0 d j)) \<in> {dptr s0 d, dptr_dirty s0 d}"
    if "j < k" using i j o that by (auto simp: installed_to_def)
  show "(m(address (wrd s0 d k) := cptr s0 d k)) (address (wrd s0 d j)) = m0 (address (wrd s0 d j)) \<or>
      matches s0 d m0 j \<and> (m(address (wrd s0 d k) := cptr s0 d k)) (address (wrd s0 d j)) = cptr s0 d j"
    if "j = k" using m that by simp
  show "(m(address (wrd s0 d k) := cptr s0 d k)) (address (wrd s0 d j)) = m0 (address (wrd s0 d j))"
    if "k < j" using i j o that by (auto simp: installed_to_def)
qed

lemma installed_to_skip: "installed_to s0 d m0 k m \<Longrightarrow> \<not> tgt s0 d k \<Longrightarrow> installed_to s0 d m0 (Suc k) m"
  by (auto simp: installed_to_def less_Suc_eq Suc_lessD)

lemma stopped_undecided:
  "installed_to s0 d m0 k m \<Longrightarrow> k \<le> d_count (descs s0 d) \<Longrightarrow> stopped s0 d m0 m kStatusUndecided"
  by (auto simp: stopped_def)

lemma install_word_done:
  assumes ctx: "op_ctx s0 d m0" and t: "tgt s0 d i"
    and v: "m (address (wrd s0 d i)) \<in> {dptr s0 d, dptr_dirty s0 d}" and C: "C m st" and Q: "Q True m st"
  shows "wpo s0 d (install_word (Suc (Suc n)) tid depth d i) Q C m st"
proof -
  have c: "CleanPtr (m (address (wrd s0 d i))) = desc_addr (pool s0) d"
    using v op_ctxD(1,2) [OF ctx] by (auto simp: dptr_def dptr_dirty_def)
  show ?thesis
    unfolding install_word.simps
    by (rule wpo_mbind, rule CondCAS_installed [where C = C and m = m, OF ctx t v C])
      (rule wpo_steps | simp add: wrd_def [symmetric] c Q wpo_mret)+
qed

lemma install_word_match:
  assumes ctx: "op_ctx s0 d m0" and i: "installed_to s0 d m0 k m" and t: "tgt s0 d k" and mt: "matches s0 d m0 k"
    and Q: "Q True (m(address (wrd s0 d k) := dptr_dirty s0 d)) kStatusUndecided"
  shows "wpo s0 d (install_word (Suc (Suc n)) tid depth d k) Q (stopped s0 d m0) m kStatusUndecided"
proof -
  have k: "k \<le> d_count (descs s0 d)" using t by (simp add: tgt_def)
  note st = stopped_undecided [OF i k] and cs = stopped_undecided [OF installed_to_cond [OF ctx i t mt] k]
  have c: "CleanPtr (dptr_dirty s0 d) = desc_addr (pool s0) d"
    using op_ctxD(1,2) [OF ctx] by (simp add: dptr_dirty_def)
  have v: "m (address (wrd s0 d k)) = old_value (wrd s0 d k) \<or> m (address (wrd s0 d k)) = cptr s0 d k"
    using i t mt by (auto simp: installed_to_def matches_def)
  then show ?thesis
  proof
    assume v: "m (address (wrd s0 d k)) = old_value (wrd s0 d k)"
    show ?thesis
      unfolding install_word.simps
      by (rule wpo_mbind, rule CondCAS_fresh [where C = "stopped s0 d m0" and m = m, OF ctx t v st cs])
        (rule wpo_steps | simp add: wrd_def [symmetric] Q wpo_mret)+
  next
    assume v: "m (address (wrd s0 d k)) = cptr s0 d k"
    show ?thesis
      unfolding install_word.simps
      by (rule wpo_mbind, rule CondCAS_cond [where C = "stopped s0 d m0" and m = m, OF ctx t v st])
        (rule wpo_steps | simp add: wrd_def [symmetric] c Q wpo_mret)+
  qed
qed

lemma install_word_mismatch:
  assumes ctx: "op_ctx s0 d m0" and t: "tgt s0 d k" and mt: "\<not> matches s0 d m0 k"
    and v: "m (address (wrd s0 d k)) = m0 (address (wrd s0 d k))"
    and C: "C m st" and Q: "Q False m st"
  shows "wpo s0 d (install_word (Suc (Suc n)) tid depth d k) Q C m st"
proof -
  have cl: "IsCleanPtr (m (address (wrd s0 d k)))" using op_ctxD(8) [OF ctx t] v by simp
  have ne: "m (address (wrd s0 d k)) \<noteq> old_value (wrd s0 d k)" using mt v by (simp add: matches_def)
  have "CleanPtr (m (address (wrd s0 d k))) \<noteq> desc_addr (pool s0) d"
    using cl v op_ctxD(11) [OF ctx t] by simp
  then show ?thesis
    unfolding install_word.simps
    by - (rule wpo_mbind, rule CondCAS_other [where C = C and m = m, OF ctx t cl ne C],
      (rule wpo_steps | simp add: wrd_def [symmetric] cl ne Q wpo_mret)+)
qed

lemma install_all_spec:
  assumes ctx: "op_ctx s0 d m0" and n: "n = d_count (descs s0 d)"
    and all: "\<And>m. installed_to s0 d m0 n m \<Longrightarrow> Q True m kStatusUndecided"
    and some: "\<And>m k. installed_to s0 d m0 k m \<Longrightarrow> k \<le> n \<Longrightarrow> tgt s0 d k \<Longrightarrow> \<not> matches s0 d m0 k \<Longrightarrow>
       m (address (wrd s0 d k)) = m0 (address (wrd s0 d k)) \<Longrightarrow> Q False m kStatusUndecided"
  shows "installed_to s0 d m0 k m \<Longrightarrow> i \<le> k \<Longrightarrow> k \<le> n \<Longrightarrow>
    wpo s0 d (install_all True (install_word (Suc (Suc N)) tid depth d) d [i..<n]) Q (stopped s0 d m0) m kStatusUndecided"
proof (induction "n - i" arbitrary: i k m)
  case 0
  then have "k = n" "[i..<n] = []" by simp_all
  then show ?case using all 0 by (simp add: wpo_mret)
next
  case (Suc r)
  then have i: "i < n" "[i..<n] = i # [Suc i..<n]" by (simp_all add: upt_rec)
  note inst = Suc.prems(1)
  have st: "stopped s0 d m0 m kStatusUndecided"
    using stopped_undecided [OF inst] Suc.prems(3) n by simp
  have next_k: "wpo s0 d (install_all True (install_word (Suc (Suc N)) tid depth d) d [Suc i..<n]) Q
      (stopped s0 d m0) m' kStatusUndecided" if "installed_to s0 d m0 k' m'" "Suc i \<le> k'" "k' \<le> n" for k' m'
    using Suc.hyps(1) [of "Suc i" k' m'] Suc.hyps(2) that by simp
  show ?case
  proof (cases "tgt s0 d i")
    case False
    then have a: "address (wrd s0 d i) = kAllocNullAddress" using i n by (simp add: tgt_def)
    have "\<exists>k'. installed_to s0 d m0 k' m \<and> Suc i \<le> k' \<and> k' \<le> n"
    proof (cases "i = k")
      case True
      have "\<not> tgt s0 d k" using True \<open>\<not> tgt s0 d i\<close> by simp
      from installed_to_skip [OF inst this] show ?thesis using True i(1) by (intro exI [of _ "Suc k"]) simp
    next
      case False
      then show ?thesis using inst Suc.prems(2,3) by (intro exI [of _ k]) simp
    qed
    then obtain k' where "installed_to s0 d m0 k' m" "Suc i \<le> k'" "k' \<le> n" by blast
    note nk = next_k [OF this]
    show ?thesis
      unfolding i(2) install_all.simps
      by (rule wpo_mbind, rule wpo_mget) (simp_all add: wrd_def [symmetric] a nk del: install_word.simps)
  next
    case True
    then have a: "address (wrd s0 d i) \<noteq> kAllocNullAddress" by (simp add: tgt_def)
    have "wpo s0 d (install_word (Suc (Suc N)) tid depth d i)
      (\<lambda>ok. wpo s0 d (if ok then install_all True (install_word (Suc (Suc N)) tid depth d) d [Suc i..<n] else mret False)
         Q (stopped s0 d m0)) (stopped s0 d m0) m kStatusUndecided"
    proof (cases "i = k")
      case False
      then have "m (address (wrd s0 d i)) \<in> {dptr s0 d, dptr_dirty s0 d}"
        using inst True Suc.prems(2) by (simp add: installed_to_def)
      from install_word_done [where m = m, OF ctx True this, where C = "stopped s0 d m0" and st = kStatusUndecided, OF st]
      show ?thesis using next_k [OF inst] False Suc.prems(2,3) by simp
    next
      case ik: True
      show ?thesis
      proof (cases "matches s0 d m0 k")
        case mt: True
        show ?thesis
          unfolding ik using True ik i(1) next_k [OF installed_to_step [OF ctx inst _ mt]]
          by (intro install_word_match [OF ctx inst _ mt]) auto
      next
        case mt: False
        have v: "m (address (wrd s0 d k)) = m0 (address (wrd s0 d k))"
          using inst True ik mt by (auto simp: installed_to_def)
        show ?thesis
          unfolding ik using True ik some [OF inst _ _ mt v] Suc.prems(3)
          by (intro install_word_mismatch [where C = "stopped s0 d m0" and m = m, OF ctx _ mt v st])
            (auto intro: wpo_mret)
      qed
    qed
    then have "wpo s0 d (mbind (install_word (Suc (Suc N)) tid depth d i)
      (\<lambda>ok. if ok then install_all True (install_word (Suc (Suc N)) tid depth d) d [Suc i..<n] else mret False))
         Q (stopped s0 d m0) m kStatusUndecided" by (rule wpo_mbind)
    then show ?thesis
      unfolding i(2) install_all.simps
      by (intro wpo_mbind [of _ _ "mget f" for f] wpo_mget) (simp_all add: wrd_def [symmetric] a del: install_word.simps)
  qed
qed

section \<open>Persisting the installed words\<close>

lemma installed_clear_dirty:
  assumes ctx: "op_ctx s0 d m0" and i: "installed_to s0 d m0 k m" and t: "tgt s0 d j" and j: "j < k"
  shows "installed_to s0 d m0 k (m(address (wrd s0 d j) := dptr s0 d))"
  unfolding installed_to_def
proof (intro conjI allI impI)
  show "frame s0 d m0 (m(address (wrd s0 d j) := dptr s0 d))"
    using i t by (auto simp: installed_to_def intro: frame_update)
  fix l assume l: "tgt s0 d l"
  note o = upd_other_target [OF ctx t l, of m "dptr s0 d"]
  show "matches s0 d m0 l" if "l < k" using i l that by (auto simp: installed_to_def)
  show "(m(address (wrd s0 d j) := dptr s0 d)) (address (wrd s0 d l)) \<in> {dptr s0 d, dptr_dirty s0 d}"
    if "l < k" using i l o that by (cases "l = j") (auto simp: installed_to_def)
  show "(m(address (wrd s0 d j) := dptr s0 d)) (address (wrd s0 d l)) = m0 (address (wrd s0 d l)) \<or>
      matches s0 d m0 l \<and> (m(address (wrd s0 d j) := dptr s0 d)) (address (wrd s0 d l)) = cptr s0 d l"
    if "l = k" using i l o j that by (auto simp: installed_to_def)
  show "(m(address (wrd s0 d j) := dptr s0 d)) (address (wrd s0 d l)) = m0 (address (wrd s0 d l))"
    if "k < l" using i l o j that by (auto simp: installed_to_def)
qed

lemma dirty_off: "op_ctx s0 d m0 \<Longrightarrow> dptr_dirty s0 d AND NOT kDirtyFlag = dptr s0 d"
  using op_ctxD(1,2) by (auto simp: dptr_dirty_def dptr_def)

lemma persist_target_spec:
  assumes ctx: "op_ctx s0 d m0" and i: "installed_to s0 d m0 n m" and n: "n = d_count (descs s0 d)"
    and j: "j < n"
  shows "wpo s0 d (persist_target True d j) (\<lambda>_ m st. st = kStatusUndecided \<and> installed_to s0 d m0 n m)
    (stopped s0 d m0) m kStatusUndecided"
proof (cases "tgt s0 d j")
  case False
  then have a: "address (wrd s0 d j) = kAllocNullAddress" using j n by (simp add: tgt_def)
  show ?thesis
    unfolding persist_target_def by (rule wpo_steps | simp add: wrd_def [symmetric] a i wpo_mret)+
next
  case t: True
  then have a: "address (wrd s0 d j) \<noteq> kAllocNullAddress" by (simp add: tgt_def)
  have st: "stopped s0 d m0 m kStatusUndecided" using stopped_undecided [OF i] n by simp
  have j4: "j < 4" using op_ctxD(9) [OF ctx t] .
  note cd = installed_clear_dirty [OF ctx i t j]
  note dd = dptr_dirty_def [symmetric]
  show ?thesis
  proof (cases "m (address (wrd s0 d j)) = dptr_dirty s0 d")
    case True
    show ?thesis
      unfolding persist_target_def
      by (rule wpo_steps wpo_mwhen wpo_PersistAddress op_ctxD(1,2) [OF ctx] j4
          | simp add: wrd_def [symmetric] dd a True st cd dirty_off [OF ctx] wpo_mret)+
  next
    case False
    then show ?thesis
      unfolding persist_target_def
      by - (rule wpo_steps | simp add: wrd_def [symmetric] dd a mwhen_def i wpo_mret)+
  qed
qed

section \<open>Decision\<close>

lemma status_bits:
  "kStatusSucceeded OR kStatusDirtyFlag \<noteq> kStatusUndecided" "kStatusFailed OR kStatusDirtyFlag \<noteq> kStatusUndecided"
  "(kStatusSucceeded OR kStatusDirtyFlag) AND NOT kStatusDirtyFlag = kStatusSucceeded"
  "(kStatusFailed OR kStatusDirtyFlag) AND NOT kStatusDirtyFlag = kStatusFailed"
  "kStatusSucceeded AND NOT kStatusDirtyFlag = kStatusSucceeded"
  "kStatusFailed AND NOT kStatusDirtyFlag = kStatusFailed"
  "kStatusUndecided AND kStatusDirtyFlag = 0" "kStatusUndecided AND NOT kStatusDirtyFlag = kStatusUndecided"
  "kStatusSucceeded AND kStatusDirtyFlag = 0" "kStatusFailed AND kStatusDirtyFlag = 0"
  "(kStatusSucceeded OR kStatusDirtyFlag) AND kStatusDirtyFlag \<noteq> 0"
  "(kStatusFailed OR kStatusDirtyFlag) AND kStatusDirtyFlag \<noteq> 0"
  "kStatusSucceeded \<noteq> kStatusUndecided" "kStatusFailed \<noteq> kStatusUndecided" "kStatusFailed \<noteq> kStatusSucceeded"
  "kStatusSucceeded OR kStatusDirtyFlag \<noteq> kStatusSucceeded" "kStatusFailed OR kStatusDirtyFlag \<noteq> kStatusSucceeded"
  by (simp_all add: status_defs kStatusDirtyFlag_def)

lemma wpo_store_status:
  assumes "C m st" and "Q () m (f st)"
  shows "wpo s0 d (mstore (upd_desc d (\<lambda>D. D\<lparr>d_status := f (d_status D)\<rparr>))) Q C m st"
  unfolding wpo_def using assms by (intro allI wp_mstore) (auto intro!: exI)

lemma decide_spec:
  assumes ctx: "op_ctx s0 d m0" and my: "my \<in> {kStatusSucceeded, kStatusFailed}"
    and C: "C m kStatusUndecided" "C m (my OR kStatusDirtyFlag)" and Q: "Q () m my"
  shows "wpo s0 d (decide d my) Q C m kStatusUndecided"
proof -
  have b: "my OR kStatusDirtyFlag \<noteq> kStatusUndecided" "(my OR kStatusDirtyFlag) AND NOT kStatusDirtyFlag = my"
    "my \<noteq> kStatusUndecided" using my by (auto simp: status_bits dest: sym)
  show ?thesis
    unfolding decide_def
    by (rule wpo_steps wpo_CAS32 wpo_mcheck wpo_PersistStatus wpo_store_status op_ctxD(1,2) [OF ctx]
        | simp add: b C Q)+
qed

section \<open>Final values\<close>

text \<open>One word: the descriptor, or the final value still marked dirty, becomes the final value; a clean
  value stays.\<close>

lemma finish_word_spec:
  assumes ctx: "op_ctx s0 d m0" and t: "tgt s0 d j"
    and fin: "fin = (if succ then new_value (wrd s0 d j) else old_value (wrd s0 d j))"
    and x: "x = m (address (wrd s0 d j))" "x \<in> {dptr s0 d, dptr_dirty s0 d, fin OR kDirtyFlag} \<or> IsCleanPtr x"
    and C: "C m st" "x \<in> {dptr s0 d, dptr_dirty s0 d} \<Longrightarrow> C (m(address (wrd s0 d j) := fin OR kDirtyFlag)) st"
    and Q: "Q () (if IsCleanPtr x then m else m(address (wrd s0 d j) := fin)) st"
  shows "wpo s0 d (finish_word succ d j) Q C m st"
proof -
  have a: "address (wrd s0 d j) \<noteq> kAllocNullAddress" using t by (simp add: tgt_def)
  have j4: "j < 4" using op_ctxD(9) [OF ctx t] .
  have f: "IsCleanPtr fin" using op_ctxD(6,7) [OF ctx t] by (simp add: fin)
  have da: "IsCleanPtr (desc_addr (pool s0) d)" using op_ctxD(1,2) [OF ctx] by simp
  have ne: "dptr s0 d \<noteq> dptr_dirty s0 d" "fin OR kDirtyFlag \<noteq> dptr s0 d" "fin OR kDirtyFlag \<noteq> dptr_dirty s0 d"
    "\<not> IsCleanPtr (dptr s0 d)" "\<not> IsCleanPtr (dptr_dirty s0 d)" "\<not> IsCleanPtr (fin OR kDirtyFlag)"
    using tag_neq [OF da da] tag_neq(8,10) [OF da f] tag_neq(10) [OF f da]
    by (auto simp: dptr_def dptr_dirty_def ptr_bits bit_or_iff dest: sym)
  note dd = dptr_dirty_def [symmetric]
  have fw: "succ \<Longrightarrow> new_value (wrd s0 d j) = fin" "\<not> succ \<Longrightarrow> old_value (wrd s0 d j) = fin" by (simp_all add: fin)
  note st = wpo_steps wpo_mwhen wpo_PersistAddress wpo_mcheck wpo_mret op_ctxD(1,2) [OF ctx] j4
  note ss = wrd_def [symmetric] fw dd a dirty_off [OF ctx] ne ne(1-3) [symmetric] f Let_def wpo_mret
  consider "x = dptr s0 d" | "x = dptr_dirty s0 d" | "x = fin OR kDirtyFlag" | "IsCleanPtr x"
    using x(2) by blast
  then show ?thesis
  proof cases
    case 1
    then show ?thesis
      using x(1) C Q unfolding finish_word_def by - (cases succ; (rule st | simp add: ss)+)
  next
    case 2
    then show ?thesis
      using x(1) C Q unfolding finish_word_def by - (cases succ; (rule st | simp add: ss)+)
  next
    case 3
    then show ?thesis
      using x(1) C Q unfolding finish_word_def by - (cases succ; (rule st | simp add: ss)+)
  next
    case 4
    then have n: "x \<noteq> dptr s0 d" "x \<noteq> dptr_dirty s0 d" "x \<noteq> fin OR kDirtyFlag" using ne by auto
    then show ?thesis
      using 4 x(1) C Q unfolding finish_word_def by - (cases succ; (rule st | simp add: ss n)+)
  qed
qed

lemma rolling_forward_upd:
  assumes "op_ctx s0 d m0" and "rolling_forward s0 d m0 m" and "tgt s0 d j"
    and "x \<in> {dptr s0 d, dptr_dirty s0 d, new_value (wrd s0 d j) OR kDirtyFlag, new_value (wrd s0 d j)}"
  shows "rolling_forward s0 d m0 (m(address (wrd s0 d j) := x))"
  unfolding rolling_forward_def
proof (intro conjI allI impI)
  show "frame s0 d m0 (m(address (wrd s0 d j) := x))"
    using assms(2,3) by (auto simp: rolling_forward_def intro: frame_update)
  fix i assume i: "tgt s0 d i"
  show "matches s0 d m0 i" using assms(2) i by (simp add: rolling_forward_def)
  show "(m(address (wrd s0 d j) := x)) (address (wrd s0 d i)) \<in>
      {dptr s0 d, dptr_dirty s0 d, new_value (wrd s0 d i) OR kDirtyFlag, new_value (wrd s0 d i)}"
    using assms(2,4) i upd_other_target [OF assms(1,3) i, of m x]
    by (cases "j = i") (auto simp: rolling_forward_def)
qed

lemma rolling_back_upd:
  assumes "op_ctx s0 d m0" and "rolling_back s0 d m0 m" and "tgt s0 d j"
    and "x = m0 (address (wrd s0 d j)) \<or>
      matches s0 d m0 j \<and> x \<in> {dptr s0 d, dptr_dirty s0 d, old_value (wrd s0 d j) OR kDirtyFlag}"
  shows "rolling_back s0 d m0 (m(address (wrd s0 d j) := x))"
  unfolding rolling_back_def
proof (intro conjI allI impI)
  show "frame s0 d m0 (m(address (wrd s0 d j) := x))"
    using assms(2,3) by (auto simp: rolling_back_def intro: frame_update)
  show "\<exists>i. tgt s0 d i \<and> \<not> matches s0 d m0 i" using assms(2) by (simp add: rolling_back_def)
  fix i assume i: "tgt s0 d i"
  show "(m(address (wrd s0 d j) := x)) (address (wrd s0 d i)) = m0 (address (wrd s0 d i)) \<or>
      matches s0 d m0 i \<and> (m(address (wrd s0 d j) := x)) (address (wrd s0 d i))
        \<in> {dptr s0 d, dptr_dirty s0 d, old_value (wrd s0 d i) OR kDirtyFlag}"
    using assms(2,4) i upd_other_target [OF assms(1,3) i, of m x]
    by (cases "j = i") (auto simp: rolling_back_def)
qed

text \<open>The final loop after success.\<close>

lemma finish_forward:
  assumes ctx: "op_ctx s0 d m0" and rf: "rolling_forward s0 d m0 m" and n: "n = d_count (descs s0 d)"
    and Q: "\<And>m. committed s0 d m0 m \<Longrightarrow> rolling_forward s0 d m0 m \<Longrightarrow> Q () m kStatusSucceeded"
  shows "wpo s0 d (mfor (finish_word True d) [0..<n]) Q (stopped s0 d m0) m kStatusSucceeded"
proof (rule wpo_mfor [where I = "\<lambda>j m st. st = kStatusSucceeded \<and> rolling_forward s0 d m0 m \<and>
      (\<forall>i < j. tgt s0 d i \<longrightarrow> m (address (wrd s0 d i)) = new_value (wrd s0 d i))"])
  fix j m st assume j: "j < length [0..<n]" and I: "st = kStatusSucceeded \<and> rolling_forward s0 d m0 m \<and>
      (\<forall>i < j. tgt s0 d i \<longrightarrow> m (address (wrd s0 d i)) = new_value (wrd s0 d i))"
  let ?I = "\<lambda>_ m st. st = kStatusSucceeded \<and> rolling_forward s0 d m0 m \<and>
      (\<forall>i < Suc j. tgt s0 d i \<longrightarrow> m (address (wrd s0 d i)) = new_value (wrd s0 d i))"
  have st: "stopped s0 d m0 m' kStatusSucceeded" if "rolling_forward s0 d m0 m'" for m'
    using that by (simp add: stopped_def)
  show "wpo s0 d (finish_word True d ([0..<n] ! j)) ?I (stopped s0 d m0) m st"
  proof (cases "tgt s0 d j")
    case False
    then have a: "address (wrd s0 d j) = kAllocNullAddress" using j n by (simp add: tgt_def)
    have "?I () m st" using I False by (auto simp: less_Suc_eq)
    then show ?thesis
      using j unfolding finish_word_def by - (rule wpo_steps | simp add: wrd_def [symmetric] a wpo_mret)+
  next
    case t: True
    define x where "x = m (address (wrd s0 d j))"
    have x: "x \<in> {dptr s0 d, dptr_dirty s0 d, new_value (wrd s0 d j) OR kDirtyFlag, new_value (wrd s0 d j)}"
      using I t by (simp add: rolling_forward_def x_def)
    note c = op_ctxD(7) [OF ctx t]
    have cl: "IsCleanPtr x \<longleftrightarrow> x = new_value (wrd s0 d j)"
      using x c by (auto simp: dptr_def dptr_dirty_def ptr_bits bit_or_iff)
    have upd: "rolling_forward s0 d m0 (m(address (wrd s0 d j) := y))"
      if "y \<in> {new_value (wrd s0 d j) OR kDirtyFlag, new_value (wrd s0 d j)}" for y
      using rolling_forward_upd [OF ctx _ t, of m y] I that by auto
    have other: "i < j \<Longrightarrow> tgt s0 d i \<Longrightarrow>
        (m(address (wrd s0 d j) := new_value (wrd s0 d j))) (address (wrd s0 d i)) = new_value (wrd s0 d i)" for i
      using I upd_other_target [OF ctx t, of i m] by auto
    show ?thesis
      using x cl I upd st other j t c x_def
      by (intro finish_word_spec [where fin = "new_value (wrd s0 d j)" and x = x, OF ctx])
        (auto simp: less_Suc_eq)
  qed
qed (use rf n Q in \<open>auto simp: committed_def rolling_forward_def tgt_def\<close>)

text \<open>The final loop after failure: everything is as it was.\<close>

lemma finish_back:
  assumes ctx: "op_ctx s0 d m0" and rb: "rolling_back s0 d m0 m" and n: "n = d_count (descs s0 d)"
    and Q: "rolling_back s0 d m0 m0 \<Longrightarrow> Q () m0 kStatusFailed"
  shows "wpo s0 d (mfor (finish_word False d) [0..<n]) Q (stopped s0 d m0) m kStatusFailed"
proof (rule wpo_mfor [where I = "\<lambda>j m st. st = kStatusFailed \<and> rolling_back s0 d m0 m \<and>
      (\<forall>i < j. tgt s0 d i \<longrightarrow> m (address (wrd s0 d i)) = m0 (address (wrd s0 d i)))"])
  fix j m st assume j: "j < length [0..<n]" and I: "st = kStatusFailed \<and> rolling_back s0 d m0 m \<and>
      (\<forall>i < j. tgt s0 d i \<longrightarrow> m (address (wrd s0 d i)) = m0 (address (wrd s0 d i)))"
  let ?I = "\<lambda>_ m st. st = kStatusFailed \<and> rolling_back s0 d m0 m \<and>
      (\<forall>i < Suc j. tgt s0 d i \<longrightarrow> m (address (wrd s0 d i)) = m0 (address (wrd s0 d i)))"
  have st: "stopped s0 d m0 m' kStatusFailed" if "rolling_back s0 d m0 m'" for m'
    using that by (simp add: stopped_def)
  show "wpo s0 d (finish_word False d ([0..<n] ! j)) ?I (stopped s0 d m0) m st"
  proof (cases "tgt s0 d j")
    case False
    then have a: "address (wrd s0 d j) = kAllocNullAddress" using j n by (simp add: tgt_def)
    have "?I () m st" using I False by (auto simp: less_Suc_eq)
    then show ?thesis
      using j unfolding finish_word_def by - (rule wpo_steps | simp add: wrd_def [symmetric] a wpo_mret)+
  next
    case t: True
    define x where "x = m (address (wrd s0 d j))"
    have x: "x = m0 (address (wrd s0 d j)) \<or>
        matches s0 d m0 j \<and> x \<in> {dptr s0 d, dptr_dirty s0 d, old_value (wrd s0 d j) OR kDirtyFlag}"
      using I t by (simp add: rolling_back_def x_def)
    note c = op_ctxD(8) [OF ctx t]
    have cl: "IsCleanPtr x \<longleftrightarrow> x = m0 (address (wrd s0 d j))"
      using x c by (auto simp: dptr_def dptr_dirty_def ptr_bits bit_or_iff)
    have mt: "\<not> IsCleanPtr x \<Longrightarrow> old_value (wrd s0 d j) = m0 (address (wrd s0 d j))"
      using x cl by (auto simp: matches_def)
    have upd: "rolling_back s0 d m0 (m(address (wrd s0 d j) := y))"
      if "y = m0 (address (wrd s0 d j)) \<or> matches s0 d m0 j \<and> y = old_value (wrd s0 d j) OR kDirtyFlag" for y
      using rolling_back_upd [OF ctx _ t, of m y] I that by auto
    have other: "i < j \<Longrightarrow> tgt s0 d i \<Longrightarrow>
        (m(address (wrd s0 d j) := y)) (address (wrd s0 d i)) = m0 (address (wrd s0 d i))" for i y
      using I upd_other_target [OF ctx t, of i m] by auto
    have C: "x \<in> {dptr s0 d, dptr_dirty s0 d} \<Longrightarrow>
        stopped s0 d m0 (m(address (wrd s0 d j) := old_value (wrd s0 d j) OR kDirtyFlag)) st"
    proof -
      assume h: "x \<in> {dptr s0 d, dptr_dirty s0 d}"
      have "\<not> IsCleanPtr x" using h by (auto simp: dptr_def dptr_dirty_def ptr_bits bit_or_iff)
      then have "matches s0 d m0 j" using x cl by blast
      then show ?thesis using st upd I by blast
    qed
    have Q: "?I () (if IsCleanPtr x then m else m(address (wrd s0 d j) := old_value (wrd s0 d j))) st"
      using I cl mt upd other x_def by (auto simp: less_Suc_eq)
    have X: "x \<in> {dptr s0 d, dptr_dirty s0 d, old_value (wrd s0 d j) OR kDirtyFlag} \<or> IsCleanPtr x"
      using x cl by blast
    have cs: "stopped s0 d m0 m st" using st I by blast
    have "wpo s0 d (finish_word False d j) ?I (stopped s0 d m0) m st"
      by (rule finish_word_spec [where fin = "old_value (wrd s0 d j)" and x = x and Q = ?I and C = "stopped s0 d m0",
            OF ctx t _ x_def X cs C Q]) simp
    then show ?thesis using j by simp
  qed
next
  fix m st assume I: "st = kStatusFailed \<and> rolling_back s0 d m0 m \<and>
      (\<forall>i < length [0..<n]. tgt s0 d i \<longrightarrow> m (address (wrd s0 d i)) = m0 (address (wrd s0 d i)))"
  have "m a = m0 a" for a
  proof (cases "\<exists>i. tgt s0 d i \<and> a = address (wrd s0 d i)")
    case True
    then show ?thesis using I n by (auto simp: tgt_def)
  next
    case False
    then show ?thesis using I by (auto simp: rolling_back_def frame_def)
  qed
  then have "m = m0" by blast
  then show "Q () m st" using I Q by simp
qed (use rb in simp)

section \<open>The phases together\<close>

lemma mbind_assoc: "mbind (mbind m f) g = mbind m (\<lambda>x. mbind (f x) g)"
  by (rule ext) (simp add: mbind_def split: outcome.split)

definition mw_phases :: "nat \<Rightarrow> u64 \<Rightarrow> nat \<Rightarrow> nat \<Rightarrow> bool mw" where
  "mw_phases n tid depth d =
     mbind (sort_words d) (\<lambda>_.
     mbind (mget (\<lambda>s. d_count (descs s d))) (\<lambda>count.
     mbind (install_all True (install_word n tid depth d) d [0..<count]) (\<lambda>ok.
     mbind (mwhen ok (mfor (persist_target True d) [0..<count])) (\<lambda>_.
     mbind (decide d (if ok then kStatusSucceeded else kStatusFailed)) (\<lambda>_.
     mbind (mget (\<lambda>s. d_status (descs s d) = kStatusSucceeded)) (\<lambda>succeeded.
     mbind (mfor (finish_word succeeded d) [0..<count]) (\<lambda>_. mret succeeded)))))))"

lemma mret_bind [simp]: "mbind (mret x) f = f x"
  by (rule ext) (simp add: mbind_def mret_def)

lemma PersistentMwCAS_phases:
  "PersistentMwCAS (Suc n) tid depth d =
     mbind (check_protected tid d) (\<lambda>_.
     mbind (stable_status depth d) (\<lambda>st.
       if st \<noteq> kStatusUndecided then
         (if depth > 0 then mbind (metric AddBailedHelp tid) (\<lambda>_. mret (st = kStatusSucceeded)) else Cleanup tid d)
       else mbind (mw_phases n tid depth d) (\<lambda>succeeded. if depth = 0 then Cleanup tid d else mret succeeded)))"
  unfolding PersistentMwCAS.simps mw_phases_def mbind_assoc mret_bind by (rule refl)

lemma wpo_sort_words:
  assumes so: "sorted_words s0 d" and "C m st" and "Q () m st"
  shows "wpo s0 d (sort_words d) Q C m st"
proof -
  let ?D = "descs s0 d"
  have "sort_key address (take (d_count ?D) (words ?D)) = take (d_count ?D) (words ?D)"
    using so by (intro sort_key_id_if_sorted) (simp add: sorted_words_def)
  then have "upd_desc d (\<lambda>D. D\<lparr>words := sort_key address (take (d_count D) (words D)) @ drop (d_count D) (words D)\<rparr>)
      (opst s0 d m st b v) = opst s0 d m st b v" for b v
    by (simp add: opst_def upd_desc_def)
  then show ?thesis
    unfolding wpo_def sort_words_def using assms(2,3) by (intro allI wp_mstore) (auto intro!: exI)
qed

definition all_match :: "mw_world \<Rightarrow> nat \<Rightarrow> (u64 \<Rightarrow> u64) \<Rightarrow> bool" where
  "all_match s0 d m0 \<longleftrightarrow> (\<forall>i. tgt s0 d i \<longrightarrow> matches s0 d m0 i)"

text \<open>What a completed operation leaves behind: all new values and success, or nothing changed and failure,
  according to whether all targets held their old values.\<close>

definition concluded :: "mw_world \<Rightarrow> nat \<Rightarrow> (u64 \<Rightarrow> u64) \<Rightarrow> bool \<Rightarrow> (u64 \<Rightarrow> u64) \<Rightarrow> u32 \<Rightarrow> bool" where
  "concluded s0 d m0 r m st \<longleftrightarrow> r = all_match s0 d m0 \<and>
     (if r then committed s0 d m0 m \<and> st = kStatusSucceeded else m = m0 \<and> st = kStatusFailed)"

lemma installed_all_forward:
  assumes "installed_to s0 d m0 (d_count (descs s0 d)) m"
  shows "rolling_forward s0 d m0 m" and "all_match s0 d m0"
  using assms by (auto simp: installed_to_def rolling_forward_def all_match_def tgt_def)

lemma mismatch_back:
  assumes i: "installed_to s0 d m0 k m" and t: "tgt s0 d k" and mm: "\<not> matches s0 d m0 k"
  shows "rolling_back s0 d m0 m"
  unfolding rolling_back_def
proof (intro conjI allI impI)
  show "frame s0 d m0 m" using i by (simp add: installed_to_def)
  show "\<exists>i. tgt s0 d i \<and> \<not> matches s0 d m0 i" using t mm by blast
  fix j assume "tgt s0 d j"
  then show "m (address (wrd s0 d j)) = m0 (address (wrd s0 d j)) \<or>
        matches s0 d m0 j \<and> m (address (wrd s0 d j)) \<in> {dptr s0 d, dptr_dirty s0 d, old_value (wrd s0 d j) OR kDirtyFlag}"
    using i mm by (cases j k rule: linorder_cases) (auto simp: installed_to_def)
qed

lemma phases_spec:
  assumes ctx: "op_ctx s0 d m0" and so: "sorted_words s0 d" and st: "stopped s0 d m0 m kStatusUndecided"
  shows "wpo s0 d (mw_phases (Suc (Suc N)) tid depth d) (concluded s0 d m0) (stopped s0 d m0) m kStatusUndecided"
proof -
  let ?n = "d_count (descs s0 d)"
  obtain k where k: "k \<le> ?n" "installed_to s0 d m0 k m"
    using st by (auto simp: stopped_def status_bits dest: sym)
  let ?rest = "\<lambda>ok. mbind (mwhen ok (mfor (persist_target True d) [0..<?n])) (\<lambda>_.
     mbind (decide d (if ok then kStatusSucceeded else kStatusFailed)) (\<lambda>_.
     mbind (mget (\<lambda>s. d_status (descs s d) = kStatusSucceeded)) (\<lambda>succeeded.
     mbind (mfor (finish_word succeeded d) [0..<?n]) (\<lambda>_. mret succeeded))))"
  have forward: "wpo s0 d (?rest True) (concluded s0 d m0) (stopped s0 d m0) m kStatusUndecided"
    if i: "installed_to s0 d m0 ?n m" for m
  proof -
    have tail: "wpo s0 d (mbind (decide d kStatusSucceeded) (\<lambda>_.
       mbind (mget (\<lambda>s. d_status (descs s d) = kStatusSucceeded)) (\<lambda>succeeded.
       mbind (mfor (finish_word succeeded d) [0..<?n]) (\<lambda>_. mret succeeded))))
       (concluded s0 d m0) (stopped s0 d m0) m kStatusUndecided" if i: "installed_to s0 d m0 ?n m" for m
    proof (rule wpo_mbind, rule decide_spec [OF ctx])
      note f = installed_all_forward [OF i]
      show "stopped s0 d m0 m kStatusUndecided" using stopped_undecided [OF i] by simp
      show "stopped s0 d m0 m (kStatusSucceeded OR kStatusDirtyFlag)" using f by (simp add: stopped_def)
      have "wpo s0 d (mfor (finish_word True d) [0..<?n]) (\<lambda>_. wpo s0 d (mret True) (concluded s0 d m0) (stopped s0 d m0))
          (stopped s0 d m0) m kStatusSucceeded"
        by (rule finish_forward [OF ctx f(1) refl]) (rule wpo_mret, simp add: concluded_def f)
      then show "wpo s0 d (mbind (mget (\<lambda>s. d_status (descs s d) = kStatusSucceeded)) (\<lambda>succeeded.
          mbind (mfor (finish_word succeeded d) [0..<?n]) (\<lambda>_. mret succeeded)))
          (concluded s0 d m0) (stopped s0 d m0) m kStatusSucceeded"
        by (intro wpo_mbind [of _ _ "mget f" for f] wpo_mget) (simp_all add: wpo_mbind)
    qed simp
    have "wpo s0 d (mfor (persist_target True d) [0..<?n])
        (\<lambda>_ m st. st = kStatusUndecided \<and> installed_to s0 d m0 ?n m) (stopped s0 d m0) m kStatusUndecided"
      by (rule wpo_mfor [where I = "\<lambda>_ m st. st = kStatusUndecided \<and> installed_to s0 d m0 ?n m"])
        (use i persist_target_spec [OF ctx _ refl] in auto)
    then have "wpo s0 d (mfor (persist_target True d) [0..<?n]) (\<lambda>_. wpo s0 d (mbind (decide d kStatusSucceeded) (\<lambda>_.
       mbind (mget (\<lambda>s. d_status (descs s d) = kStatusSucceeded)) (\<lambda>succeeded.
       mbind (mfor (finish_word succeeded d) [0..<?n]) (\<lambda>_. mret succeeded))))
       (concluded s0 d m0) (stopped s0 d m0)) (stopped s0 d m0) m kStatusUndecided"
      by (rule wpo_mono) (use tail in auto)
    then show ?thesis by (simp add: mwhen_def wpo_mbind)
  qed
  have backward: "wpo s0 d (?rest False) (concluded s0 d m0) (stopped s0 d m0) m kStatusUndecided"
    if i: "installed_to s0 d m0 k m" and k: "k \<le> ?n" and t: "tgt s0 d k" and mm: "\<not> matches s0 d m0 k" for k m
  proof -
    note f = mismatch_back [OF i t mm]
    have na: "\<not> all_match s0 d m0" using t mm by (auto simp: all_match_def)
    have "wpo s0 d (mfor (finish_word False d) [0..<?n]) (\<lambda>_. wpo s0 d (mret False) (concluded s0 d m0) (stopped s0 d m0))
        (stopped s0 d m0) m kStatusFailed"
      by (rule finish_back [OF ctx f refl]) (rule wpo_mret, simp add: concluded_def na)
    then have fin: "wpo s0 d (mbind (mget (\<lambda>s. d_status (descs s d) = kStatusSucceeded)) (\<lambda>succeeded.
        mbind (mfor (finish_word succeeded d) [0..<?n]) (\<lambda>_. mret succeeded)))
        (concluded s0 d m0) (stopped s0 d m0) m kStatusFailed"
      by (intro wpo_mbind [of _ _ "mget f" for f] wpo_mget) (simp_all add: wpo_mbind status_bits)
    have "wpo s0 d (decide d kStatusFailed) (\<lambda>_. wpo s0 d (mbind (mget (\<lambda>s. d_status (descs s d) = kStatusSucceeded)) (\<lambda>succeeded.
        mbind (mfor (finish_word succeeded d) [0..<?n]) (\<lambda>_. mret succeeded)))
        (concluded s0 d m0) (stopped s0 d m0)) (stopped s0 d m0) m kStatusUndecided"
      using stopped_undecided [OF i k] f fin by (intro decide_spec [OF ctx]) (simp_all add: stopped_def)
    then show ?thesis by (simp add: mwhen_def wpo_mbind)
  qed
  have "wpo s0 d (install_all True (install_word (Suc (Suc N)) tid depth d) d [0..<?n])
      (\<lambda>ok. wpo s0 d (?rest ok) (concluded s0 d m0) (stopped s0 d m0)) (stopped s0 d m0) m kStatusUndecided"
  proof (rule install_all_spec [OF ctx refl _ _ k(2) le0 k(1)])
    show "wpo s0 d (?rest True) (concluded s0 d m0) (stopped s0 d m0) m kStatusUndecided"
      if "installed_to s0 d m0 ?n m" for m using forward that .
    show "wpo s0 d (?rest False) (concluded s0 d m0) (stopped s0 d m0) m kStatusUndecided"
      if "installed_to s0 d m0 k m" "k \<le> ?n" "tgt s0 d k" "\<not> matches s0 d m0 k" for m k
      using backward that .
  qed
  then show ?thesis
    unfolding mw_phases_def
    by - (rule wpo_mbind, rule wpo_sort_words [where C = "stopped s0 d m0", OF so st], rule wpo_mbind, rule wpo_mget,
        simp_all add: wpo_mbind)
qed

end
