(* ===== verification/MwCleanup.thy ===== *)
theory MwCleanup
  imports MwAtomic
begin

text \<open>
  The end of an operation: \<open>Cleanup\<close> pushes the descriptor on its partition's garbage list, which may free an
  older descriptor. When the list has a slot that can be taken and its items are descriptors that can be
  freed, this always succeeds and leaves the application's words alone.
\<close>

section \<open>Bumps keep threads protected\<close>

lemma IsProtected_bump:
  assumes b: "BumpCurrentEpoch m w = Inr w'" and p: "IsProtected m tid w = Inr (True, w)"
  shows "IsProtected m tid w' = Inr (True, w')"
proof -
  have t: "tls w' = tls w" and e: "epoch_table (managers w' k) = epoch_table (managers w k)" for k
    using b by (auto simp: BumpCurrentEpoch_def ComputeNewSafeToReclaimEpoch_def the_table_def set_mgr_def Let_def
      split: option.splits)
  have g: "get_entry k i w' = get_entry k i w" for k i by (simp add: get_entry_def the_table_def e)
  show ?thesis
  proof (cases "\<exists>k i. tls w (tid, EpochEntryTls) = EntryPtr k i")
    case True
    then show ?thesis
      using p g by (auto simp: IsProtected_def GetEntryForThread_def t rbind_Inr_iff)
  next
    case False
    then obtain x w1 where g1: "GetEntryForThread m tid w = Inr (x, w1)" and w1: "w1 = w"
      using p by (auto simp: IsProtected_def rbind_Inr_iff)
    have "\<exists>i. tls w1 (tid, EpochEntryTls) = EntryPtr m i"
      using g1 False by (auto simp: GetEntryForThread_def rbind_Inr_iff Let_def split: tls_val.splits)
    then show ?thesis using False w1 by blast
  qed
qed

lemma push_rounds_inv:
  assumes "\<And>s s'. I s \<Longrightarrow> ops_bump E s = Inr s' \<Longrightarrow> I s'"
  shows "I s \<Longrightarrow> push_rounds n E e cb ctx item gl s = Inr (st, gl', s', calls) \<Longrightarrow> I s'"
proof (induction n arbitrary: gl s)
  case (Suc n)
  then obtain s1 where r: "round_bump E (gl_item_count gl) (gl_tail gl AND (gl_item_count gl - 1)) s = Inr s1"
    by (auto simp: rbind_Inr_iff Let_def)
  then have "I s1" using assms [OF Suc.prems(1)] Suc.prems(1) by (auto simp: round_bump_def split: if_splits)
  then show ?case using Suc.prems(2) Suc.IH r by (auto simp: Let_def rbind_Inr_iff split: if_splits)
qed simp

section \<open>Freeing a descriptor\<close>

definition freeable :: "descriptor \<Rightarrow> bool" where
  "freeable D \<longleftrightarrow> (\<forall>i < d_count D. \<exists>vs. word_frees (d_status D) (words D ! i) = Inr vs)"

text \<open>What freeing other descriptors leaves unchanged; a descriptor that is freed becomes empty.\<close>

definition emptied :: "mw_world \<Rightarrow> mw_world \<Rightarrow> bool" where
  "emptied s s' \<longleftrightarrow> (\<forall>k. descs s' k = descs s k \<or>
     d_count (descs s' k) = 0 \<and> d_status (descs s' k) \<in> {d_status (descs s k), kStatusFinished})"

lemma emptied_trans: "emptied s s1 \<Longrightarrow> emptied s1 s2 \<Longrightarrow> emptied s s2"
  unfolding emptied_def by (metis insert_iff singletonD)

definition kept :: "nat \<Rightarrow> mw_world \<Rightarrow> mw_world \<Rightarrow> bool" where
  "kept d s s' \<longleftrightarrow> mem s' = mem s \<and> nv s' = nv s \<and> ew s' = ew s \<and> descs s' d = descs s d \<and> mstats s' = mstats s \<and>
     descriptors (pool s') = descriptors (pool s) \<and> pool_size (pool s') = pool_size (pool s) \<and>
     map part_garbage (partition_table (pool s')) = map part_garbage (partition_table (pool s)) \<and>
     emptied s s' \<and> (\<exists>t. pool s' = (pool s)\<lparr>partition_table := t\<rparr>)"

lemma kept_refl [simp]: "kept d s s" "kept d s (s\<lparr>budget := b\<rparr>)"
  by (auto simp add: kept_def emptied_def intro: exI [of _ "partition_table (pool s)"])

lemma kept_budget [simp]: "kept d s (s'\<lparr>budget := b\<rparr>) = kept d s s'" "kept d s (s'\<lparr>freed := f\<rparr>) = kept d s s'"
  by (simp_all add: kept_def emptied_def)

lemma descs_upd_same [simp]: "descs (upd_desc d f s) d = f (descs s d)" "descs (s\<lparr>budget := b\<rparr>) = descs s"
  by (simp_all add: upd_desc_def)

lemma kept_upd_desc:
  "kept d s s' \<Longrightarrow> d' \<noteq> d \<Longrightarrow> d_count (f (descs s' d')) = 0 \<Longrightarrow>
   d_status (f (descs s' d')) \<in> {d_status (descs s' d'), kStatusFinished} \<Longrightarrow> kept d s (upd_desc d' f s')"
  by (simp add: kept_def upd_desc_def emptied_def) metis

lemma map_update_keep: "f x = f (xs ! i) \<Longrightarrow> map f (xs[i := x]) = map f xs"
  by (cases "i < length xs") (simp_all add: map_update_same list_update_beyond)

lemma kept_set_free: "kept d s s' \<Longrightarrow> kept d s (set_part q (\<lambda>p. p\<lparr>free_list := a\<rparr>) s')"
  by (auto simp add: kept_def set_part_def the_part_def map_update_keep emptied_def)

lemma wp_log_free: "Q () (s\<lparr>freed := freed s @ map (Pair cb) vs\<rparr>) \<Longrightarrow> wp (log_free cb vs) Q C s"
  by (simp add: wp_def log_free_def)

lemma wp_DeallocateMemory:
  assumes f: "freeable (descs s d')" and ne: "d' \<noteq> d"
  shows "wp (DeallocateMemory d') (\<lambda>_. kept d s) (kept d s) s"
proof -
  let ?D = "descs s d'"
  have loop: "wp (mfor (\<lambda>i. mbind (mlift (word_frees (d_status ?D) (words ?D ! i))) (log_free (free_callback ?D)))
      [0..<d_count ?D]) (\<lambda>_. kept d s) (kept d s) s"
  proof (rule wp_mfor [where I = "\<lambda>_. kept d s"])
    fix j s1 assume j: "j < length [0..<d_count ?D]" and k: "kept d s s1"
    then obtain vs where "word_frees (d_status ?D) (words ?D ! ([0..<d_count ?D] ! j)) = Inr vs"
      using f by (auto simp: freeable_def)
    then show "wp (mbind (mlift (word_frees (d_status ?D) (words ?D ! ([0..<d_count ?D] ! j)))) (log_free (free_callback ?D)))
        (\<lambda>_. kept d s) (kept d s) s1"
      using k by (intro wp_mbind wp_mlift wp_log_free) simp_all
  qed simp_all
  show ?thesis
    unfolding DeallocateMemory_def
    by (rule wp_mbind wp_mget wp_mono [OF loop])+ (auto intro!: wp_mstore kept_upd_desc ne)
qed

lemma wp_FreeDescriptor:
  assumes ok: "pool_ok (pool s)" "d' < pool_size (pool s)" and f: "freeable (descs s d')" and ne: "d' \<noteq> d"
  shows "wp (FreeDescriptor (desc_addr (pool s) d')) (\<lambda>_. kept d s) (kept d s) s"
proof -
  have a: "desc_at (pool s) (desc_addr (pool s) d') = Some d'" by (rule desc_at_addr [OF ok])
  have fin: "wp (mbind (Descriptor_Initialize d') (\<lambda>_.
          mbind (mget (\<lambda>s. descs s d')) (\<lambda>D.
          mbind (mcheck (d_status D = kStatusFinished) (RawCheck ''invalid status'')) (\<lambda>_.
          mbind (mget (\<lambda>s. free_list (the_part s (owner_partition D)))) (\<lambda>fl.
          mbind (mstore (upd_desc d' (\<lambda>D. D\<lparr>next_ptr := fl\<rparr>))) (\<lambda>_.
          mstore (set_part (owner_partition D) (\<lambda>q. q\<lparr>free_list := x\<rparr>))))))))
      (\<lambda>_. kept d s) (kept d s) s1" if "kept d s s1" for s1 x
    unfolding Descriptor_Initialize_def
    by (rule wp_mbind wp_mstore wp_mget wp_mcheck budget_updates
      | (use that ne in \<open>simp add: kept_upd_desc kept_set_free; fail\<close>) | (simp add: upd_desc_def; fail))+
  show ?thesis
    unfolding FreeDescriptor_def
    by (rule wp_mbind, rule wp_mget, unfold a option.case, rule wp_mbind,
        rule wp_mono [OF wp_DeallocateMemory [OF f ne]], rule fin) simp_all
qed

section \<open>Cleanup\<close>

definition garbage_of :: "mw_world \<Rightarrow> nat \<Rightarrow> gl_callback garbage_list" where
  "garbage_of s d = part_garbage (the_part s (owner_partition (descs s d)))"

definition cleanup_ready :: "mw_world \<Rightarrow> nat \<Rightarrow> bool" where
  "cleanup_ready s d \<longleftrightarrow> wf_gl (garbage_of s d) \<and>
     owner_partition (descs s d) < length (partition_table (pool s)) \<and>
     (\<exists>m. gl_epoch_manager (garbage_of s d) = Some m \<and> epoch_ok m (push_fuel (garbage_of s d)) (ew s) \<and>
        (\<exists>it \<in> set (gl_items (garbage_of s d)). takeable (IsSafeToReclaim m) (ew s) it)) \<and>
     (\<forall>(cb, ctx, item) \<in> set (pending (garbage_of s d)). \<exists>d' < pool_size (pool s). cb = Some FreeDescriptorCallback \<and>
        item = desc_addr (pool s) d' \<and> d' \<noteq> d \<and> freeable (descs s d'))"

text \<open>What a clean-up leaves unchanged: everything but epochs, the garbage list and freed descriptors.\<close>

definition cleaned :: "nat \<Rightarrow> mw_world \<Rightarrow> mw_world \<Rightarrow> bool" where
  "cleaned d s s' \<longleftrightarrow> mem s' = mem s \<and> nv s' = nv s \<and> descs s' d = descs s d \<and> mstats s' = mstats s \<and>
     emptied s s' \<and> (\<exists>t. pool s' = (pool s)\<lparr>partition_table := t\<rparr>)"

lemma push_ready:
  assumes "cleanup_ready s d" and "gl_epoch_manager (garbage_of s d) = Some m"
    and p: "IsProtected m tid (ew s) = Inr (True, ew s)"
  obtains gl' w' calls where
    "Push_unsafe (push_fuel (garbage_of s d)) (manager_ops m) item cb ctx (garbage_of s d) (ew s) = Inr (Status_OK, gl', w', calls)"
    "gl_epoch_manager gl' = Some m" "IsProtected m tid w' = Inr (True, w')"
    "length calls \<le> 1" "set calls \<subseteq> set (pending (garbage_of s d))"
proof -
  let ?gl = "garbage_of s d" and ?e = "GetCurrentEpoch m (ew s)"
  have wf: "wf_gl ?gl" and ok: "epoch_ok m (push_fuel ?gl) (ew s)"
    and t: "\<exists>it \<in> set (gl_items ?gl). takeable (IsSafeToReclaim m) (ew s) it"
    using assms by (auto simp: cleanup_ready_def)
  obtain j where j: "j < length (gl_items ?gl)" "takeable (IsSafeToReclaim m) (ew s) (gl_items ?gl ! j)"
    using t by (auto simp: in_set_conv_nth)
  obtain k where k: "k < length (gl_items ?gl)" "ring_slot ?gl k = j" using ring_slot_onto [OF j(1)] by blast
  have "length (gl_items ?gl) \<le> push_fuel ?gl" using wf by (auto simp: wf_gl_def push_fuel_def unat_pow2)
  then have kf: "k < push_fuel ?gl" using k(1) by linarith
  obtain i gl' w' calls where r:
    "push_rounds (push_fuel ?gl) (manager_ops m) ?e cb ctx item ?gl (ew s) = Inr (Status_OK, gl', w', calls)"
    "slot_taken i (new_item ?e cb ctx item) ?gl gl' calls"
    using em.push_rounds_ends [OF wf ok kf order.refl, of ?e cb ctx item] j(2) k(2) unfolding manager_ops_def by metis
  have "IsProtected m tid w' = Inr (True, w')"
    by (rule push_rounds_inv [where I = "\<lambda>w. IsProtected m tid w = Inr (True, w)", OF _ p r(1)])
      (simp add: manager_ops_def IsProtected_bump)
  moreover have "Push_unsafe (push_fuel ?gl) (manager_ops m) item cb ctx ?gl (ew s) = Inr (Status_OK, gl', w', calls)"
    using r(1) by (simp add: Push_unsafe_def manager_ops_def)
  ultimately show ?thesis
    using r(2) assms(2) by (intro that [of gl' w' calls]) (auto simp: slot_taken_def pending_def)
qed

lemma wp_run_destroy:
  assumes ok: "pool_ok (pool s)" and l: "length calls \<le> 1"
    and c: "\<forall>(cb, ctx, item) \<in> set calls. \<exists>d' < pool_size (pool s). cb = Some FreeDescriptorCallback \<and>
        item = desc_addr (pool s) d' \<and> d' \<noteq> d \<and> freeable (descs s d')"
  shows "wp (mfor run_destroy calls) (\<lambda>_. kept d s) (kept d s) s"
proof (cases calls)
  case Nil
  then show ?thesis by (simp add: wp_mret)
next
  case (Cons x xs)
  then obtain d' ctx where "calls = [(Some FreeDescriptorCallback, ctx, desc_addr (pool s) d')]"
    "d' < pool_size (pool s)" "d' \<noteq> d" "freeable (descs s d')"
    using l c by (cases x) auto
  moreover from this(2-4) have "wp (FreeDescriptor (desc_addr (pool s) d')) (\<lambda>_. kept d s) (kept d s) s"
    by (intro wp_FreeDescriptor [OF ok])
  ultimately show ?thesis
    by (auto simp: run_destroy_def intro!: wp_mbind wp_mret elim!: wp_mono)
qed

lemma wp_push_garbage:
  assumes ok: "pool_ok (pool s)" and r: "cleanup_ready s d" and p: "protected_thread s d tid"
  shows "wp (push_garbage d) (\<lambda>r s'. r = Status_OK \<and> cleaned d s s' \<and> protected_thread s' d tid) (cleaned d s) s"
proof -
  let ?gl = "garbage_of s d" and ?q = "owner_partition (descs s d)"
  obtain m where m: "gl_epoch_manager ?gl = Some m" and pr: "IsProtected m tid (ew s) = Inr (True, ew s)"
    using p by (auto simp: protected_thread_def garbage_of_def)
  obtain gl' w' calls where push:
    "Push_unsafe (push_fuel ?gl) (manager_ops m) (desc_addr (pool s) d) FreeDescriptorCallback 0 ?gl (ew s) = Inr (Status_OK, gl', w', calls)"
    "gl_epoch_manager gl' = Some m" "IsProtected m tid w' = Inr (True, w')" "length calls \<le> 1" "set calls \<subseteq> set (pending ?gl)"
    using push_ready [OF r m pr] by metis
  define s1 where "s1 = set_part ?q (\<lambda>q. q\<lparr>part_garbage := gl'\<rparr>) (s\<lparr>ew := w'\<rparr>)"
  have q: "?q < length (partition_table (pool s))" using r by (simp add: cleanup_ready_def)
  have s1: "cleaned d s s1" "pool_ok (pool s1)" "budget s1 = budget s" "ew s1 = w'" "descs s1 = descs s"
    "desc_addr (pool s1) = desc_addr (pool s)" "pool_size (pool s1) = pool_size (pool s)"
    using ok by (auto simp: s1_def cleaned_def set_part_def pool_ok_def desc_addr_def emptied_def)
  have g1: "map part_garbage (partition_table (pool s1)) ! ?q = gl'" "?q < length (partition_table (pool s1))"
    using q by (simp_all add: s1_def set_part_def)
  have calls: "wp (mfor run_destroy calls) (\<lambda>_. kept d s1) (kept d s1) s1"
    by (rule wp_run_destroy [OF s1(2) push(4)]) (use r push(5) in \<open>unfold cleanup_ready_def s1, blast\<close>)
  have fin: "cleaned d s s2 \<and> protected_thread s2 d tid" if k: "kept d s1 s2" for s2
  proof -
    have "map part_garbage (partition_table (pool s2)) ! ?q = gl'" "?q < length (partition_table (pool s2))"
      using k g1 by (auto simp: kept_def dest: arg_cong [where f = length])
    then have "part_garbage (the_part s2 ?q) = gl'" by (simp add: the_part_def)
    then show ?thesis
      using k s1 push(2,3) by (auto simp: kept_def cleaned_def protected_thread_def intro: emptied_trans)
  qed
  have "wp (mbind (mfor run_destroy calls) (\<lambda>_. mret Status_OK))
      (\<lambda>r s'. r = Status_OK \<and> cleaned d s s' \<and> protected_thread s' d tid) (cleaned d s) s1"
    by (rule wp_mbind, rule wp_mono [OF calls]) (use fin in \<open>auto intro: wp_mret\<close>)
  moreover have "push_garbage d s = mbind (mfor run_destroy calls) (\<lambda>_. mret Status_OK) s1"
    using m push(1) by (simp add: push_garbage_def garbage_of_def [symmetric] s1_def)
  ultimately show ?thesis by (simp only: wp_def s1(3))
qed

lemma wp_check_protected: "protected_thread s d tid \<Longrightarrow> Q () s \<Longrightarrow> wp (check_protected tid d) Q C s"
  by (auto simp: wp_def check_protected_def protected_thread_def)

lemma wp_metric_off: "\<not> enabled (mstats s) \<Longrightarrow> add \<in> {AddSucceededUpdate, AddFailedUpdate} \<Longrightarrow> Q () s \<Longrightarrow> wp (metric add tid) Q C s"
  by (auto simp: wp_def metric_def metric_defs)

lemma wp_Cleanup:
  assumes ok: "pool_ok (pool s)" and r: "cleanup_ready s d" and p: "protected_thread s d tid"
    and st: "d_status (descs s d) \<in> {kStatusSucceeded, kStatusFailed}" and me: "\<not> enabled (mstats s)"
  shows "wp (Cleanup tid d) (\<lambda>x s'. x = (d_status (descs s d) = kStatusSucceeded) \<and> cleaned d s s') (cleaned d s) s"
proof -
  have nd: "d_status (descs s d) AND kStatusDirtyFlag = 0" using st by (auto simp: status_defs kStatusDirtyFlag_def)
  show ?thesis
    unfolding Cleanup_def Let_def
    by (rule wp_mbind wp_mget wp_mcheck wp_metric_off wp_mono [OF wp_push_garbage [OF ok r p]]
      | (use nd st me in \<open>auto intro!: wp_mbind wp_mcheck wp_check_protected wp_mret; fail\<close>))+
qed

end
