(* ===== verification/MwRefine.thy ===== *)
theory MwRefine
  imports MwCleanup
begin

text \<open>
  What a multi-word compare-and-swap promises, as a function of its entries and of memory, and the proof
  that \<open>MwCAS\<close> implements it: run to its end it returns the specified result and leaves the specified memory,
  and wherever it is stopped the descriptor and the target words are in a state from which it can be
  completed or undone.
\<close>

section \<open>Specification\<close>

definition targets :: "word_desc list \<Rightarrow> word_desc list" where
  "targets ws = filter (\<lambda>w. address w \<noteq> kAllocNullAddress) ws"

definition apply_new :: "word_desc list \<Rightarrow> (u64 \<Rightarrow> u64) \<Rightarrow> u64 \<Rightarrow> u64" where
  "apply_new ws m = foldr (\<lambda>w m. m(address w := new_value w)) (targets ws) m"

definition mwcas_spec :: "word_desc list \<Rightarrow> (u64 \<Rightarrow> u64) \<Rightarrow> bool \<times> (u64 \<Rightarrow> u64)" where
  "mwcas_spec ws m =
     (let ok = list_all (\<lambda>w. m (address w) = old_value w) (targets ws)
      in (ok, if ok then apply_new ws m else m))"

definition op_words :: "mw_world \<Rightarrow> nat \<Rightarrow> word_desc list" where
  "op_words s d = take (d_count (descs s d)) (words (descs s d))"

section \<open>Entries by position and entries as a set\<close>

lemma distinct_filter_nth:
  "distinct (map f (filter P xs)) \<longleftrightarrow>
     (\<forall>i < length xs. \<forall>j < length xs. P (xs ! i) \<longrightarrow> P (xs ! j) \<longrightarrow> f (xs ! i) = f (xs ! j) \<longrightarrow> i = j)"
proof (induction xs)
  case (Cons x xs)
  have "f x \<in> f ` set (filter P xs) \<longleftrightarrow> (\<exists>j < length xs. P (xs ! j) \<and> f x = f (xs ! j))"
    by (auto simp: in_set_conv_nth image_iff)
  then show ?case
    using Cons by (auto simp: All_less_Suc2)
qed simp

lemma op_words_nth:
  assumes "d_count (descs s d) \<le> length (words (descs s d))"
  shows "length (op_words s d) = d_count (descs s d)" and "i < d_count (descs s d) \<Longrightarrow> op_words s d ! i = wrd s d i"
  using assms by (simp_all add: op_words_def wrd_def)

lemma op_words_all:
  assumes "d_count (descs s d) \<le> length (words (descs s d))"
  shows "(\<forall>w \<in> set (op_words s d). P w) \<longleftrightarrow> (\<forall>i < d_count (descs s d). P (wrd s d i))"
    and "(\<forall>w \<in> set (targets (op_words s d)). P w) \<longleftrightarrow> (\<forall>i. tgt s d i \<longrightarrow> P (wrd s d i))"
proof -
  have "set (op_words s d) = wrd s d ` {..<d_count (descs s d)}"
    using op_words_nth [OF assms] by (fastforce simp: in_set_conv_nth image_iff Bex_def)
  then show "(\<forall>w \<in> set (op_words s d). P w) \<longleftrightarrow> (\<forall>i < d_count (descs s d). P (wrd s d i))"
    "(\<forall>w \<in> set (targets (op_words s d)). P w) \<longleftrightarrow> (\<forall>i. tgt s d i \<longrightarrow> P (wrd s d i))"
    by (auto simp: targets_def tgt_def)
qed

lemma op_ctx_iff:
  "op_ctx s d m0 \<longleftrightarrow> pool_ok (pool s) \<and> d < pool_size (pool s) \<and> d_count (descs s d) \<le> DESC_CAP \<and>
     length (words (descs s d)) = DESC_CAP \<and>
     (\<forall>w \<in> set (op_words s d). app_value (pool s) (old_value w) \<and> app_value (pool s) (new_value w) \<and>
        status_address w = status_addr (pool s) d) \<and>
     distinct (map address (targets (op_words s d))) \<and>
     (\<forall>w \<in> set (targets (op_words s d)). app_value (pool s) (m0 (address w)))"
proof (cases "d_count (descs s d) \<le> length (words (descs s d)) \<and> length (words (descs s d)) = DESC_CAP")
  case True
  then have l: "d_count (descs s d) \<le> length (words (descs s d))" by simp
  note n = op_words_nth [OF l]
  have "distinct (map address (targets (op_words s d))) \<longleftrightarrow>
      (\<forall>i j. tgt s d i \<longrightarrow> tgt s d j \<longrightarrow> address (wrd s d i) = address (wrd s d j) \<longrightarrow> i = j)"
    unfolding targets_def distinct_filter_nth tgt_def n(1) using n(2) by fastforce
  then show ?thesis
    unfolding op_ctx_def op_words_all [OF l] by blast
next
  case False
  then show ?thesis by (auto simp: op_ctx_def)
qed

lemma all_match_spec:
  assumes "op_ctx s d m0"
  shows "all_match s d m0 = fst (mwcas_spec (op_words s d) m0)"
proof -
  have l: "d_count (descs s d) \<le> length (words (descs s d))" using op_ctxD(4,5) [OF assms] by simp
  show ?thesis
    unfolding mwcas_spec_def Let_def list_all_iff all_match_def matches_def fst_conv op_words_all [OF l] ..
qed

lemma foldr_upd:
  "distinct (map address ws) \<Longrightarrow> w \<in> set ws \<Longrightarrow> foldr (\<lambda>w m. m(address w := new_value w)) ws m (address w) = new_value w"
  "a \<notin> address ` set ws \<Longrightarrow> foldr (\<lambda>w m. m(address w := new_value w)) ws m a = m a"
  by (induction ws) (auto simp: image_iff)

lemma committed_spec:
  assumes "op_ctx s d m0" and "committed s d m0 m"
  shows "m = apply_new (op_words s d) m0"
proof
  fix a
  have l: "d_count (descs s d) \<le> length (words (descs s d))" using op_ctxD(4,5) [OF assms(1)] by simp
  have dist: "distinct (map address (targets (op_words s d)))" using assms(1) by (simp add: op_ctx_iff)
  have new: "\<forall>w \<in> set (targets (op_words s d)). m (address w) = new_value w"
    using assms(2) unfolding op_words_all(2) [OF l] by (simp add: committed_def)
  have old: "m a = m0 a" if "\<forall>w \<in> set (targets (op_words s d)). a \<noteq> address w"
    using assms(2) that unfolding op_words_all(2) [OF l] by (simp add: committed_def frame_def)
  show "m a = apply_new (op_words s d) m0 a"
  proof (cases "a \<in> address ` set (targets (op_words s d))")
    case True
    then show ?thesis using new foldr_upd(1) [OF dist] by (auto simp: apply_new_def)
  next
    case False
    then show ?thesis using old foldr_upd(2) [OF False] by (auto simp: apply_new_def)
  qed
qed

lemma concluded_spec:
  assumes "op_ctx s d m0" and "concluded s d m0 r m st"
  shows "(r, m) = mwcas_spec (op_words s d) m0" and "st = (if r then kStatusSucceeded else kStatusFailed)"
  using assms committed_spec [OF assms(1)] all_match_spec [OF assms(1)]
  by (auto simp: concluded_def mwcas_spec_def Let_def split: if_splits)

text \<open>The order of the entries does not matter.\<close>

lemma apply_new_perm:
  assumes "mset ws = mset ws'" and "distinct (map address (targets ws))"
  shows "apply_new ws m = apply_new ws' m"
proof
  fix a
  have s: "mset (targets ws) = mset (targets ws')" using assms(1) by (simp add: targets_def)
  have d: "distinct (map address (targets ws'))"
    using assms(2) s by (metis mset_eq_imp_distinct_iff mset_map)
  show "apply_new ws m a = apply_new ws' m a"
  proof (cases "a \<in> address ` set (targets ws)")
    case True
    then obtain w where "w \<in> set (targets ws)" "a = address w" by blast
    then show ?thesis
      using foldr_upd(1) [OF assms(2)] foldr_upd(1) [OF d] mset_eq_setD [OF s] by (simp add: apply_new_def)
  next
    case False
    moreover have "a \<notin> address ` set (targets ws')" using False mset_eq_setD [OF s] by simp
    ultimately show ?thesis by (simp add: apply_new_def foldr_upd(2))
  qed
qed

lemma mwcas_spec_perm:
  assumes "mset ws = mset ws'" and "distinct (map address (targets ws))"
  shows "mwcas_spec ws m = mwcas_spec ws' m"
proof -
  have "mset (targets ws) = mset (targets ws')" using assms(1) by (simp add: targets_def)
  then have "set (targets ws) = set (targets ws')" by (rule mset_eq_setD)
  then show ?thesis using apply_new_perm [OF assms] by (simp add: mwcas_spec_def list_all_iff Let_def)
qed

section \<open>Sorting\<close>

definition sort_op :: "nat \<Rightarrow> mw_world \<Rightarrow> mw_world" where
  "sort_op d = upd_desc d (\<lambda>D. D\<lparr>words := sort_key address (take (d_count D) (words D)) @ drop (d_count D) (words D)\<rparr>)"

lemma sort_op_simps [simp]:
  "mem (sort_op d s) = mem s" "nv (sort_op d s) = nv s" "ew (sort_op d s) = ew s" "pool (sort_op d s) = pool s"
  "mstats (sort_op d s) = mstats s" "budget (sort_op d s) = budget s" "freed (sort_op d s) = freed s"
  "d_count (descs (sort_op d s) k) = d_count (descs s k)" "d_status (descs (sort_op d s) k) = d_status (descs s k)"
  "owner_partition (descs (sort_op d s) k) = owner_partition (descs s k)"
  "k \<noteq> d \<Longrightarrow> descs (sort_op d s) k = descs s k" "the_part (sort_op d s) q = the_part s q"
  by (simp_all add: sort_op_def upd_desc_def the_part_def)

lemma sort_op_words:
  assumes "d_count (descs s d) \<le> length (words (descs s d))"
  shows "op_words (sort_op d s) d = sort_key address (op_words s d)"
    and "length (words (descs (sort_op d s) d)) = length (words (descs s d))"
  using assms by (simp_all add: op_words_def sort_op_def upd_desc_def)

lemma mset_sort_op:
  assumes "d_count (descs s d) \<le> length (words (descs s d))"
  shows "mset (op_words (sort_op d s) d) = mset (op_words s d)"
  by (simp add: sort_op_words [OF assms])

lemma op_ctx_perm:
  assumes c: "op_ctx s d m0" and m: "mset (op_words s' d) = mset (op_words s d)"
    and p: "descriptors (pool s') = descriptors (pool s)" "pool_size (pool s') = pool_size (pool s)"
    and n: "d_count (descs s' d) = d_count (descs s d)" "length (words (descs s' d)) = length (words (descs s d))"
  shows "op_ctx s' d m0"
proof -
  have t: "mset (targets (op_words s' d)) = mset (targets (op_words s d))" using m by (simp add: targets_def)
  have "set (op_words s' d) = set (op_words s d)" "set (targets (op_words s' d)) = set (targets (op_words s d))"
    "distinct (map address (targets (op_words s' d))) = distinct (map address (targets (op_words s d)))"
    using m t mset_eq_setD mset_eq_imp_distinct_iff mset_map by metis+
  moreover have "app_value (pool s') = app_value (pool s)" "status_addr (pool s') = status_addr (pool s)"
    using p by (auto simp: fun_eq_iff app_value_def status_addr_def desc_addr_def word_addr_def)
  ultimately show ?thesis using c p n by (simp add: op_ctx_iff pool_ok_def)
qed

lemma sort_op_ctx:
  assumes "op_ctx s d m0"
  shows "op_ctx (sort_op d s) d m0" and "sorted_words (sort_op d s) d"
proof -
  have l: "d_count (descs s d) \<le> length (words (descs s d))" using op_ctxD(4,5) [OF assms] by simp
  show "op_ctx (sort_op d s) d m0"
    using sort_op_words [OF l] by (intro op_ctx_perm [OF assms]) simp_all
  show "sorted_words (sort_op d s) d"
    unfolding sorted_words_def op_words_def [symmetric] sort_op_words(1) [OF l] by simp
qed

lemma opst_sort: "sort_op d (opst s d m st b v) = opst (sort_op d s) d m st b v"
  by (cases s; cases "descs s d") (simp add: sort_op_def opst_def upd_desc_def)

lemma sort_sorted:
  assumes "sorted_words s d"
  shows "sort_op d s = s"
proof -
  have "sort_key address (take (d_count (descs s d)) (words (descs s d))) = take (d_count (descs s d)) (words (descs s d))"
    using assms by (intro sort_key_id_if_sorted) (simp add: sorted_words_def)
  then show ?thesis by (simp add: sort_op_def upd_desc_def)
qed

text \<open>A run from the unsorted entries is, after the store that sorts them, a run from the sorted ones.\<close>

lemma wp_sort_first:
  assumes so: "sorted_words s0 d" and s: "sort_op d s = s0\<lparr>budget := budget s\<rparr>" and C: "C s"
    and run: "\<And>b. wp (mbind (sort_words d) f) Q C (s0\<lparr>budget := b\<rparr>)"
  shows "wp (mbind (sort_words d) f) Q C s"
proof -
  have so': "sorted_words (s0\<lparr>budget := b\<rparr>) d" for b using so by (simp add: sorted_words_def)
  have w: "sort_words d = mstore (sort_op d)" by (simp add: sort_words_def sort_op_def)
  have b0: "sort_op d (s\<lparr>budget := b\<rparr>) = s0\<lparr>budget := b\<rparr>" for b
    using arg_cong [OF s, of "\<lambda>s. s\<lparr>budget := b\<rparr>"] by (cases s; cases s0) (simp add: sort_op_def upd_desc_def)
  show ?thesis
  proof (cases "budget s")
    case None
    then show ?thesis
      using run [of None] sort_sorted [OF so', of None] b0 [of None] s
      by (simp add: wp_def w mbind_def mstore_def split: outcome.splits)
  next
    case (Some n)
    show ?thesis
    proof (cases n)
      case 0
      then show ?thesis using Some C by (simp add: wp_def w mbind_def mstore_def)
    next
      case (Suc k)
      then show ?thesis
        using run [of "Some n"] Some sort_sorted [OF so', of "Some k"] b0 [of "Some k"]
        by (simp add: wp_def w mbind_def mstore_def split: outcome.splits)
    qed
  qed
qed

section \<open>The whole operation\<close>

definition mw_ready :: "mw_world \<Rightarrow> nat \<Rightarrow> u64 \<Rightarrow> bool" where
  "mw_ready s d tid \<longleftrightarrow> op_ctx s d (mem s) \<and> d_status (descs s d) = kStatusFinished \<and> protected_thread s d tid \<and>
     \<not> enabled (mstats s) \<and> cleanup_ready s d"

text \<open>What an operation never changes: the pool but for its partitions, the entries up to their order, the
  other descriptors unless they are freed, and the durable image of the application's words.\<close>

definition linked :: "mw_world \<Rightarrow> nat \<Rightarrow> mw_world \<Rightarrow> bool" where
  "linked s d s' \<longleftrightarrow> (\<exists>t. pool s' = (pool s)\<lparr>partition_table := t\<rparr>) \<and>
     mset (op_words s' d) = mset (op_words s d) \<and> d_count (descs s' d) = d_count (descs s d) \<and>
     length (words (descs s' d)) = length (words (descs s d)) \<and>
     (\<forall>k. k \<noteq> d \<longrightarrow> descs s' k = descs s k \<or>
        d_count (descs s' k) = 0 \<and> d_status (descs s' k) \<in> {d_status (descs s k), kStatusFinished}) \<and>
     (\<forall>a. app_word (pool s) a \<longrightarrow> nv s' a = nv s a)"

definition interrupted :: "mw_world \<Rightarrow> nat \<Rightarrow> mw_world \<Rightarrow> bool" where
  "interrupted s d s' \<longleftrightarrow>
     d_status (descs s' d) = kStatusFinished \<and> mem s' = mem s \<or> stopped s' d (mem s) (mem s') (d_status (descs s' d))"

lemma stopped_cong:
  assumes "words (descs s' d) = words (descs s d)" "d_count (descs s' d) = d_count (descs s d)"
    and "descriptors (pool s') = descriptors (pool s)"
  shows "stopped s' d m0 m st = stopped s d m0 m st"
proof -
  have "wrd s' d = wrd s d" "tgt s' d = tgt s d" "cptr s' d = cptr s d" "dptr s' d = dptr s d" "dptr_dirty s' d = dptr_dirty s d"
    using assms by (auto simp: fun_eq_iff wrd_def tgt_def cptr_def dptr_def dptr_dirty_def word_addr_def desc_addr_def)
  then show ?thesis
    using assms(2) by (simp only: stopped_def installed_to_def rolling_forward_def rolling_back_def frame_def matches_def)
qed

lemma linked_opst:
  assumes "\<forall>a. app_word (pool s) a \<longrightarrow> v a = nv s a"
  shows "linked s d (opst s d m st b v)"
  using assms by (auto simp: linked_def op_words_def intro: exI [of _ "partition_table (pool s)"])

lemma linked_sort:
  assumes "op_ctx s d m0" and "\<forall>a. app_word (pool s) a \<longrightarrow> v a = nv s a"
  shows "linked s d (opst (sort_op d s) d m st b v)"
proof -
  have l: "d_count (descs s d) \<le> length (words (descs s d))" using op_ctxD(4,5) [OF assms(1)] by simp
  have "op_words (opst (sort_op d s) d m st b v) d = op_words (sort_op d s) d" by (simp add: op_words_def)
  then show ?thesis
    using assms(2) sort_op_words [OF l] mset_sort_op [OF l]
    by (auto simp: linked_def intro: exI [of _ "partition_table (pool s)"])
qed

lemma linked_cleaned:
  assumes "linked s d s1" and "cleaned d s1 s2"
  shows "linked s d s2"
proof -
  have "descs s2 d = descs s1 d" "nv s2 = nv s1" and p: "\<exists>t. pool s2 = (pool s1)\<lparr>partition_table := t\<rparr>"
    and e: "emptied s1 s2" using assms(2) by (simp_all add: cleaned_def)
  moreover have "descs s2 k = descs s k \<or> d_count (descs s2 k) = 0 \<and> d_status (descs s2 k) \<in> {d_status (descs s k), kStatusFinished}"
    if "k \<noteq> d" for k
    using assms(1) that e unfolding linked_def emptied_def by (metis insert_iff singletonD)
  ultimately show ?thesis using assms(1) by (auto simp: linked_def op_words_def)
qed

lemma wpo_stable_status_0:
  assumes p: "pool_ok (pool s)" "d < pool_size (pool s)" and C: "C m kStatusUndecided"
    and Q: "Q kStatusUndecided m kStatusUndecided"
  shows "wpo s d (stable_status 0 d) Q C m kStatusUndecided"
proof -
  have nd: "kStatusUndecided AND kStatusDirtyFlag = 0" by (simp add: kStatusUndecided_def kStatusDirtyFlag_def)
  show ?thesis
    unfolding stable_status_def
    by (rule wpo_mbind wpo_mwhen wpo_mget wpo_mcheck wpo_Flush_desc p | simp add: nd wpo_mret Q)+
qed

lemma cleanup_ready_opst:
  "cleanup_ready (opst s d m st b v) d = cleanup_ready s d"
  "cleanup_ready (sort_op d s) d = cleanup_ready s d"
  "protected_thread (opst s d m st b v) k tid = protected_thread s k tid"
  "protected_thread (sort_op d s) k tid = protected_thread s k tid"
proof -
  have g: "garbage_of (opst s d m st b v) k = garbage_of s k" "garbage_of (sort_op d s) k = garbage_of s k" for s k m st b v
    by (simp_all add: garbage_of_def)
  have ex: "(d' \<noteq> d \<and> freeable (descs (opst s d m st b v) d')) = (d' \<noteq> d \<and> freeable (descs s d'))"
    "(d' \<noteq> d \<and> freeable (descs (sort_op d s) d')) = (d' \<noteq> d \<and> freeable (descs s d'))" for d'
    by auto
  show "cleanup_ready (opst s d m st b v) d = cleanup_ready s d" "cleanup_ready (sort_op d s) d = cleanup_ready s d"
    unfolding cleanup_ready_def g ex by simp_all
  show "protected_thread (opst s d m st b v) k tid = protected_thread s k tid"
    "protected_thread (sort_op d s) k tid = protected_thread s k tid"
    by (simp_all add: protected_thread_def)
qed

text \<open>The run of \<open>MwCAS\<close> from a descriptor that is ready, for any budget.\<close>

definition mw_done :: "mw_world \<Rightarrow> nat \<Rightarrow> bool \<Rightarrow> mw_world \<Rightarrow> bool" where
  "mw_done s d r s' \<longleftrightarrow> (r, mem s') = mwcas_spec (op_words s d) (mem s) \<and> linked s d s' \<and>
     d_status (descs s' d) = (if r then kStatusSucceeded else kStatusFailed)"

definition mw_stopped :: "mw_world \<Rightarrow> nat \<Rightarrow> mw_world \<Rightarrow> bool" where
  "mw_stopped s d s' \<longleftrightarrow> linked s d s' \<and> interrupted s d s'"

lemma stopped_opst: "stopped (opst s0 d m' st' b v) d m0 m st = stopped s0 d m0 m st"
  by (rule stopped_cong) simp_all

lemma concluded_stopped:
  assumes "op_ctx s0 d m0" and "concluded s0 d m0 r m st"
  shows "stopped s0 d m0 m st"
  using assms by (auto simp: concluded_def stopped_def committed_def rolling_forward_def rolling_back_def all_match_def
    frame_def split: if_splits)

text \<open>The phases after the sort.\<close>

definition mw_body :: "nat \<Rightarrow> u64 \<Rightarrow> nat \<Rightarrow> nat \<Rightarrow> bool mw" where
  "mw_body n tid depth d =
     mbind (mget (\<lambda>s. d_count (descs s d))) (\<lambda>count.
     mbind (install_all True (install_word n tid depth d) d [0..<count]) (\<lambda>ok.
     mbind (mwhen ok (mfor (persist_target True d) [0..<count])) (\<lambda>_.
     mbind (decide d (if ok then kStatusSucceeded else kStatusFailed)) (\<lambda>_.
     mbind (mget (\<lambda>s. d_status (descs s d) = kStatusSucceeded)) (\<lambda>succeeded.
     mbind (mfor (finish_word succeeded d) [0..<count]) (\<lambda>_. mret succeeded))))))"

lemma mw_phases_body: "mw_phases n tid depth d = mbind (sort_words d) (\<lambda>_. mw_body n tid depth d)"
  by (simp only: mw_phases_def mw_body_def)

definition nv_kept :: "mw_world \<Rightarrow> (u64 \<Rightarrow> u64) \<Rightarrow> bool" where
  "nv_kept s v \<longleftrightarrow> (\<forall>a. app_word (pool s) a \<longrightarrow> v a = nv s a)"

lemma mw_stopped_opst:
  assumes "op_ctx s d (mem s)" and "nv_kept s v"
  shows "stopped s d (mem s) m st \<Longrightarrow> mw_stopped s d (opst s d m st b v)"
    and "stopped (sort_op d s) d (mem s) m st \<Longrightarrow> mw_stopped s d (opst (sort_op d s) d m st b v)"
  using assms linked_opst linked_sort by (simp_all add: mw_stopped_def interrupted_def stopped_opst nv_kept_def)

lemma Cleanup_stage:
  assumes rdy: "mw_ready s d tid" and c: "concluded (sort_op d s) d (mem s) r m st" and v: "nv_kept s v"
  shows "wp (Cleanup tid d) (mw_done s d) (mw_stopped s d) (opst (sort_op d s) d m st b v)"
proof (rule wp_mono [OF wp_Cleanup])
  let ?s = "opst (sort_op d s) d m st b v"
  have ctx: "op_ctx s d (mem s)" using rdy by (simp add: mw_ready_def)
  note ctx0 = sort_op_ctx [OF ctx]
  have l: "d_count (descs s d) \<le> length (words (descs s d))" using op_ctxD(4,5) [OF ctx] by simp
  have "mwcas_spec (op_words (sort_op d s) d) (mem s) = mwcas_spec (op_words s d) (mem s)"
    by (rule mwcas_spec_perm) (use ctx0(1) mset_sort_op [OF l] in \<open>simp_all add: op_ctx_iff\<close>)
  then have e: "(r, m) = mwcas_spec (op_words s d) (mem s)" "st = (if r then kStatusSucceeded else kStatusFailed)"
    using concluded_spec [OF ctx0(1) c] by simp_all
  have l0: "linked s d ?s" using linked_sort [OF ctx] v by (simp add: nv_kept_def)
  show "pool_ok (pool ?s)" "cleanup_ready ?s d" "protected_thread ?s d tid"
    "d_status (descs ?s d) \<in> {kStatusSucceeded, kStatusFailed}" "\<not> enabled (mstats ?s)"
    using rdy ctx0(1) e(2) by (auto simp: cleanup_ready_opst op_ctx_def mw_ready_def)
  show "mw_done s d x s'" if "x = (d_status (descs ?s d) = kStatusSucceeded) \<and> cleaned d ?s s'" for x s'
    using that e linked_cleaned [OF l0, of s'] by (auto simp: mw_done_def cleaned_def status_defs)
  show "mw_stopped s d s'" if k: "cleaned d ?s s'" for s'
  proof -
    have "stopped s' d (mem s) m st = stopped (sort_op d s) d (mem s) m st"
      using k by (intro stopped_cong) (auto simp: cleaned_def)
    then show ?thesis
      using k linked_cleaned [OF l0 k] concluded_stopped [OF ctx0(1) c]
      by (auto simp: mw_stopped_def interrupted_def cleaned_def)
  qed
qed

lemma stopped_start: "stopped s d m m kStatusUndecided"
  by (auto simp: stopped_def installed_to_def frame_def intro!: exI [of _ 0])

lemma phases_stage:
  assumes rdy: "mw_ready s d tid" and v: "nv_kept s v"
  shows "wp (mw_phases (Suc (Suc N)) tid 0 d) (\<lambda>_. wp (Cleanup tid d) (mw_done s d) (mw_stopped s d))
    (mw_stopped s d) (opst s d (mem s) kStatusUndecided b v)"
proof -
  let ?s0 = "sort_op d s"
  have ctx: "op_ctx s d (mem s)" using rdy by (simp add: mw_ready_def)
  note ctx0 = sort_op_ctx [OF ctx]
  have run: "wpo ?s0 d (mw_phases (Suc (Suc N)) tid 0 d) (concluded ?s0 d (mem s)) (stopped ?s0 d (mem s)) (mem s) kStatusUndecided"
    by (rule phases_spec [OF ctx0 stopped_start])
  have k: "nv_kept s v'" if "\<forall>a. app_word (pool s) a \<longrightarrow> v' a = v a" for v' using that v by (simp add: nv_kept_def)
  have 1: "sorted_words (opst ?s0 d (mem s) kStatusUndecided b v) d" using ctx0(2) by (simp add: sorted_words_def)
  have 2: "sort_op d (opst s d (mem s) kStatusUndecided b v) =
      (opst ?s0 d (mem s) kStatusUndecided b v)\<lparr>budget := budget (opst s d (mem s) kStatusUndecided b v)\<rparr>"
    by (simp add: opst_sort)
  have 3: "mw_stopped s d (opst s d (mem s) kStatusUndecided b v)" by (rule mw_stopped_opst(1) [OF ctx v stopped_start])
  have "wp (mw_phases (Suc (Suc N)) tid 0 d) (\<lambda>_. wp (Cleanup tid d) (mw_done s d) (mw_stopped s d))
    (mw_stopped s d) ((opst ?s0 d (mem s) kStatusUndecided b v)\<lparr>budget := b'\<rparr>)" for b'
    unfolding opst_updates
    by (rule wp_mono [OF wpoD [OF run]]) (use k Cleanup_stage [OF rdy] mw_stopped_opst(2) [OF ctx] in auto)
  then show ?thesis
    unfolding mw_phases_body by (rule wp_sort_first [where C = "mw_stopped s d", OF 1 2 3])
qed

lemma MwCAS_wp:
  assumes rdy: "mw_ready s d tid" and n: "3 \<le> n"
  shows "wp (MwCAS n tid d) (mw_done s d) (mw_stopped s d) s"
proof -
  have ctx: "op_ctx s d (mem s)" and fin: "d_status (descs s d) = kStatusFinished" and pt: "protected_thread s d tid"
    using rdy by (simp_all add: mw_ready_def)
  obtain N where N: "n = Suc (Suc (Suc N))" using n by (intro that [of "n - 3"]) simp
  have pre: "wpo s d (mbind (check_protected tid d) (\<lambda>_. stable_status 0 d))
      (\<lambda>x m st. x = kStatusUndecided \<and> m = mem s \<and> st = kStatusUndecided) (stopped s d (mem s)) (mem s) kStatusUndecided"
    using op_ctxD(1,2) [OF ctx] stopped_start by (intro wpo_mbind wpo_check_protected [OF pt] wpo_stable_status_0) simp_all
  have pers: "wp (PersistentMwCAS n tid 0 d) (mw_done s d) (mw_stopped s d) (opst s d (mem s) kStatusUndecided b (nv s))" for b
    unfolding N PersistentMwCAS_phases mbind_assoc [symmetric]
    by (rule wp_mbind, rule wp_mono [OF wpoD [OF pre]])
      (use phases_stage [OF rdy] mw_stopped_opst(1) [OF ctx] in \<open>auto simp: nv_kept_def intro!: wp_mbind\<close>)
  have u: "upd_desc d (\<lambda>D. D\<lparr>d_status := kStatusUndecided\<rparr>) (s\<lparr>budget := b\<rparr>) = opst s d (mem s) kStatusUndecided b (nv s)" for b
    by (cases s) (simp add: upd_desc_def opst_def)
  have "mw_stopped s d s"
    by (auto simp: mw_stopped_def interrupted_def fin linked_def intro: exI [of _ "partition_table (pool s)"])
  then show ?thesis
    unfolding MwCAS_def
    by - (rule wp_mbind wp_mget wp_mcheck wp_mstore budget_updates pers | simp only: u | simp add: fin)+
qed

end
