(* ===== verification/DescPool.thy ===== *)
theory DescPool
  imports MwCAS
begin

text \<open>
  The descriptor pool (\<open>mwcas/mwcas.cc\<close>): its constructor, \<open>InitDescriptors\<close>, \<open>AllocateDescriptor\<close> and
  \<open>Recovery\<close>. The pool object and its descriptors live in persistent memory, the partitions, the garbage
  lists and the epoch manager are rebuilt at every start. Whether an allocation succeeds, the address it
  returns, the number of cores and the address at which the memory pool is mapped are arguments.
\<close>

section \<open>Construction\<close>

text \<open>\<open>while (requested_pool_size > pool_size_) pool_size_ *= 2\<close> on 32-bit numbers: above \<open>2 ^ 31\<close> the
  doubling reaches zero and the loop never ends.\<close>

fun round_pool_size :: "nat \<Rightarrow> nat \<Rightarrow> nat \<Rightarrow> nat res" where
  "round_pool_size 0 requested sz = Inl Spins"
| "round_pool_size (Suc n) requested sz =
     (if requested > sz then round_pool_size n requested (2 * sz mod 2 ^ 32) else Inr sz)"

definition rounded_pool_size :: "nat \<Rightarrow> nat res" where
  "rounded_pool_size requested = round_pool_size 34 requested 1"

fun round_partitions :: "nat \<Rightarrow> nat \<Rightarrow> nat \<Rightarrow> nat" where
  "round_partitions 0 requested c = c"
| "round_partitions (Suc n) requested c = (if requested \<le> c then c else round_partitions n requested (2 * c))"

text \<open>\<open>for (exp = 1; exp < 10; exp++)\<close> runs nine times.\<close>

definition rounded_partitions :: "nat \<Rightarrow> nat" where
  "rounded_partitions requested = round_partitions 9 requested 1"

definition new_partition :: "nat \<Rightarrow> nat \<Rightarrow> partition res" where
  "new_partition m dpp =
     (let (st, gl) = GarbageList_Initialize True (Some m) (of_nat dpp) GarbageList_new
      in rbind (guard (Status_ok st) (RawCheck ''garbage list initialization failure'')) (\<lambda>_.
           Inr \<lparr>free_list = 0, part_garbage = gl, allocated_desc = 0\<rparr>))"

fun new_partitions :: "nat \<Rightarrow> nat \<Rightarrow> nat \<Rightarrow> partition list res" where
  "new_partitions m dpp 0 = Inr []"
| "new_partitions m dpp (Suc n) = rbind (new_partitions m dpp n) (\<lambda>ps. rbind (new_partition m dpp) (\<lambda>p. Inr (ps @ [p])))"

definition zero_desc :: descriptor where
  "zero_desc = \<lparr>next_ptr = 0, owner_partition = 0, d_status = kStatusInvalid, d_count = 0,
     free_callback = NullCallback, allocate_callback = NullCallback, words = replicate DESC_CAP empty_word\<rparr>"

definition init_descriptor :: "nat \<Rightarrow> nat \<Rightarrow> unit mw" where
  "init_descriptor i d =
     mbind (mstore (upd_desc d (\<lambda>D. D\<lparr>owner_partition := i\<rparr>))) (\<lambda>_.
     mbind (Descriptor_Initialize d) (\<lambda>_.
     mbind (mget (\<lambda>s. free_list (the_part s i))) (\<lambda>fl.
     mbind (mstore (upd_desc d (\<lambda>D. D\<lparr>next_ptr := fl\<rparr>))) (\<lambda>_.
     mbind (mget (\<lambda>s. desc_addr (pool s) d)) (\<lambda>da.
     mstore (set_part i (\<lambda>q. q\<lparr>free_list := da\<rparr>)))))))"

definition InitDescriptors :: "unit mw" where
  "InitDescriptors =
     mbind (mget pool) (\<lambda>p.
     mbind (mcheck (descriptors p \<noteq> 0) (RawCheck ''null descriptor pool'')) (\<lambda>_.
     mbind (mstore (\<lambda>s. s\<lparr>descs := (\<lambda>d. if d < pool_size p then zero_desc else descs s d)\<rparr>)) (\<lambda>_.
     mbind (mcheck (partition_count p < pool_size p) (RawCheck ''provided pool size is less than partition count'')) (\<lambda>_.
     mfor (\<lambda>i. mfor (\<lambda>d. init_descriptor i (i * desc_per_partition p + d)) [0..<desc_per_partition p])
       [0..<partition_count p]))))"

definition metrics_init :: "bool \<Rightarrow> nat \<Rightarrow> unit mw" where
  "metrics_init mem_ok cores s = (case Metrics_Initialize mem_ok cores (mstats s) of
      Inl e \<Rightarrow> Aborted e
    | Inr (st, ms) \<Rightarrow> if Status_ok st then Done () (s\<lparr>mstats := ms\<rparr>)
                      else Aborted (RawCheck ''failed initializing metric objects''))"

definition epoch_init :: "bool \<Rightarrow> nat \<Rightarrow> unit mw" where
  "epoch_init mem_ok m s = (case Initialize mem_ok m (ew s) of
      (st, w) \<Rightarrow> if Status_ok st then Done () (s\<lparr>ew := w\<rparr>) else Aborted (RawCheck ''epoch initialization failure''))"

definition upd_pool :: "(desc_pool \<Rightarrow> desc_pool) \<Rightarrow> unit mw" where
  "upd_pool f = mstore (\<lambda>s. s\<lparr>pool := f (pool s)\<rparr>)"

text \<open>\<open>descs_mem\<close> is the block the allocator returns for the descriptors, \<open>pmdk\<close> the base of the memory pool;
  \<open>m\<close> is the manager of the pool object, \<open>cores\<close> the number of cores.\<close>

definition DescriptorPool :: "nat \<Rightarrow> nat \<Rightarrow> bool \<Rightarrow> nat \<Rightarrow> nat \<Rightarrow> u64 \<Rightarrow> u64 \<Rightarrow> unit mw" where
  "DescriptorPool requested_pool_size requested_partition_count enable_stats cores m descs_mem pmdk =
     mbind (upd_pool (\<lambda>p. p\<lparr>pool_size := 0, desc_per_partition := 0, partition_count := 0, partition_table := [],
              next_partition := 0, pool_epoch := m\<rparr>)) (\<lambda>_.
     mbind (\<lambda>s. Done () (s\<lparr>mstats := (mstats s)\<lparr>enabled := enable_stats\<rparr>\<rparr>)) (\<lambda>_.
     mbind (mwhen enable_stats (metrics_init True cores)) (\<lambda>_.
     mbind (epoch_init True m) (\<lambda>_.
     mbind (mlift (rounded_pool_size requested_pool_size)) (\<lambda>psz.
       let pcnt = rounded_partitions requested_partition_count;
           dpp = psz div pcnt in
     mbind (mcheck (dpp > 0) (RawCheck ''descriptor per partition is 0'')) (\<lambda>_.
     mbind (mlift (new_partitions m dpp pcnt)) (\<lambda>parts.
     mbind (mcheck (psz > 0) (RawCheck ''invalid pool size'')) (\<lambda>_.
     mbind (mcheck (descs_mem \<noteq> 0) (RawCheck ''out of memory'')) (\<lambda>_.
     mbind (upd_pool (\<lambda>p. p\<lparr>pool_size := psz, desc_per_partition := dpp, partition_count := pcnt,
              partition_table := parts, descriptors := descs_mem, pmdk_pool := pmdk\<rparr>)) (\<lambda>_.
     InitDescriptors))))))))))"

text \<open>The destructors: a partition destroys whatever its garbage list still holds, the pool only releases the
  metrics.\<close>

definition DescriptorPartition_destroy :: "nat \<Rightarrow> unit mw" where
  "DescriptorPartition_destroy i s =
     (let (st, gl', calls) = GarbageList_Uninitialize (part_garbage (the_part s i))
      in mfor run_destroy calls (set_part i (\<lambda>q. q\<lparr>part_garbage := gl'\<rparr>) s))"

definition DescriptorPool_destroy :: "unit mw" where
  "DescriptorPool_destroy s = Done () (s\<lparr>mstats := snd (Metrics_Uninitialize (mstats s))\<rparr>)"

section \<open>Allocation\<close>

text \<open>The partition of the calling thread, assigned round-robin on first use and cached in a thread-local
  variable that all pools share.\<close>

definition my_partition :: "u64 \<Rightarrow> nat mw" where
  "my_partition tid s =
     (case tls (ew s) (tid, PartitionTls) of
        PartitionPtr _ i \<Rightarrow> Done i s
      | _ \<Rightarrow>
         let idx = unat (next_partition (pool s)) mod partition_count (pool s);
             w1 = (ew s)\<lparr>tls := (tls (ew s))((tid, PartitionTls) := PartitionPtr (pool_epoch (pool s)) idx)\<rparr>
         in Done idx (s\<lparr>pool := (pool s)\<lparr>next_partition := next_partition (pool s) + 1\<rparr>,
                        ew := RegisterTls tid (tid, PartitionTls) Nullptr w1\<rparr>))"

text \<open>One round of the loop that looks for reclaimable descriptors when the free list is empty.\<close>

definition scavenge_round :: "u64 \<Rightarrow> nat \<Rightarrow> unit mw" where
  "scavenge_round tid i s =
     (let gl = part_garbage (the_part s i)
      in case gl_epoch_manager gl of
           None \<Rightarrow> Aborted (BadAccess ''null epoch manager'')
         | Some m \<Rightarrow> (case BumpCurrentEpoch m (ew s) of
              Inl e \<Rightarrow> Aborted e
            | Inr w \<Rightarrow>
                let (k, gl', calls) = Scavenge_unsafe (manager_ops m) gl w
                in mbind (mfor run_destroy calls) (\<lambda>_.
                   mbind (mstore (set_part i (\<lambda>q. q\<lparr>allocated_desc := allocated_desc q - k\<rparr>))) (\<lambda>_.
                   mbind (mget (\<lambda>s. free_list (the_part s i))) (\<lambda>fl.
                   mbind (mcheck (k > 0 \<or> fl = 0) (RawCheck ''scavenged but still not descriptor'')) (\<lambda>_.
                   metric AddDescriptorScavenge tid))))
                   (set_part i (\<lambda>q. q\<lparr>part_garbage := gl'\<rparr>) (s\<lparr>ew := w\<rparr>))))"

fun wait_descriptor :: "nat \<Rightarrow> u64 \<Rightarrow> nat \<Rightarrow> u64 mw" where
  "wait_descriptor 0 tid i = no_fuel"
| "wait_descriptor (Suc n) tid i =
     mbind (mget (\<lambda>s. free_list (the_part s i))) (\<lambda>fl.
       if fl \<noteq> 0 then mret fl else mbind (scavenge_round tid i) (\<lambda>_. wait_descriptor n tid i))"

definition AllocateDescriptor :: "nat \<Rightarrow> u64 \<Rightarrow> callback \<Rightarrow> callback \<Rightarrow> nat mw" where
  "AllocateDescriptor n tid ac fc =
     mbind (my_partition tid) (\<lambda>i.
     mbind (wait_descriptor n tid i) (\<lambda>desc.
     mbind (mget (\<lambda>s. desc_at (pool s) desc)) (\<lambda>od.
       case od of None \<Rightarrow> mlift (Inl (BadAccess ''free_list''))
       | Some d \<Rightarrow>
          mbind (mget (\<lambda>s. next_ptr (descs s d))) (\<lambda>nx.
          mbind (mstore (set_part i (\<lambda>q. q\<lparr>free_list := nx\<rparr>))) (\<lambda>_.
          mbind (metric AddDescriptorAlloc tid) (\<lambda>_.
          mbind (mstore (upd_desc d (\<lambda>D. D\<lparr>
              allocate_callback := (if ac \<noteq> NullCallback then ac else DefaultCallback),
              free_callback := (if fc \<noteq> NullCallback then fc else DefaultCallback)\<rparr>))) (\<lambda>_. mret d)))))))"

section \<open>Recovery\<close>

text \<open>The addresses in the entries move with the mapping of the pool.\<close>

definition adjust_words :: "u64 \<Rightarrow> nat \<Rightarrow> unit mw" where
  "adjust_words off d = mstore (upd_desc d (\<lambda>D. D\<lparr>words :=
     map (\<lambda>w. if address w = kAllocNullAddress then w else w\<lparr>address := address w + off\<rparr>) (take (d_count D) (words D))
     @ drop (d_count D) (words D)\<rparr>))"

definition undo_word :: "u64 \<Rightarrow> nat \<Rightarrow> nat \<Rightarrow> unit mw" where
  "undo_word off d i =
     mbind (mget (\<lambda>s. words (descs s d) ! i)) (\<lambda>w.
       if address w = kAllocNullAddress then mret ()
       else mbind (mget (\<lambda>s. CleanPtr (mem s (address w)) + off)) (\<lambda>val.
            mbind (mget pool) (\<lambda>p.
              mwhen (val = desc_addr p d \<or> val = word_addr p d i)
                (mbind (mstore (set_mem (address w) (old_value w))) (\<lambda>_. PersistAddress d i)))))"

definition redo_word :: "u64 \<Rightarrow> nat \<Rightarrow> nat \<Rightarrow> unit mw" where
  "redo_word off d i =
     mbind (mget (\<lambda>s. words (descs s d) ! i)) (\<lambda>w.
       if address w = kAllocNullAddress then mret ()
       else mbind (mget (\<lambda>s. CleanPtr (mem s (address w)) + off)) (\<lambda>val.
            mbind (mget pool) (\<lambda>p.
            mbind (mcheck (val \<noteq> word_addr p d i) (RawCheck ''invalid field value'')) (\<lambda>_.
              mwhen (val = desc_addr p d)
                (mbind (mstore (set_mem (address w) (new_value w))) (\<lambda>_. PersistAddress d i))))))"

definition check_word :: "nat \<Rightarrow> nat \<Rightarrow> unit mw" where
  "check_word d i =
     mbind (mget (\<lambda>s. words (descs s d) ! i)) (\<lambda>w.
       if address w = kAllocNullAddress then mret ()
       else mbind (mget (\<lambda>s. mem s (address w) AND NOT kDirtyFlag)) (\<lambda>val.
            mbind (mget (\<lambda>s. desc_addr (pool s) d)) (\<lambda>da.
            mbind (mcheck (val \<noteq> da OR kMwCASFlag) (RawCheck ''invalid word value'')) (\<lambda>_.
            mcheck (val \<noteq> da OR kCondCASFlag) (RawCheck ''invalid word value'')))))"

definition recover_desc :: "u64 \<Rightarrow> nat \<Rightarrow> unit mw" where
  "recover_desc off d =
     mbind (assert_valid_status d) (\<lambda>_.
     mbind (adjust_words off d) (\<lambda>_.
     mbind (mget (\<lambda>s. descs s d)) (\<lambda>D.
       let status = d_status D AND NOT kStatusDirtyFlag in
       if status = kStatusFinished then mret ()
       else
         mbind (if status = kStatusUndecided \<or> status = kStatusFailed then mfor (undo_word off d) [0..<d_count D]
                else mbind (mcheck (status = kStatusSucceeded) (RawCheck ''invalid status'')) (\<lambda>_.
                     mfor (redo_word off d) [0..<d_count D])) (\<lambda>_.
         mfor (check_word d) [0..<d_count D]))))"

fun recover_all :: "u64 \<Rightarrow> nat list \<Rightarrow> unit mw" where
  "recover_all off [] = mret ()"
| "recover_all off (d # ds) =
     mbind (mget (\<lambda>s. d_status (descs s d))) (\<lambda>st.
       if st = kStatusInvalid then mcheck (d = 0) (RawCheck ''corrupted descriptor pool/data area'')
       else mbind (recover_desc off d) (\<lambda>_. recover_all off ds))"

definition Recovery :: "bool \<Rightarrow> nat \<Rightarrow> u64 \<Rightarrow> unit mw" where
  "Recovery enable_stats cores new_pmdk_pool =
     mbind (\<lambda>s. Done () (s\<lparr>mstats := (mstats s)\<lparr>enabled := enable_stats\<rparr>\<rparr>)) (\<lambda>_.
     mbind (metrics_init True cores) (\<lambda>_.
     mbind (mget pool) (\<lambda>p.
     mbind (\<lambda>s. Done () (s\<lparr>ew := set_mgr (pool_epoch p) new_manager (ew s)\<rparr>)) (\<lambda>_.
     mbind (epoch_init True (pool_epoch p)) (\<lambda>_.
     mbind (mcheck (partition_count p > 0) (RawCheck ''invalid partition count'')) (\<lambda>_.
     mbind (mlift (new_partitions (pool_epoch p) (desc_per_partition p) (partition_count p))) (\<lambda>parts.
     mbind (upd_pool (\<lambda>p. p\<lparr>partition_table := parts\<rparr>)) (\<lambda>_.
     mbind (mcheck (descriptors p \<noteq> 0) (RawCheck ''invalid descriptor array pointer'')) (\<lambda>_.
     mbind (mcheck (pool_size p > 0) (RawCheck ''invalid pool size'')) (\<lambda>_.
       let off = new_pmdk_pool - pmdk_pool p in
     mbind (upd_pool (\<lambda>p. p\<lparr>descriptors := descriptors p + off\<rparr>)) (\<lambda>_.
     mbind (mget (\<lambda>s. d_status (descs s 0))) (\<lambda>st0.
     mbind (mwhen (st0 \<noteq> kStatusInvalid) (recover_all off [0..<pool_size p])) (\<lambda>_.
     mbind (upd_pool (\<lambda>p. p\<lparr>pmdk_pool := new_pmdk_pool\<rparr>)) (\<lambda>_.
     InitDescriptors))))))))))))))"

end
