(* ===== verification/MwRecovery.thy ===== *)
theory MwRecovery
  imports MwAtomic DescPool
begin

text \<open>
  Recovery after a crash: whatever point a multi-word compare-and-swap was stopped at, \<open>Recovery\<close> leaves all its
  target words with the old values or all with the new ones.
\<close>

lemma wpo_set_mem:
  assumes "C m st" and "Q () (m(a := x)) st"
  shows "wpo s0 d (mstore (set_mem a x)) Q C m st"
  unfolding wpo_def using assms by (intro allI wp_mstore) (auto intro!: exI)

lemma wpo_store_id:
  assumes "C m st" and "Q () m st" and "\<And>b v. f (opst s0 d m st b v) = opst s0 d m st b v"
    and "\<And>s. budget (f s) = budget s"
  shows "wpo s0 d (mstore f) Q C m st"
  unfolding wpo_def using assms by (intro allI wp_mstore) (auto intro!: exI)

lemma adjust_words_0: "upd_desc d' (\<lambda>D. D\<lparr>words :=
     map (\<lambda>w. if address w = kAllocNullAddress then w else w\<lparr>address := address w + 0\<rparr>) (take (d_count D) (words D))
     @ drop (d_count D) (words D)\<rparr>) s = s"
proof -
  have e: "map (\<lambda>w. if address w = kAllocNullAddress then w else w\<lparr>address := address w + 0\<rparr>) ws = ws" for ws
    by (rule map_idI) simp
  show ?thesis unfolding upd_desc_def e append_take_drop_id by simp
qed

lemma wpo_adjust_words_0:
  assumes "C m st" and "Q () m st"
  shows "wpo s0 d (adjust_words 0 d') Q C m st"
  unfolding adjust_words_def using assms by (intro wpo_store_id) (simp_all add: adjust_words_0)

section \<open>What recovery can start from, and where it ends\<close>

text \<open>An undecided or failed operation: each target is unchanged, or held its old value and shows a pointer
  of this operation or the old value to be persisted.\<close>

definition undoable :: "mw_world \<Rightarrow> nat \<Rightarrow> (u64 \<Rightarrow> u64) \<Rightarrow> (u64 \<Rightarrow> u64) \<Rightarrow> bool" where
  "undoable s0 d m0 m \<longleftrightarrow> frame s0 d m0 m \<and>
     (\<forall>i. tgt s0 d i \<longrightarrow> m (address (wrd s0 d i)) = m0 (address (wrd s0 d i)) \<or>
        matches s0 d m0 i \<and>
        m (address (wrd s0 d i)) \<in> {cptr s0 d i, dptr s0 d, dptr_dirty s0 d, old_value (wrd s0 d i) OR kDirtyFlag})"

definition recoverable :: "mw_world \<Rightarrow> nat \<Rightarrow> (u64 \<Rightarrow> u64) \<Rightarrow> (u64 \<Rightarrow> u64) \<Rightarrow> u32 \<Rightarrow> bool" where
  "recoverable s0 d m0 m st \<longleftrightarrow>
     (if st AND NOT kStatusDirtyFlag = kStatusSucceeded then rolling_forward s0 d m0 m
      else if st AND NOT kStatusDirtyFlag = kStatusFinished then m = m0
      else st AND NOT kStatusDirtyFlag \<in> {kStatusUndecided, kStatusFailed} \<and> undoable s0 d m0 m)"

lemma stopped_recoverable:
  assumes "stopped s0 d m0 m st"
  shows "recoverable s0 d m0 m st"
proof -
  have ne: "kStatusUndecided \<noteq> kStatusSucceeded" "kStatusUndecided \<noteq> kStatusFinished" "kStatusFailed \<noteq> kStatusFinished"
    by (simp_all add: status_defs)
  have u: "undoable s0 d m0 m" if "installed_to s0 d m0 k m" for k
    unfolding undoable_def
  proof (intro conjI allI impI)
    show "frame s0 d m0 m" using that by (simp add: installed_to_def)
    fix i assume "tgt s0 d i"
    then show "m (address (wrd s0 d i)) = m0 (address (wrd s0 d i)) \<or> matches s0 d m0 i \<and>
        m (address (wrd s0 d i)) \<in> {cptr s0 d i, dptr s0 d, dptr_dirty s0 d, old_value (wrd s0 d i) OR kDirtyFlag}"
      using that by (cases i k rule: linorder_cases) (auto simp: installed_to_def)
  qed
  have b: "rolling_back s0 d m0 m \<Longrightarrow> undoable s0 d m0 m" by (auto simp: rolling_back_def undoable_def)
  from assms consider k where "st = kStatusUndecided" "installed_to s0 d m0 k m"
    | "st \<in> {kStatusSucceeded, kStatusSucceeded OR kStatusDirtyFlag}" "rolling_forward s0 d m0 m"
    | "st \<in> {kStatusFailed, kStatusFailed OR kStatusDirtyFlag}" "rolling_back s0 d m0 m"
    unfolding stopped_def by blast
  then show ?thesis
  proof cases
    case 1
    then have "undoable s0 d m0 m" using u by blast
    then show ?thesis using 1(1) by (simp add: recoverable_def status_bits ne)
  next
    case 2
    then show ?thesis by (auto simp: recoverable_def status_bits)
  next
    case 3
    then have "undoable s0 d m0 m" using b by blast
    then show ?thesis using 3(1) by (elim insertE) (simp_all add: recoverable_def status_bits ne)
  qed
qed

text \<open>The end: every target has its final value, possibly still marked dirty.\<close>

definition settled :: "mw_world \<Rightarrow> nat \<Rightarrow> (u64 \<Rightarrow> u64) \<Rightarrow> bool \<Rightarrow> (u64 \<Rightarrow> u64) \<Rightarrow> bool" where
  "settled s0 d m0 r m \<longleftrightarrow> frame s0 d m0 m \<and>
     (\<forall>i. tgt s0 d i \<longrightarrow> m (address (wrd s0 d i)) \<in>
        (let v = (if r then new_value (wrd s0 d i) else m0 (address (wrd s0 d i))) in {v, v OR kDirtyFlag}))"

lemma op_ctx_app:
  assumes "op_ctx s0 d m0" and "tgt s0 d i" and "d' < pool_size (pool s0)" and "j < 4"
    and "x \<in> {old_value (wrd s0 d i), new_value (wrd s0 d i), m0 (address (wrd s0 d i))}"
  shows "x \<noteq> desc_addr (pool s0) d'" "x \<noteq> word_addr (pool s0) d' j" "IsCleanPtr x"
proof -
  have "app_value (pool s0) x" using assms(1,2,5) by (auto simp: op_ctx_def tgt_def)
  then show "x \<noteq> desc_addr (pool s0) d'" "x \<noteq> word_addr (pool s0) d' j" "IsCleanPtr x"
    using assms(3,4) by (simp_all add: app_value_def DESC_CAP_def)
qed

lemma pool_addr_inj:
  assumes "pool_ok p" and "d < pool_size p" "d' < pool_size p" "k < 256" "k' < 256"
    and "descriptors p + of_nat (256 * d + k) = descriptors p + of_nat (256 * d' + k')"
  shows "d = d' \<and> k = k'"
proof -
  have "256 * d + k = 256 * d' + k'"
    using arg_cong [OF assms(6), of unat] unat_pool_addr [OF assms(1,2,4)] unat_pool_addr [OF assms(1,3,5)] by linarith
  then have "(256 * d + k) div 256 = (256 * d' + k') div 256" "(256 * d + k) mod 256 = (256 * d' + k') mod 256"
    by simp_all
  then show ?thesis using assms(4,5) by simp
qed

lemma word_addr_neq_desc:
  assumes "pool_ok p" and "d < pool_size p" "d' < pool_size p" and "i < 4"
  shows "word_addr p d i \<noteq> desc_addr p d'"
  using pool_addr_inj [OF assms(1-3), of "40 + 40 * i" 0] assms(4)
  by (auto simp: word_addr_alt desc_addr_alt add.assoc)

lemma desc_addr_inj:
  assumes "pool_ok p" and "d < pool_size p" "d' < pool_size p"
  shows "desc_addr p d = desc_addr p d' \<longleftrightarrow> d = d'"
  using pool_addr_inj [OF assms, of 0 0] by (auto simp: desc_addr_alt)

lemma word_addr_inj:
  assumes "pool_ok p" and "d < pool_size p" "d' < pool_size p" and "i < 4" "j < 4"
  shows "word_addr p d i = word_addr p d' j \<longleftrightarrow> d = d' \<and> i = j"
  using pool_addr_inj [OF assms(1-3), of "40 + 40 * i" "40 + 40 * j"] assms(4,5)
  by (auto simp: word_addr_alt add.assoc)

section \<open>The words of the interrupted operation\<close>

lemma undoable_upd:
  assumes "op_ctx s0 d m0" and "undoable s0 d m0 m" and "tgt s0 d j"
  shows "undoable s0 d m0 (m(address (wrd s0 d j) := m0 (address (wrd s0 d j))))"
  unfolding undoable_def
proof (intro conjI allI impI)
  let ?m = "m(address (wrd s0 d j) := m0 (address (wrd s0 d j)))"
  show "frame s0 d m0 ?m" using assms(2,3) by (auto simp: undoable_def intro: frame_update)
  fix i assume i: "tgt s0 d i"
  show "?m (address (wrd s0 d i)) = m0 (address (wrd s0 d i)) \<or> matches s0 d m0 i \<and>
      ?m (address (wrd s0 d i)) \<in> {cptr s0 d i, dptr s0 d, dptr_dirty s0 d, old_value (wrd s0 d i) OR kDirtyFlag}"
    using assms(2) i upd_other_target [OF assms(1,3) i, of m] by (cases "j = i") (auto simp: undoable_def)
qed

lemma undo_word_spec:
  assumes ctx: "op_ctx s0 d m0" and u: "undoable s0 d m0 m" and j: "j < d_count (descs s0 d)"
    and C: "C m st" "\<And>m. undoable s0 d m0 m \<Longrightarrow> C m st"
    and Q: "\<And>m'. undoable s0 d m0 m' \<Longrightarrow> (\<forall>i. i \<noteq> j \<longrightarrow> tgt s0 d i \<longrightarrow> m' (address (wrd s0 d i)) = m (address (wrd s0 d i))) \<Longrightarrow>
       (tgt s0 d j \<Longrightarrow> m' (address (wrd s0 d j)) \<in> {m0 (address (wrd s0 d j)), m0 (address (wrd s0 d j)) OR kDirtyFlag}) \<Longrightarrow> Q () m' st"
  shows "wpo s0 d (undo_word 0 d j) Q C m st"
proof (cases "tgt s0 d j")
  case False
  then have a: "address (wrd s0 d j) = kAllocNullAddress" using j by (simp add: tgt_def)
  have "Q () m st" using Q [OF u] False by simp
  then show ?thesis
    unfolding undo_word_def by - (rule wpo_steps | simp add: wrd_def [symmetric] a wpo_mret)+
next
  case t: True
  note facts = op_ctxD(1,2) [OF ctx] and j4 = op_ctxD(9) [OF ctx t]
  have a: "address (wrd s0 d j) \<noteq> kAllocNullAddress" using t by (simp add: tgt_def)
  define x where "x = m (address (wrd s0 d j))"
  have x: "x = m0 (address (wrd s0 d j)) \<or> matches s0 d m0 j \<and>
      x \<in> {cptr s0 d j, dptr s0 d, dptr_dirty s0 d, old_value (wrd s0 d j) OR kDirtyFlag}"
    using u t by (simp add: undoable_def x_def)
  note app = op_ctx_app [OF ctx t facts(2) j4]
  let ?hit = "CleanPtr x = desc_addr (pool s0) d \<or> CleanPtr x = word_addr (pool s0) d j"
  show ?thesis
  proof (cases ?hit)
    case True
    then have o: "old_value (wrd s0 d j) = m0 (address (wrd s0 d j))"
      using x app [of x] app [of "old_value (wrd s0 d j)"] by (auto simp: matches_def)
    have q: "Q () (m(address (wrd s0 d j) := old_value (wrd s0 d j))) st"
      using undoable_upd [OF ctx u t] upd_other_target [OF ctx t, of _ m] by (intro Q) (auto simp: o)
    show ?thesis
      unfolding undo_word_def
      by (rule wpo_steps wpo_mwhen wpo_set_mem wpo_PersistAddress facts j4
          | use True in \<open>simp add: wrd_def [symmetric] a x_def C(1) q\<close>)+
  next
    case False
    then have n: "x \<notin> {cptr s0 d j, dptr s0 d, dptr_dirty s0 d}"
      using facts j4 by (auto simp: cptr_def dptr_def dptr_dirty_def)
    have q: "Q () m st" using x n by (intro Q [OF u]) (auto simp: matches_def x_def)
    then show ?thesis
      using False unfolding undo_word_def x_def
      by - (rule wpo_steps | simp add: wrd_def [symmetric] a mwhen_def wpo_mret)+
  qed
qed

lemma redo_word_spec:
  assumes ctx: "op_ctx s0 d m0" and u: "rolling_forward s0 d m0 m" and j: "j < d_count (descs s0 d)"
    and C: "C m st"
    and Q: "\<And>m'. rolling_forward s0 d m0 m' \<Longrightarrow> (\<forall>i. i \<noteq> j \<longrightarrow> tgt s0 d i \<longrightarrow> m' (address (wrd s0 d i)) = m (address (wrd s0 d i))) \<Longrightarrow>
       (tgt s0 d j \<Longrightarrow> m' (address (wrd s0 d j)) \<in> {new_value (wrd s0 d j), new_value (wrd s0 d j) OR kDirtyFlag}) \<Longrightarrow> Q () m' st"
  shows "wpo s0 d (redo_word 0 d j) Q C m st"
proof (cases "tgt s0 d j")
  case False
  then have a: "address (wrd s0 d j) = kAllocNullAddress" using j by (simp add: tgt_def)
  have "Q () m st" using Q [OF u] False by simp
  then show ?thesis
    unfolding redo_word_def by - (rule wpo_steps | simp add: wrd_def [symmetric] a wpo_mret)+
next
  case t: True
  note facts = op_ctxD(1,2) [OF ctx] and j4 = op_ctxD(9) [OF ctx t]
  have a: "address (wrd s0 d j) \<noteq> kAllocNullAddress" using t by (simp add: tgt_def)
  define x where "x = m (address (wrd s0 d j))"
  have x: "x \<in> {dptr s0 d, dptr_dirty s0 d, new_value (wrd s0 d j) OR kDirtyFlag, new_value (wrd s0 d j)}"
    using u t by (simp add: rolling_forward_def x_def)
  note app = op_ctx_app [OF ctx t facts(2) j4, of "new_value (wrd s0 d j)", simplified]
  have w: "CleanPtr x \<noteq> word_addr (pool s0) d j"
    using x app facts word_addr_neq_desc [OF facts facts(2) j4] by (auto simp: dptr_def dptr_dirty_def)
  show ?thesis
  proof (cases "CleanPtr x = desc_addr (pool s0) d")
    case True
    have q: "Q () (m(address (wrd s0 d j) := new_value (wrd s0 d j))) st"
      using rolling_forward_upd [OF ctx u t] upd_other_target [OF ctx t, of _ m] by (intro Q) auto
    show ?thesis
      unfolding redo_word_def
      by (rule wpo_steps wpo_mwhen wpo_mcheck wpo_set_mem wpo_PersistAddress facts j4
          | use True w in \<open>simp add: wrd_def [symmetric] a x_def C q\<close>)+
  next
    case False
    then have n: "x \<notin> {dptr s0 d, dptr_dirty s0 d}"
      using facts j4 by (auto simp: dptr_def dptr_dirty_def)
    have q: "Q () m st" using x n by (intro Q [OF u]) (auto simp: x_def)
    then show ?thesis
      using False w unfolding redo_word_def x_def
      by - (rule wpo_steps wpo_mcheck | simp add: wrd_def [symmetric] a mwhen_def wpo_mret)+
  qed
qed

text \<open>The loops over the words of the interrupted operation.\<close>

lemma undo_loop:
  assumes ctx: "op_ctx s0 d m0" and u: "undoable s0 d m0 m"
    and C: "\<And>m. undoable s0 d m0 m \<Longrightarrow> C m st"
    and Q: "\<And>m. settled s0 d m0 False m \<Longrightarrow> undoable s0 d m0 m \<Longrightarrow> Q () m st"
  shows "wpo s0 d (mfor (undo_word 0 d) [0..<d_count (descs s0 d)]) Q C m st"
proof (rule wpo_mfor [where I = "\<lambda>j m st'. st' = st \<and> undoable s0 d m0 m \<and>
      (\<forall>i < j. tgt s0 d i \<longrightarrow> m (address (wrd s0 d i)) \<in> {m0 (address (wrd s0 d i)), m0 (address (wrd s0 d i)) OR kDirtyFlag})"])
  let ?I = "\<lambda>j m st'. st' = st \<and> undoable s0 d m0 m \<and>
      (\<forall>i < j. tgt s0 d i \<longrightarrow> m (address (wrd s0 d i)) \<in> {m0 (address (wrd s0 d i)), m0 (address (wrd s0 d i)) OR kDirtyFlag})"
  fix j m st' assume j: "j < length [0..<d_count (descs s0 d)]" and I: "?I j m st'"
  have u: "undoable s0 d m0 m" and j': "j < d_count (descs s0 d)" using I j by simp_all
  have "wpo s0 d (undo_word 0 d j) (\<lambda>_. ?I (Suc j)) C m st"
  proof (rule undo_word_spec [where C = C and m = m, OF ctx u j' C [OF u] C])
    fix m' assume m': "undoable s0 d m0 m'"
      "\<forall>i. i \<noteq> j \<longrightarrow> tgt s0 d i \<longrightarrow> m' (address (wrd s0 d i)) = m (address (wrd s0 d i))"
      "tgt s0 d j \<Longrightarrow> m' (address (wrd s0 d j)) \<in> {m0 (address (wrd s0 d j)), m0 (address (wrd s0 d j)) OR kDirtyFlag}"
    show "?I (Suc j) m' st"
    proof (intro conjI allI impI refl m'(1))
      fix i assume "i < Suc j" "tgt s0 d i"
      then show "m' (address (wrd s0 d i)) \<in> {m0 (address (wrd s0 d i)), m0 (address (wrd s0 d i)) OR kDirtyFlag}"
        using m'(2,3) I by (cases "i = j") auto
    qed
  qed
  then show "wpo s0 d (undo_word 0 d ([0..<d_count (descs s0 d)] ! j)) (\<lambda>_. ?I (Suc j)) C m st'"
    using j I by simp
next
  fix m st' assume "st' = st \<and> undoable s0 d m0 m \<and> (\<forall>i < length [0..<d_count (descs s0 d)]. tgt s0 d i \<longrightarrow>
      m (address (wrd s0 d i)) \<in> {m0 (address (wrd s0 d i)), m0 (address (wrd s0 d i)) OR kDirtyFlag})"
  then show "Q () m st'" by (auto intro!: Q simp: settled_def undoable_def tgt_def Let_def)
qed (use u in simp)

lemma redo_loop:
  assumes ctx: "op_ctx s0 d m0" and u: "rolling_forward s0 d m0 m"
    and C: "\<And>m. rolling_forward s0 d m0 m \<Longrightarrow> C m st"
    and Q: "\<And>m. settled s0 d m0 True m \<Longrightarrow> rolling_forward s0 d m0 m \<Longrightarrow> Q () m st"
  shows "wpo s0 d (mfor (redo_word 0 d) [0..<d_count (descs s0 d)]) Q C m st"
proof (rule wpo_mfor [where I = "\<lambda>j m st'. st' = st \<and> rolling_forward s0 d m0 m \<and>
      (\<forall>i < j. tgt s0 d i \<longrightarrow> m (address (wrd s0 d i)) \<in> {new_value (wrd s0 d i), new_value (wrd s0 d i) OR kDirtyFlag})"])
  let ?I = "\<lambda>j m st'. st' = st \<and> rolling_forward s0 d m0 m \<and>
      (\<forall>i < j. tgt s0 d i \<longrightarrow> m (address (wrd s0 d i)) \<in> {new_value (wrd s0 d i), new_value (wrd s0 d i) OR kDirtyFlag})"
  fix j m st' assume j: "j < length [0..<d_count (descs s0 d)]" and I: "?I j m st'"
  have u: "rolling_forward s0 d m0 m" and j': "j < d_count (descs s0 d)" using I j by simp_all
  have "wpo s0 d (redo_word 0 d j) (\<lambda>_. ?I (Suc j)) C m st"
  proof (rule redo_word_spec [where C = C and m = m, OF ctx u j' C [OF u]])
    fix m' assume m': "rolling_forward s0 d m0 m'"
      "\<forall>i. i \<noteq> j \<longrightarrow> tgt s0 d i \<longrightarrow> m' (address (wrd s0 d i)) = m (address (wrd s0 d i))"
      "tgt s0 d j \<Longrightarrow> m' (address (wrd s0 d j)) \<in> {new_value (wrd s0 d j), new_value (wrd s0 d j) OR kDirtyFlag}"
    show "?I (Suc j) m' st"
    proof (intro conjI allI impI refl m'(1))
      fix i assume "i < Suc j" "tgt s0 d i"
      then show "m' (address (wrd s0 d i)) \<in> {new_value (wrd s0 d i), new_value (wrd s0 d i) OR kDirtyFlag}"
        using m'(2,3) I by (cases "i = j") auto
    qed
  qed
  then show "wpo s0 d (redo_word 0 d ([0..<d_count (descs s0 d)] ! j)) (\<lambda>_. ?I (Suc j)) C m st'"
    using j I by simp
next
  fix m st' assume "st' = st \<and> rolling_forward s0 d m0 m \<and> (\<forall>i < length [0..<d_count (descs s0 d)]. tgt s0 d i \<longrightarrow>
      m (address (wrd s0 d i)) \<in> {new_value (wrd s0 d i), new_value (wrd s0 d i) OR kDirtyFlag})"
  then show "Q () m st'" by (auto intro!: Q simp: settled_def rolling_forward_def tgt_def Let_def)
qed (use u in simp)

section \<open>The other descriptors\<close>

text \<open>No other operation is in progress: the other descriptors have a valid status and name words that held
  application values.\<close>

definition quiet :: "mw_world \<Rightarrow> nat \<Rightarrow> (u64 \<Rightarrow> u64) \<Rightarrow> bool" where
  "quiet s0 d m0 \<longleftrightarrow> (\<forall>d' < pool_size (pool s0). d' \<noteq> d \<longrightarrow>
     d_status (descs s0 d') AND NOT kStatusDirtyFlag \<in> {kStatusFinished, kStatusFailed, kStatusSucceeded, kStatusUndecided} \<and>
     d_count (descs s0 d') \<le> DESC_CAP \<and>
     (\<forall>i < d_count (descs s0 d'). address (wrd s0 d' i) \<noteq> kAllocNullAddress \<longrightarrow>
        app_value (pool s0) (m0 (address (wrd s0 d' i)))))"

lemma CleanPtr_and_not_dirty [simp]: "CleanPtr (v AND NOT kDirtyFlag) = CleanPtr v"
  by (rule bit_eqI) (auto simp: bit_CleanPtr bit_and_iff bit_not_iff)

lemma recoverable_value:
  assumes ctx: "op_ctx s0 d m0" and r: "recoverable s0 d m0 m st" and a: "app_value (pool s0) (m0 a)"
  shows "app_value (pool s0) (CleanPtr (m a)) \<or> CleanPtr (m a) = desc_addr (pool s0) d \<or>
    (\<exists>i < 4. CleanPtr (m a) = word_addr (pool s0) d i)"
proof (cases "\<exists>i. tgt s0 d i \<and> a = address (wrd s0 d i)")
  case False
  then have "m a = m0 a"
    using r by (auto simp: recoverable_def undoable_def rolling_forward_def frame_def split: if_splits)
  then show ?thesis using a by (auto simp: app_value_def)
next
  case True
  then obtain i where t: "tgt s0 d i" and ai: "a = address (wrd s0 d i)" by blast
  have v: "app_value (pool s0) x"
    if "x \<in> {old_value (wrd s0 d i), new_value (wrd s0 d i), m0 a}" for x
    using ctx t that ai by (auto simp: op_ctx_def tgt_def)
  have cl: "x \<in> {old_value (wrd s0 d i), new_value (wrd s0 d i), m0 a} \<Longrightarrow> IsCleanPtr x" for x
    using v by (auto simp: app_value_def)
  have "m a \<in> {m0 a, cptr s0 d i, dptr s0 d, dptr_dirty s0 d, old_value (wrd s0 d i) OR kDirtyFlag,
      new_value (wrd s0 d i) OR kDirtyFlag, new_value (wrd s0 d i)}"
    using r t ai by (auto simp: recoverable_def undoable_def rolling_forward_def split: if_splits)
  then show ?thesis
    using v cl op_ctxD(1,2) [OF ctx] op_ctxD(9) [OF ctx t]
    by (auto simp: cptr_def dptr_def dptr_dirty_def)
qed

lemma other_value:
  assumes ctx: "op_ctx s0 d m0" and r: "recoverable s0 d m0 m st" and a: "app_value (pool s0) (m0 a)"
    and d': "d' < pool_size (pool s0)" "d' \<noteq> d"
  shows "CleanPtr (m a) \<noteq> desc_addr (pool s0) d'" and "i < 4 \<Longrightarrow> CleanPtr (m a) \<noteq> word_addr (pool s0) d' i"
proof -
  note p = op_ctxD(1,2) [OF ctx]
  from recoverable_value [OF ctx r a] show "CleanPtr (m a) \<noteq> desc_addr (pool s0) d'"
    using d' desc_addr_inj [OF p(1) p(2) d'(1)] word_addr_neq_desc [OF p(1) p(2) d'(1)] by (auto simp: app_value_def)
  from recoverable_value [OF ctx r a] show "i < 4 \<Longrightarrow> CleanPtr (m a) \<noteq> word_addr (pool s0) d' i"
    using d' word_addr_inj [OF p(1) p(2) d'(1)] word_addr_neq_desc [OF p(1) d'(1) p(2)]
    by (auto simp: app_value_def DESC_CAP_def dest: sym)
qed

lemma wpo_check_word:
  assumes "address (wrd s0 d' j) \<noteq> kAllocNullAddress \<Longrightarrow> CleanPtr (m (address (wrd s0 d' j))) \<noteq> desc_addr (pool s0) d'"
    and "IsCleanPtr (desc_addr (pool s0) d')" and "Q () m st"
  shows "wpo s0 d (check_word d' j) Q C m st"
proof -
  have n: "m (address (wrd s0 d' j)) AND NOT kDirtyFlag \<noteq> desc_addr (pool s0) d' OR f"
    if "address (wrd s0 d' j) \<noteq> kAllocNullAddress" "f = kMwCASFlag \<or> f = kCondCASFlag" for f
    using assms(1) [OF that(1)] that(2) assms(2) CleanPtr_and_not_dirty CleanPtr_or_flags(2,3) by metis
  show ?thesis
    unfolding check_word_def
    by (cases "address (wrd s0 d' j) = kAllocNullAddress")
      ((rule wpo_steps wpo_mcheck | use n assms(3) in \<open>simp add: wrd_def [symmetric] wpo_mret\<close>)+)
qed

lemma wpo_mfor_id:
  assumes "\<And>x. x \<in> set xs \<Longrightarrow> wpo s0 d (f x) (\<lambda>_ m' st'. m' = m \<and> st' = st) C m st" and "Q () m st"
  shows "wpo s0 d (mfor f xs) Q C m st"
  by (rule wpo_mfor [where I = "\<lambda>_ m' st'. m' = m \<and> st' = st"]) (use assms in auto)

lemma wpo_recover_desc:
  assumes D: "\<And>b v. descs (opst s0 d m st b v) d' = D"
    and s: "d_status D AND NOT kStatusDirtyFlag \<in> {kStatusFinished, kStatusFailed, kStatusSucceeded, kStatusUndecided}"
    and C: "C m st"
    and rest: "wpo s0 d (if d_status D AND NOT kStatusDirtyFlag = kStatusFinished then mret () else
      mbind (if d_status D AND NOT kStatusDirtyFlag = kStatusUndecided \<or> d_status D AND NOT kStatusDirtyFlag = kStatusFailed
       then mfor (undo_word 0 d') [0..<d_count D]
       else mbind (mcheck (d_status D AND NOT kStatusDirtyFlag = kStatusSucceeded) (RawCheck ''invalid status''))
         (\<lambda>_. mfor (redo_word 0 d') [0..<d_count D]))
      (\<lambda>_. mfor (check_word d') [0..<d_count D])) Q C m st"
  shows "wpo s0 d (recover_desc 0 d') Q C m st"
proof -
  have 1: "wpo s0 d (mget (\<lambda>s. descs s d')) (\<lambda>D. wpo s0 d (let status = d_status D AND NOT kStatusDirtyFlag in
       if status = kStatusFinished then mret ()
       else
         mbind (if status = kStatusUndecided \<or> status = kStatusFailed then mfor (undo_word 0 d') [0..<d_count D]
                else mbind (mcheck (status = kStatusSucceeded) (RawCheck ''invalid status'')) (\<lambda>_.
                     mfor (redo_word 0 d') [0..<d_count D])) (\<lambda>_.
         mfor (check_word d') [0..<d_count D])) Q C) C m st"
    by (rule wpo_mget) (simp_all only: D Let_def rest)
  have 2: "wpo s0 d (assert_valid_status d') (\<lambda>_ m' st'. m' = m \<and> st' = st) C m st"
    unfolding assert_valid_status_def
    by (rule wpo_mbind, rule wpo_mget, simp only: D, rule wpo_mcheck) (use s in \<open>simp_all add: D\<close>)
  show ?thesis
    unfolding recover_desc_def
    by (rule wpo_mbind, rule wpo_mono [OF 2])
      (auto intro!: wpo_mbind wpo_adjust_words_0 C wpo_mbind [OF 1])
qed

lemma recover_other:
  assumes ctx: "op_ctx s0 d m0" and q: "quiet s0 d m0" and r: "recoverable s0 d m0 m st"
    and d': "d' < pool_size (pool s0)" "d' \<noteq> d" and C: "C m st" and Q: "Q () m st"
  shows "wpo s0 d (recover_desc 0 d') Q C m st"
proof -
  let ?D = "descs s0 d'"
  have D: "descs (opst s0 d m st b v) d' = ?D" for b v using d'(2) by simp
  define sm where "sm = d_status ?D AND NOT kStatusDirtyFlag"
  have s: "sm \<in> {kStatusFinished, kStatusFailed, kStatusSucceeded, kStatusUndecided}" and n: "d_count ?D \<le> 4"
    and a: "i < d_count ?D \<Longrightarrow> address (wrd s0 d' i) \<noteq> kAllocNullAddress \<Longrightarrow>
      app_value (pool s0) (m0 (address (wrd s0 d' i)))" for i
    using q d' by (auto simp: quiet_def sm_def DESC_CAP_def)
  have v: "address (wrd s0 d' i) \<noteq> kAllocNullAddress \<Longrightarrow>
      CleanPtr (m (address (wrd s0 d' i))) \<noteq> desc_addr (pool s0) d' \<and>
      CleanPtr (m (address (wrd s0 d' i))) \<noteq> word_addr (pool s0) d' i" if "i < d_count ?D" for i
    using other_value [OF ctx r a d'] that n by simp
  have undo: "wpo s0 d (undo_word 0 d' i) (\<lambda>_ m' st'. m' = m \<and> st' = st) C m st" if "i < d_count ?D" for i
    unfolding undo_word_def
    by (cases "address (wrd s0 d' i) = kAllocNullAddress")
      ((rule wpo_steps | use v [OF that] in \<open>simp add: wrd_def [symmetric] wpo_mret mwhen_def\<close>)+)
  have redo: "wpo s0 d (redo_word 0 d' i) (\<lambda>_ m' st'. m' = m \<and> st' = st) C m st" if "i < d_count ?D" for i
    unfolding redo_word_def
    by (cases "address (wrd s0 d' i) = kAllocNullAddress")
      ((rule wpo_steps wpo_mcheck | use v [OF that] in \<open>simp add: wrd_def [symmetric] wpo_mret mwhen_def\<close>)+)
  have check: "wpo s0 d (mfor (check_word d') [0..<d_count ?D]) Q C m st"
    by (rule wpo_mfor_id [OF wpo_check_word]) (use v op_ctxD(1,2) [OF ctx] d' Q in auto)
  have body: "wpo s0 d (if sm = kStatusUndecided \<or> sm = kStatusFailed then mfor (undo_word 0 d') [0..<d_count ?D]
       else mbind (mcheck (sm = kStatusSucceeded) (RawCheck ''invalid status'')) (\<lambda>_. mfor (redo_word 0 d') [0..<d_count ?D]))
      (\<lambda>_. wpo s0 d (mfor (check_word d') [0..<d_count ?D]) Q C) C m st" if "sm \<noteq> kStatusFinished"
  proof (cases "sm = kStatusUndecided \<or> sm = kStatusFailed")
    case True
    have "wpo s0 d (mfor (undo_word 0 d') [0..<d_count ?D]) (\<lambda>_. wpo s0 d (mfor (check_word d') [0..<d_count ?D]) Q C) C m st"
      by (rule wpo_mfor_id) (use undo check in auto)
    then show ?thesis using True by simp
  next
    case False
    then have "sm = kStatusSucceeded" using s that by auto
    moreover have "wpo s0 d (mfor (redo_word 0 d') [0..<d_count ?D]) (\<lambda>_. wpo s0 d (mfor (check_word d') [0..<d_count ?D]) Q C) C m st"
      by (rule wpo_mfor_id) (use redo check in auto)
    ultimately show ?thesis using False by (auto intro: wpo_mbind wpo_mcheck)
  qed
  have rest: "wpo s0 d (if sm = kStatusFinished then mret () else
      mbind (if sm = kStatusUndecided \<or> sm = kStatusFailed then mfor (undo_word 0 d') [0..<d_count ?D]
       else mbind (mcheck (sm = kStatusSucceeded) (RawCheck ''invalid status'')) (\<lambda>_. mfor (redo_word 0 d') [0..<d_count ?D]))
      (\<lambda>_. mfor (check_word d') [0..<d_count ?D])) Q C m st"
    using body Q by (auto intro: wpo_mret wpo_mbind)
  show ?thesis
    using wpo_recover_desc [where C = C and m = m, OF D _ C] s rest unfolding sm_def by blast
qed

section \<open>All descriptors\<close>

definition decided_success :: "u32 \<Rightarrow> bool" where
  "decided_success st \<longleftrightarrow> st AND NOT kStatusDirtyFlag = kStatusSucceeded"

lemma settled_value:
  assumes ctx: "op_ctx s0 d m0" and s: "settled s0 d m0 r m" and t: "tgt s0 d i"
  shows "CleanPtr (m (address (wrd s0 d i))) \<noteq> desc_addr (pool s0) d"
proof -
  have "app_value (pool s0) (if r then new_value (wrd s0 d i) else m0 (address (wrd s0 d i)))"
    using ctx t by (auto simp: op_ctx_def tgt_def)
  then show ?thesis
    using s t op_ctxD(2) [OF ctx] by (auto simp: settled_def Let_def app_value_def)
qed

lemma recover_self:
  assumes ctx: "op_ctx s0 d m0" and r: "recoverable s0 d m0 m st"
    and C: "\<And>m. recoverable s0 d m0 m st \<Longrightarrow> C m st"
    and Q: "\<And>m. recoverable s0 d m0 m st \<Longrightarrow> settled s0 d m0 (decided_success st) m \<Longrightarrow> Q () m st"
  shows "wpo s0 d (recover_desc 0 d) Q C m st"
proof -
  let ?D = "(descs s0 d)\<lparr>d_status := st\<rparr>" and ?n = "d_count (descs s0 d)"
  define sm where "sm = st AND NOT kStatusDirtyFlag"
  have check: "wpo s0 d (mfor (check_word d) [0..<?n]) Q C m st"
    if "recoverable s0 d m0 m st" "settled s0 d m0 (decided_success st) m" for m
  proof (rule wpo_mfor_id)
    fix i assume "i \<in> set [0..<?n]"
    then show "wpo s0 d (check_word d i) (\<lambda>_ m' st'. m' = m \<and> st' = st) C m st"
      using settled_value [OF ctx that(2), of i] op_ctxD(1,2) [OF ctx]
      by (intro wpo_check_word) (auto simp: tgt_def)
  qed (rule Q [OF that])
  have "wpo s0 d (if sm = kStatusFinished then mret () else
      mbind (if sm = kStatusUndecided \<or> sm = kStatusFailed then mfor (undo_word 0 d) [0..<?n]
       else mbind (mcheck (sm = kStatusSucceeded) (RawCheck ''invalid status'')) (\<lambda>_. mfor (redo_word 0 d) [0..<?n]))
      (\<lambda>_. mfor (check_word d) [0..<?n])) Q C m st"
  proof (cases "sm = kStatusFinished")
    case True
    then have m: "m = m0" and dec: "\<not> decided_success st"
      using r by (auto simp: recoverable_def sm_def decided_success_def status_defs split: if_splits)
    have "settled s0 d m0 (decided_success st) m" using dec by (simp add: settled_def m frame_def Let_def)
    then show ?thesis using True Q [OF r] by (simp add: wpo_mret)
  next
    case nf: False
    show ?thesis
  proof (cases "sm = kStatusSucceeded")
    case True
    have rf: "recoverable s0 d m0 m' st \<longleftrightarrow> rolling_forward s0 d m0 m'" for m'
      using True by (simp add: recoverable_def sm_def)
    have dec: "decided_success st" using True by (simp add: decided_success_def sm_def)
    have ne: "sm \<noteq> kStatusFinished" "sm \<noteq> kStatusUndecided" "sm \<noteq> kStatusFailed"
      using True by (simp_all add: status_defs)
    have "wpo s0 d (mfor (redo_word 0 d) [0..<?n]) (\<lambda>_. wpo s0 d (mfor (check_word d) [0..<?n]) Q C) C m st"
      using r C check by (intro redo_loop [OF ctx]) (simp_all add: rf dec)
    then show ?thesis using ne True by (auto intro!: wpo_mbind wpo_mcheck)
  next
    case False
    then have u: "undoable s0 d m0 m" and sm: "sm \<in> {kStatusUndecided, kStatusFailed}"
      using r nf by (auto simp: recoverable_def sm_def)
    have ru: "undoable s0 d m0 m' \<Longrightarrow> recoverable s0 d m0 m' st" for m'
      using False sm nf by (auto simp: recoverable_def sm_def)
    have dec: "\<not> decided_success st" using False by (simp add: decided_success_def sm_def)
    have ne: "sm \<noteq> kStatusFinished" using sm by (auto simp: status_defs)
    have "wpo s0 d (mfor (undo_word 0 d) [0..<?n]) (\<lambda>_. wpo s0 d (mfor (check_word d) [0..<?n]) Q C) C m st"
      using C check ru by (intro undo_loop [OF ctx u]) (simp_all add: dec)
    then show ?thesis using ne sm by (auto intro!: wpo_mbind)
  qed
  qed
  moreover have "d_status ?D = st" "d_count ?D = ?n" by simp_all
  ultimately have body: "wpo s0 d (if d_status ?D AND NOT kStatusDirtyFlag = kStatusFinished then mret () else
      mbind (if d_status ?D AND NOT kStatusDirtyFlag = kStatusUndecided \<or> d_status ?D AND NOT kStatusDirtyFlag = kStatusFailed
       then mfor (undo_word 0 d) [0..<d_count ?D]
       else mbind (mcheck (d_status ?D AND NOT kStatusDirtyFlag = kStatusSucceeded) (RawCheck ''invalid status''))
         (\<lambda>_. mfor (redo_word 0 d) [0..<d_count ?D]))
      (\<lambda>_. mfor (check_word d) [0..<d_count ?D])) Q C m st"
    by (simp only: sm_def)
  have "d_status ?D AND NOT kStatusDirtyFlag \<in> {kStatusFinished, kStatusFailed, kStatusSucceeded, kStatusUndecided}"
    using r by (auto simp: recoverable_def split: if_splits)
  moreover have "descs (opst s0 d m st b v) d = ?D" for b v by (simp add: opst_def)
  ultimately show ?thesis by (intro wpo_recover_desc [where D = ?D and C = C, OF _ _ _ body] C r)
qed

lemma recoverable_valid:
  assumes "recoverable s0 d m0 m st"
  shows "st \<noteq> kStatusInvalid"
  using assms by (auto simp: recoverable_def status_defs kStatusDirtyFlag_def split: if_splits)

lemma recover_all_spec:
  assumes ctx: "op_ctx s0 d m0" and q: "quiet s0 d m0"
    and Q: "\<And>m. recoverable s0 d m0 m st \<Longrightarrow> settled s0 d m0 (decided_success st) m \<Longrightarrow> Q () m st"
    and C: "\<And>m. recoverable s0 d m0 m st \<Longrightarrow> C m st"
  shows "\<forall>d' \<in> set ds. d' < pool_size (pool s0) \<Longrightarrow> recoverable s0 d m0 m st \<Longrightarrow>
    d \<in> set ds \<or> settled s0 d m0 (decided_success st) m \<Longrightarrow> wpo s0 d (recover_all 0 ds) Q C m st"
proof (induction ds arbitrary: m)
  case Nil
  then show ?case using Q by (simp add: wpo_mret)
next
  case (Cons d' ds)
  have step: "wpo s0 d (recover_desc 0 d') (\<lambda>_. wpo s0 d (recover_all 0 ds) Q C) C m st"
  proof (cases "d' = d")
    case True
    show ?thesis
      unfolding True
      by (rule recover_self [OF ctx Cons.prems(2)]) (use C Cons.IH Cons.prems(1) in auto)
  next
    case False
    then have "d \<in> set ds \<or> settled s0 d m0 (decided_success st) m" using Cons.prems(3) by auto
    with Cons.IH [OF _ Cons.prems(2) this] False show ?thesis
      using Cons.prems(1,2) C by (intro recover_other [OF ctx q Cons.prems(2)]) auto
  qed
  have v: "d_status (descs (opst s0 d m st b v) d') \<noteq> kStatusInvalid"
    and e: "d_status (descs (opst s0 d m st b v) d') = d_status (descs (opst s0 d m st None (nv s0)) d')" for b v
  proof -
    show "d_status (descs (opst s0 d m st b v) d') \<noteq> kStatusInvalid"
    proof (cases "d' = d")
      case True
      then show ?thesis using recoverable_valid [OF Cons.prems(2)] by simp
    next
      case False
      then show ?thesis
        using q Cons.prems(1) by (auto simp: quiet_def status_defs kStatusDirtyFlag_def)
    qed
    show "d_status (descs (opst s0 d m st b v) d') = d_status (descs (opst s0 d m st None (nv s0)) d')"
      by (cases "d' = d") simp_all
  qed
  show ?case
    unfolding recover_all.simps
    by (rule wpo_mbind, rule wpo_mget) (use e v step in \<open>simp_all add: wpo_mbind\<close>)
qed

end
