(* ===== verification/PoolInit.thy ===== *)
theory PoolInit
  imports MwAtomic DescPool
begin

text \<open>
  Initialization of the descriptor pool: the rounding of the sizes the constructor does, and the free lists
  that \<open>InitDescriptors\<close> builds, for a new pool and after recovery.
\<close>

section \<open>Rounding\<close>

lemma round_pool_size_spec:
  "requested \<le> 2 ^ (n + k) \<Longrightarrow> n + k \<le> 31 \<Longrightarrow> (k = 0 \<or> 2 ^ (k - 1) < requested) \<Longrightarrow>
   \<exists>j \<le> n. round_pool_size (Suc n) requested (2 ^ k) = Inr (2 ^ (k + j)) \<and> requested \<le> 2 ^ (k + j) \<and>
     (k + j = 0 \<or> 2 ^ (k + j - 1) < requested)"
proof (induction n arbitrary: k)
  case 0
  then show ?case by simp
next
  case (Suc n)
  show ?case
  proof (cases "requested \<le> 2 ^ k")
    case True
    then show ?thesis using Suc.prems(3) by (intro exI [of _ 0]) auto
  next
    case False
    have "(2::nat) * 2 ^ k < 2 ^ 32" using Suc.prems(2) power_strict_increasing [of "Suc k" 32 "2::nat"] by simp
    then have e: "(2::nat) * 2 ^ k mod 2 ^ 32 = 2 ^ Suc k" by simp
    from Suc.IH [of "Suc k"] Suc.prems False obtain j where j: "j \<le> n"
      "round_pool_size (Suc n) requested (2 ^ Suc k) = Inr (2 ^ (Suc k + j))" "requested \<le> 2 ^ (Suc k + j)"
      "2 ^ (Suc k + j - 1) < requested" by auto
    have "round_pool_size (Suc (Suc n)) requested (2 ^ k) = round_pool_size (Suc n) requested (2 ^ Suc k)"
      using False e by (simp only: round_pool_size.simps(2)) simp
    then show ?thesis using j by (intro exI [of _ "Suc j"]) (simp del: round_pool_size.simps)
  qed
qed

lemma round_pool_size_more: "round_pool_size n r z = Inr x \<Longrightarrow> n \<le> n' \<Longrightarrow> round_pool_size n' r z = Inr x"
proof (induction n arbitrary: z n')
  case (Suc n)
  then show ?case by (cases n') (auto split: if_splits)
qed simp

lemma round_partitions_spec:
  "(k = 0 \<or> 2 ^ (k - 1) < requested) \<Longrightarrow> \<exists>j \<le> n. round_partitions n requested (2 ^ k) = 2 ^ (k + j) \<and>
     (requested \<le> 2 ^ (k + j) \<or> j = n) \<and> (k + j = 0 \<or> 2 ^ (k + j - 1) < requested)"
proof (induction n arbitrary: k)
  case (Suc n)
  show ?case
  proof (cases "requested \<le> 2 ^ k")
    case True
    then show ?thesis using Suc.prems by (intro exI [of _ 0]) auto
  next
    case False
    then obtain j where "j \<le> n" "round_partitions n requested (2 ^ Suc k) = 2 ^ (Suc k + j)"
      "requested \<le> 2 ^ (Suc k + j) \<or> j = n" "2 ^ (Suc k + j - 1) < requested" using Suc.IH [of "Suc k"] by auto
    then show ?thesis using False by (intro exI [of _ "Suc j"]) auto
  qed
qed auto

section \<open>Free lists\<close>

fun chain :: "mw_world \<Rightarrow> u64 \<Rightarrow> nat list \<Rightarrow> bool" where
  "chain s a [] \<longleftrightarrow> a = 0"
| "chain s a (d # ds) \<longleftrightarrow> a = desc_addr (pool s) d \<and> chain s (next_ptr (descs s d)) ds"

lemma chain_cong:
  "descriptors (pool s') = descriptors (pool s) \<Longrightarrow>
   (\<forall>d \<in> set ds. next_ptr (descs s' d) = next_ptr (descs s d)) \<Longrightarrow> chain s' a ds = chain s a ds"
  by (induction ds arbitrary: a) (auto simp: desc_addr_def)

definition fresh_desc :: "nat \<Rightarrow> descriptor \<Rightarrow> bool" where
  "fresh_desc i D \<longleftrightarrow> d_status D = kStatusFinished \<and> d_count D = 0 \<and> owner_partition D = i \<and>
     words D = replicate DESC_CAP empty_word"

definition pool_shape :: "desc_pool \<Rightarrow> bool" where
  "pool_shape p \<longleftrightarrow> pool_ok p \<and> 0 < partition_count p \<and> partition_count p < pool_size p \<and>
     0 < desc_per_partition p \<and> desc_per_partition p * partition_count p = pool_size p"

text \<open>What initialization does not change.\<close>

definition untouched :: "mw_world \<Rightarrow> mw_world \<Rightarrow> bool" where
  "untouched s0 s \<longleftrightarrow> mem s = mem s0 \<and> nv s = nv s0 \<and> ew s = ew s0 \<and> freed s = freed s0 \<and> mstats s = mstats s0"

text \<open>The descriptors of the first \<open>i\<close> partitions, and the first \<open>j\<close> of the next one, are in place.\<close>

definition init_upto :: "desc_pool \<Rightarrow> mw_world \<Rightarrow> nat \<Rightarrow> nat \<Rightarrow> mw_world \<Rightarrow> bool" where
  "init_upto p s0 i j s \<longleftrightarrow> untouched s0 s \<and>
     (\<exists>t. pool s = p\<lparr>partition_table := t\<rparr> \<and> length t = partition_count p \<and>
        map part_garbage t = map part_garbage (partition_table p)) \<and>
     (\<forall>q < partition_count p. chain s (free_list (the_part s q))
        (if q < i then rev [q * desc_per_partition p ..< Suc q * desc_per_partition p]
         else if q = i then rev [i * desc_per_partition p ..< i * desc_per_partition p + j] else [])) \<and>
     (\<forall>d < i * desc_per_partition p + j. fresh_desc (d div desc_per_partition p) (descs s d))"

lemma init_descriptor_step:
  assumes sh: "pool_shape p" and i: "i < partition_count p" and j: "j < desc_per_partition p"
    and inv: "init_upto p s0 i j s"
  shows "wp (init_descriptor i (i * desc_per_partition p + j)) (\<lambda>_. init_upto p s0 i (Suc j)) (untouched s0) s"
proof -
  let ?dpp = "desc_per_partition p" and ?d = "i * desc_per_partition p + j"
  obtain t where t: "pool s = p\<lparr>partition_table := t\<rparr>" "length t = partition_count p"
    "map part_garbage t = map part_garbage (partition_table p)" using inv by (auto simp: init_upto_def)
  define s1 where "s1 b = set_part i (\<lambda>q. q\<lparr>free_list := desc_addr (pool s) ?d\<rparr>)
    ((upd_desc ?d (\<lambda>D. D\<lparr>owner_partition := i, d_status := kStatusFinished, d_count := 0,
       words := replicate DESC_CAP empty_word, next_ptr := free_list (the_part s i)\<rparr>) s)\<lparr>budget := b\<rparr>)" for b
  have fin: "init_upto p s0 i (Suc j) (s1 b)" for b
    unfolding init_upto_def
  proof (intro conjI allI impI)
    show "untouched s0 (s1 b)" using inv by (simp add: s1_def init_upto_def set_part_def upd_desc_def untouched_def)
    have pg: "map part_garbage (t[i := (t ! i)\<lparr>free_list := x\<rparr>]) = map part_garbage t" for x
      using t(2) i by (intro map_update_same) simp_all
    show "\<exists>t. pool (s1 b) = p\<lparr>partition_table := t\<rparr> \<and> length t = partition_count p \<and>
        map part_garbage t = map part_garbage (partition_table p)"
      by (rule exI [of _ "t[i := (t ! i)\<lparr>free_list := desc_addr (pool s) ?d\<rparr>]"])
        (use t pg in \<open>simp add: s1_def set_part_def upd_desc_def the_part_def\<close>)
    have fl: "free_list (the_part (s1 b) q) = (if q = i then desc_addr (pool s) ?d else free_list (the_part s q))"
      if "q < partition_count p" for q
      using t that by (simp add: s1_def set_part_def the_part_def upd_desc_def)
    have np: "next_ptr (descs (s1 b) d) = (if d = ?d then free_list (the_part s i) else next_ptr (descs s d))" for d
      by (simp add: s1_def set_part_def upd_desc_def)
    have pd: "descriptors (pool (s1 b)) = descriptors (pool s)"
      by (simp add: s1_def set_part_def upd_desc_def)
    show "chain (s1 b) (free_list (the_part (s1 b) q))
        (if q < i then rev [q * ?dpp ..< Suc q * ?dpp]
         else if q = i then rev [i * ?dpp ..< i * ?dpp + Suc j] else [])" if q: "q < partition_count p" for q
    proof -
      have old: "chain s (free_list (the_part s q)) (if q < i then rev [q * ?dpp ..< Suc q * ?dpp]
         else if q = i then rev [i * ?dpp ..< i * ?dpp + j] else [])" using inv q by (simp add: init_upto_def)
      consider "q < i" | "q = i" | "i < q" by linarith
      then show ?thesis
      proof cases
        case 1
        then have "Suc q * ?dpp \<le> i * ?dpp" by (intro mult_le_mono1) simp
        then have "\<forall>d \<in> set (rev [q * ?dpp ..< Suc q * ?dpp]). next_ptr (descs (s1 b) d) = next_ptr (descs s d)"
          by (auto simp: np)
        then show ?thesis using old 1 fl [OF q] chain_cong [OF pd] by simp
      next
        case 2
        have "\<forall>d \<in> set (rev [i * ?dpp ..< i * ?dpp + j]). next_ptr (descs (s1 b) d) = next_ptr (descs s d)"
          by (auto simp: np)
        then have "chain (s1 b) (free_list (the_part s i)) (rev [i * ?dpp ..< i * ?dpp + j])"
          using old 2 chain_cong [OF pd] by simp
        then show ?thesis using 2 fl [OF q] np [of ?d] pd by (simp add: desc_addr_def)
      next
        case 3
        then show ?thesis using old fl [OF q] by simp
      qed
    qed
    show "fresh_desc (d div ?dpp) (descs (s1 b) d)" if d: "d < i * ?dpp + Suc j" for d
    proof (cases "d = ?d")
      case True
      have "?d div ?dpp = i" using j by simp
      then show ?thesis using True by (simp add: s1_def set_part_def upd_desc_def fresh_desc_def)
    next
      case False
      then show ?thesis using inv d by (simp add: s1_def set_part_def upd_desc_def init_upto_def)
    qed
  qed
  have "untouched s0 s" using inv by (simp add: init_upto_def)
  then show ?thesis
    unfolding init_descriptor_def Descriptor_Initialize_def
    by - ((rule wp_rules budget_updates | (simp add: untouched_def upd_desc_def; fail))+,
      use fin in \<open>simp_all add: s1_def set_part_def upd_desc_def the_part_def\<close>)
qed

lemma init_upto_next: "init_upto p s0 i (desc_per_partition p) s \<Longrightarrow> init_upto p s0 (Suc i) 0 s"
  by (auto simp: init_upto_def less_Suc_eq add.commute)

text \<open>What \<open>InitDescriptors\<close> leaves: every descriptor is finished and empty, and every partition's free list
  runs through its descriptors from the last to the first.\<close>

definition pool_ready :: "mw_world \<Rightarrow> bool" where
  "pool_ready s \<longleftrightarrow> length (partition_table (pool s)) = partition_count (pool s) \<and>
     (\<forall>q < partition_count (pool s). chain s (free_list (the_part s q))
        (rev [q * desc_per_partition (pool s) ..< Suc q * desc_per_partition (pool s)])) \<and>
     (\<forall>d < pool_size (pool s). fresh_desc (d div desc_per_partition (pool s)) (descs s d))"

lemma init_upto_ready:
  assumes "pool_shape p" and "init_upto p s0 (partition_count p) 0 s"
  shows "pool_ready s"
  using assms by (auto simp: init_upto_def pool_ready_def pool_shape_def mult.commute)

definition empty_partitions :: "desc_pool \<Rightarrow> bool" where
  "empty_partitions p \<longleftrightarrow> length (partition_table p) = partition_count p \<and>
     (\<forall>q \<in> set (partition_table p). free_list q = 0)"

lemma InitDescriptors_spec:
  assumes sh: "pool_shape (pool s)" and e: "empty_partitions (pool s)"
  shows "wp InitDescriptors
    (\<lambda>_ s'. untouched s s' \<and> pool_ready s' \<and>
       (\<exists>t. pool s' = (pool s)\<lparr>partition_table := t\<rparr> \<and> map part_garbage t = map part_garbage (partition_table (pool s))))
    (untouched s) s"
proof -
  let ?p = "pool s"
  have start: "init_upto ?p s 0 0 (s\<lparr>budget := b, descs := f\<rparr>)" for b f
    using e by (auto simp: init_upto_def untouched_def empty_partitions_def the_part_def
      intro!: exI [of _ "partition_table ?p"])
  have row: "wp (mfor (\<lambda>d. init_descriptor i (i * desc_per_partition ?p + d)) [0..<desc_per_partition ?p])
      (\<lambda>_. init_upto ?p s (Suc i) 0) (untouched s) s'"
    if "i < partition_count ?p" "init_upto ?p s i 0 s'" for i s'
    by (rule wp_mfor [where I = "init_upto ?p s i"])
      (use that init_descriptor_step [OF sh] init_upto_next in auto)
  have all: "wp (mfor (\<lambda>i. mfor (\<lambda>d. init_descriptor i (i * desc_per_partition ?p + d)) [0..<desc_per_partition ?p])
       [0..<partition_count ?p]) (\<lambda>_. init_upto ?p s (partition_count ?p) 0) (untouched s) s'"
    if "init_upto ?p s 0 0 s'" for s'
    by (rule wp_mfor [where I = "\<lambda>i. init_upto ?p s i 0"]) (use that row in auto)
  have run: "wp InitDescriptors (\<lambda>_. init_upto ?p s (partition_count ?p) 0) (untouched s) s"
    unfolding InitDescriptors_def
    by (rule wp_rules | rule all | use sh start in \<open>simp add: pool_shape_def pool_ok_def untouched_def; fail\<close>)+
  show ?thesis
    by (rule wp_mono [OF run]) (use init_upto_ready [OF sh] in \<open>auto simp: init_upto_def\<close>)
qed

section \<open>The constructor\<close>

definition fresh_garbage :: "nat \<Rightarrow> nat \<Rightarrow> gl_callback garbage_list" where
  "fresh_garbage m dpp = \<lparr>gl_epoch_manager = Some m, gl_tail = 0, gl_item_count = of_nat dpp,
     gl_items = replicate dpp empty_item\<rparr>"

lemma new_partitions_eq:
  assumes "k < 64" and "dpp = 2 ^ k"
  shows "new_partitions m dpp n = Inr (replicate n \<lparr>free_list = 0, part_garbage = fresh_garbage m dpp, allocated_desc = 0\<rparr>)"
proof (induction n)
  case (Suc n)
  have p: "(of_nat dpp :: u64) = 2 ^ k" "unat (2 ^ k :: u64) = 2 ^ k" using assms by (simp_all add: unat_pow2)
  then have "(2 ^ k :: u64) \<noteq> 0" by (metis power_not_zero unat_0 zero_neq_numeral)
  then have "new_partition m dpp = Inr \<lparr>free_list = 0, part_garbage = fresh_garbage m dpp, allocated_desc = 0\<rparr>"
    using p assms IS_POWER_OF_TWO_iff [of "2 ^ k"]
    by (auto simp: new_partition_def GarbageList_Initialize_def GarbageList_new_def fresh_garbage_def)
  then show ?case using Suc by (simp add: replicate_append_same)
qed simp

lemma rounded_partitions_pow2: "\<exists>j \<le> 9. rounded_partitions r = 2 ^ j \<and> (r \<le> 2 ^ j \<or> j = 9) \<and> (j = 0 \<or> 2 ^ (j - 1) < r)"
  unfolding rounded_partitions_def using round_partitions_spec [of 0 r 9] by simp

lemma rounded_pool_size_pow2:
  assumes "0 < r" and "r \<le> 2 ^ 31"
  shows "\<exists>k \<le> 31. rounded_pool_size r = Inr (2 ^ k) \<and> r \<le> 2 ^ k \<and> 2 ^ k < 2 * r"
proof -
  obtain j where j: "j \<le> 31" "round_pool_size (Suc 31) r 1 = Inr (2 ^ j)" "r \<le> 2 ^ j" "j = 0 \<or> 2 ^ (j - 1) < r"
    using round_pool_size_spec [of r 31 0] assms(2) by (auto simp del: round_pool_size.simps)
  have "rounded_pool_size r = Inr (2 ^ j)"
    unfolding rounded_pool_size_def by (rule round_pool_size_more [OF j(2)]) simp
  moreover have "2 ^ j < 2 * r" using j(4) assms(1) by (cases j) auto
  ultimately show ?thesis using j by blast
qed

lemma epoch_init_wp:
  assumes "epoch_table (managers (ew s) m) = None" and "\<And>tid m' i. tls (ew s) (tid, EpochEntryTls) \<noteq> EntryPtr m' i"
    and "\<And>w. mgr_inv m w \<Longrightarrow> w = snd (Initialize True m (ew s)) \<Longrightarrow> Q () (s\<lparr>ew := w\<rparr>)"
  shows "wp (epoch_init True m) Q C s"
  using Initialize_inv [OF assms(1,2)] assms(3)
  by (cases "Initialize True m (ew s)") (auto simp: wp_def epoch_init_def)

lemma wp_upd_pool [wp_rules]:
  assumes "C s" and "\<And>b. Q () (s\<lparr>budget := b, pool := f (pool s)\<rparr>)"
  shows "wp (upd_pool f) Q C s"
  unfolding upd_pool_def by (rule wp_mstore) (use assms in auto)

lemma wp_update: "Q () (f s) \<Longrightarrow> budget (f s) = budget s \<Longrightarrow> wp (\<lambda>s. Done () (f s)) Q C s"
  by (simp add: wp_def)

lemma DescriptorPool_ok:
  assumes k: "k \<le> 31" "rounded_pool_size r = Inr (2 ^ k)" and j: "rounded_partitions rp = 2 ^ j" "j < k"
    and mem: "descs_mem \<noteq> 0" "unat descs_mem + 256 * 2 ^ k \<le> 2 ^ 61"
    and i: "Initialize True m (ew s) = (Status_OK, w1)" and bud: "budget s = None"
  shows "\<exists>s'. DescriptorPool r rp False cores m descs_mem pmdk s = Done () s' \<and> pool_ready s' \<and> pool_size (pool s') = 2 ^ k \<and>
    partition_count (pool s') = 2 ^ j \<and> descriptors (pool s') = descs_mem \<and> pool_epoch (pool s') = m \<and> ew s' = w1 \<and> mem s' = mem s"
proof -
  have dpp: "2 ^ k div 2 ^ j = (2 :: nat) ^ (k - j)" using j(2) by (simp add: power_diff)
  have prod: "2 ^ (k - j) * (2::nat) ^ j = 2 ^ k" using j(2) by (simp flip: power_add)
  note parts = new_partitions_eq [of "k - j", OF _ refl, of m]
  have sh: "pool_shape p" if "pool_size p = 2 ^ k" "partition_count p = 2 ^ j" "desc_per_partition p = 2 ^ (k - j)"
    "descriptors p = descs_mem" for p
    using that mem j(2) prod by (simp add: pool_shape_def pool_ok_def)
  define s1 where "s1 = s\<lparr>mstats := (mstats s)\<lparr>enabled := False\<rparr>, ew := w1,
     pool := (pool s)\<lparr>next_partition := 0, pool_epoch := m, pool_size := 2 ^ k,
       desc_per_partition := 2 ^ (k - j), partition_count := 2 ^ j,
       partition_table := replicate (2 ^ j) \<lparr>free_list = 0, part_garbage = fresh_garbage m (2 ^ (k - j)), allocated_desc = 0\<rparr>,
       descriptors := descs_mem, pmdk_pool := pmdk\<rparr>\<rparr>"
  have run: "DescriptorPool r rp False cores m descs_mem pmdk s = InitDescriptors s1"
    using parts k(1) mem
    by (simp add: DescriptorPool_def mbind_def upd_pool_def mstore_def mwhen_def mret_def bud epoch_init_def i
          k(2) j(1) mlift_def mcheck_def Let_def dpp s1_def split: outcome.splits)
  have "pool_shape (pool s1)" by (rule sh) (simp_all add: s1_def)
  moreover have "empty_partitions (pool s1)" by (simp add: s1_def empty_partitions_def)
  moreover have "budget s1 = None" using bud by (simp add: s1_def)
  moreover have "ew s1 = w1" "mem s1 = mem s" "pool_size (pool s1) = 2 ^ k" "partition_count (pool s1) = 2 ^ j"
    "descriptors (pool s1) = descs_mem" "pool_epoch (pool s1) = m" by (simp_all add: s1_def)
  ultimately show ?thesis
    unfolding run by (elim wp_DoneE [OF InitDescriptors_spec]) (auto simp: untouched_def)
qed

text \<open>C31. The constructor rounds the requested size and number of partitions up to powers of two (at most 512
  partitions); when every partition gets at least two descriptors, the pool is ready: all its descriptors
  are finished and empty, each partition's free list holds exactly its own descriptors, the epoch manager is
  initialized and application memory is as before. Otherwise the process aborts.\<close>

theorem constructor_builds_pool:
  assumes r: "0 < r" "r \<le> 2 ^ 31" and mem: "descs_mem \<noteq> 0" "unat descs_mem + 512 * r \<le> 2 ^ 61"
    and ep: "epoch_table (managers (ew s) m) = None" "\<And>tid m' i. tls (ew s) (tid, EpochEntryTls) \<noteq> EntryPtr m' i"
    and bud: "budget s = None"
  shows "\<exists>k \<le> 31. \<exists>j \<le> 9. r \<le> 2 ^ k \<and> 2 ^ k < 2 * r \<and> (rp \<le> 2 ^ j \<or> j = 9) \<and> (j = 0 \<or> 2 ^ (j - 1) < rp) \<and>
    (if j < k
     then \<exists>s'. DescriptorPool r rp False cores m descs_mem pmdk s = Done () s' \<and> pool_ready s' \<and>
       pool_size (pool s') = 2 ^ k \<and> partition_count (pool s') = 2 ^ j \<and> descriptors (pool s') = descs_mem \<and>
       mgr_inv m (ew s') \<and> mem s' = mem s
     else \<exists>msg. DescriptorPool r rp False cores m descs_mem pmdk s = Aborted (RawCheck msg))"
proof -
  obtain k where k: "k \<le> 31" "rounded_pool_size r = Inr (2 ^ k)" "r \<le> 2 ^ k" "2 ^ k < 2 * r"
    using rounded_pool_size_pow2 [OF r] by blast
  obtain j where j: "j \<le> 9" "rounded_partitions rp = 2 ^ j" "rp \<le> 2 ^ j \<or> j = 9" "j = 0 \<or> 2 ^ (j - 1) < rp"
    using rounded_partitions_pow2 by blast
  let ?dpp = "2 ^ k div 2 ^ j :: nat"
  obtain w1 where i: "Initialize True m (ew s) = (Status_OK, w1)" and w1: "mgr_inv m w1"
    using Initialize_inv [OF ep] by (cases "Initialize True m (ew s)") simp
  have good: "\<exists>s'. DescriptorPool r rp False cores m descs_mem pmdk s = Done () s' \<and> pool_ready s' \<and>
       pool_size (pool s') = 2 ^ k \<and> partition_count (pool s') = 2 ^ j \<and> descriptors (pool s') = descs_mem \<and>
       mgr_inv m (ew s') \<and> mem s' = mem s" if jk: "j < k"
  proof -
    have "unat descs_mem + 256 * 2 ^ k \<le> 2 ^ 61" using mem(2) k(4) by linarith
    then show ?thesis using DescriptorPool_ok [OF k(1,2) j(2) jk mem(1) _ i bud] w1 by blast
  qed
  have bad: "\<exists>msg. DescriptorPool r rp False cores m descs_mem pmdk s = Aborted (RawCheck msg)" if jk: "\<not> j < k"
  proof -
    consider "k < j" | "k = j" using jk by linarith
    then show ?thesis
    proof cases
      case 1
      then show ?thesis
        by (simp add: DescriptorPool_def mbind_def upd_pool_def mstore_def mwhen_def mret_def bud epoch_init_def i
            k(2) j(2) mlift_def mcheck_def Let_def)
    next
      case 2
      then show ?thesis using new_partitions_eq [of 0 1 m "2 ^ j"] mem
        by (simp add: DescriptorPool_def InitDescriptors_def mbind_def upd_pool_def mstore_def mwhen_def mret_def bud
            epoch_init_def i k(2) j(2) mlift_def mcheck_def mget_def Let_def)
    qed
  qed
  show ?thesis using k j good bad by (intro exI [of _ k] exI [of _ j]) auto
qed

text \<open>A state before anything is initialized.\<close>

definition blank_world :: mw_world where
  "blank_world = \<lparr>ew = \<lparr>tls = (\<lambda>_. Nullptr), tls_registry = [], managers = (\<lambda>_. new_manager)\<rparr>,
     mem = (\<lambda>_. 0), nv = (\<lambda>_. 0), descs = (\<lambda>_. zero_desc),
     pool = \<lparr>pool_size = 0, desc_per_partition = 0, descriptors = 0, partition_count = 0, partition_table = [],
       next_partition = 0, pool_epoch = 0, pmdk_pool = 0\<rparr>,
     freed = [], mstats = \<lparr>enabled = False, instance_cl = new_core_local\<rparr>, budget = None\<rparr>"

theorem constructor_builds_pool_witness:
  "\<exists>s'. DescriptorPool 7 3 False 4 0 4096 4096 blank_world = Done () s' \<and> pool_ready s' \<and> pool_size (pool s') = 8"
proof -
  obtain k j where kj: "k \<le> 31" "j \<le> 9" "7 \<le> (2::nat) ^ k" "(2::nat) ^ k < 14"
    "j = 0 \<or> 2 ^ (j - 1) < (3::nat)"
    "if j < k then \<exists>s'. DescriptorPool 7 3 False 4 0 4096 4096 blank_world = Done () s' \<and> pool_ready s' \<and>
       pool_size (pool s') = 2 ^ k \<and> partition_count (pool s') = 2 ^ j \<and> descriptors (pool s') = 4096 \<and>
       mgr_inv 0 (ew s') \<and> mem s' = mem blank_world
     else \<exists>msg. DescriptorPool 7 3 False 4 0 4096 4096 blank_world = Aborted (RawCheck msg)"
    using constructor_builds_pool [of 7 4096 blank_world 0 3 4 4096] by (auto simp: blank_world_def new_manager_def)
  have "k = 3"
  proof (rule antisym; rule ccontr)
    show "\<not> k \<le> 3 \<Longrightarrow> False" using kj(4) power_increasing [of 4 k "2::nat"] by simp
    show "\<not> 3 \<le> k \<Longrightarrow> False" using kj(3) power_increasing [of k 2 "2::nat"] by simp
  qed
  moreover have "j \<le> 2"
  proof (rule ccontr)
    assume "\<not> j \<le> 2"
    then have "(2::nat) ^ 2 \<le> 2 ^ (j - 1)" by (intro power_increasing) simp_all
    then show False using kj(5) \<open>\<not> j \<le> 2\<close> by auto
  qed
  ultimately show ?thesis using kj(6) by auto
qed

end
