(* ===== verification/MwExample.thy ===== *)
theory MwExample
  imports MwRefine MwRecovery PoolInit
begin

text \<open>
  A concrete state of the library, in which a protected thread is about to swap two words. It shows that the
  hypotheses of the theorems on \<open>MwCAS\<close> can hold.
\<close>

definition demo_epochs :: epoch_world where
  "demo_epochs = (case Protect 0 7 world0 of Inr w \<Rightarrow> w | Inl _ \<Rightarrow> world0)"

lemma demo_epochs_spec:
  "mgr_inv 0 demo_epochs" "IsProtected 0 7 demo_epochs = Inr (True, demo_epochs)" "GetCurrentEpoch 0 demo_epochs = 1"
  "\<exists>i. tls demo_epochs (7, EpochEntryTls) = EntryPtr 0 i"
proof -
  obtain i w where w: "Protect 0 7 world0 = Inr w" "mgr_inv 0 w" "i < length (entries 0 world0)"
    "tls w = (tls world0)((7, EpochEntryTls) := EntryPtr 0 i)"
    "map protected_epoch (entries 0 w) = (map protected_epoch (entries 0 world0))[i := current_epoch (managers world0 0)]"
    "current_epoch (managers w 0) = current_epoch (managers world0 0)"
    by (rule Protect_spec [OF world0_inv has_room_world0, of 7]) auto
  have e: "demo_epochs = w" using w(1) by (simp add: demo_epochs_def)
  have c: "current_epoch (managers world0 0) = 1" using world0_epoch by (simp add: GetCurrentEpoch_def)
  have l: "i < length (entries 0 w)" using arg_cong [OF w(5), of length] w(3) by simp
  have "map protected_epoch (entries 0 w) ! i = 1" using w(3,5) c by simp
  then have p: "protected_epoch (entries 0 w ! i) = 1" using l by simp
  show "mgr_inv 0 demo_epochs" using w(2) e by simp
  show "\<exists>i. tls demo_epochs (7, EpochEntryTls) = EntryPtr 0 i" using w(4) e by simp
  show "GetCurrentEpoch 0 demo_epochs = 1" using w(6) c e by (simp add: GetCurrentEpoch_def)
  show "IsProtected 0 7 demo_epochs = Inr (True, demo_epochs)"
    using w(4) p get_entry_entries [OF w(2) l] by (simp add: e IsProtected_def GetEntryForThread_def)
qed

definition demo_pool :: desc_pool where
  "demo_pool = \<lparr>pool_size = 4, desc_per_partition = 2, descriptors = 4096, partition_count = 2,
     partition_table = replicate 2 \<lparr>free_list = 0, part_garbage = fresh_garbage 0 2, allocated_desc = 0\<rparr>,
     next_partition = 0, pool_epoch = 0, pmdk_pool = 4096\<rparr>"

definition demo_entry :: "u64 \<Rightarrow> u64 \<Rightarrow> u64 \<Rightarrow> word_desc" where
  "demo_entry a old new = \<lparr>address = a, old_value = old, new_value = new, status_address = 4112,
     recycle_policy = kRecycleNever\<rparr>"

definition demo_desc :: descriptor where
  "demo_desc = \<lparr>next_ptr = 0, owner_partition = 0, d_status = kStatusFinished, d_count = 2, free_callback = DefaultCallback,
     allocate_callback = DefaultCallback,
     words = [demo_entry 8200 7 9, demo_entry 8192 5 6, empty_word, empty_word]\<rparr>"

definition demo :: "nat option \<Rightarrow> mw_world" where
  "demo b = \<lparr>ew = demo_epochs, mem = (\<lambda>_. 0)(8192 := 5, 8200 := 7), nv = (\<lambda>_. 0),
     descs = (\<lambda>d. if d = 0 then demo_desc else zero_desc\<lparr>d_status := kStatusFinished\<rparr>),
     pool = demo_pool, freed = [], mstats = \<lparr>enabled = False, instance_cl = new_core_local\<rparr>, budget = b\<rparr>"

lemma demo_simps [simp]:
  "ew (demo b) = demo_epochs" "mem (demo b) = (\<lambda>_. 0)(8192 := 5, 8200 := 7)" "pool (demo b) = demo_pool"
  "descs (demo b) 0 = demo_desc" "budget (demo b) = b" "\<not> enabled (mstats (demo b))" "nv (demo b) = (\<lambda>_. 0)"
  "op_words (demo b) 0 = [demo_entry 8200 7 9, demo_entry 8192 5 6]"
  by (simp_all add: demo_def demo_desc_def op_words_def)

lemma demo_targets: "targets [demo_entry 8200 7 9, demo_entry 8192 5 6] = [demo_entry 8200 7 9, demo_entry 8192 5 6]"
  by (simp add: targets_def demo_entry_def kAllocNullAddress_def)

lemma demo_ctx: "op_ctx (demo b) 0 (mem (demo b))"
proof -
  have app: "app_value demo_pool v" if "v < 4096" for v
  proof -
    have "IsCleanPtr v" using that by (intro small_clean) (simp add: word_less_nat_alt)
    moreover have "v \<noteq> desc_addr demo_pool d \<and> v \<noteq> word_addr demo_pool d i" if "d < 4" "i < 4" for d i
    proof -
      have "d \<in> {0, 1, 2, 3}" "i \<in> {0, 1, 2, 3}" using that by auto
      then have "4096 \<le> desc_addr demo_pool d \<and> 4096 \<le> word_addr demo_pool d i"
        by (auto simp: desc_addr_def word_addr_def demo_pool_def)
      then show ?thesis using \<open>v < 4096\<close> by auto
    qed
    ultimately show ?thesis by (auto simp: app_value_def DESC_CAP_def demo_pool_def)
  qed
  show ?thesis
    unfolding op_ctx_iff demo_simps demo_targets
    by (auto simp: demo_pool_def pool_ok_def demo_desc_def DESC_CAP_def demo_entry_def status_addr_def desc_addr_def
        intro!: app [unfolded demo_pool_def])
qed

lemma demo_ready: "mw_ready (demo b) 0 7"
proof -
  let ?gl = "fresh_garbage 0 2"
  have g: "garbage_of (demo b) 0 = ?gl" by (simp add: garbage_of_def the_part_def demo_desc_def demo_pool_def)
  have wf: "wf_gl ?gl"
    by (auto simp: wf_gl_def fresh_garbage_def wf_item_def empty_item_def invalid_epoch_def list_all_length
        intro!: exI [of _ 1])
  have "epoch_ok 0 (push_fuel ?gl) demo_epochs"
    using demo_epochs_spec(1,3) by (simp add: epoch_ok_def push_fuel_def fresh_garbage_def GetCurrentEpoch_def)
  then have "cleanup_ready (demo b) 0"
    using wf unfolding cleanup_ready_def g
    by (simp add: fresh_garbage_def takeable_def empty_item_def pending_def demo_desc_def demo_pool_def)
  moreover have "protected_thread (demo b) 0 7"
    using g demo_epochs_spec(2) by (simp add: protected_thread_def garbage_of_def fresh_garbage_def)
  ultimately show ?thesis
    using demo_ctx by (simp add: mw_ready_def demo_desc_def)
qed

lemma demo_quiet: "quiet (demo b) 0 (mem (demo b))"
  by (auto simp: quiet_def demo_def zero_desc_def status_defs kStatusDirtyFlag_def)

lemma demo_shape: "pool_shape (pool (demo b))" "desc_per_partition (pool (demo b)) = 2 ^ 1"
  by (simp_all add: demo_pool_def pool_shape_def pool_ok_def)

lemma demo_spec: "mwcas_spec (op_words (demo b) 0) (mem (demo b)) = (True, (\<lambda>_. 0)(8192 := 6, 8200 := 9))"
  unfolding mwcas_spec_def apply_new_def demo_simps demo_targets
  by (simp add: demo_entry_def fun_eq_iff)

lemma demo_app_word: "app_word (pool (demo b)) 8192"
  unfolding app_word_def
proof (intro allI impI)
  fix d assume "d < pool_size (pool (demo b))"
  then have "d \<in> {0, 1, 2, 3}" by (auto simp: demo_pool_def)
  then show "\<not> in_lines (desc_addr (pool (demo b)) d) 256 8192"
    by (auto simp: in_lines_def desc_addr_def demo_pool_def)
qed

text \<open>Stopped at its second store, the operation is undecided.\<close>

lemma demo_crash: "\<exists>s1. MwCAS 3 7 0 (demo (Some 1)) = Crashed s1 \<and> d_status (descs s1 0) = kStatusUndecided"
proof -
  have g: "gl_epoch_manager (part_garbage (the_part (demo b) 0)) = Some 0" for b
    by (simp add: the_part_def demo_pool_def fresh_garbage_def)
  have "owner_partition demo_desc = 0" "d_status demo_desc = kStatusFinished" by (simp_all add: demo_desc_def)
  moreover have "kStatusUndecided AND kStatusDirtyFlag = 0" by (simp add: status_bits)
  ultimately show ?thesis
    using g demo_epochs_spec(2)
    by (simp add: MwCAS_def numeral_3_eq_3 mbind_def mget_def mcheck_def mstore_def check_protected_def the_part_def
        stable_status_def mwhen_def mret_def Flush_def sort_words_def upd_desc_def)
qed

text \<open>The same operation with its entries sorted and its descriptor installed in the first target, undecided or
  decided.\<close>

definition demo_mid :: "u32 \<Rightarrow> mw_world" where
  "demo_mid st = opst (sort_op 0 (demo None)) 0 ((mem (demo None))(8192 := 4096 OR kMwCASFlag)) st None (\<lambda>_. 0)"

lemma demo_mid_wrd:
  "wrd (demo_mid st) 0 0 = demo_entry 8192 5 6" "wrd (demo_mid st) 0 (Suc 0) = demo_entry 8200 7 9"
  "d_count (descs (demo_mid st) 0) = 2"
  by (simp_all add: demo_mid_def wrd_def sort_op_def upd_desc_def demo_def demo_desc_def demo_entry_def)

lemma demo_mid_simps [simp]:
  "pool (demo_mid st) = demo_pool" "budget (demo_mid st) = None" "\<not> enabled (mstats (demo_mid st))"
  "d_status (descs (demo_mid st) 0) = st" "dptr (demo_mid st) 0 = 4096 OR kMwCASFlag"
  "mem (demo_mid st) = (mem (demo None))(8192 := 4096 OR kMwCASFlag)"
  by (simp_all add: demo_mid_def dptr_def desc_addr_def demo_pool_def)

lemma demo_mid_ctx:
  "op_ctx (demo_mid st) 0 (mem (demo None))" "sorted_words (demo_mid st) 0" "protected_thread (demo_mid st) 0 7"
proof -
  note c = sort_op_ctx [OF demo_ctx [of None]]
  show "op_ctx (demo_mid st) 0 (mem (demo None))"
    unfolding demo_mid_def by (rule op_ctx_perm [OF c(1)]) (simp_all add: op_words_def)
  show "sorted_words (demo_mid st) 0" using c(2) by (simp add: sorted_words_def demo_mid_def)
  show "protected_thread (demo_mid st) 0 7"
    using demo_ready [of None] unfolding demo_mid_def by (simp add: cleanup_ready_opst mw_ready_def)
qed

lemma demo_mid_tgt: "tgt (demo_mid st) 0 i \<longleftrightarrow> i = 0 \<or> i = Suc 0"
proof -
  have "i < 2 \<longleftrightarrow> i = 0 \<or> i = Suc 0" by auto
  then show ?thesis by (auto simp: tgt_def demo_mid_wrd demo_entry_def kAllocNullAddress_def)
qed

lemma demo_mid_stopped: "stopped (demo_mid st) 0 (mem (demo None)) (mem (demo_mid st)) kStatusUndecided"
proof -
  have "installed_to (demo_mid st) 0 (mem (demo None)) 1 (mem (demo_mid st))"
    by (auto simp: installed_to_def demo_mid_tgt demo_mid_wrd frame_def matches_def demo_entry_def)
  then show ?thesis by (rule stopped_undecided) (simp add: demo_mid_wrd)
qed

lemma demo_mid_spec: "mwcas_spec (op_words (demo_mid st) 0) (mem (demo None)) = (True, (\<lambda>_. 0)(8192 := 6, 8200 := 9))"
proof -
  have l: "d_count (descs (demo None) 0) \<le> length (words (descs (demo None) 0))" by (simp add: demo_desc_def)
  have "op_words (demo_mid st) 0 = op_words (sort_op 0 (demo None)) 0" by (simp add: demo_mid_def op_words_def)
  then have "mset (op_words (demo None) 0) = mset (op_words (demo_mid st) 0)" by (simp add: mset_sort_op [OF l])
  moreover have "distinct (map address (targets (op_words (demo None) 0)))" using demo_ctx [of None] unfolding op_ctx_iff by blast
  ultimately show ?thesis using mwcas_spec_perm [of "op_words (demo None) 0"] demo_spec by metis
qed

end
