(* ===== verification/MwHelp.thy ===== *)
theory MwHelp
  imports MwExample
begin

text \<open>
  Threads that meet an operation of another thread: they complete it while it is undecided, and wait for its
  owner once it is decided.
\<close>

section \<open>Helping an undecided operation\<close>

definition in_flight :: "mw_world \<Rightarrow> nat \<Rightarrow> (u64 \<Rightarrow> u64) \<Rightarrow> u64 \<Rightarrow> bool" where
  "in_flight s d m0 tid \<longleftrightarrow> op_ctx s d m0 \<and> sorted_words s d \<and> protected_thread s d tid \<and> \<not> enabled (mstats s) \<and>
     d_status (descs s d) = kStatusUndecided \<and> stopped s d m0 (mem s) kStatusUndecided"

lemma wpo_stable_status_help:
  assumes "C m kStatusUndecided" and "Q kStatusUndecided m kStatusUndecided"
  shows "wpo s d (stable_status (Suc k) d) Q C m kStatusUndecided"
  unfolding stable_status_def
  by (rule wpo_mbind wpo_mwhen wpo_mget | simp add: status_bits wpo_mret assms)+

lemma help_wpo:
  assumes ctx: "op_ctx s d m0" and so: "sorted_words s d" and pt: "protected_thread s d tid"
    and st: "stopped s d m0 m kStatusUndecided"
  shows "wpo s d (PersistentMwCAS (Suc (Suc (Suc N))) tid (Suc k) d) (concluded s d m0) (stopped s d m0) m kStatusUndecided"
proof -
  have e: "mbind (mw_phases (Suc (Suc N)) tid (Suc k) d) (\<lambda>x. if Suc k = 0 then Cleanup tid d else mret x)
      = mbind (mw_phases (Suc (Suc N)) tid (Suc k) d) mret" by (simp add: fun_eq_iff)
  have "wpo s d (mbind (mw_phases (Suc (Suc N)) tid (Suc k) d) mret) (concluded s d m0) (stopped s d m0) m kStatusUndecided"
    by (rule wpo_mbind, rule wpo_mono [OF phases_spec [OF ctx so st]]) (auto intro: wpo_mret)
  then have "wpo s d (mbind (mw_phases (Suc (Suc N)) tid (Suc k) d) (\<lambda>x. if Suc k = 0 then Cleanup tid d else mret x))
      (concluded s d m0) (stopped s d m0) m kStatusUndecided" unfolding e .
  then show ?thesis
    unfolding PersistentMwCAS_phases
    by (intro wpo_mbind wpo_check_protected [OF pt] wpo_stable_status_help) (simp_all add: st)
qed

lemma opst_self: "opst s d (mem s) (d_status (descs s d)) (budget s) (nv s) = s"
  by (cases s) (simp add: opst_def)

text \<open>C5. A thread that helps another thread's undecided operation, wherever that thread stopped, completes it: it
  returns the result the specification gives for the memory at the start of the operation, and leaves
  the specified memory and a decided status.\<close>

theorem helper_completes:
  assumes f: "in_flight s d m0 tid" and n: "3 \<le> n" and b: "budget s = None"
  shows "\<exists>r s'. PersistentMwCAS n tid (Suc k) d s = Done r s' \<and> (r, mem s') = mwcas_spec (op_words s d) m0 \<and>
    d_status (descs s' d) = (if r then kStatusSucceeded else kStatusFailed)"
proof -
  obtain N where N: "n = Suc (Suc (Suc N))" using n by (intro that [of "n - 3"]) simp
  have ctx: "op_ctx s d m0" and st: "d_status (descs s d) = kStatusUndecided" using f by (simp_all add: in_flight_def)
  have w: "wpo s d (PersistentMwCAS n tid (Suc k) d) (concluded s d m0) (stopped s d m0) (mem s) kStatusUndecided"
    unfolding N using f by (intro help_wpo) (simp_all add: in_flight_def)
  have e: "opst s d (mem s) kStatusUndecided None (nv s) = s" using opst_self [of s d] st b by simp
  obtain r m' st' b' v' where "PersistentMwCAS n tid (Suc k) d s = Done r (opst s d m' st' b' v')"
    "concluded s d m0 r m' st'"
    by (rule wp_DoneE [OF wpoD [OF w, where b = None and v = "nv s", unfolded e] b]) auto
  moreover note concluded_spec [OF ctx this(2)]
  ultimately show ?thesis by (intro exI [of _ r] exI [of _ "opst s d m' st' b' v'"]) simp
qed

lemma demo_in_flight: "in_flight (demo_mid kStatusUndecided) 0 (mem (demo None)) 7"
  using demo_mid_ctx demo_mid_stopped by (simp only: in_flight_def demo_mid_simps not_False_eq_True simp_thms)

theorem helper_completes_witness:
  "\<exists>s'. PersistentMwCAS 3 7 1 0 (demo_mid kStatusUndecided) = Done True s' \<and> mem s' 8192 = 6 \<and> mem s' 8200 = 9"
  using helper_completes [OF demo_in_flight order.refl, of 0] unfolding demo_mid_spec by auto

section \<open>Reading a target of an undecided operation\<close>

text \<open>A read flushes the word it reads, so its runs are described without regard to the durable image.\<close>

definition wpx ::
  "mw_world \<Rightarrow> nat \<Rightarrow> 'a mw \<Rightarrow> ('a \<Rightarrow> (u64 \<Rightarrow> u64) \<Rightarrow> u32 \<Rightarrow> bool) \<Rightarrow> (u64 \<Rightarrow> u64) \<Rightarrow> u32 \<Rightarrow> bool" where
  "wpx s0 d op Q m st \<longleftrightarrow> (\<forall>b v. wp op (\<lambda>x s'. \<exists>m' st' b' v'. s' = opst s0 d m' st' b' v' \<and> Q x m' st') (\<lambda>_. True)
     (opst s0 d m st b v))"

lemma wpx_wpo: "wpo s0 d op Q C m st \<Longrightarrow> wpx s0 d op Q m st"
  unfolding wpx_def by (intro allI, drule wpoD, erule wp_mono) auto

lemma wpxD:
  "wpx s0 d op Q m st \<Longrightarrow> wp op (\<lambda>x s'. \<exists>m' st' b' v'. s' = opst s0 d m' st' b' v' \<and> Q x m' st') (\<lambda>_. True) (opst s0 d m st b v)"
  by (simp add: wpx_def)

lemma wpx_mono:
  assumes "wpx s0 d op Q m st" and "\<And>x m st. Q x m st \<Longrightarrow> Q' x m st"
  shows "wpx s0 d op Q' m st"
  unfolding wpx_def by (intro allI, rule wp_mono [OF wpxD [OF assms(1)]]) (use assms(2) in blast)+

lemma wpx_mbind:
  assumes "wpx s0 d f (\<lambda>x. wpx s0 d (g x) Q) m st"
  shows "wpx s0 d (mbind f g) Q m st"
  unfolding wpx_def
proof (intro allI wp_mbind)
  fix b v
  show "wp f (\<lambda>x. wp (g x) (\<lambda>x s'. \<exists>m' st' b' v'. s' = opst s0 d m' st' b' v' \<and> Q x m' st') (\<lambda>_. True)) (\<lambda>_. True) (opst s0 d m st b v)"
    by (rule wp_mono [OF wpxD [OF assms]]) (auto dest: wpxD)
qed

lemma wpx_Flush: "Q () m st \<Longrightarrow> wpx s0 d (Flush k p) Q m st"
  by (auto simp: wpx_def wp_def Flush_def intro!: exI)

lemma wpx_mget:
  assumes "\<And>b v. f (opst s0 d m st b v) = x" and "Q x m st"
  shows "wpx s0 d (mget f) Q m st"
  using assms by (auto simp: wpx_def wp_def mget_def intro!: exI)

lemma wpx_mcheck: "b \<Longrightarrow> Q () m st \<Longrightarrow> wpx s0 d (mcheck b e) Q m st"
  by (auto simp: wpx_def wp_def mcheck_def intro!: exI)

lemma wpx_mret: "Q x m st \<Longrightarrow> wpx s0 d (mret x) Q m st"
  by (auto simp: wpx_def wp_def mret_def intro!: exI)

lemma wpx_CAS64: "Q (m a) (if m a = y then m(a := x) else m) st \<Longrightarrow> wpx s0 d (CompareExchange64 a x y) Q m st"
  by (rule wpx_wpo [where C = "\<lambda>_ _. True"], rule wpo_CAS64) simp_all

text \<open>One round of a read, by the kind of value it finds.\<close>

lemma read_clean:
  assumes "IsCleanPtr (m a)" and "Q (m a) m st"
  shows "wpx s0 d (GetValueProtectedPersistent (Suc n) tid a) Q m st"
  unfolding GetValueProtectedPersistent.simps
  by (rule wpx_mbind, rule wpx_mget [where x = "m a"], simp)
    (use assms in \<open>simp add: ptr_bits wpx_mbind wpx_mcheck wpx_mret\<close>)

lemma read_desc:
  assumes "\<not> IsCondCASDescriptorPtr (m a)" "\<not> IsDirtyPtr (m a)" "IsMwCASDescriptorPtr (m a)" "CleanPtr (m a) \<noteq> 0"
    and "desc_at (pool s0) (CleanPtr (m a)) = Some d'"
    and "wpx s0 d (PersistentMwCAS n tid 1 d') (\<lambda>_. wpx s0 d (GetValueProtectedPersistent n tid a) Q) m st"
  shows "wpx s0 d (GetValueProtectedPersistent (Suc n) tid a) Q m st"
  unfolding GetValueProtectedPersistent.simps
  by (rule wpx_mbind, rule wpx_mget [where x = "m a"], simp)
    (use assms in \<open>auto intro!: wpx_mbind wpx_mcheck wpx_mret wpx_mget [where x = "Some d'"]\<close>)

lemma read_dirty:
  assumes "\<not> IsCondCASDescriptorPtr (m a)" "IsDirtyPtr (m a)" "IsMwCASDescriptorPtr (m a)" "CleanPtr (m a) \<noteq> 0"
    and "desc_at (pool s0) (CleanPtr (m a)) = Some d'"
    and "wpx s0 d (PersistentMwCAS n tid 1 d') (\<lambda>_. wpx s0 d (GetValueProtectedPersistent n tid a) Q)
       (m(a := m a AND NOT kDirtyFlag)) st"
  shows "wpx s0 d (GetValueProtectedPersistent (Suc n) tid a) Q m st"
proof -
  have n: "\<not> IsDirtyPtr (m a AND NOT kDirtyFlag)" "IsMwCASDescriptorPtr (m a AND NOT kDirtyFlag)"
    "CleanPtr (m a AND NOT kDirtyFlag) = CleanPtr (m a)"
    using assms(3) by (simp_all add: ptr_bits bit_and_iff bit_not_iff)
  show ?thesis
    unfolding GetValueProtectedPersistent.simps
    by (rule wpx_mbind, rule wpx_mget [where x = "m a"], simp)
      (use assms n in \<open>auto intro!: wpx_mbind wpx_mcheck wpx_mret wpx_Flush wpx_CAS64 wpx_mget [where x = "Some d'"]\<close>)
qed

lemma read_cond:
  assumes ctx: "op_ctx s d m0" and t: "tgt s d i" and v: "m (address (wrd s d i)) = cptr s d i"
    and w: "wpx s d (GetValueProtectedPersistent n tid (address (wrd s d i))) Q
       (m(address (wrd s d i) := dptr_dirty s d)) kStatusUndecided"
  shows "wpx s d (GetValueProtectedPersistent (Suc n) tid (address (wrd s d i))) Q m kStatusUndecided"
proof -
  note p = op_ctxD(1,2) [OF ctx] and i4 = op_ctxD(9) [OF ctx t] and gd = op_ctxD(10) [OF ctx t]
  have c: "IsCleanPtr (word_addr (pool s) d i)" "IsCleanPtr (desc_addr (pool s) d)" using p i4 by simp_all
  have flags: "IsCondCASDescriptorPtr (cptr s d i)" "\<not> IsDirtyPtr (cptr s d i)" "CleanPtr (cptr s d i) = word_addr (pool s) d i"
    using c(1) by (auto simp: cptr_def ptr_bits bit_or_iff)
  have wa: "word_at (pool s) (word_addr (pool s) d i) = Some (d, i)" "desc_at (pool s) (desc_addr (pool s) d) = Some d"
    using p i4 by simp_all
  have sf: "desc_addr (pool s) d OR (kMwCASFlag OR kDirtyFlag) = dptr_dirty s d" by (simp only: dptr_dirty_def)
  show ?thesis
    unfolding GetValueProtectedPersistent.simps
    by (rule wpx_mbind, rule wpx_mget [where x = "m (address (wrd s d i))"], simp)
      (use w v flags in \<open>auto simp: gd wa sf wrd_def [symmetric] intro!: wpx_mbind wpx_mcheck wpx_CAS64
        wpx_wpo [OF wpo_mlift [where C = "\<lambda>_ _. True" and x = "dptr_dirty s d"]]
        wpx_mget [where x = "Some (d, i)"] wpx_mget [where x = "wrd s d i"] wpx_mget [where x = "Some d"]
        wpx_mget [where x = kStatusUndecided]\<close>)
qed

lemma dptr_flags:
  assumes "op_ctx s d m0" and "x \<in> {dptr s d, dptr_dirty s d}"
  shows "\<not> IsCondCASDescriptorPtr x" "IsMwCASDescriptorPtr x" "CleanPtr x = desc_addr (pool s) d"
    "desc_at (pool s) (CleanPtr x) = Some d" "CleanPtr x \<noteq> 0" "IsDirtyPtr x \<longleftrightarrow> x = dptr_dirty s d"
proof -
  note p = op_ctxD(1,2) [OF assms(1)]
  have c: "IsCleanPtr (desc_addr (pool s) d)" using p by simp
  show "\<not> IsCondCASDescriptorPtr x" "IsMwCASDescriptorPtr x"
    using c assms(2) by (auto simp: dptr_def dptr_dirty_def ptr_bits bit_or_iff)
  show e: "CleanPtr x = desc_addr (pool s) d" using c assms(2) by (auto simp: dptr_def dptr_dirty_def)
  show "desc_at (pool s) (CleanPtr x) = Some d" "CleanPtr x \<noteq> 0" using p by (simp_all add: e)
  have "\<not> IsDirtyPtr (dptr s d)" "IsDirtyPtr (dptr_dirty s d)"
    using c by (auto simp: dptr_def dptr_dirty_def ptr_bits bit_or_iff)
  then show "IsDirtyPtr x \<longleftrightarrow> x = dptr_dirty s d" using assms(2) by auto
qed

lemma dptr_clean: "op_ctx s d m0 \<Longrightarrow> \<not> IsDirtyPtr (dptr s d)"
  using op_ctxD(1,2) [of s d m0] desc_addr_clean [of "pool s" d] by (auto simp: dptr_def ptr_bits bit_or_iff)

lemma read_descriptor:
  assumes ctx: "op_ctx s d m0" and so: "sorted_words s d" and pt: "protected_thread s d tid"
    and i: "installed_to s d m0 k m" "k \<le> d_count (descs s d)" and t: "tgt s d j" "j < k"
    and Q: "\<And>r m' st'. concluded s d m0 r m' st' \<Longrightarrow> Q (m' (address (wrd s d j))) m' st'"
  shows "wpx s d (GetValueProtectedPersistent (Suc (Suc (Suc (Suc N)))) tid (address (wrd s d j))) Q m kStatusUndecided"
proof -
  let ?a = "address (wrd s d j)"
  have x: "m ?a \<in> {dptr s d, dptr_dirty s d}" using i(1) t by (auto simp: installed_to_def)
  note fl = dptr_flags [OF ctx x]
  have fin: "IsCleanPtr (m' ?a)" if "concluded s d m0 r m' st'" for r m' st'
    using that t op_ctxD(7,8) [OF ctx t(1)] by (auto simp: concluded_def committed_def split: if_splits)
  have hp: "wpx s d (PersistentMwCAS (Suc (Suc (Suc N))) tid 1 d)
      (\<lambda>_. wpx s d (GetValueProtectedPersistent (Suc (Suc (Suc N))) tid ?a) Q) m' kStatusUndecided"
    if "installed_to s d m0 k m'" for m'
    unfolding One_nat_def
    by (rule wpx_mono [OF wpx_wpo [OF help_wpo [OF ctx so pt stopped_undecided [OF that i(2)]]]])
      (use fin Q in \<open>auto intro!: read_clean simp del: GetValueProtectedPersistent.simps\<close>)
  show ?thesis
  proof (cases "m ?a = dptr_dirty s d")
    case True
    then show ?thesis
      using fl hp installed_clear_dirty [OF ctx i(1) t] dirty_off [OF ctx] by (intro read_dirty [where d' = d]) simp_all
  next
    case False
    then show ?thesis using fl hp [OF i(1)] by (intro read_desc [where d' = d]) simp_all
  qed
qed

text \<open>C6. A protected read of a target word of another thread's undecided operation returns a value of the
  application, never a descriptor: it returns the word as it is when nothing is installed there, and
  otherwise completes the operation first and returns the value the specification gives.\<close>

theorem read_completes_operation:
  assumes f: "in_flight s d m0 tid" and t: "tgt s d i" and n: "5 \<le> n" and b: "budget s = None"
  shows "\<exists>v s'. GetValueProtectedPersistent n tid (address (wrd s d i)) s = Done v s' \<and> IsCleanPtr v \<and>
    (if mem s (address (wrd s d i)) = m0 (address (wrd s d i)) then v = m0 (address (wrd s d i)) \<and> mem s' = mem s
     else mem s' = snd (mwcas_spec (op_words s d) m0) \<and> v = mem s' (address (wrd s d i)))"
proof -
  let ?a = "address (wrd s d i)"
  obtain N where N: "n = Suc (Suc (Suc (Suc (Suc N))))" using n by (intro that [of "n - 5"]) simp
  have ctx: "op_ctx s d m0" and so: "sorted_words s d" and pt: "protected_thread s d tid"
    and und: "d_status (descs s d) = kStatusUndecided" and st: "stopped s d m0 (mem s) kStatusUndecided"
    using f by (simp_all add: in_flight_def)
  obtain k where k: "k \<le> d_count (descs s d)" "installed_to s d m0 k (mem s)"
    using st by (auto simp: stopped_def status_bits dest: sym)
  define Q where "Q v m st \<longleftrightarrow> IsCleanPtr v \<and> (if mem s ?a = m0 ?a then v = m0 ?a \<and> m = mem s
     else m = snd (mwcas_spec (op_words s d) m0) \<and> v = m ?a)" for v m and st :: u32
  have new: "Q (m ?a) m st'" if "concluded s d m0 r m st'" "mem s ?a \<noteq> m0 ?a" for r m st'
    using that concluded_spec(1) [OF ctx that(1)] t op_ctxD(7,8) [OF ctx t]
    by (auto simp: Q_def concluded_def committed_def prod_eq_iff split: if_splits)
  have ne: "m0 ?a \<noteq> x" if "x \<in> {dptr s d, dptr_dirty s d, cptr s d i}" for x
    using op_ctxD(1,2) [OF ctx] op_ctxD(8,9) [OF ctx t] that by (auto simp: ptr_bits dptr_def dptr_dirty_def cptr_def bit_or_iff)
  consider "mem s ?a = m0 ?a" | "i < k" | "i = k" "mem s ?a = cptr s d i" "matches s d m0 i"
    using k(2) t by (cases i k rule: linorder_cases) (auto simp: installed_to_def)
  then have run: "wpx s d (GetValueProtectedPersistent n tid ?a) Q (mem s) kStatusUndecided"
  proof cases
    case 1
    then show ?thesis unfolding N using op_ctxD(8) [OF ctx t] by (intro read_clean) (simp_all add: Q_def)
  next
    case 2
    then have "mem s ?a \<in> {dptr s d, dptr_dirty s d}" using k(2) t by (auto simp: installed_to_def)
    then have "mem s ?a \<noteq> m0 ?a" using ne [of "mem s ?a"] by auto
    then show ?thesis unfolding N using new by (intro read_descriptor [OF ctx so pt k(2,1) t 2])
  next
    case 3
    have "installed_to s d m0 (Suc k) ((mem s)(?a := dptr_dirty s d))"
      using installed_to_step [OF ctx k(2)] 3 t by simp
    moreover have "mem s ?a \<noteq> m0 ?a" using ne [of "mem s ?a"] 3(2) by auto
    ultimately have "wpx s d (GetValueProtectedPersistent (Suc (Suc (Suc (Suc N)))) tid ?a) Q
        ((mem s)(?a := dptr_dirty s d)) kStatusUndecided"
      using new 3(1) t by (intro read_descriptor [OF ctx so pt, where k = "Suc k"]) (auto simp: tgt_def)
    then show ?thesis unfolding N by (rule read_cond [where m = "mem s", OF ctx t 3(2)])
  qed
  have e: "opst s d (mem s) kStatusUndecided None (nv s) = s" using opst_self [of s d] und b by simp
  note w = wpxD [OF run, where b = None and v = "nv s", unfolded e]
  show ?thesis by (rule wp_DoneE [OF w b]) (auto simp: Q_def)
qed

theorem read_completes_operation_witness:
  "\<exists>s'. GetValueProtectedPersistent 5 7 8192 (demo_mid kStatusUndecided) = Done 6 s' \<and> mem s' 8200 = 9"
proof -
  have m: "4096 OR kMwCASFlag \<noteq> 5" by (simp add: kMwCASFlag_def)
  have "tgt (demo_mid kStatusUndecided) 0 0" by (simp add: demo_mid_tgt)
  from read_completes_operation [OF demo_in_flight this order.refl] m show ?thesis
    unfolding demo_mid_spec by (auto simp: demo_mid_wrd demo_entry_def)
qed

section \<open>Waiting for a decided operation\<close>

lemma bail:
  assumes pt: "protected_thread s d tid" and me: "\<not> enabled (mstats s)"
    and st: "d_status (descs s d) \<in> {kStatusSucceeded, kStatusFailed}"
  shows "PersistentMwCAS (Suc n) tid (Suc k) d s = Done (d_status (descs s d) = kStatusSucceeded) s"
proof -
  have nd: "d_status (descs s d) AND kStatusDirtyFlag = 0" "d_status (descs s d) \<noteq> kStatusUndecided"
    using st by (auto simp: status_defs kStatusDirtyFlag_def)
  have "check_protected tid d s = Done () s" using pt by (auto simp: check_protected_def protected_thread_def)
  moreover have "stable_status (Suc k) d s = Done (d_status (descs s d)) s"
    using nd by (simp add: stable_status_def mwhen_def mbind_def mget_def mret_def)
  moreover have "metric AddBailedHelp tid s = Done () s" using me by (simp add: metric_def metric_defs)
  ultimately show ?thesis using nd(2) by (simp add: PersistentMwCAS_phases mbind_def mret_def)
qed

text \<open>C29. Reads are not lock-free: while an operation is decided but its owner has not yet replaced the
  descriptor in a target word, a read of that word never returns, whatever its fuel; the helper it calls
  sees a decided status and leaves the word as it is.\<close>

theorem read_waits_for_owner:
  assumes ctx: "op_ctx s d m0" and pt: "protected_thread s d tid" and me: "\<not> enabled (mstats s)"
    and st: "d_status (descs s d) \<in> {kStatusSucceeded, kStatusFailed}"
    and v: "mem s a = dptr s d"
  shows "GetValueProtectedPersistent n tid a s = NoFuel"
proof (induction n)
  case 0
  then show ?case by (simp add: no_fuel_def)
next
  case (Suc n)
  note fl = dptr_flags [OF ctx, of "dptr s d", simplified]
  have "mbind (PersistentMwCAS n tid 1 d) (\<lambda>_. GetValueProtectedPersistent n tid a) s = NoFuel"
    using Suc bail [OF pt me st] by (cases n) (simp_all add: mbind_def no_fuel_def del: PersistentMwCAS.simps(2))
  then show ?case
    using v fl dptr_clean [OF ctx] by (simp add: mbind_Done mget_def mret_def mcheck_def)
qed

theorem read_waits_for_owner_witness:
  "GetValueProtectedPersistent 1000 7 8192 (demo_mid kStatusSucceeded) = NoFuel"
  by (rule read_waits_for_owner [OF demo_mid_ctx(1,3)]) simp_all

end
