(* ===== verification/MwVolatile.thy ===== *)
theory MwVolatile
  imports MwExample
begin

text \<open>
  The volatile build of the library (\<open>mwcas/mwcas.cc\<close> and \<open>mwcas/mwcas.h\<close> without \<open>PMEM\<close> and \<open>RTM\<close>): the multi-word
  compare-and-swap without flushes and dirty bits, its variant that stops half-way, and the reads of a
  target field.

  The lemmas show that an operation refines the same specification as the persistent one, that a helper completes an
  undecided operation from any point at which its owner can be, and that two operations which name the same two
  words in opposite orders can make a thread recurse for ever: unlike \<open>PersistentMwCAS\<close>, this version does
  not sort the entries.
\<close>

section \<open>VolatileMwCAS\<close>

definition vol_finish_word :: "bool \<Rightarrow> nat \<Rightarrow> nat \<Rightarrow> unit mw" where
  "vol_finish_word succeeded d i =
     mbind (mget (\<lambda>s. words (descs s d) ! i)) (\<lambda>wd.
       if address wd = kAllocNullAddress then mret ()
       else
         mbind (mget (\<lambda>s. desc_addr (pool s) d)) (\<lambda>da.
         mbind (mlift (SetFlags da kMwCASFlag)) (\<lambda>descptr.
         mbind (CompareExchange64 (address wd) (if succeeded then new_value wd else old_value wd) descptr) (\<lambda>_. mret ()))))"

text \<open>\<open>vol_install_word\<close> is the body of the installation loop with its label \<open>retry_entry\<close>.\<close>

fun VolatileMwCAS :: "nat \<Rightarrow> u64 \<Rightarrow> nat \<Rightarrow> nat \<Rightarrow> bool mw"
and vol_install_word :: "nat \<Rightarrow> u64 \<Rightarrow> nat \<Rightarrow> nat \<Rightarrow> nat \<Rightarrow> bool mw" where
  "VolatileMwCAS 0 tid depth d = no_fuel"
| "VolatileMwCAS (Suc n) tid depth d =
     mbind (check_protected tid d) (\<lambda>_.
     mbind (mget (\<lambda>s. d_status (descs s d))) (\<lambda>st.
       if st \<noteq> kStatusUndecided then
         (if depth > 0 then
            mbind (metric AddBailedHelp tid) (\<lambda>_. mget (\<lambda>s. d_status (descs s d) = kStatusSucceeded))
          else Cleanup tid d)
       else
         mbind (mget (\<lambda>s. d_count (descs s d))) (\<lambda>count.
         mbind (install_all True (vol_install_word n tid depth d) d [0..<count]) (\<lambda>ok.
         mbind (CompareExchange32 d (if ok then kStatusSucceeded else kStatusFailed) kStatusUndecided) (\<lambda>_.
         mbind (mget (\<lambda>s. d_status (descs s d) = kStatusSucceeded)) (\<lambda>succeeded.
         mbind (mfor (vol_finish_word succeeded d) [0..<count]) (\<lambda>_.
           if depth = 0 then Cleanup tid d else mret succeeded)))))))"
| "vol_install_word 0 tid depth d i = no_fuel"
| "vol_install_word (Suc n) tid depth d i =
     mbind (CondCAS n d i 0) (\<lambda>rval.
     mbind (mget (\<lambda>s. words (descs s d) ! i)) (\<lambda>wd.
     mbind (mget (\<lambda>s. desc_addr (pool s) d)) (\<lambda>da.
     mbind (mlift (SetFlags da kMwCASFlag)) (\<lambda>descptr.
       if rval = old_value wd \<or> rval = descptr then mret True
       else if IsMwCASDescriptorPtr rval then
         mbind (mget (\<lambda>s. desc_at (pool s) (CleanPtr rval))) (\<lambda>other.
           case other of None \<Rightarrow> mlift (Inl (BadAccess ''not a descriptor''))
           | Some d' \<Rightarrow>
             mbind (VolatileMwCAS n tid (depth + 1) d') (\<lambda>_.
             mbind (metric AddHelpAttempt tid) (\<lambda>_. vol_install_word n tid depth d i)))
       else mret False))))"

text \<open>\<open>MwCAS\<close> of the volatile build\<close>

definition MwCAS_volatile :: "nat \<Rightarrow> u64 \<Rightarrow> nat \<Rightarrow> bool mw" where
  "MwCAS_volatile n tid d =
     mbind (mget (\<lambda>s. d_status (descs s d))) (\<lambda>st.
     mbind (mcheck (st = kStatusFinished) (RawCheck ''status of descriptor is not kStatusFinished'')) (\<lambda>_.
     mbind (mstore (upd_desc d (\<lambda>D. D\<lparr>d_status := kStatusUndecided\<rparr>))) (\<lambda>_.
     VolatileMwCAS n tid 0 d)))"

definition VolatileMwCASWithFailure :: "nat \<Rightarrow> u64 \<Rightarrow> nat \<Rightarrow> bool \<Rightarrow> nat \<Rightarrow> bool mw" where
  "VolatileMwCASWithFailure n tid depth complete_descriptor_install d =
     mbind (check_protected tid d) (\<lambda>_.
     mbind (mget (\<lambda>s. d_status (descs s d))) (\<lambda>st.
       if st \<noteq> kStatusUndecided then
         (if depth > 0 then
            mbind (metric AddBailedHelp tid) (\<lambda>_. mget (\<lambda>s. d_status (descs s d) = kStatusSucceeded))
          else Cleanup tid d)
       else
         mbind (mget (\<lambda>s. d_count (descs s d))) (\<lambda>count.
         mbind (install_all True (vol_install_word n tid depth d) d [0..<count]) (\<lambda>ok.
           if \<not> complete_descriptor_install then mret False
           else mbind (CompareExchange32 d (if ok then kStatusSucceeded else kStatusFailed) kStatusUndecided)
             (\<lambda>_. mret False)))))"

definition MwCASWithFailure_volatile :: "nat \<Rightarrow> u64 \<Rightarrow> nat \<Rightarrow> bool \<Rightarrow> nat \<Rightarrow> bool mw" where
  "MwCASWithFailure_volatile n tid depth complete d =
     mbind (mget (\<lambda>s. d_status (descs s d))) (\<lambda>st.
     mbind (mcheck (st = kStatusFinished) (RawCheck ''status of descriptor is not kStatusFinished'')) (\<lambda>_.
     mbind (mstore (upd_desc d (\<lambda>D. D\<lparr>d_status := kStatusUndecided\<rparr>))) (\<lambda>_.
     VolatileMwCASWithFailure n tid depth complete d)))"

section \<open>Reading a target field\<close>

text \<open>The loop at the label \<open>retry\<close>, which the two reads share. The field is at the address \<open>a\<close>.\<close>

fun vol_read :: "nat \<Rightarrow> u64 \<Rightarrow> u64 \<Rightarrow> u64 mw" where
  "vol_read 0 tid a = no_fuel"
| "vol_read (Suc n) tid a =
     mbind (mget (\<lambda>s. mem s a)) (\<lambda>val.
       if IsCondCASDescriptorPtr val then
         mbind (mget (\<lambda>s. word_at (pool s) (CleanPtr val))) (\<lambda>owd.
         case owd of None \<Rightarrow> mlift (Inl (BadAccess ''not a word descriptor''))
         | Some (d', i') \<Rightarrow>
           mbind (mget (\<lambda>s. words (descs s d') ! i')) (\<lambda>wd.
           mbind (mlift (SetFlags (GetDescriptor wd) kMwCASFlag)) (\<lambda>dptr.
           mbind (mcheck (a = address wd) (RawCheck ''wrong addresses'')) (\<lambda>_.
           mbind (mget (\<lambda>s. desc_at (pool s) (GetDescriptor wd))) (\<lambda>odd.
           case odd of None \<Rightarrow> mlift (Inl (BadAccess ''status_address_''))
           | Some d'' \<Rightarrow>
             mbind (mget (\<lambda>s. d_status (descs s d''))) (\<lambda>st.
             mbind (CompareExchange64 (address wd) (if st = kStatusUndecided then dptr else old_value wd) val)
               (\<lambda>_. vol_read n tid a)))))))
       else if IsMwCASDescriptorPtr val then
         mbind (mcheck (CleanPtr val \<noteq> 0) (RawCheck ''invalid descriptor pointer'')) (\<lambda>_.
         mbind (mget (\<lambda>s. desc_at (pool s) (CleanPtr val))) (\<lambda>od.
           case od of None \<Rightarrow> mlift (Inl (BadAccess ''not a descriptor''))
           | Some d' \<Rightarrow> mbind (VolatileMwCAS n tid 1 d') (\<lambda>_. vol_read n tid a)))
       else mret val)"

definition GetValueProtectedVolatile :: "nat \<Rightarrow> u64 \<Rightarrow> u64 \<Rightarrow> u64 mw" where
  "GetValueProtectedVolatile n tid a = mbind (metric AddRead tid) (\<lambda>_. vol_read n tid a)"

definition GetValueVolatile :: "nat \<Rightarrow> u64 \<Rightarrow> nat \<Rightarrow> u64 \<Rightarrow> u64 mw" where
  "GetValueVolatile n tid m a =
     mbind (metric AddRead tid) (\<lambda>_.
     mbind (epoch_step (IsProtected m tid)) (\<lambda>prot.
     mbind (epoch_step (EpochGuard m (\<not> prot) tid)) (\<lambda>g.
     mbind (vol_read n tid a) (\<lambda>v.
     mbind (epoch_step (\<lambda>w. rbind (EpochGuard_destroy g tid w) (\<lambda>w'. Inr ((), w')))) (\<lambda>_. mret v)))))"

section \<open>The conditional CAS without the dirty bit\<close>

lemma vol_CondCAS_installed:
  assumes ctx: "op_ctx s0 d m0" and t: "tgt s0 d i" and v: "m (address (wrd s0 d i)) = dptr s0 d"
    and Q: "Q (dptr s0 d) m st"
  shows "wpo s0 d (CondCAS (Suc n) d i 0) Q (\<lambda>_ _. True) m st"
proof -
  note facts = op_ctxD [OF ctx]
  have c: "\<not> IsCondCASDescriptorPtr (dptr s0 d)" and o: "dptr s0 d \<noteq> old_value (wrd s0 d i)"
    using facts(1,2) facts(6) [OF t] tag_neq [of "old_value (wrd s0 d i)" "desc_addr (pool s0) d"] by (auto simp: dptr_def)
  show ?thesis
    unfolding CondCAS.simps by (rule wpo_steps | simp add: wrd_def [symmetric] c o v Q wpo_mret)+
qed

lemma vol_CondCAS_fresh:
  assumes ctx: "op_ctx s0 d m0" and t: "tgt s0 d i" and v: "m (address (wrd s0 d i)) = old_value (wrd s0 d i)"
    and Q: "Q (old_value (wrd s0 d i)) (m(address (wrd s0 d i) := dptr s0 d)) kStatusUndecided"
  shows "wpo s0 d (CondCAS (Suc n) d i 0) Q (\<lambda>_ _. True) m kStatusUndecided"
proof -
  have c: "\<not> IsCondCASDescriptorPtr (old_value (wrd s0 d i))" using op_ctxD(6) [OF ctx t] by simp
  show ?thesis
    unfolding CondCAS.simps by (rule wpo_steps | simp add: wrd_def [symmetric] c v Q [unfolded dptr_def] wpo_mret)+
qed

lemma vol_CondCAS_cond:
  assumes ctx: "op_ctx s0 d m0" and t: "tgt s0 d i" and v: "m (address (wrd s0 d i)) = cptr s0 d i"
    and Q: "Q (dptr s0 d) (m(address (wrd s0 d i) := dptr s0 d)) kStatusUndecided"
  shows "wpo s0 d (CondCAS (Suc n) d i 0) Q (\<lambda>_ _. True) m kStatusUndecided"
proof -
  note facts = op_ctxD(1,2) [OF ctx] op_ctxD(6,9,10) [OF ctx t]
  have c: "IsCondCASDescriptorPtr (cptr s0 d i)" "CleanPtr (cptr s0 d i) = word_addr (pool s0) d i"
    "cptr s0 d i \<noteq> old_value (wrd s0 d i)"
    using facts tag_neq(2) [of "old_value (wrd s0 d i)" "word_addr (pool s0) d i"] by (auto simp: cptr_def)
  show ?thesis
    unfolding CondCAS.simps
    by (rule wpo_steps wpo_mcheck | simp add: wrd_def [symmetric] c v facts Q [unfolded dptr_def] wpo_mret Let_def)+
qed

lemma vol_CondCAS_other:
  assumes v: "IsCleanPtr (m (address (wrd s0 d i)))" "m (address (wrd s0 d i)) \<noteq> old_value (wrd s0 d i)"
    and Q: "Q (m (address (wrd s0 d i))) m st"
  shows "wpo s0 d (CondCAS (Suc n) d i 0) Q (\<lambda>_ _. True) m st"
  unfolding CondCAS.simps by (rule wpo_steps | simp add: wrd_def [symmetric] v Q wpo_mret)+

section \<open>Installation\<close>

text \<open>An undecided operation: the targets before \<open>k\<close> hold the descriptor, the target \<open>k\<close> may hold its word descriptor,
  those after \<open>k\<close> are untouched.\<close>

definition vol_installed :: "mw_world \<Rightarrow> nat \<Rightarrow> (u64 \<Rightarrow> u64) \<Rightarrow> nat \<Rightarrow> (u64 \<Rightarrow> u64) \<Rightarrow> bool" where
  "vol_installed s0 d m0 k m \<longleftrightarrow> frame s0 d m0 m \<and>
     (\<forall>i. tgt s0 d i \<longrightarrow>
        (i < k \<longrightarrow> matches s0 d m0 i \<and> m (address (wrd s0 d i)) = dptr s0 d) \<and>
        (i = k \<longrightarrow> m (address (wrd s0 d i)) = m0 (address (wrd s0 d i)) \<or>
                   matches s0 d m0 i \<and> m (address (wrd s0 d i)) = cptr s0 d i) \<and>
        (k < i \<longrightarrow> m (address (wrd s0 d i)) = m0 (address (wrd s0 d i))))"

lemma vol_installed_step:
  assumes ctx: "op_ctx s0 d m0" and i: "vol_installed s0 d m0 k m" and t: "tgt s0 d k" and m: "matches s0 d m0 k"
  shows "vol_installed s0 d m0 (Suc k) (m(address (wrd s0 d k) := dptr s0 d))"
proof -
  have "(m(address (wrd s0 d k) := dptr s0 d)) (address (wrd s0 d j)) = m (address (wrd s0 d j))" if "tgt s0 d j" "j \<noteq> k" for j
    using upd_other_target [OF ctx t that(1), of m "dptr s0 d"] that(2) by metis
  moreover have "frame s0 d m0 (m(address (wrd s0 d k) := dptr s0 d))"
    using i t by (auto simp: vol_installed_def intro: frame_update)
  ultimately show ?thesis using i m unfolding vol_installed_def less_Suc_eq by fastforce
qed

lemma vol_installed_skip: "vol_installed s0 d m0 k m \<Longrightarrow> \<not> tgt s0 d k \<Longrightarrow> vol_installed s0 d m0 (Suc k) m"
  by (auto simp: vol_installed_def less_Suc_eq Suc_lessD)

definition vol_from :: "mw_world \<Rightarrow> nat \<Rightarrow> (u64 \<Rightarrow> u64) \<Rightarrow> nat \<Rightarrow> (u64 \<Rightarrow> u64) \<Rightarrow> bool" where
  "vol_from s0 d m0 i m \<longleftrightarrow> (\<exists>k. i \<le> k \<and> k \<le> d_count (descs s0 d) \<and> vol_installed s0 d m0 k m)"

lemma vol_fromI: "vol_installed s0 d m0 k m \<Longrightarrow> i \<le> k \<Longrightarrow> k \<le> d_count (descs s0 d) \<Longrightarrow> vol_from s0 d m0 i m"
  by (auto simp: vol_from_def)

lemma vol_from_skip: "vol_from s0 d m0 i m \<Longrightarrow> i < d_count (descs s0 d) \<Longrightarrow> \<not> tgt s0 d i \<Longrightarrow> vol_from s0 d m0 (Suc i) m"
proof -
  assume f: "vol_from s0 d m0 i m" and i: "i < d_count (descs s0 d)" "\<not> tgt s0 d i"
  obtain k where k: "i \<le> k" "k \<le> d_count (descs s0 d)" "vol_installed s0 d m0 k m" using f by (auto simp: vol_from_def)
  show ?thesis
  proof (cases "i = k")
    case True
    then show ?thesis using vol_installed_skip [OF k(3)] i by (intro vol_fromI [of _ _ _ "Suc i"]) simp_all
  next
    case False
    then show ?thesis using k by (intro vol_fromI [OF k(3)]) simp_all
  qed
qed

definition vol_refused :: "mw_world \<Rightarrow> nat \<Rightarrow> (u64 \<Rightarrow> u64) \<Rightarrow> (u64 \<Rightarrow> u64) \<Rightarrow> bool" where
  "vol_refused s0 d m0 m \<longleftrightarrow> (\<exists>k. tgt s0 d k \<and> \<not> matches s0 d m0 k \<and> vol_installed s0 d m0 k m)"

lemma vol_install_word_spec:
  assumes ctx: "op_ctx s0 d m0" and i: "vol_from s0 d m0 i m" and t: "tgt s0 d i"
  shows "wpo s0 d (vol_install_word (Suc (Suc N)) tid depth d i)
    (\<lambda>ok m' st. st = kStatusUndecided \<and> (if ok then vol_from s0 d m0 (Suc i) m' else vol_refused s0 d m0 m'))
    (\<lambda>_ _. True) m kStatusUndecided" (is "wpo _ _ _ ?Q _ _ _")
proof -
  let ?a = "address (wrd s0 d i)"
  obtain k where k: "i \<le> k" "k \<le> d_count (descs s0 d)" "vol_installed s0 d m0 k m" using i by (auto simp: vol_from_def)
  have n: "Suc i \<le> d_count (descs s0 d)" using t by (simp add: tgt_def)
  have tail: "wpo s0 d (vol_install_word (Suc (Suc N)) tid depth d i) ?Q (\<lambda>_ _. True) m kStatusUndecided"
    if "wpo s0 d (CondCAS (Suc N) d i 0) (\<lambda>v m' st. ?Q True m' st \<and> (v = old_value (wrd s0 d i) \<or> v = dptr s0 d))
      (\<lambda>_ _. True) m kStatusUndecided"
    unfolding vol_install_word.simps
    by (rule wpo_mbind, rule wpo_mono [OF that])
      ((rule wpo_mbind wpo_mget wpo_mlift SetFlags_eq | simp add: wrd_def [symmetric] dptr_def wpo_mret)+)
  consider "i < k" | "i = k" "matches s0 d m0 i" | "i = k" "\<not> matches s0 d m0 i" using k(1) by fastforce
  then show ?thesis
  proof cases
    case 1
    then have v: "m ?a = dptr s0 d" and f: "vol_from s0 d m0 (Suc i) m" using k t by (auto simp: vol_installed_def intro!: vol_fromI)
    show ?thesis by (rule tail, rule vol_CondCAS_installed [where m = m, OF ctx t v]) (use f in simp)
  next
    case 2
    have f: "vol_from s0 d m0 (Suc i) (m(?a := dptr s0 d))"
      using vol_installed_step [OF ctx k(3)] 2 t n by (auto intro: vol_fromI)
    have "m ?a = old_value (wrd s0 d i) \<or> m ?a = cptr s0 d i" using k(3) 2 t by (auto simp: vol_installed_def matches_def)
    then show ?thesis
    proof
      assume v: "m ?a = old_value (wrd s0 d i)"
      show ?thesis by (rule tail, rule vol_CondCAS_fresh [where m = m, OF ctx t v]) (use f in simp)
    next
      assume v: "m ?a = cptr s0 d i"
      show ?thesis by (rule tail, rule vol_CondCAS_cond [where m = m, OF ctx t v]) (use f in simp)
    qed
  next
    case 3
    have v: "m ?a = m0 ?a" using k(3) 3 t by (auto simp: vol_installed_def)
    have cl: "IsCleanPtr (m ?a)" "m ?a \<noteq> old_value (wrd s0 d i)" using op_ctxD(8) [OF ctx t] 3 v by (auto simp: matches_def)
    have nd: "m ?a \<noteq> desc_addr (pool s0) d OR kMwCASFlag" using cl(1) by (auto simp: ptr_bits bit_or_iff)
    have r: "vol_refused s0 d m0 m" using k(3) 3 t by (auto simp: vol_refused_def)
    show ?thesis
      unfolding vol_install_word.simps
      by (rule wpo_mbind, rule vol_CondCAS_other [where m = m, OF cl])
        ((rule wpo_mbind wpo_mget wpo_mlift SetFlags_eq | simp add: wrd_def [symmetric] cl nd r wpo_mret)+)
  qed
qed

lemma install_all_rule:
  assumes step: "\<And>i m. i < n \<Longrightarrow> tgt s0 d i \<Longrightarrow> J i m \<Longrightarrow>
      wpo s0 d (install i) (\<lambda>ok m' st. st = kStatusUndecided \<and> (if ok then J (Suc i) m' else F m')) C m kStatusUndecided"
    and skip: "\<And>i m. i < n \<Longrightarrow> \<not> tgt s0 d i \<Longrightarrow> J i m \<Longrightarrow> J (Suc i) m"
    and n: "n = d_count (descs s0 d)"
  shows "J i m \<Longrightarrow> i \<le> n \<Longrightarrow> wpo s0 d (install_all True install d [i..<n])
    (\<lambda>ok m' st. st = kStatusUndecided \<and> (if ok then J n m' else F m')) C m kStatusUndecided"
proof (induction "n - i" arbitrary: i m)
  case 0
  then show ?case by (simp add: wpo_mret)
next
  case (Suc r)
  then have i: "i < n" "[i..<n] = i # [Suc i..<n]" by (simp_all add: upt_rec)
  have rest: "J (Suc i) m' \<Longrightarrow> wpo s0 d (install_all True install d [Suc i..<n])
    (\<lambda>ok m' st. st = kStatusUndecided \<and> (if ok then J n m' else F m')) C m' kStatusUndecided" for m'
    using Suc.hyps(1) [of "Suc i" m'] Suc.hyps(2) i(1) by simp
  show ?case
  proof (cases "tgt s0 d i")
    case False
    then have "address (wrd s0 d i) = kAllocNullAddress" using i n by (simp add: tgt_def)
    then show ?thesis
      unfolding i(2) install_all.simps using rest [OF skip [OF i(1) False Suc.prems(1)]]
      by - (rule wpo_mbind, rule wpo_mget, simp_all add: wrd_def [symmetric])
  next
    case True
    then have a: "address (wrd s0 d i) \<noteq> kAllocNullAddress" by (simp add: tgt_def)
    have "wpo s0 d (mbind (install i) (\<lambda>ok. if ok then install_all True install d [Suc i..<n] else mret False))
      (\<lambda>ok m' st. st = kStatusUndecided \<and> (if ok then J n m' else F m')) C m kStatusUndecided"
      by (rule wpo_mbind, rule wpo_mono [OF step [OF i(1) True Suc.prems(1)]]) (use rest in \<open>auto intro: wpo_mret\<close>)
    then show ?thesis
      unfolding i(2) install_all.simps by - (rule wpo_mbind, rule wpo_mget, simp_all add: wrd_def [symmetric] a)
  qed
qed

section \<open>The final values\<close>

lemma vol_finish_word_spec:
  assumes j: "j < d_count (descs s0 d)"
    and Q: "Q () (if tgt s0 d j \<and> m (address (wrd s0 d j)) = dptr s0 d
      then m(address (wrd s0 d j) := (if ok then new_value (wrd s0 d j) else old_value (wrd s0 d j))) else m) st"
  shows "wpo s0 d (vol_finish_word ok d j) Q (\<lambda>_ _. True) m st"
proof (cases "tgt s0 d j")
  case False
  then have "address (wrd s0 d j) = kAllocNullAddress" using j by (simp add: tgt_def)
  then show ?thesis
    using Q False unfolding vol_finish_word_def by - (rule wpo_steps | simp add: wrd_def [symmetric] wpo_mret)+
next
  case True
  then have a: "address (wrd s0 d j) \<noteq> kAllocNullAddress" by (simp add: tgt_def)
  note Q' = Q [unfolded dptr_def] True
  show ?thesis
  proof (cases ok)
    case True
    then have "Q () (if m (address (wrd s0 d j)) = desc_addr (pool s0) d OR kMwCASFlag
        then m(address (wrd s0 d j) := new_value (wrd s0 d j)) else m) st" using Q' by (auto split: if_splits)
    then show ?thesis
      unfolding vol_finish_word_def
      by - (rule wpo_steps wpo_mret | simp add: wrd_def [symmetric] a True split del: if_split)+
  next
    case False
    then have "Q () (if m (address (wrd s0 d j)) = desc_addr (pool s0) d OR kMwCASFlag
        then m(address (wrd s0 d j) := old_value (wrd s0 d j)) else m) st" using Q' by (auto split: if_splits)
    then show ?thesis
      unfolding vol_finish_word_def
      by - (rule wpo_steps wpo_mret | simp add: wrd_def [symmetric] a False split del: if_split)+
  qed
qed

text \<open>The loop over all words: each word that holds the descriptor gets its final value.\<close>

lemma vol_finish_spec:
  fixes F :: "nat \<Rightarrow> u64"
  assumes ctx: "op_ctx s0 d m0" and n: "n = d_count (descs s0 d)" and fr: "frame s0 d m0 m"
    and cl: "\<And>i. tgt s0 d i \<Longrightarrow> F i \<noteq> dptr s0 d"
    and w: "\<And>i. tgt s0 d i \<Longrightarrow> m (address (wrd s0 d i)) = F i \<or>
      m (address (wrd s0 d i)) = dptr s0 d \<and> (if ok then new_value (wrd s0 d i) else old_value (wrd s0 d i)) = F i"
    and Q: "\<And>m. frame s0 d m0 m \<Longrightarrow> (\<forall>i. tgt s0 d i \<longrightarrow> m (address (wrd s0 d i)) = F i) \<Longrightarrow> Q () m st"
  shows "wpo s0 d (mfor (vol_finish_word ok d) [0..<n]) Q (\<lambda>_ _. True) m st"
proof (rule wpo_mfor [where I = "\<lambda>j m st'. st' = st \<and> frame s0 d m0 m \<and> (\<forall>i. tgt s0 d i \<longrightarrow> m (address (wrd s0 d i)) = F i \<or>
      j \<le> i \<and> m (address (wrd s0 d i)) = dptr s0 d \<and> (if ok then new_value (wrd s0 d i) else old_value (wrd s0 d i)) = F i)"])
  fix j m st'
  let ?fin = "\<lambda>i. if ok then new_value (wrd s0 d i) else old_value (wrd s0 d i)" and ?a = "\<lambda>i. address (wrd s0 d i)"
  assume j: "j < length [0..<n]" and I: "st' = st \<and> frame s0 d m0 m \<and>
      (\<forall>i. tgt s0 d i \<longrightarrow> m (?a i) = F i \<or> j \<le> i \<and> m (?a i) = dptr s0 d \<and> ?fin i = F i)"
  define m' where "m' = (if tgt s0 d j \<and> m (?a j) = dptr s0 d then m(?a j := ?fin j) else m)"
  have "m' (?a i) = F i \<or> Suc j \<le> i \<and> m' (?a i) = dptr s0 d \<and> ?fin i = F i" if t: "tgt s0 d i" for i
  proof (cases "i = j")
    case True
    then show ?thesis using I cl [OF t] t by (auto simp: m'_def)
  next
    case False
    then have "tgt s0 d j \<Longrightarrow> ?a i \<noteq> ?a j" using tgt_inj [OF ctx t] by simp
    then have "m' (?a i) = m (?a i)" by (cases "tgt s0 d j") (simp_all add: m'_def)
    then show ?thesis using I t False by (auto simp: Suc_le_eq)
  qed
  moreover have "frame s0 d m0 m'" using I by (auto simp: m'_def intro: frame_update)
  ultimately have K: "st' = st \<and> frame s0 d m0 m' \<and> (\<forall>i. tgt s0 d i \<longrightarrow> m' (?a i) = F i \<or> Suc j \<le> i \<and> m' (?a i) = dptr s0 d \<and> ?fin i = F i)"
    using I by blast
  have j': "[0..<n] ! j = j" "j < d_count (descs s0 d)" using j n by simp_all
  show "wpo s0 d (vol_finish_word ok d ([0..<n] ! j)) (\<lambda>_ m st'. st' = st \<and> frame s0 d m0 m \<and> (\<forall>i. tgt s0 d i \<longrightarrow> m (?a i) = F i \<or>
      Suc j \<le> i \<and> m (?a i) = dptr s0 d \<and> ?fin i = F i)) (\<lambda>_ _. True) m st'"
    unfolding j'(1) by (rule vol_finish_word_spec [OF j'(2)]) (rule K [unfolded m'_def])
qed (use fr w Q n in \<open>auto simp: tgt_def not_le\<close>)

section \<open>The whole operation\<close>

definition vol_phases :: "nat \<Rightarrow> u64 \<Rightarrow> nat \<Rightarrow> nat \<Rightarrow> bool mw" where
  "vol_phases n tid depth d =
     mbind (mget (\<lambda>s. d_count (descs s d))) (\<lambda>count.
     mbind (install_all True (vol_install_word n tid depth d) d [0..<count]) (\<lambda>ok.
     mbind (CompareExchange32 d (if ok then kStatusSucceeded else kStatusFailed) kStatusUndecided) (\<lambda>_.
     mbind (mget (\<lambda>s. d_status (descs s d) = kStatusSucceeded)) (\<lambda>succeeded.
     mbind (mfor (vol_finish_word succeeded d) [0..<count]) (\<lambda>_. mret succeeded)))))"

lemma VolatileMwCAS_phases:
  "VolatileMwCAS (Suc n) tid depth d =
     mbind (check_protected tid d) (\<lambda>_.
     mbind (mget (\<lambda>s. d_status (descs s d))) (\<lambda>st.
       if st \<noteq> kStatusUndecided then
         (if depth > 0 then mbind (metric AddBailedHelp tid) (\<lambda>_. mget (\<lambda>s. d_status (descs s d) = kStatusSucceeded))
          else Cleanup tid d)
       else mbind (vol_phases n tid depth d) (\<lambda>succeeded. if depth = 0 then Cleanup tid d else mret succeeded)))"
  unfolding VolatileMwCAS.simps vol_phases_def mbind_assoc mret_bind by (rule refl)

lemma vol_all_forward:
  assumes ctx: "op_ctx s0 d m0" and f: "vol_from s0 d m0 (d_count (descs s0 d)) m"
  shows "all_match s0 d m0" and "frame s0 d m0 m" and "tgt s0 d i \<Longrightarrow> m (address (wrd s0 d i)) = dptr s0 d"
  using f by (auto simp: vol_from_def vol_installed_def all_match_def tgt_def)

lemma vol_refused_back:
  assumes "op_ctx s0 d m0" and "vol_refused s0 d m0 m"
  shows "\<not> all_match s0 d m0" and "frame s0 d m0 m"
    and "tgt s0 d i \<Longrightarrow> m (address (wrd s0 d i)) = m0 (address (wrd s0 d i)) \<or>
      m (address (wrd s0 d i)) = dptr s0 d \<and> old_value (wrd s0 d i) = m0 (address (wrd s0 d i))"
proof -
  obtain k where k: "tgt s0 d k" "\<not> matches s0 d m0 k" "vol_installed s0 d m0 k m" using assms(2) by (auto simp: vol_refused_def)
  show "\<not> all_match s0 d m0" "frame s0 d m0 m" using k by (auto simp: all_match_def vol_installed_def)
  show "tgt s0 d i \<Longrightarrow> m (address (wrd s0 d i)) = m0 (address (wrd s0 d i)) \<or>
      m (address (wrd s0 d i)) = dptr s0 d \<and> old_value (wrd s0 d i) = m0 (address (wrd s0 d i))"
    using k by (cases i k rule: linorder_cases) (auto simp: vol_installed_def matches_def)
qed

lemma frame_eq:
  assumes "frame s0 d m0 m" and "\<forall>i. tgt s0 d i \<longrightarrow> m (address (wrd s0 d i)) = m0 (address (wrd s0 d i))"
  shows "m = m0"
proof
  fix a
  show "m a = m0 a" using assms by (cases "\<exists>i. tgt s0 d i \<and> a = address (wrd s0 d i)") (auto simp: frame_def)
qed

lemma clean_neq_dptr: "IsCleanPtr v \<Longrightarrow> v \<noteq> dptr s0 d"
  by (auto simp: dptr_def ptr_bits bit_or_iff)

lemma vol_decided:
  assumes ctx: "op_ctx s0 d m0" and n: "n = d_count (descs s0 d)"
    and w: "if ok then vol_from s0 d m0 n m else vol_refused s0 d m0 m"
  shows "wpo s0 d (mbind (mget (\<lambda>s. d_status (descs s d) = kStatusSucceeded)) (\<lambda>succeeded.
      mbind (mfor (vol_finish_word succeeded d) [0..<n]) (\<lambda>_. mret succeeded)))
    (concluded s0 d m0) (\<lambda>_ _. True) m (if ok then kStatusSucceeded else kStatusFailed)"
proof -
  let ?st = "if ok then kStatusSucceeded else kStatusFailed"
  have "wpo s0 d (mfor (vol_finish_word ok d) [0..<n]) (\<lambda>_. wpo s0 d (mret ok) (concluded s0 d m0) (\<lambda>_ _. True))
      (\<lambda>_ _. True) m ?st"
  proof (cases ok)
    case True
    then have f: "vol_from s0 d m0 (d_count (descs s0 d)) m" using w n by simp
    show ?thesis
      using True vol_all_forward [OF ctx f] op_ctxD(7) [OF ctx] clean_neq_dptr
      by (intro vol_finish_spec [where F = "\<lambda>i. new_value (wrd s0 d i)", OF ctx n])
        (auto intro!: wpo_mret simp: concluded_def committed_def)
  next
    case False
    then have f: "vol_refused s0 d m0 m" using w by simp
    show ?thesis
      using False vol_refused_back [OF ctx f] op_ctxD(8) [OF ctx] clean_neq_dptr frame_eq
      by (intro vol_finish_spec [where F = "\<lambda>i. m0 (address (wrd s0 d i))", OF ctx n])
        (auto intro!: wpo_mret simp: concluded_def)
  qed
  moreover have "(?st = kStatusSucceeded) = ok" by (simp add: status_defs)
  ultimately show ?thesis by - (rule wpo_mbind, rule wpo_mget, simp_all add: wpo_mbind)
qed

text \<open>From any point of the installation, whoever runs the phases completes the operation.\<close>

lemma vol_phases_spec:
  assumes ctx: "op_ctx s0 d m0" and i: "vol_from s0 d m0 0 m"
  shows "wpo s0 d (vol_phases (Suc (Suc N)) tid depth d) (concluded s0 d m0) (\<lambda>_ _. True) m kStatusUndecided"
proof -
  let ?n = "d_count (descs s0 d)"
  have inst: "wpo s0 d (install_all True (vol_install_word (Suc (Suc N)) tid depth d) d [0..<?n])
     (\<lambda>ok m' st. st = kStatusUndecided \<and> (if ok then vol_from s0 d m0 ?n m' else vol_refused s0 d m0 m'))
     (\<lambda>_ _. True) m kStatusUndecided"
    by (rule install_all_rule [where J = "vol_from s0 d m0"])
      (use vol_install_word_spec [OF ctx] vol_from_skip i in \<open>auto simp del: vol_install_word.simps\<close>)
  show ?thesis
    unfolding vol_phases_def
    by (rule wpo_mbind, rule wpo_mget, simp, rule wpo_mbind, simp, rule wpo_mono [OF inst], rule wpo_mbind, rule wpo_CAS32)
      (use vol_decided [OF ctx refl] in auto)
qed

lemma vol_from_start: "vol_from s d m 0 m"
  by (auto simp: vol_from_def vol_installed_def frame_def intro!: exI [of _ 0])

lemma vol_Cleanup_stage:
  assumes rdy: "mw_ready s d tid" and c: "concluded s d (mem s) r m st"
  shows "wp (Cleanup tid d) (\<lambda>x s'. (x, mem s') = mwcas_spec (op_words s d) (mem s) \<and>
      d_status (descs s' d) = (if x then kStatusSucceeded else kStatusFailed)) (\<lambda>_. True) (opst s d m st b v)"
proof (rule wp_mono [OF wp_Cleanup])
  let ?s = "opst s d m st b v"
  have ctx: "op_ctx s d (mem s)" using rdy by (simp add: mw_ready_def)
  have e: "(r, m) = mwcas_spec (op_words s d) (mem s)" "st = (if r then kStatusSucceeded else kStatusFailed)"
    using concluded_spec [OF ctx c] by simp_all
  show "pool_ok (pool ?s)" "cleanup_ready ?s d" "protected_thread ?s d tid"
    "d_status (descs ?s d) \<in> {kStatusSucceeded, kStatusFailed}" "\<not> enabled (mstats ?s)"
    using rdy ctx e(2) by (auto simp: cleanup_ready_opst op_ctx_def mw_ready_def)
  show "(x, mem s') = mwcas_spec (op_words s d) (mem s) \<and> d_status (descs s' d) = (if x then kStatusSucceeded else kStatusFailed)"
    if "x = (d_status (descs ?s d) = kStatusSucceeded) \<and> cleaned d ?s s'" for x s'
    using that e by (auto simp: cleaned_def status_defs)
qed simp

lemma MwCAS_volatile_wp:
  assumes rdy: "mw_ready s d tid" and n: "3 \<le> n"
  shows "wp (MwCAS_volatile n tid d) (\<lambda>x s'. (x, mem s') = mwcas_spec (op_words s d) (mem s) \<and>
      d_status (descs s' d) = (if x then kStatusSucceeded else kStatusFailed)) (\<lambda>_. True) s"
    (is "wp _ ?Q _ _")
proof -
  have ctx: "op_ctx s d (mem s)" and fin: "d_status (descs s d) = kStatusFinished" and pt: "protected_thread s d tid"
    using rdy by (simp_all add: mw_ready_def)
  obtain N where N: "n = Suc (Suc (Suc N))" using n by (intro that [of "n - 3"]) simp
  have "wpo s d (mbind (check_protected tid d) (\<lambda>_. mget (\<lambda>s. d_status (descs s d))))
      (\<lambda>x m st. x = kStatusUndecided \<and> m = mem s \<and> st = kStatusUndecided) (\<lambda>_ _. True) (mem s) kStatusUndecided"
    by (intro wpo_mbind wpo_check_protected [OF pt] wpo_mget) simp_all
  note pre = wpoD [OF this] and run = wpoD [OF vol_phases_spec [OF ctx vol_from_start]]
  have phases: "wp (vol_phases (Suc (Suc N)) tid 0 d) (\<lambda>_. wp (Cleanup tid d) ?Q (\<lambda>_. True)) (\<lambda>_. True)
      (opst s d (mem s) kStatusUndecided b v)" for b v
    by (rule wp_mono [OF run]) (use vol_Cleanup_stage [OF rdy] in auto)
  have vol: "wp (VolatileMwCAS n tid 0 d) ?Q (\<lambda>_. True) (opst s d (mem s) kStatusUndecided b (nv s))" for b
    unfolding N VolatileMwCAS_phases mbind_assoc [symmetric]
    by (rule wp_mbind, rule wp_mono [OF pre]) (use phases in \<open>auto intro!: wp_mbind\<close>)
  have u: "upd_desc d (\<lambda>D. D\<lparr>d_status := kStatusUndecided\<rparr>) (s\<lparr>budget := b\<rparr>) = opst s d (mem s) kStatusUndecided b (nv s)" for b
    by (cases s) (simp add: upd_desc_def opst_def)
  show ?thesis
    unfolding MwCAS_volatile_def
    by - (rule wp_mbind wp_mget wp_mcheck wp_mstore budget_updates vol | simp only: u | simp add: fin)+
qed

text \<open>C4. \<open>MwCAS\<close> of the volatile build refines the same specification as the persistent one: from a ready descriptor it
  returns, with the answer whether all target words held their old values; memory is then the one with all new values
  or unchanged, and the descriptor has the status of the answer. Three units of fuel are enough when no other
  operation is in progress.\<close>

theorem volatile_mwcas_refines_spec:
  assumes "mw_ready s d tid" and "3 \<le> n" and "budget s = None"
  shows "\<exists>s'. MwCAS_volatile n tid d s = Done (fst (mwcas_spec (op_words s d) (mem s))) s' \<and>
    mem s' = snd (mwcas_spec (op_words s d) (mem s)) \<and>
    d_status (descs s' d) = (if fst (mwcas_spec (op_words s d) (mem s)) then kStatusSucceeded else kStatusFailed)"
  by (rule wp_DoneE [OF MwCAS_volatile_wp [OF assms(1,2)] assms(3)]) (auto simp: prod_eq_iff)

theorem volatile_mwcas_refines_spec_witness:
  "\<exists>s'. MwCAS_volatile 3 7 0 (demo None) = Done True s' \<and> mem s' 8192 = 6 \<and> mem s' 8200 = 9 \<and>
    d_status (descs s' 0) = kStatusSucceeded"
  using volatile_mwcas_refines_spec [OF demo_ready order.refl, of None] unfolding demo_spec by auto

text \<open>A helper at any depth completes an undecided operation from any point of its installation.\<close>

lemma volatile_helper_completes:
  assumes "op_ctx s d m0" and "protected_thread s d tid" and "d_status (descs s d) = kStatusUndecided"
    and "vol_from s d m0 0 (mem s)" and "3 \<le> n" and "0 < depth" and "budget s = None"
  shows "\<exists>s'. VolatileMwCAS n tid depth d s = Done (fst (mwcas_spec (op_words s d) m0)) s' \<and>
    mem s' = snd (mwcas_spec (op_words s d) m0)"
proof -
  obtain N where N: "n = Suc (Suc (Suc N))" using assms(5) by (intro that [of "n - 3"]) simp
  have s: "opst s d (mem s) kStatusUndecided (budget s) (nv s) = s" using assms(3) by (cases s) (auto simp: opst_def fun_eq_iff)
  have ph: "wpo s d (vol_phases (Suc (Suc N)) tid depth d) (\<lambda>x. wpo s d (mret x) (concluded s d m0) (\<lambda>_ _. True)) (\<lambda>_ _. True)
      (mem s) kStatusUndecided"
    by (rule wpo_mono [OF vol_phases_spec [OF assms(1,4)]]) (simp_all add: wpo_mret)
  have "wpo s d (VolatileMwCAS n tid depth d) (concluded s d m0) (\<lambda>_ _. True) (mem s) kStatusUndecided"
    unfolding N VolatileMwCAS_phases using ph assms(6)
    by (intro wpo_mbind wpo_check_protected [OF assms(2)] wpo_mget) (auto intro!: wpo_mbind)
  note run = wpoD [where v = "nv s" and b = "budget s", OF this, unfolded s]
  have "wp (VolatileMwCAS n tid depth d) (\<lambda>x s'. \<exists>m' st' b' v'. s' = opst s d m' st' b' v' \<and> concluded s d m0 x m' st') (\<lambda>_. True) s"
    by (rule wp_mono [OF run]) auto
  then show ?thesis
    by (rule wp_DoneE [OF _ assms(7)]) (use concluded_spec(1) [OF assms(1)] in \<open>force simp: prod_eq_iff\<close>)
qed

section \<open>Operations that cross\<close>

text \<open>The operation \<open>d\<close> is undecided and holds its first word, while the operation \<open>d'\<close> holds its second one.\<close>

definition crossing :: "mw_world \<Rightarrow> u64 \<Rightarrow> nat \<Rightarrow> nat \<Rightarrow> bool" where
  "crossing s tid d d' \<longleftrightarrow> pool_ok (pool s) \<and> d < pool_size (pool s) \<and> d' < pool_size (pool s) \<and> d \<noteq> d' \<and> budget s = None \<and>
     protected_thread s d tid \<and> d_status (descs s d) = kStatusUndecided \<and> d_count (descs s d) = 2 \<and>
     (\<forall>i < 2. address (wrd s d i) \<noteq> kAllocNullAddress \<and> IsCleanPtr (old_value (wrd s d i))) \<and>
     mem s (address (wrd s d 0)) = dptr s d \<and> mem s (address (wrd s d 1)) = dptr s d'"

lemma CondCAS_held:
  assumes "pool_ok (pool s)" and "k < pool_size (pool s)" and "budget s = None" and "IsCleanPtr (old_value (wrd s d i))"
    and v: "mem s (address (wrd s d i)) = dptr s k"
  shows "CondCAS n d i 0 s = (if n = 0 then NoFuel else Done (dptr s k) s)"
proof (cases n)
  case (Suc n')
  have "\<not> IsCondCASDescriptorPtr (dptr s k)" "dptr s k \<noteq> old_value (wrd s d i)"
    using assms(1,2,4) tag_neq [of "old_value (wrd s d i)" "desc_addr (pool s) k"] by (auto simp: dptr_def)
  then show ?thesis
    using assms unfolding Suc CondCAS.simps wrd_def
    by (simp add: SetFlags_eq mbind_def mget_def mlift_def CompareExchange64_def mstore_def mret_def)
qed (simp add: no_fuel_def)

lemma crossing_install:
  assumes c: "crossing s tid d d'" and h: "\<And>k dep. k < n \<Longrightarrow> VolatileMwCAS k tid dep d' s = NoFuel"
  shows "vol_install_word n tid depth d 0 s = (if n \<le> 1 then NoFuel else Done True s)"
    and "vol_install_word n tid depth d 1 s = NoFuel"
proof -
  have o: "IsCleanPtr (old_value (wrd s d i))" if "i < 2" for i using c that by (simp add: crossing_def)
  have p: "pool_ok (pool s)" "d < pool_size (pool s)" "d' < pool_size (pool s)" "budget s = None"
    and v: "mem s (address (wrd s d 0)) = dptr s d" "mem s (address (wrd s d 1)) = dptr s d'" and ne: "d \<noteq> d'"
    using c by (auto simp: crossing_def)
  have nd: "dptr s d' \<noteq> dptr s d"
  proof
    assume "dptr s d' = dptr s d"
    then have "CleanPtr (dptr s d') = CleanPtr (dptr s d)" by simp
    then have "desc_at (pool s) (desc_addr (pool s) d') = desc_at (pool s) (desc_addr (pool s) d)" using p by (simp add: dptr_def)
    then show False using desc_at_addr p ne by simp
  qed
  have f: "IsMwCASDescriptorPtr (dptr s d')" "CleanPtr (dptr s d') = desc_addr (pool s) d'" "dptr s d' \<noteq> old_value (wrd s d 1)"
    using p tag_neq [OF o, of 1 "desc_addr (pool s) d'"] by (auto simp: dptr_def)
  show "vol_install_word n tid depth d 0 s = (if n \<le> 1 then NoFuel else Done True s)"
    using CondCAS_held [OF p(1,2,4) o v(1)]
    by (cases n) (simp_all add: no_fuel_def mbind_def mget_def mlift_def mret_def dptr_def)
  show "vol_install_word n tid depth d 1 s = NoFuel"
    using CondCAS_held [OF p(1,3,4) o v(2)] h f nd desc_at_addr [OF p(1,3)]
    by (cases n) (simp_all add: no_fuel_def mbind_def mget_def mlift_def mret_def dptr_def wrd_def)
qed

text \<open>A thread that runs or helps one of two operations that cross never returns: it helps the other one, which helps
  the first one again. (In the persistent build the entries are sorted, so two operations cannot cross.)\<close>

lemma volatile_crossed_operations_recurse:
  assumes "crossing s tid d d'" and "crossing s tid d' d"
  shows "VolatileMwCAS n tid depth d s = NoFuel"
  using assms
proof (induction n arbitrary: d d' depth rule: less_induct)
  case (less n)
  show ?case
  proof (cases n)
    case (Suc k)
    have h: "VolatileMwCAS j tid dep d' s = NoFuel" if "j < k" for j dep using less.IH [of j d' d dep] less.prems Suc that by simp
    have a: "address (words (descs s d) ! i) \<noteq> kAllocNullAddress" if "i < 2" for i
      using less.prems(1) that by (simp add: crossing_def wrd_def)
    have "check_protected tid d s = Done () s"
      using less.prems(1) by (auto simp: crossing_def protected_thread_def check_protected_def)
    moreover have "[0..<2] = [0, 1::nat]" by (simp add: upt_rec)
    ultimately show ?thesis
      using less.prems(1) crossing_install [OF less.prems(1) h, of k] a
      unfolding Suc VolatileMwCAS.simps
      by (simp add: crossing_def mbind_def mget_def)
  qed (simp add: no_fuel_def)
qed

text \<open>Two operations on the words 8200 and 8192, each of which has installed its first entry.\<close>

definition crossed_demo :: mw_world where
  "crossed_demo = (demo None)\<lparr>mem := (\<lambda>_. 0)(8200 := 4096 OR kMwCASFlag, 8192 := 4352 OR kMwCASFlag),
     descs := (\<lambda>_. zero_desc)(0 := demo_desc\<lparr>d_status := kStatusUndecided\<rparr>,
       1 := demo_desc\<lparr>d_status := kStatusUndecided, words := [demo_entry 8192 5 6, demo_entry 8200 7 9, empty_word, empty_word]\<rparr>)\<rparr>"

lemma crossed_demo_crosses: "crossing crossed_demo 7 0 1" "crossing crossed_demo 7 1 0"
proof -
  have p: "protected_thread crossed_demo d 7" if "d \<in> {0, 1}" for d
    using that demo_epochs_spec(2)
    by (auto simp: crossed_demo_def protected_thread_def the_part_def demo_desc_def demo_pool_def fresh_garbage_def)
  have c: "IsCleanPtr 5" "IsCleanPtr 7" by (simp_all add: small_clean)
  have i: "(\<forall>i < 2. P i) \<longleftrightarrow> P 0 \<and> P (Suc 0)" for P :: "nat \<Rightarrow> bool" by (auto simp: less_2_cases_iff)
  show "crossing crossed_demo 7 0 1" "crossing crossed_demo 7 1 0"
    unfolding crossing_def i using p c
    by (simp_all add: crossed_demo_def wrd_def dptr_def desc_addr_def demo_pool_def pool_ok_def demo_desc_def demo_entry_def
        kAllocNullAddress_def)
qed

lemma volatile_crossed_example: "VolatileMwCAS n 7 0 0 crossed_demo = NoFuel"
  by (rule volatile_crossed_operations_recurse [OF crossed_demo_crosses])

end
