(* ===== verification/DList.thy ===== *)
theory DList
  imports DescPool
begin

text \<open>
  The doubly-linked lists of \<open>double-linked-list/\<close>: the nodes and the sanity check shared by both
  (\<open>IDList\<close>), the list built on single-word compare-and-swap (\<open>CASDList\<close>), the list built on \<open>MwCAS\<close>
  (\<open>MwCASDList\<close>) and the cursor.

  A node is the address of its cache line: \<open>prev\<close> at offset 0, \<open>next\<close> at offset 8, the 32-bit
  \<open>payload_size\<close> at offset 16, the payload behind the line. Both lists mark a node as deleted with bit
  60 of its links. Loops take fuel, the theorems say how much is enough. \<open>CASDList::backoff\<close> only delays
  the next attempt and is left out.
\<close>

section \<open>Nodes and the common base\<close>

definition kNodeDeleted :: u64 where "kNodeDeleted = push_bit 60 1"

definition is_deleted :: "u64 \<Rightarrow> bool" where
  "is_deleted p \<longleftrightarrow> p AND kNodeDeleted \<noteq> 0"

definition prev_of :: "u64 \<Rightarrow> u64" where "prev_of node = node"
definition next_of :: "u64 \<Rightarrow> u64" where "next_of node = node + 8"
definition size_of :: "u64 \<Rightarrow> u64" where "size_of node = node + 16"
definition GetPayload :: "u64 \<Rightarrow> u64" where "GetPayload node = node + 64"

definition payload_size :: "mw_world \<Rightarrow> u64 \<Rightarrow> u32" where
  "payload_size s node = ucast (mem s (size_of node))"

definition store_word :: "u64 \<Rightarrow> u64 \<Rightarrow> unit mw" where
  "store_word a v = mstore (set_mem a v)"

definition load_word :: "u64 \<Rightarrow> u64 mw" where
  "load_word a = mget (\<lambda>s. mem s a)"

definition DListNode_init :: "u64 \<Rightarrow> u64 \<Rightarrow> u64 \<Rightarrow> u32 \<Rightarrow> unit mw" where
  "DListNode_init node p n sz =
     mbind (store_word (prev_of node) p) (\<lambda>_.
     mbind (store_word (next_of node) n) (\<lambda>_.
     mbind (load_word (size_of node)) (\<lambda>old.
     store_word (size_of node) ((old AND NOT (ucast (NOT 0 :: u32))) OR ucast sz))))"

text \<open>\<open>NewNode\<close>: \<open>node\<close> is the block the allocator returns.\<close>

definition NewNode :: "u64 \<Rightarrow> u64 \<Rightarrow> u64 \<Rightarrow> u32 \<Rightarrow> u64 mw" where
  "NewNode node p n sz =
     mbind (mcheck (node \<noteq> 0) (BadAccess ''null node'')) (\<lambda>_.
     mbind (DListNode_init node p n sz) (\<lambda>_. mret node))"

datatype sync_method = kSyncUnknown | kSyncMwCAS | kSyncCAS

record dlist =
  list_head :: u64
  list_tail :: u64
  list_sync :: sync_method

definition IDList_init :: "u64 \<Rightarrow> u64 \<Rightarrow> sync_method \<Rightarrow> dlist mw" where
  "IDList_init h t sync =
     mbind (DListNode_init h 0 t 0) (\<lambda>_.
     mbind (DListNode_init t h 0 0) (\<lambda>_. mret \<lparr>list_head = h, list_tail = t, list_sync = sync\<rparr>))"

definition CASDList_init :: "u64 \<Rightarrow> u64 \<Rightarrow> dlist mw" where
  "CASDList_init h t = IDList_init h t kSyncCAS"

definition MwCASDList_init :: "u64 \<Rightarrow> u64 \<Rightarrow> dlist mw" where
  "MwCASDList_init h t = IDList_init h t kSyncMwCAS"

definition clear_dirty_at :: "u64 \<Rightarrow> unit mw" where
  "clear_dirty_at a = mbind (load_word a) (\<lambda>v. store_word a (v AND NOT kDirtyFlag))"

fun sanity_loop :: "nat \<Rightarrow> dlist \<Rightarrow> u64 \<Rightarrow> u64 \<Rightarrow> unit mw" where
  "sanity_loop 0 l prev node = no_fuel"
| "sanity_loop (Suc n) l prev node =
     mbind (mcheck (node \<noteq> 0) (BadAccess ''null dlist node'')) (\<lambda>_.
     mbind (clear_dirty_at (next_of node)) (\<lambda>_.
     mbind (clear_dirty_at (prev_of node)) (\<lambda>_.
     mbind (mcheck (node \<noteq> 0) (RawCheck ''null dlist node'')) (\<lambda>_.
     mbind (load_word (next_of prev)) (\<lambda>pn.
     mbind (mcheck (pn = node) (RawCheck ''node.prev doesn't match prev.next'')) (\<lambda>_.
     mbind (load_word (prev_of node)) (\<lambda>np.
     mbind (mcheck (np = prev) (RawCheck ''node.prev doesn't match prev.next'')) (\<lambda>_.
     mbind (load_word (next_of node)) (\<lambda>node'.
       if node' = 0 then mret ()
       else mbind (load_word (next_of node')) (\<lambda>nn.
              if nn = list_tail l then mret () else sanity_loop n l node node'))))))))))"

definition SingleThreadSanityCheck :: "nat \<Rightarrow> dlist \<Rightarrow> unit mw" where
  "SingleThreadSanityCheck n l =
     mbind (load_word (prev_of (list_head l))) (\<lambda>hp.
     mbind (mcheck (hp = 0) (RawCheck ''head.prev doesn't point to null'')) (\<lambda>_.
     mbind (load_word (next_of (list_head l))) (\<lambda>hn.
     mbind (mcheck (hn \<noteq> 0) (RawCheck ''head.next is null'')) (\<lambda>_.
     mbind (load_word (prev_of (list_tail l))) (\<lambda>tp.
     mbind (mcheck (tp \<noteq> 0) (RawCheck ''tail.prev is null'')) (\<lambda>_.
     mbind (load_word (next_of (list_tail l))) (\<lambda>tn.
     mbind (mcheck (tn = 0) (RawCheck ''tail.next doesn't point to null'')) (\<lambda>_.
     mbind (clear_dirty_at (next_of (list_head l))) (\<lambda>_.
     mbind (load_word (next_of (list_head l))) (\<lambda>node.
     sanity_loop n l (list_head l) node))))))))))"

section \<open>The list on single-word CAS\<close>

fun MarkNodePointer :: "nat \<Rightarrow> dlist \<Rightarrow> u64 \<Rightarrow> unit mw" where
  "MarkNodePointer 0 l a = no_fuel"
| "MarkNodePointer (Suc n) l a =
     mbind (load_word a) (\<lambda>p.
     mbind (mcheck (a \<noteq> next_of (list_head l)) (RawCheck ''cannot mark head node's next pointer'')) (\<lambda>_.
       if is_deleted p then mret ()
       else mbind (CompareExchange64 a (p OR (kNodeDeleted OR kDirtyFlag)) p) (\<lambda>r.
              if r = p then mret () else MarkNodePointer n l a)))"

definition ReadPersist :: "u64 \<Rightarrow> u64 mw" where
  "ReadPersist a =
     mbind (load_word a) (\<lambda>p.
     mbind (mwhen (IsDirtyPtr p)
       (mbind (Flush 8 a) (\<lambda>_.
        mbind (CompareExchange64 a (p AND NOT kDirtyFlag) p) (\<lambda>_. mret ())))) (\<lambda>_.
     mret (p AND NOT kDirtyFlag)))"

definition DereferenceNodePointer :: "u64 \<Rightarrow> u64 mw" where
  "DereferenceNodePointer a = mbind (ReadPersist a) (\<lambda>p. mret (p AND NOT kNodeDeleted))"

definition MarkedNext :: "u64 \<Rightarrow> bool mw" where
  "MarkedNext node = mbind (load_word (next_of node)) (\<lambda>p. mret (is_deleted p))"

definition MarkedPrev :: "u64 \<Rightarrow> bool mw" where
  "MarkedPrev node = mbind (load_word (prev_of node)) (\<lambda>p. mret (is_deleted p))"

fun CASDList_GetNext :: "nat \<Rightarrow> dlist \<Rightarrow> u64 \<Rightarrow> u64 mw" where
  "CASDList_GetNext 0 l node = no_fuel"
| "CASDList_GetNext (Suc n) l node =
     (if node = list_tail l then mret 0
      else
        mbind (mcheck (node \<noteq> 0) (RawCheck ''null current node'')) (\<lambda>_.
        mbind (DereferenceNodePointer (next_of node)) (\<lambda>next.
        mbind (mcheck (next \<noteq> 0) (RawCheck ''null next pointer in list'')) (\<lambda>_.
        mbind (mcheck (\<not> IsDirtyPtr next) (RawCheck ''dirty pointer'')) (\<lambda>_.
        mbind (ReadPersist (next_of next)) (\<lambda>next_next.
          if is_deleted next_next then
            mbind (ReadPersist (next_of node)) (\<lambda>node_next.
              if node_next \<noteq> next OR kNodeDeleted then
                mbind (MarkNodePointer n l (prev_of next)) (\<lambda>_.
                mbind (CompareExchange64 (next_of node) ((next_next OR kDirtyFlag) AND NOT kNodeDeleted) next) (\<lambda>_.
                CASDList_GetNext n l node))
              else CASDList_GetNext n l next)
          else mret next))))))"

text \<open>\<open>CorrectPrev\<close>; \<open>last_link\<close> is null at the start.\<close>

fun correct_prev :: "nat \<Rightarrow> dlist \<Rightarrow> u64 \<Rightarrow> u64 \<Rightarrow> u64 \<Rightarrow> u64 mw" where
  "correct_prev 0 l last_link prev node = no_fuel"
| "correct_prev (Suc n) l last_link prev node =
     mbind (ReadPersist (prev_of node)) (\<lambda>link1.
       if is_deleted link1 then mret prev
       else
         (let prev_cleared = prev AND NOT kNodeDeleted in
          mbind (ReadPersist (next_of prev_cleared)) (\<lambda>prev_next.
            if is_deleted prev_next then
              (if last_link \<noteq> 0 then
                 mbind (MarkNodePointer n l (prev_of prev_cleared)) (\<lambda>_.
                 mbind (CompareExchange64 (next_of last_link) ((prev_next AND NOT kNodeDeleted) OR kDirtyFlag) prev) (\<lambda>_.
                 correct_prev n l 0 last_link node))
               else
                 mbind (ReadPersist (prev_of prev_cleared)) (\<lambda>pp.
                 mbind (mcheck (pp \<noteq> 0) (RawCheck ''invalid prev pointer'')) (\<lambda>_.
                 correct_prev n l last_link pp node)))
            else if prev_next \<noteq> node then correct_prev n l prev_cleared prev_next node
            else
              mbind (CompareExchange64 (prev_of node) ((prev AND NOT kNodeDeleted) OR kDirtyFlag) link1) (\<lambda>r.
                if r = link1 then
                  mbind (ReadPersist (prev_of prev_cleared)) (\<lambda>pcp.
                    if is_deleted pcp then correct_prev n l last_link prev node else mret prev)
                else correct_prev n l last_link prev node))))"

definition CorrectPrev :: "nat \<Rightarrow> dlist \<Rightarrow> u64 \<Rightarrow> u64 \<Rightarrow> u64 mw" where
  "CorrectPrev n l prev node =
     mbind (mcheck (\<not> is_deleted node) (RawCheck ''node has deleted mark'')) (\<lambda>_.
     mbind (mcheck (\<not> IsDirtyPtr node) (RawCheck ''dirty node pointer'')) (\<lambda>_.
     mbind (correct_prev n l 0 prev node) (\<lambda>r.
     mbind (mcheck (\<not> IsDirtyPtr r) (RawCheck ''dirty prev pointer'')) (\<lambda>_. mret r))))"

fun CASDList_GetPrev :: "nat \<Rightarrow> dlist \<Rightarrow> u64 \<Rightarrow> u64 mw" where
  "CASDList_GetPrev 0 l node = no_fuel"
| "CASDList_GetPrev (Suc n) l node =
     (if node = list_head l then mret 0
      else
        mbind (mcheck (node \<noteq> 0) (RawCheck ''null current node'')) (\<lambda>_.
        mbind (DereferenceNodePointer (prev_of node)) (\<lambda>prev.
        mbind (mcheck (prev \<noteq> 0) (RawCheck ''null prev pointer in list'')) (\<lambda>_.
        mbind (mcheck (\<not> IsDirtyPtr prev) (RawCheck ''dirty pointer'')) (\<lambda>_.
        mbind (ReadPersist (next_of prev)) (\<lambda>prev_next.
        mbind (ReadPersist (next_of node)) (\<lambda>next.
          if prev_next = node \<and> \<not> is_deleted next then mret prev
          else if is_deleted next then mbind (CASDList_GetNext n l node) (\<lambda>node'. CASDList_GetPrev n l node')
          else mbind (CorrectPrev n l prev node) (\<lambda>_. CASDList_GetPrev n l node))))))))"

definition flush_payload :: "u64 \<Rightarrow> unit mw" where
  "flush_payload node = mbind (mget (\<lambda>s. payload_size s node)) (\<lambda>sz. Flush (ucast sz) (GetPayload node))"

text \<open>The loop of \<open>InsertBefore\<close> with what follows it.\<close>

fun cas_before_loop :: "nat \<Rightarrow> dlist \<Rightarrow> u64 \<Rightarrow> u64 \<Rightarrow> status mw" where
  "cas_before_loop 0 l next node = no_fuel"
| "cas_before_loop (Suc n) l next node =
     mbind (DereferenceNodePointer (prev_of next)) (\<lambda>prev.
     mbind (ReadPersist (next_of next)) (\<lambda>next_next.
       if is_deleted next_next then
         mbind (CASDList_GetNext n l next) (\<lambda>next'.
         mbind (mcheck (\<not> IsDirtyPtr next') (RawCheck ''dirty next pointer'')) (\<lambda>_.
         mbind (CorrectPrev n l prev next') (\<lambda>prev'.
         mbind (mcheck (\<not> IsDirtyPtr prev') (RawCheck ''dirty prev pointer'')) (\<lambda>_.
         cas_before_loop n l next' node))))
       else
         mbind (store_word (prev_of node) (prev AND NOT kNodeDeleted)) (\<lambda>_.
         mbind (store_word (next_of node) (next AND NOT kNodeDeleted)) (\<lambda>_.
         mbind (Flush 16 (prev_of node)) (\<lambda>_.
           let expected = next AND NOT kNodeDeleted in
         mbind (CompareExchange64 (next_of prev) node expected) (\<lambda>r.
           if r = expected then
             mbind (mcheck (prev \<noteq> 0) (RawCheck ''invalid prev pointer'')) (\<lambda>_.
             mbind (CorrectPrev n l prev next) (\<lambda>_. mret Status_OK))
           else mbind (CorrectPrev n l prev next) (\<lambda>_. cas_before_loop n l next node)))))))"

text \<open>\<open>InsertBefore\<close> and \<open>InsertAfter\<close> call each other; the former takes the latter as an argument.\<close>

definition cas_insert_before :: "(u64 \<Rightarrow> u64 \<Rightarrow> status mw) \<Rightarrow> nat \<Rightarrow> dlist \<Rightarrow> u64 \<Rightarrow> u64 \<Rightarrow> status mw" where
  "cas_insert_before insert_after n l next node =
     mbind (mcheck (\<not> is_deleted next) (RawCheck ''invalid next pointer state'')) (\<lambda>_.
     mbind (mcheck (\<not> IsDirtyPtr node) (RawCheck ''dirty node pointer'')) (\<lambda>_.
     mbind (mcheck (\<not> IsDirtyPtr next) (RawCheck ''dirty next pointer'')) (\<lambda>_.
       if next = list_head l then insert_after next node
       else mbind (flush_payload node) (\<lambda>_. cas_before_loop n l next node))))"

fun delete_prev_loop :: "nat \<Rightarrow> u64 \<Rightarrow> u64 mw" where
  "delete_prev_loop 0 node = no_fuel"
| "delete_prev_loop (Suc n) node =
     mbind (ReadPersist (prev_of node)) (\<lambda>node_prev.
       if is_deleted node_prev then mret node_prev
       else mbind (CompareExchange64 (prev_of node) (node_prev OR kNodeDeleted OR kDirtyFlag) node_prev) (\<lambda>r.
              if r = node_prev then mret node_prev else delete_prev_loop n node))"

fun delete_loop :: "nat \<Rightarrow> dlist \<Rightarrow> u64 \<Rightarrow> status mw" where
  "delete_loop 0 l node = no_fuel"
| "delete_loop (Suc n) l node =
     mbind (ReadPersist (next_of node)) (\<lambda>node_next.
       if is_deleted node_next then mret Status_OK
       else
         mbind (CompareExchange64 (next_of node) (node_next OR kNodeDeleted OR kDirtyFlag) node_next) (\<lambda>rnode.
           if rnode = node_next then
             mbind (delete_prev_loop n node) (\<lambda>node_prev.
             mbind (mcheck (node_prev \<noteq> 0) (RawCheck ''invalid node_prev pointer'')) (\<lambda>_.
             mbind (load_word (next_of (list_head l))) (\<lambda>hn.
             mbind (mcheck (\<not> is_deleted hn) (RawCheck ''invalid next pointer'')) (\<lambda>_.
             mbind (CorrectPrev n l (node_prev AND NOT kNodeDeleted) node_next) (\<lambda>_. mret Status_OK)))))
           else delete_loop n l node))"

definition CASDList_Delete :: "nat \<Rightarrow> dlist \<Rightarrow> u64 \<Rightarrow> status mw" where
  "CASDList_Delete n l node =
     mbind (mcheck (\<not> IsDirtyPtr node) (RawCheck ''dirty node pointer'')) (\<lambda>_.
       if node = list_head l \<or> node = list_tail l then
         mbind (load_word (next_of node)) (\<lambda>nx.
         mbind (mcheck (\<not> is_deleted nx) (RawCheck ''invalid next pointer'')) (\<lambda>_.
         mbind (load_word (prev_of node)) (\<lambda>pv.
         mbind (mcheck (\<not> is_deleted pv) (RawCheck ''invalid next pointer'')) (\<lambda>_. mret Status_OK))))
       else delete_loop n l node)"

fun cas_after_loop :: "nat \<Rightarrow> (u64 \<Rightarrow> u64 \<Rightarrow> status mw) \<Rightarrow> dlist \<Rightarrow> u64 \<Rightarrow> u64 \<Rightarrow> status mw" where
  "cas_after_loop 0 insert_before l prev node = no_fuel"
| "cas_after_loop (Suc n) insert_before l prev node =
     mbind (ReadPersist (next_of prev)) (\<lambda>prev_next.
     mbind (store_word (prev_of node) (prev AND NOT kNodeDeleted)) (\<lambda>_.
     mbind (store_word (next_of node) (prev_next AND NOT kNodeDeleted)) (\<lambda>_.
     mbind (Flush 16 (prev_of node)) (\<lambda>_.
       let expected = prev_next AND NOT kNodeDeleted in
     mbind (CompareExchange64 (next_of prev) node expected) (\<lambda>r.
       if r = expected then
         mbind (mcheck (prev_next \<noteq> 0) (RawCheck ''invalid prev_next pointer'')) (\<lambda>_.
         mbind (CorrectPrev n l prev prev_next) (\<lambda>_. mret Status_OK))
       else if is_deleted prev_next then
         mbind (CASDList_Delete n l node) (\<lambda>_. insert_before prev node)
       else cas_after_loop n insert_before l prev node)))))"

fun CASDList_InsertAfter :: "nat \<Rightarrow> dlist \<Rightarrow> u64 \<Rightarrow> u64 \<Rightarrow> status mw" where
  "CASDList_InsertAfter 0 l prev node = no_fuel"
| "CASDList_InsertAfter (Suc n) l prev node =
     mbind (mcheck (\<not> is_deleted prev) (RawCheck ''invalid prev pointer state'')) (\<lambda>_.
     mbind (mcheck (\<not> IsDirtyPtr node) (RawCheck ''dirty node pointer'')) (\<lambda>_.
     mbind (mcheck (\<not> IsDirtyPtr prev) (RawCheck ''dirty next pointer'')) (\<lambda>_.
       if prev = list_tail l then cas_insert_before (CASDList_InsertAfter n l) n l prev node
       else mbind (flush_payload node) (\<lambda>_.
            cas_after_loop n (cas_insert_before (CASDList_InsertAfter n l) n l) l prev node))))"

definition CASDList_InsertBefore :: "nat \<Rightarrow> dlist \<Rightarrow> u64 \<Rightarrow> u64 \<Rightarrow> status mw" where
  "CASDList_InsertBefore n l next node = cas_insert_before (CASDList_InsertAfter n l) n l next node"

section \<open>The list on MwCAS\<close>

definition GetEpoch :: "nat mw" where
  "GetEpoch = mget (\<lambda>s. pool_epoch (pool s))"

definition ResolveNodePointer :: "nat \<Rightarrow> u64 \<Rightarrow> u64 \<Rightarrow> bool \<Rightarrow> u64 mw" where
  "ResolveNodePointer n tid a already_protected =
     (if already_protected then GetValueProtected n tid a
      else mbind GetEpoch (\<lambda>m. GetValue n tid m a))"

definition MwCASDList_GetNext :: "nat \<Rightarrow> u64 \<Rightarrow> u64 \<Rightarrow> bool \<Rightarrow> u64 mw" where
  "MwCASDList_GetNext n tid node already_protected =
     mbind (ResolveNodePointer n tid (next_of (node AND NOT kNodeDeleted)) already_protected)
       (\<lambda>next. mret (next AND NOT kNodeDeleted))"

definition MwCASDList_GetPrev :: "nat \<Rightarrow> u64 \<Rightarrow> u64 \<Rightarrow> bool \<Rightarrow> u64 mw" where
  "MwCASDList_GetPrev n tid node already_protected =
     mbind (ResolveNodePointer n tid (prev_of (node AND NOT kNodeDeleted)) already_protected)
       (\<lambda>prev. mret (prev AND NOT kNodeDeleted))"

text \<open>\<open>EpochGuard guard(GetEpoch(), !already_protected)\<close> around the body of an operation.\<close>

definition guarded :: "u64 \<Rightarrow> bool \<Rightarrow> 'a mw \<Rightarrow> 'a mw" where
  "guarded tid already_protected body =
     mbind GetEpoch (\<lambda>m.
     mbind (epoch_step (EpochGuard m (\<not> already_protected) tid)) (\<lambda>g.
     mbind body (\<lambda>x.
     mbind (epoch_step (\<lambda>w. rbind (EpochGuard_destroy g tid w) (\<lambda>w'. Inr ((), w')))) (\<lambda>_. mret x))))"

fun mw_before_loop :: "nat \<Rightarrow> u64 \<Rightarrow> u64 \<Rightarrow> u64 \<Rightarrow> status mw" where
  "mw_before_loop 0 tid next node = no_fuel"
| "mw_before_loop (Suc n) tid next node =
     mbind (mcheck (\<not> is_deleted next) (RawCheck ''invalid prev pointer'')) (\<lambda>_.
     mbind (ResolveNodePointer n tid (prev_of next) True) (\<lambda>prev.
     mbind (ResolveNodePointer n tid (next_of next) True) (\<lambda>next_next.
       if is_deleted prev \<or> is_deleted next_next then
         mbind (MwCASDList_GetNext n tid next True) (\<lambda>next'. mw_before_loop n tid next' node)
       else
         mbind (ResolveNodePointer n tid (next_of prev) True) (\<lambda>prev_next.
           if is_deleted prev_next then mw_before_loop n tid next node
           else
             mbind (store_word (next_of node) next) (\<lambda>_.
             mbind (store_word (prev_of node) prev) (\<lambda>_.
             mbind (Flush 16 (prev_of node)) (\<lambda>_.
             mbind (mcheck (IsCleanPtr prev) (RawCheck ''prev is not normal value'')) (\<lambda>_.
             mbind (mcheck (IsCleanPtr next) (RawCheck ''next is not normal value'')) (\<lambda>_.
             mbind (AllocateDescriptor n tid NullCallback NullCallback) (\<lambda>desc.
             mbind (load_word (prev_of node)) (\<lambda>node_prev.
             mbind (load_word (next_of node)) (\<lambda>node_next.
             mbind (AddEntry tid desc (next_of node_prev) node_next node kRecycleNever) (\<lambda>_.
             mbind (AddEntry tid desc (prev_of next) node_prev node kRecycleNever) (\<lambda>_.
             mbind (MwCAS n tid desc) (\<lambda>ok.
               if ok then mret Status_OK else mw_before_loop n tid next node)))))))))))))))"

definition mw_insert_before ::
  "(u64 \<Rightarrow> u64 \<Rightarrow> bool \<Rightarrow> status mw) \<Rightarrow> nat \<Rightarrow> u64 \<Rightarrow> dlist \<Rightarrow> u64 \<Rightarrow> u64 \<Rightarrow> bool \<Rightarrow> status mw" where
  "mw_insert_before insert_after n tid l next node already_protected =
     (if next = list_head l then insert_after next node already_protected
      else guarded tid already_protected
             (mbind (flush_payload node) (\<lambda>_. mw_before_loop n tid next node)))"

fun mw_after_loop :: "nat \<Rightarrow> u64 \<Rightarrow> u64 \<Rightarrow> u64 \<Rightarrow> status mw" where
  "mw_after_loop 0 tid prev node = no_fuel"
| "mw_after_loop (Suc n) tid prev node =
     mbind (mcheck (\<not> is_deleted prev) (RawCheck ''invalid prev pointer'')) (\<lambda>_.
     mbind (ResolveNodePointer n tid (next_of prev) True) (\<lambda>next.
       if is_deleted next then
         mbind (MwCASDList_GetPrev n tid prev True) (\<lambda>prev'. mw_after_loop n tid prev' node)
       else
         mbind (ResolveNodePointer n tid (next_of next) True) (\<lambda>next_next.
           if is_deleted next_next then mw_after_loop n tid prev node
           else
             mbind (mcheck (\<not> is_deleted next) (RawCheck ''deleted prev node'')) (\<lambda>_.
             mbind (mcheck (IsCleanPtr prev) (RawCheck ''next is not normal value'')) (\<lambda>_.
             mbind (mcheck (IsCleanPtr next) (RawCheck ''next is not normal value'')) (\<lambda>_.
             mbind (store_word (prev_of node) prev) (\<lambda>_.
             mbind (store_word (next_of node) next) (\<lambda>_.
             mbind (Flush 16 (prev_of node)) (\<lambda>_.
             mbind (AllocateDescriptor n tid NullCallback NullCallback) (\<lambda>desc.
             mbind (load_word (next_of node)) (\<lambda>node_next.
             mbind (AddEntry tid desc (next_of prev) node_next node kRecycleNever) (\<lambda>_.
             mbind (load_word (prev_of node)) (\<lambda>node_prev.
             mbind (AddEntry tid desc (prev_of node_next) node_prev node kRecycleNever) (\<lambda>_.
             mbind (MwCAS n tid desc) (\<lambda>ok.
               if ok then mret Status_OK else mw_after_loop n tid prev node)))))))))))))))"

fun MwCASDList_InsertAfter :: "nat \<Rightarrow> u64 \<Rightarrow> dlist \<Rightarrow> u64 \<Rightarrow> u64 \<Rightarrow> bool \<Rightarrow> status mw" where
  "MwCASDList_InsertAfter 0 tid l prev node already_protected = no_fuel"
| "MwCASDList_InsertAfter (Suc n) tid l prev node already_protected =
     (if prev = list_tail l then
        mw_insert_before (MwCASDList_InsertAfter n tid l) n tid l prev node already_protected
      else guarded tid already_protected
             (mbind (flush_payload node) (\<lambda>_. mw_after_loop n tid prev node)))"

definition MwCASDList_InsertBefore :: "nat \<Rightarrow> u64 \<Rightarrow> dlist \<Rightarrow> u64 \<Rightarrow> u64 \<Rightarrow> bool \<Rightarrow> status mw" where
  "MwCASDList_InsertBefore n tid l next node already_protected =
     mw_insert_before (MwCASDList_InsertAfter n tid l) n tid l next node already_protected"

fun mw_delete_loop :: "nat \<Rightarrow> u64 \<Rightarrow> dlist \<Rightarrow> u64 \<Rightarrow> status mw" where
  "mw_delete_loop 0 tid l node = no_fuel"
| "mw_delete_loop (Suc n) tid l node =
     mbind (load_word (next_of node)) (\<lambda>node_next.
       if is_deleted node_next then mret Status_OK
       else if node = list_head l \<or> node = list_tail l then
         mbind (load_word (next_of node)) (\<lambda>nx.
         mbind (mcheck (\<not> is_deleted nx) (RawCheck ''invalid next pointer'')) (\<lambda>_.
         mbind (load_word (prev_of node)) (\<lambda>pv.
         mbind (mcheck (\<not> is_deleted pv) (RawCheck ''invalid next pointer'')) (\<lambda>_. mret Status_OK))))
       else
         mbind (ResolveNodePointer n tid (prev_of node) True) (\<lambda>prev.
         mbind (ResolveNodePointer n tid (next_of node) True) (\<lambda>next.
         mbind (load_word (next_of prev)) (\<lambda>prev_next.
         mbind (if prev_next \<noteq> node then mret True else mbind (load_word (prev_of next)) (\<lambda>np. mret (np \<noteq> node))) (\<lambda>stale.
           if stale then mw_delete_loop n tid l node
           else
             mbind (AllocateDescriptor n tid NullCallback NullCallback) (\<lambda>desc.
             mbind (AddEntry tid desc (next_of prev) node next kRecycleNever) (\<lambda>_.
             mbind (AddEntry tid desc (prev_of next) node prev kRecycleNever) (\<lambda>_.
             mbind (AddEntry tid desc (next_of node) next (next OR kNodeDeleted) kRecycleNever) (\<lambda>_.
             mbind (MwCAS n tid desc) (\<lambda>ok.
               if ok then mret Status_OK else mw_delete_loop n tid l node))))))))))"

definition MwCASDList_Delete :: "nat \<Rightarrow> u64 \<Rightarrow> dlist \<Rightarrow> u64 \<Rightarrow> bool \<Rightarrow> status mw" where
  "MwCASDList_Delete n tid l node already_protected = guarded tid already_protected (mw_delete_loop n tid l node)"

section \<open>The cursor\<close>

text \<open>The virtual calls of \<open>IDList\<close>, dispatched on the kind of list.\<close>

definition IDList_GetNext :: "nat \<Rightarrow> u64 \<Rightarrow> dlist \<Rightarrow> u64 \<Rightarrow> bool \<Rightarrow> u64 mw" where
  "IDList_GetNext n tid l node already_protected =
     (if list_sync l = kSyncMwCAS then MwCASDList_GetNext n tid node already_protected
      else CASDList_GetNext n l node)"

definition IDList_GetPrev :: "nat \<Rightarrow> u64 \<Rightarrow> dlist \<Rightarrow> u64 \<Rightarrow> bool \<Rightarrow> u64 mw" where
  "IDList_GetPrev n tid l node already_protected =
     (if list_sync l = kSyncMwCAS then MwCASDList_GetPrev n tid node already_protected
      else CASDList_GetPrev n l node)"

text \<open>\<open>unprot\<close> is only assigned for a list on \<open>MwCAS\<close>, and only read there.\<close>

record cursor =
  cursor_list :: dlist
  current_node :: u64
  unprot :: bool

definition DListCursor :: "u64 \<Rightarrow> dlist \<Rightarrow> cursor mw" where
  "DListCursor tid l =
     (if list_sync l = kSyncMwCAS then
        mbind GetEpoch (\<lambda>m.
        mbind (epoch_step (IsProtected m tid)) (\<lambda>prot.
        mbind (mwhen (\<not> prot) (epoch_step (\<lambda>w. rbind (Protect m tid w) (\<lambda>w'. Inr ((), w'))))) (\<lambda>_.
        mret \<lparr>cursor_list = l, current_node = list_head l, unprot = \<not> prot\<rparr>)))
      else mret \<lparr>cursor_list = l, current_node = list_head l, unprot = False\<rparr>)"

definition DListCursor_destroy :: "u64 \<Rightarrow> cursor \<Rightarrow> unit mw" where
  "DListCursor_destroy tid c =
     mwhen (unprot c \<and> list_sync (cursor_list c) = kSyncMwCAS)
       (mbind GetEpoch (\<lambda>m. epoch_step (\<lambda>w. rbind (Unprotect m tid w) (\<lambda>w'. Inr ((), w')))))"

definition Cursor_Reset :: "cursor \<Rightarrow> cursor" where
  "Cursor_Reset c = c\<lparr>current_node := list_head (cursor_list c)\<rparr>"

definition Cursor_Next :: "nat \<Rightarrow> u64 \<Rightarrow> cursor \<Rightarrow> (u64 \<times> cursor) mw" where
  "Cursor_Next n tid c =
     mbind (IDList_GetNext n tid (cursor_list c) (current_node c) True) (\<lambda>x. mret (x, c\<lparr>current_node := x\<rparr>))"

definition Cursor_Prev :: "nat \<Rightarrow> u64 \<Rightarrow> cursor \<Rightarrow> (u64 \<times> cursor) mw" where
  "Cursor_Prev n tid c =
     mbind (IDList_GetPrev n tid (cursor_list c) (current_node c) True) (\<lambda>x. mret (x, c\<lparr>current_node := x\<rparr>))"

end
