(* ===== verification/DListLogic.thy ===== *)
theory DListLogic
  imports DList MwLogic
begin

text \<open>
  Reasoning about the list on single-word CAS. Its words carry a dirty bit that says nothing about the
  list, so states are described by memory with that bit removed (\<open>M\<close>) and by a set of addresses that are
  known to be clean (\<open>K\<close>): \<open>wpc op Q C M K\<close> says that from any such state the operation ends with a result,
  memory and clean set that satisfy \<open>Q\<close>, and that the memory satisfies \<open>C\<close> wherever it is stopped.
\<close>

definition undirt :: "(u64 \<Rightarrow> u64) \<Rightarrow> u64 \<Rightarrow> u64" where
  "undirt m a = m a AND NOT kDirtyFlag"

definition clean_on :: "u64 set \<Rightarrow> (u64 \<Rightarrow> u64) \<Rightarrow> bool" where
  "clean_on K m \<longleftrightarrow> (\<forall>a \<in> K. \<not> IsDirtyPtr (m a))"

lemma clear_dirty_clean: "\<not> IsDirtyPtr v \<Longrightarrow> v AND NOT kDirtyFlag = v"
  by (rule bit_eqI) (auto simp: ptr_bits bit_and_iff bit_not_iff dest: u64_bit_less)

lemma not_dirty_clear [simp]: "\<not> IsDirtyPtr (v AND NOT kDirtyFlag)"
  by (simp add: ptr_bits bit_and_iff bit_not_iff)

lemma clear_dirty_idem [simp]: "(v AND NOT kDirtyFlag) AND NOT kDirtyFlag = v AND NOT kDirtyFlag"
  by (simp add: clear_dirty_clean)

lemma undirt_upd: "undirt (m(a := v)) = (undirt m)(a := v AND NOT kDirtyFlag)"
  by (simp add: undirt_def fun_eq_iff)

lemma undirt_clean: "\<not> IsDirtyPtr (m a) \<Longrightarrow> m a = undirt m a"
  unfolding undirt_def by (rule clear_dirty_clean [symmetric])

lemma clean_on_undirt: "clean_on K m \<Longrightarrow> a \<in> K \<Longrightarrow> m a = undirt m a"
  unfolding clean_on_def using undirt_clean by blast

lemma undirt_not_dirty [simp]: "\<not> IsDirtyPtr (undirt m a)"
  by (simp add: undirt_def)

text \<open>The parts of the state a list on single-word CAS never touches.\<close>

definition same_rest :: "mw_world \<Rightarrow> mw_world \<Rightarrow> bool" where
  "same_rest s s' \<longleftrightarrow> ew s' = ew s \<and> descs s' = descs s \<and> pool s' = pool s \<and> freed s' = freed s \<and> mstats s' = mstats s"

lemma same_rest_simps [simp]:
  "same_rest s s" "same_rest s (set_mem a v s') = same_rest s s'" "same_rest s (s'\<lparr>budget := b\<rparr>) = same_rest s s'"
  "same_rest s (s'\<lparr>nv := v'\<rparr>) = same_rest s s'"
  by (simp_all add: same_rest_def set_mem_def)

lemma same_rest_trans: "same_rest s s' \<Longrightarrow> same_rest s' s'' \<Longrightarrow> same_rest s s''"
  by (simp add: same_rest_def)

definition wpc ::
  "'a mw \<Rightarrow> ('a \<Rightarrow> (u64 \<Rightarrow> u64) \<Rightarrow> u64 set \<Rightarrow> bool) \<Rightarrow> ((u64 \<Rightarrow> u64) \<Rightarrow> bool) \<Rightarrow> (u64 \<Rightarrow> u64) \<Rightarrow> u64 set \<Rightarrow> bool" where
  "wpc op Q C M K \<longleftrightarrow> (\<forall>s. undirt (mem s) = M \<longrightarrow> clean_on K (mem s) \<longrightarrow>
     wp op (\<lambda>x s'. same_rest s s' \<and> (\<exists>K'. clean_on K' (mem s') \<and> Q x (undirt (mem s')) K'))
       (\<lambda>s'. same_rest s s' \<and> C (undirt (mem s'))) s)"

lemma wpcD:
  assumes "wpc op Q C M K" and "undirt (mem s) = M" and "clean_on K (mem s)"
  shows "wp op (\<lambda>x s'. same_rest s s' \<and> (\<exists>K'. clean_on K' (mem s') \<and> Q x (undirt (mem s')) K'))
       (\<lambda>s'. same_rest s s' \<and> C (undirt (mem s'))) s"
  using assms by (simp add: wpc_def)

lemma wpcI:
  assumes "\<And>s. undirt (mem s) = M \<Longrightarrow> clean_on K (mem s) \<Longrightarrow>
     wp op (\<lambda>x s'. same_rest s s' \<and> (\<exists>K'. clean_on K' (mem s') \<and> Q x (undirt (mem s')) K'))
       (\<lambda>s'. same_rest s s' \<and> C (undirt (mem s'))) s"
  shows "wpc op Q C M K"
  using assms by (simp add: wpc_def)

lemma wpc_mono:
  assumes "wpc op Q C M K" and "\<And>x M K. Q x M K \<Longrightarrow> Q' x M K" and "\<And>M. C M \<Longrightarrow> C' M"
  shows "wpc op Q' C' M K"
  by (rule wpcI, rule wp_mono [OF wpcD [OF assms(1)]]) (use assms(2,3) in blast)+

named_theorems wpc_rules \<open>introduction rules for wpc\<close>

lemma wpc_mret [wpc_rules]: "Q x M K \<Longrightarrow> wpc (mret x) Q C M K"
  by (rule wpcI, rule wp_mret) auto

lemma wpc_mbind [wpc_rules]:
  assumes "wpc f (\<lambda>x. wpc (g x) Q C) C M K"
  shows "wpc (mbind f g) Q C M K"
proof (rule wpcI, rule wp_mbind)
  fix s :: mw_world assume s: "undirt (mem s) = M" "clean_on K (mem s)"
  let ?Q = "\<lambda>s x s'. same_rest s s' \<and> (\<exists>K'. clean_on K' (mem s') \<and> Q x (undirt (mem s')) K')"
  show "wp f (\<lambda>x. wp (g x) (?Q s) (\<lambda>s'. same_rest s s' \<and> C (undirt (mem s')))) (\<lambda>s'. same_rest s s' \<and> C (undirt (mem s'))) s"
  proof (rule wp_mono [OF wpcD [OF assms s]])
    fix x s1 assume "same_rest s s1 \<and> (\<exists>K'. clean_on K' (mem s1) \<and> wpc (g x) Q C (undirt (mem s1)) K')"
    then obtain K' where r: "same_rest s s1" and K': "clean_on K' (mem s1)" and w: "wpc (g x) Q C (undirt (mem s1)) K'" by blast
    show "wp (g x) (?Q s) (\<lambda>s'. same_rest s s' \<and> C (undirt (mem s'))) s1"
      by (rule wp_mono [OF wpcD [OF w refl K']]) (use same_rest_trans [OF r] in auto)
  qed
qed

lemma wpc_mcheck [wpc_rules]: "b \<Longrightarrow> Q () M K \<Longrightarrow> wpc (mcheck b e) Q C M K"
  by (rule wpcI, rule wp_mcheck) auto

lemma wpc_mwhen [wpc_rules]:
  "(b \<Longrightarrow> wpc op Q C M K) \<Longrightarrow> (\<not> b \<Longrightarrow> Q () M K) \<Longrightarrow> wpc (mwhen b op) Q C M K"
  by (auto simp: mwhen_def intro: wpc_mret)

lemma wpc_if [wpc_rules]:
  "(b \<Longrightarrow> wpc f Q C M K) \<Longrightarrow> (\<not> b \<Longrightarrow> wpc g Q C M K) \<Longrightarrow> wpc (if b then f else g) Q C M K"
  by simp

lemma wp_Flush: "(\<And>v. Q () (s\<lparr>nv := v\<rparr>)) \<Longrightarrow> wp (Flush n p) Q C s"
  by (simp add: wp_def Flush_def)

lemma wpc_Flush [wpc_rules]: "Q () M K \<Longrightarrow> wpc (Flush n p) Q C M K"
  by (rule wpcI) (auto simp: wp_def Flush_def)

lemma wpc_flush_payload [wpc_rules]: "Q () M K \<Longrightarrow> wpc (flush_payload node) Q C M K"
  by (rule wpcI) (auto simp: wp_def Flush_def flush_payload_def mbind_def mget_def)

lemma wpc_load_clean [wpc_rules]: "a \<in> K \<Longrightarrow> Q (M a) M K \<Longrightarrow> wpc (load_word a) Q C M K"
  unfolding load_word_def by (rule wpcI, rule wp_mget) (auto simp: clean_on_undirt)

lemma wpc_load: "(\<And>v. v AND NOT kDirtyFlag = M a \<Longrightarrow> Q v M K) \<Longrightarrow> wpc (load_word a) Q C M K"
  unfolding load_word_def by (rule wpcI, rule wp_mget) (auto simp: undirt_def)

lemma wpc_store [wpc_rules]:
  assumes "C M" and "\<not> IsDirtyPtr v" and "Q () (M(a := v)) (insert a K)"
  shows "wpc (store_word a v) Q C M K"
  unfolding store_word_def
proof (rule wpcI, rule wp_mstore)
  fix s :: mw_world and b assume s: "undirt (mem s) = M" "clean_on K (mem s)"
  have "clean_on (insert a K) (mem (set_mem a v s))" "undirt (mem (set_mem a v s)) = M(a := v)"
    using s assms(2) by (auto simp: clean_on_def set_mem_def undirt_upd clear_dirty_clean)
  then show "same_rest s (set_mem a v (s\<lparr>budget := b\<rparr>)) \<and>
       (\<exists>K'. clean_on K' (mem (set_mem a v (s\<lparr>budget := b\<rparr>))) \<and> Q () (undirt (mem (set_mem a v (s\<lparr>budget := b\<rparr>)))) K')"
    using assms(3) by (auto simp: set_mem_def same_rest_def)
qed (use assms(1) in auto)

text \<open>A CAS on a word known to be clean, that installs a clean or a dirty value.\<close>

lemma wpc_CAS_gen:
  assumes "C M"
    and "\<And>v. v AND NOT kDirtyFlag = M a \<Longrightarrow> (a \<in> K \<Longrightarrow> v = M a) \<Longrightarrow> v = old \<Longrightarrow>
       Q v (M(a := new AND NOT kDirtyFlag)) (if IsDirtyPtr new then K - {a} else insert a K)"
    and "\<And>v. v AND NOT kDirtyFlag = M a \<Longrightarrow> (a \<in> K \<Longrightarrow> v = M a) \<Longrightarrow> v \<noteq> old \<Longrightarrow> Q v M K"
  shows "wpc (CompareExchange64 a new old) Q C M K"
  unfolding CompareExchange64_def
proof (rule wpcI, rule wp_mbind, rule wp_mget, rule wp_mbind, rule wp_mstore)
  fix s :: mw_world and b assume s: "undirt (mem s) = M" "clean_on K (mem s)"
  let ?v = "mem s a" and ?f = "if mem s a = old then set_mem a new else (\<lambda>s. s)"
  have v: "?v AND NOT kDirtyFlag = M a" "a \<in> K \<Longrightarrow> ?v = M a" using s by (auto simp: undirt_def clean_on_undirt)
  let ?Q = "\<lambda>x s'. same_rest s s' \<and> (\<exists>K'. clean_on K' (mem s') \<and> Q x (undirt (mem s')) K')"
  have "?Q ?v (?f (s\<lparr>budget := b\<rparr>))"
  proof (cases "?v = old")
    case True
    have "clean_on (if IsDirtyPtr new then K - {a} else insert a K) ((mem s)(a := new))" using s(2) by (auto simp: clean_on_def)
    then show ?thesis using True assms(2) [OF v True] s(1) by (auto simp: set_mem_def same_rest_def undirt_upd)
  next
    case False
    then show ?thesis using assms(3) [OF v False] s by auto
  qed
  then show "wp (mret ?v) ?Q (\<lambda>s'. same_rest s s' \<and> C (undirt (mem s'))) (?f (s\<lparr>budget := b\<rparr>))" by (rule wp_mret)
qed (use assms(1) in auto)

lemma wpc_CAS_hit:
  assumes "C M" and "a \<in> K" and "M a = old"
    and "Q old (M(a := new AND NOT kDirtyFlag)) (if IsDirtyPtr new then K - {a} else insert a K)"
  shows "wpc (CompareExchange64 a new old) Q C M K"
  using assms by (intro wpc_CAS_gen) auto

lemma wpc_ReadPersist [wpc_rules]:
  assumes "C M" and "Q (M a) M (insert a K)"
  shows "wpc (ReadPersist a) Q C M K"
  unfolding ReadPersist_def load_word_def
proof (rule wpcI, rule wp_mbind, rule wp_mget, rule wp_mbind, rule wp_mwhen)
  fix s :: mw_world assume s: "undirt (mem s) = M" "clean_on K (mem s)"
  let ?v = "mem s a"
  let ?Q = "\<lambda>x s'. same_rest s s' \<and> (\<exists>K'. clean_on K' (mem s') \<and> Q x (undirt (mem s')) K')"
  let ?R = "\<lambda>_. wp (mret (?v AND NOT kDirtyFlag)) ?Q (\<lambda>s'. same_rest s s' \<and> C (undirt (mem s')))"
  have M: "?v AND NOT kDirtyFlag = M a" using s(1) by (auto simp: undirt_def)
  show "?R () s" if d: "\<not> IsDirtyPtr ?v"
    by (rule wp_mret) (use assms(2) s M d in \<open>auto simp: clean_on_def intro!: exI [of _ "insert a K"]\<close>)
  have f: "(undirt (mem s))(a := ?v AND NOT kDirtyFlag) = M"
    using s(1) by (auto simp: fun_eq_iff undirt_def)
  have "clean_on (insert a K) ((mem s)(a := ?v AND NOT kDirtyFlag))" using s(2) by (auto simp: clean_on_def)
  then have c: "?Q (?v AND NOT kDirtyFlag) (set_mem a (?v AND NOT kDirtyFlag) (s\<lparr>nv := w, budget := b\<rparr>))" for w b
    using assms(2) M f clear_dirty_idem [of ?v]
    by (auto simp: set_mem_def same_rest_def undirt_upd intro!: exI [of _ "insert a K"])
  show "wp (mbind (Flush 8 a) (\<lambda>_. mbind (CompareExchange64 a (?v AND NOT kDirtyFlag) ?v) (\<lambda>_. mret ()))) ?R
      (\<lambda>s'. same_rest s s' \<and> C (undirt (mem s'))) s"
    unfolding CompareExchange64_def
    by (rule wp_mbind wp_Flush wp_mget wp_mret wp_mstore
        | (use c s(1) in \<open>simp add: assms(1); fail\<close>))+
qed

section \<open>Node pointers\<close>

text \<open>The address of a node leaves bit 60 and the three management bits free.\<close>

definition node_ptr :: "u64 \<Rightarrow> bool" where
  "node_ptr p \<longleftrightarrow> p \<noteq> 0 \<and> (\<forall>k \<ge> 60. \<not> bit p k)"

lemma bit_kNodeDeleted [simp]: "bit kNodeDeleted n \<longleftrightarrow> n = 60"
  by (auto simp only: kNodeDeleted_def push_bit_of_1 bit_exp_iff possible_bit_word) simp_all

lemma is_deleted_bit: "is_deleted p \<longleftrightarrow> bit p 60"
  by (auto simp: is_deleted_def and_flag_eq_0_iff)

lemma node_ptr_simps [simp]:
  assumes "node_ptr p"
  shows "p \<noteq> 0" "\<not> is_deleted p" "\<not> IsDirtyPtr p" "IsCleanPtr p" "p AND NOT kNodeDeleted = p"
    "p AND NOT kDirtyFlag = p" "(p OR kDirtyFlag) AND NOT kDirtyFlag = p"
    "(p OR kNodeDeleted) AND NOT kNodeDeleted = p" "(p OR kNodeDeleted) AND NOT kDirtyFlag = p OR kNodeDeleted"
    "(p OR (kNodeDeleted OR kDirtyFlag)) AND NOT kDirtyFlag = p OR kNodeDeleted"
    "(p OR kNodeDeleted OR kDirtyFlag) AND NOT kDirtyFlag = p OR kNodeDeleted"
    "IsCleanPtr (p OR kNodeDeleted)"
proof -
  have b: "bit p k \<Longrightarrow> k < 60" for k using assms unfolding node_ptr_def by (meson not_le)
  then have nb: "\<not> bit p 60" "\<not> bit p 61" "\<not> bit p 62" "\<not> bit p 63" by (auto dest: b)
  show "p \<noteq> 0" using assms by (simp add: node_ptr_def)
  show "\<not> is_deleted p" "\<not> IsDirtyPtr p" "IsCleanPtr p" "IsCleanPtr (p OR kNodeDeleted)"
    using nb by (simp_all add: is_deleted_bit ptr_bits bit_or_iff)
  show "p AND NOT kNodeDeleted = p" "p AND NOT kDirtyFlag = p" "(p OR kDirtyFlag) AND NOT kDirtyFlag = p"
    "(p OR kNodeDeleted) AND NOT kNodeDeleted = p" "(p OR kNodeDeleted) AND NOT kDirtyFlag = p OR kNodeDeleted"
    "(p OR (kNodeDeleted OR kDirtyFlag)) AND NOT kDirtyFlag = p OR kNodeDeleted"
    "(p OR kNodeDeleted OR kDirtyFlag) AND NOT kDirtyFlag = p OR kNodeDeleted"
    using nb by (auto intro!: bit_eqI simp: bit_and_iff bit_or_iff bit_not_iff)
qed

lemma deleted_or [simp]: "is_deleted (p OR kNodeDeleted)" "IsDirtyPtr (p OR (kNodeDeleted OR kDirtyFlag))"
  "IsDirtyPtr (p OR kNodeDeleted OR kDirtyFlag)"
  by (simp_all add: is_deleted_bit ptr_bits bit_or_iff)

lemma or_deleted_idem: "is_deleted p \<Longrightarrow> p OR kNodeDeleted = p"
  by (rule bit_eqI) (auto simp: is_deleted_bit bit_or_iff)

lemma undirt_deleted: "is_deleted v \<longleftrightarrow> is_deleted (v AND NOT kDirtyFlag)"
  by (auto simp: is_deleted_bit bit_and_iff bit_not_iff)

lemma clear_marks: "((p AND NOT kDirtyFlag) OR kNodeDeleted) = (p OR (kNodeDeleted OR kDirtyFlag)) AND NOT kDirtyFlag"
  by (rule bit_eqI) (auto simp: bit_and_iff bit_or_iff bit_not_iff)

lemma wpc_Mark [wpc_rules]:
  assumes "C M" and "a \<noteq> next_of (list_head l)" and "Q () (M(a := M a OR kNodeDeleted)) (K - {a})"
  shows "wpc (MarkNodePointer (Suc n) l a) Q C M K"
  unfolding MarkNodePointer.simps load_word_def
proof (rule wpcI, rule wp_mbind, rule wp_mget, rule wp_mbind, rule wp_mcheck [OF assms(2)])
  fix s :: mw_world assume s: "undirt (mem s) = M" "clean_on K (mem s)"
  let ?p = "mem s a"
  let ?Q = "\<lambda>x s'. same_rest s s' \<and> (\<exists>K'. clean_on K' (mem s') \<and> Q x (undirt (mem s')) K')"
  have M: "?p AND NOT kDirtyFlag = M a" using s(1) by (auto simp: undirt_def)
  have k: "clean_on (K - {a}) m" if "\<And>b. b \<noteq> a \<Longrightarrow> m b = mem s b" for m using s(2) that by (auto simp: clean_on_def)
  have "?Q () s" if "is_deleted ?p"
    using assms(3) k [of "mem s"] that M or_deleted_idem [of "M a"] undirt_deleted [of ?p] s(1) by auto
  moreover have "?Q () (set_mem a (?p OR (kNodeDeleted OR kDirtyFlag)) (s\<lparr>budget := b\<rparr>))" for b
    using assms(3) k [of "(mem s)(a := ?p OR (kNodeDeleted OR kDirtyFlag))"] M clear_marks [of ?p] s(1)
    by (auto simp: set_mem_def same_rest_def undirt_upd)
  ultimately show "wp (if is_deleted ?p then mret ()
      else mbind (CompareExchange64 a (?p OR (kNodeDeleted OR kDirtyFlag)) ?p)
             (\<lambda>r. if r = ?p then mret () else MarkNodePointer n l a)) ?Q (\<lambda>s'. same_rest s s' \<and> C (undirt (mem s'))) s"
    unfolding CompareExchange64_def using assms(1) s(1)
    by (cases "is_deleted ?p") (auto intro!: wp_rules simp: same_rest_def)
qed

lemma wpc_Deref [wpc_rules]:
  assumes "C M" and "Q (M a AND NOT kNodeDeleted) M (insert a K)"
  shows "wpc (DereferenceNodePointer a) Q C M K"
  unfolding DereferenceNodePointer_def using assms by (intro wpc_rules)

end
