(* ===== verification/DListCAS.thy ===== *)
theory DListCAS
  imports DListLogic
begin

text \<open>
  What a doubly-linked list in memory is, and the operations of \<open>CASDList\<close> on it, run by one thread from
  any list: insertion and deletion change the list as their names say, reads return the neighbours, and
  wherever an operation is stopped the nodes reached through \<open>next\<close> are those of the old or the new list.
\<close>

section \<open>Lists in memory\<close>

text \<open>Nodes: distinct, and the \<open>next\<close> field of one is not the \<open>prev\<close> field of another.\<close>

definition wf_nodes :: "u64 list \<Rightarrow> bool" where
  "wf_nodes ns \<longleftrightarrow> distinct ns \<and> (\<forall>a \<in> set ns. node_ptr a \<and> next_of a \<notin> set ns)"

definition link :: "(u64 \<Rightarrow> u64) \<Rightarrow> u64 \<Rightarrow> u64 \<Rightarrow> bool" where
  "link M a b \<longleftrightarrow> M (next_of a) = b \<and> M (prev_of b) = a"

fun linked_nodes :: "(u64 \<Rightarrow> u64) \<Rightarrow> u64 list \<Rightarrow> bool" where
  "linked_nodes M (a # b # ns) \<longleftrightarrow> link M a b \<and> linked_nodes M (b # ns)"
| "linked_nodes M _ \<longleftrightarrow> True"

definition nodes_of :: "dlist \<Rightarrow> u64 list \<Rightarrow> u64 list" where
  "nodes_of l xs = list_head l # xs @ [list_tail l]"

definition dll :: "(u64 \<Rightarrow> u64) \<Rightarrow> dlist \<Rightarrow> u64 list \<Rightarrow> bool" where
  "dll M l xs \<longleftrightarrow> wf_nodes (nodes_of l xs) \<and> M (prev_of (list_head l)) = 0 \<and> M (next_of (list_tail l)) = 0 \<and>
     linked_nodes M (nodes_of l xs)"

text \<open>The nodes reached through \<open>next\<close>, whatever is marked as deleted on the way.\<close>

fun reaches :: "(u64 \<Rightarrow> u64) \<Rightarrow> u64 list \<Rightarrow> bool" where
  "reaches M (a # b # ns) \<longleftrightarrow> M (next_of a) AND NOT kNodeDeleted = b \<and> reaches M (b # ns)"
| "reaches M _ \<longleftrightarrow> True"

definition forward :: "(u64 \<Rightarrow> u64) \<Rightarrow> dlist \<Rightarrow> u64 list \<Rightarrow> bool" where
  "forward M l xs \<longleftrightarrow> reaches M (nodes_of l xs)"

lemma linked_append:
  "linked_nodes M (us @ a # b # vs) \<longleftrightarrow> linked_nodes M (us @ [a]) \<and> link M a b \<and> linked_nodes M (b # vs)"
proof (induction us)
  case (Cons u us)
  then show ?case by (cases us) auto
qed simp

lemma reaches_append:
  "reaches M (us @ a # b # vs) \<longleftrightarrow> reaches M (us @ [a]) \<and> M (next_of a) AND NOT kNodeDeleted = b \<and> reaches M (b # vs)"
proof (induction us)
  case (Cons u us)
  then show ?case by (cases us) auto
qed simp

lemma linked_frame:
  assumes "\<And>a. a \<in> set (butlast ns) \<Longrightarrow> M' (next_of a) = M (next_of a)"
    and "\<And>a. a \<in> set (tl ns) \<Longrightarrow> M' (prev_of a) = M (prev_of a)"
  shows "linked_nodes M' ns = linked_nodes M ns"
  using assms
proof (induction M ns rule: linked_nodes.induct)
  case (1 M a b ns)
  have "linked_nodes M' (b # ns) = linked_nodes M (b # ns)"
    by (rule 1) (use 1(2,3) in \<open>auto dest: list.set_sel(2)\<close>)
  then show ?case using 1(2) [of a] 1(3) [of b] by (simp add: link_def)
qed simp_all

lemma reaches_frame:
  assumes "\<And>a. a \<in> set (butlast ns) \<Longrightarrow> M' (next_of a) = M (next_of a)"
  shows "reaches M' ns = reaches M ns"
  using assms by (induction M ns rule: reaches.induct) auto

lemma field_neq [simp]: "next_of a \<noteq> a" "a \<noteq> next_of a" "next_of a = next_of b \<longleftrightarrow> a = b"
  by (simp_all add: next_of_def)

lemma wf_neq:
  assumes "wf_nodes ns" and "a \<in> set ns" and "b \<in> set ns"
  shows "next_of a \<noteq> b" "b \<noteq> next_of a"
  using assms by (auto simp: wf_nodes_def)

lemma wf_nodes_subset: "wf_nodes ns \<Longrightarrow> set ms \<subseteq> set ns \<Longrightarrow> distinct ms \<Longrightarrow> wf_nodes ms"
  by (auto simp: wf_nodes_def)

lemma wf_node_ptr: "wf_nodes ns \<Longrightarrow> a \<in> set ns \<Longrightarrow> node_ptr a"
  by (simp add: wf_nodes_def)

lemma linked_reaches: "wf_nodes ns \<Longrightarrow> linked_nodes M ns \<Longrightarrow> reaches M ns"
proof (induction M ns rule: linked_nodes.induct)
  case (1 M a b ns)
  then have "wf_nodes (b # ns)" "node_ptr b" by (auto simp: wf_nodes_def)
  then show ?case using 1 by (simp add: link_def)
qed simp_all

lemma dll_forward: "dll M l xs \<Longrightarrow> forward M l xs"
  by (simp add: dll_def forward_def linked_reaches)

text \<open>Writing a node between two neighbours, and taking a node out.\<close>

definition splice :: "u64 \<Rightarrow> u64 \<Rightarrow> u64 \<Rightarrow> (u64 \<Rightarrow> u64) \<Rightarrow> u64 \<Rightarrow> u64" where
  "splice p x n M = M(prev_of x := p, next_of x := n, next_of p := x, prev_of n := x)"

lemma linked_outside:
  assumes p: "p \<notin> set us" "p \<notin> set vs" "n \<notin> set vs" "n \<notin> set us" "x \<notin> set us" "x \<notin> set vs"
    and f: "\<And>a. a \<notin> {p, x} \<Longrightarrow> a \<in> set (us @ [n] @ vs) \<Longrightarrow> M' (next_of a) = M (next_of a)"
      "\<And>a. a \<notin> {n, x} \<Longrightarrow> a \<in> set (us @ [p] @ vs) \<Longrightarrow> M' (prev_of a) = M (prev_of a)"
    and d: "p \<noteq> n" "x \<noteq> p" "x \<noteq> n"
  shows "linked_nodes M' (us @ [p]) = linked_nodes M (us @ [p])" "linked_nodes M' (n # vs) = linked_nodes M (n # vs)"
proof -
  have "M' (next_of a) = M (next_of a)" if "a \<in> set us" for a using p that by (intro f) auto
  moreover have "M' (prev_of a) = M (prev_of a)" if "a \<in> set (tl (us @ [p]))" for a
    using p d list.set_sel(2) [OF _ that] by (intro f) auto
  ultimately show "linked_nodes M' (us @ [p]) = linked_nodes M (us @ [p])"
    by (intro linked_frame) simp_all
  have "M' (next_of a) = M (next_of a)" if "a \<in> set (butlast (n # vs))" for a
    using p d in_set_butlastD [OF that] by (intro f) auto
  moreover have "M' (prev_of a) = M (prev_of a)" if "a \<in> set vs" for a using p that by (intro f) auto
  ultimately show "linked_nodes M' (n # vs) = linked_nodes M (n # vs)"
    by (intro linked_frame) simp_all
qed

lemma linked_splice:
  assumes "wf_nodes (x # us @ [p, n] @ vs)" and "linked_nodes M (us @ [p, n] @ vs)"
  shows "linked_nodes (splice p x n M) (us @ [p, x, n] @ vs)"
proof -
  let ?M = "splice p x n M" and ?ns = "x # us @ [p, n] @ vs"
  have d: "distinct ?ns" using assms(1) by (simp add: wf_nodes_def)
  have neq: "next_of a \<noteq> b" "b \<noteq> next_of a" if "a \<in> set ?ns" "b \<in> set ?ns" for a b
    using wf_neq [OF assms(1) that] .
  have 1: "linked_nodes M (us @ [p])" "linked_nodes M (n # vs)" using assms(2) linked_append [of M us p n vs] by simp_all
  have f: "?M (next_of a) = M (next_of a)" if "a \<notin> {p, x}" "a \<in> set (us @ [n] @ vs)" for a
    using that neq [of a x] neq [of a n] by (auto simp: splice_def prev_of_def)
  have g: "?M (prev_of a) = M (prev_of a)" if "a \<notin> {n, x}" "a \<in> set (us @ [p] @ vs)" for a
    using that neq [of x a] neq [of p a] by (auto simp: splice_def prev_of_def)
  have "linked_nodes ?M (us @ [p]) = linked_nodes M (us @ [p])" "linked_nodes ?M (n # vs) = linked_nodes M (n # vs)"
    by (rule linked_outside [where x = x and p = p and n = n and us = us and vs = vs];
        (rule f g; assumption)?; use d in auto)+
  moreover have "link ?M p x" "link ?M x n"
    using d neq by (auto simp: link_def splice_def prev_of_def)
  ultimately show ?thesis
    using 1 linked_append [of ?M us p x "n # vs"] linked_append [of ?M "us @ [p]" x n vs] by simp
qed

lemma linked_unlink:
  assumes "wf_nodes (us @ [p, x, n] @ vs)" and "linked_nodes M (us @ [p, x, n] @ vs)"
    and "M' (next_of p) = n" "M' (prev_of n) = p"
    and same: "\<And>a. a \<notin> {next_of p, prev_of n, next_of x, prev_of x} \<Longrightarrow> M' a = M a"
  shows "linked_nodes M' (us @ [p, n] @ vs)"
proof -
  let ?ns = "us @ [p, x, n] @ vs"
  have d: "distinct ?ns" using assms(1) by (simp add: wf_nodes_def)
  have neq: "next_of a \<noteq> b" "b \<noteq> next_of a" if "a \<in> set ?ns" "b \<in> set ?ns" for a b
    using wf_neq [OF assms(1) that] .
  have 1: "linked_nodes M (us @ [p])" "linked_nodes M (n # vs)"
    using assms(2) linked_append [of M us p x "n # vs"] linked_append [of M "us @ [p]" x n vs] by simp_all
  have f: "M' (next_of a) = M (next_of a)" if "a \<notin> {p, x}" "a \<in> set (us @ [n] @ vs)" for a
    using that neq [of a x] neq [of a n] by (intro same) (auto simp: prev_of_def)
  have g: "M' (prev_of a) = M (prev_of a)" if "a \<notin> {n, x}" "a \<in> set (us @ [p] @ vs)" for a
    using that neq [of x a] neq [of p a] by (intro same) (auto simp: prev_of_def)
  have "linked_nodes M' (us @ [p]) = linked_nodes M (us @ [p])" "linked_nodes M' (n # vs) = linked_nodes M (n # vs)"
    by (rule linked_outside [where x = x and p = p and n = n and us = us and vs = vs];
        (rule f g; assumption)?; use d in auto)+
  moreover have "link M' p n" using assms(3,4) by (simp add: link_def)
  ultimately show ?thesis using 1 linked_append [of M' us p n vs] by simp
qed

text \<open>Neighbours by position.\<close>

lemma length_nodes_of [simp]: "length (nodes_of l xs) = length xs + 2"
  by (simp add: nodes_of_def)

lemma nodes_split:
  assumes "k \<le> length xs"
  obtains us vs where "nodes_of l xs = us @ [nodes_of l xs ! k, nodes_of l xs ! Suc k] @ vs" "length us = k"
    "\<And>x. nodes_of l (take k xs @ x # drop k xs) = us @ [nodes_of l xs ! k, x, nodes_of l xs ! Suc k] @ vs"
proof -
  let ?ns = "nodes_of l xs"
  let ?us = "take k ?ns" and ?vs = "drop (Suc (Suc k)) ?ns"
  have c: "drop k ?ns = ?ns ! k # drop (Suc k) ?ns" "drop (Suc k) ?ns = ?ns ! Suc k # ?vs"
    using assms by (simp_all add: Cons_nth_drop_Suc)
  then have 1: "?ns = ?us @ [?ns ! k, ?ns ! Suc k] @ ?vs"
    by (metis append_Cons append_Nil append_take_drop_id)
  have t: "take (Suc k) ?ns = ?us @ [?ns ! k]" using assms by (simp add: take_Suc_conv_app_nth)
  have "nodes_of l (take k xs @ x # drop k xs) = take (Suc k) ?ns @ x # drop (Suc k) ?ns" for x
    using assms by (simp add: nodes_of_def)
  then have 2: "nodes_of l (take k xs @ x # drop k xs) = ?us @ [?ns ! k, x, ?ns ! Suc k] @ ?vs" for x
    unfolding t c(2) by simp
  show ?thesis by (rule that [OF 1 _ 2]) (use assms in simp)
qed

text \<open>The same list with a position singled out: \<open>p\<close> and \<open>n\<close> are neighbours in it.\<close>

definition at_gap :: "dlist \<Rightarrow> u64 list \<Rightarrow> nat \<Rightarrow> u64 \<Rightarrow> u64 \<Rightarrow> bool" where
  "at_gap l xs k p n \<longleftrightarrow> k \<le> length xs \<and> p = nodes_of l xs ! k \<and> n = nodes_of l xs ! Suc k"

lemma dll_neighbours:
  assumes d: "dll M l xs" and g: "at_gap l xs k p n"
  shows "link M p n" "node_ptr p" "node_ptr n" "p \<noteq> n" "\<not> is_deleted (M (next_of n))" "\<not> is_deleted (M (prev_of p))"
    "p \<noteq> list_tail l" "n \<noteq> list_head l" "p \<in> set (nodes_of l xs)" "n \<in> set (nodes_of l xs)"
    "next_of p \<noteq> n" "next_of n \<noteq> p"
proof -
  have k: "k \<le> length xs" and p: "p = nodes_of l xs ! k" and n: "n = nodes_of l xs ! Suc k" using g by (simp_all add: at_gap_def)
  obtain us vs where s: "nodes_of l xs = us @ [p, n] @ vs" "length us = k" using nodes_split [OF k] p n by metis
  have w: "wf_nodes (nodes_of l xs)" and li: "linked_nodes M (nodes_of l xs)" using d by (simp_all add: dll_def)
  have dist: "distinct (nodes_of l xs)" using w by (simp add: wf_nodes_def)
  show i: "p \<in> set (nodes_of l xs)" "n \<in> set (nodes_of l xs)" using s(1) by simp_all
  show "link M p n" using li s(1) linked_append [of M us p n vs] by simp
  show "node_ptr p" "node_ptr n" using w i by (simp_all add: wf_nodes_def)
  show "p \<noteq> n" using dist s(1) by auto
  show "next_of p \<noteq> n" "next_of n \<noteq> p" using wf_neq [OF w] i by auto
  have hd: "list_head l = nodes_of l xs ! 0" and tl: "list_tail l = nodes_of l xs ! Suc (length xs)"
    by (simp_all add: nodes_of_def nth_append)
  show "p \<noteq> list_tail l" unfolding p tl using k nth_eq_iff_index_eq [OF dist] by simp
  show "n \<noteq> list_head l" unfolding n hd using k nth_eq_iff_index_eq [OF dist] by simp
  have z: "\<not> is_deleted 0" by (simp add: is_deleted_def)
  show "\<not> is_deleted (M (next_of n))"
  proof (cases "k = length xs")
    case True
    then have "n = list_tail l" using n tl by simp
    then show ?thesis using d z by (simp add: dll_def)
  next
    case False
    have "length us + 2 + length vs = length xs + 2" using length_nodes_of [of l xs] unfolding s(1) by simp
    then obtain n' vs' where "vs = n' # vs'" using False s(2) by (cases vs) auto
    then have "link M n n'" "node_ptr n'" using li w s(1) linked_append [of M "us @ [p]" n n' vs'] by (auto simp: wf_nodes_def)
    then show ?thesis by (simp add: link_def)
  qed
  show "\<not> is_deleted (M (prev_of p))"
  proof (cases us rule: rev_cases)
    case Nil
    then have "p = list_head l" using s p hd by simp
    then show ?thesis using d z by (simp add: dll_def)
  next
    case (snoc us' q)
    then have "link M q p" "node_ptr q" using li w s(1) linked_append [of M us' q p "n # vs"] by (auto simp: wf_nodes_def)
    then show ?thesis by (simp add: link_def)
  qed
qed

text \<open>The result of an insertion.\<close>

lemma dll_splice:
  assumes d: "dll M l xs" and g: "at_gap l xs k p n" and w: "wf_nodes (x # nodes_of l xs)"
  shows "dll (splice p x n M) l (take k xs @ x # drop k xs)"
proof -
  have k: "k \<le> length xs" and p: "p = nodes_of l xs ! k" and n: "n = nodes_of l xs ! Suc k" using g by (simp_all add: at_gap_def)
  obtain us vs where s: "nodes_of l xs = us @ [p, n] @ vs"
    and s': "nodes_of l (take k xs @ x # drop k xs) = us @ [p, x, n] @ vs" using nodes_split [OF k] p n by metis
  have "linked_nodes (splice p x n M) (us @ [p, x, n] @ vs)"
    using w d unfolding dll_def s by (intro linked_splice) simp_all
  moreover have "wf_nodes (us @ [p, x, n] @ vs)" using w unfolding s by (auto simp: wf_nodes_def)
  moreover have "splice p x n M (prev_of (list_head l)) = 0" "splice p x n M (next_of (list_tail l)) = 0"
  proof -
    note nb = dll_neighbours [OF d g]
    have h: "list_head l \<in> set (nodes_of l xs)" "list_tail l \<in> set (nodes_of l xs)" by (simp_all add: nodes_of_def)
    have "x \<notin> set (nodes_of l xs)" using w by (simp add: wf_nodes_def)
    moreover have "next_of a \<noteq> b" "b \<noteq> next_of a" if "a \<in> {x, p, n, list_head l, list_tail l}" "b \<in> {x, p, n, list_head l, list_tail l}" for a b
      using wf_neq [OF w, of a b] that nb(9,10) h by auto
    ultimately show "splice p x n M (prev_of (list_head l)) = 0" "splice p x n M (next_of (list_tail l)) = 0"
      using d h nb(7,8) by (auto simp: splice_def prev_of_def dll_def)
  qed
  ultimately show ?thesis by (simp add: dll_def s')
qed

section \<open>CorrectPrev\<close>

text \<open>A path of live nodes: following \<open>next\<close> from its first node ends at \<open>node\<close>.\<close>

fun live_path :: "(u64 \<Rightarrow> u64) \<Rightarrow> u64 list \<Rightarrow> u64 \<Rightarrow> bool" where
  "live_path M [] node \<longleftrightarrow> False"
| "live_path M [w] node \<longleftrightarrow> M (next_of w) = node"
| "live_path M (w # w' # ws) node \<longleftrightarrow> M (next_of w) = w' \<and> live_path M (w' # ws) node"

lemma wpc_correct_prev:
  assumes "live_path M ws node" and "wf_nodes (node # ws)" and "length ws \<le> n" and "C M"
    and "\<not> is_deleted (M (prev_of node))" and "\<not> is_deleted (M (prev_of (last ws)))"
    and "\<And>K. next_of (last ws) \<in> K \<Longrightarrow> Q (last ws) (M(prev_of node := last ws)) K"
    and "C (M(prev_of node := last ws))"
  shows "wpc (correct_prev n l last_link (hd ws) node) Q C M K"
  using assms
proof (induction M ws node arbitrary: n last_link K rule: live_path.induct)
  case (2 M w node)
  then obtain m where n: "n = Suc m" by (cases n) auto
  have w: "node_ptr w" "node_ptr node" "w \<noteq> node" "next_of w \<noteq> node" "next_of node \<noteq> w"
    using 2(2) by (auto simp: wf_nodes_def)
  have p: "prev_of w \<noteq> prev_of node" "prev_of node \<noteq> next_of w" using w by (auto simp: prev_of_def)
  have nx: "M (next_of w) = node" and C: "C M" and nd: "\<not> is_deleted (M (prev_of node))" "\<not> is_deleted (M (prev_of w))"
    using 2(1,4,5,6) by simp_all
  have C': "C (M(prev_of node := w))" using 2(8) by (simp only: last_ConsL)
  have q: "Q w (M(prev_of node := w)) K" if "next_of w \<in> K" for K using 2(7) [of K] that by (simp only: last_ConsL)
  have fin: "wpc (ReadPersist (prev_of w)) (\<lambda>pcp. wpc (if is_deleted pcp then correct_prev m l last_link w node else mret w) Q C) C
     (M(prev_of node := w)) (if IsDirtyPtr (w OR kDirtyFlag) then insert (next_of w) K' - {prev_of node} else K'')" for K' K''
    by (rule wpc_ReadPersist) (use C' nd p q in \<open>simp_all add: wpc_mret\<close>)
  show ?case
    unfolding n correct_prev.simps Let_def list.sel node_ptr_simps(5) [OF w(1)]
    by (rule wpc_mbind C fin wpc_CAS_hit wpc_ReadPersist
        | simp only: nd nx node_ptr_simps(2) [OF w(2)] node_ptr_simps(7) [OF w(1)] simp_thms if_False if_True
        | (simp; fail))+
next
  case (3 M w w' ws node)
  then obtain m where n: "n = Suc m" by (cases n) auto
  have w: "node_ptr w" "node_ptr w'" "node_ptr node" "w' \<noteq> node" using 3(3) by (auto simp: wf_nodes_def)
  have step: "M (next_of w) = w'" using 3(2) by simp
  have "wpc (correct_prev m l w (hd (w' # ws)) node) Q C M K'" for K'
    by (rule 3(1)) (use 3 n in \<open>auto simp: wf_nodes_def\<close>)
  then show ?case
    unfolding n correct_prev.simps Let_def
    by - (rule wpc_mbind wpc_ReadPersist | (use 3 w step in \<open>simp; fail\<close>) | (use 3 w step in simp))+
qed simp

lemma wpc_CorrectPrev:
  assumes "live_path M ws node" and w: "wf_nodes (node # ws)" and "length ws \<le> n" and "C M"
    and "\<not> is_deleted (M (prev_of node))" and "\<not> is_deleted (M (prev_of (last ws)))"
    and "\<And>K. next_of (last ws) \<in> K \<Longrightarrow> Q (last ws) (M(prev_of node := last ws)) K"
    and "C (M(prev_of node := last ws))" and "prev = hd ws"
  shows "wpc (CorrectPrev n l prev node) Q C M K"
proof -
  have "ws \<noteq> []" using assms(1) by auto
  then have "node_ptr node" "node_ptr (last ws)" using w by (auto simp: wf_nodes_def)
  then show ?thesis
    unfolding CorrectPrev_def assms(9)
    by (intro wpc_mbind wpc_mcheck wpc_correct_prev [where C = C and M = M and ws = ws, OF assms(1-6)]) (use assms(7,8) in \<open>auto intro!: wpc_rules\<close>)
qed

section \<open>Insertion\<close>

text \<open>Stopped or not, the list seen through \<open>next\<close> is the old one or the new one.\<close>

definition old_or_new :: "dlist \<Rightarrow> u64 list \<Rightarrow> u64 list \<Rightarrow> (u64 \<Rightarrow> u64) \<Rightarrow> bool" where
  "old_or_new l xs xs' M \<longleftrightarrow> forward M l xs \<or> forward M l xs'"

lemma forward_frame:
  assumes "forward M l xs" and "\<And>a. a \<in> set (list_head l # xs) \<Longrightarrow> M' (next_of a) = M (next_of a)"
  shows "forward M' l xs"
  using assms reaches_frame [of "nodes_of l xs" M' M]
  by (simp add: forward_def nodes_of_def butlast_append)

lemma insert_steps_forward:
  assumes d: "dll M l xs" and g: "at_gap l xs k p n" and w: "wf_nodes (x # nodes_of l xs)"
  shows "forward (M(prev_of x := p)) l xs" "forward (M(prev_of x := p, next_of x := n)) l xs"
    "forward (M(prev_of x := p, next_of x := n, next_of p := x)) l (take k xs @ x # drop k xs)"
proof -
  have f: "forward M l xs" using d by (rule dll_forward)
  have x: "x \<notin> set (nodes_of l xs)" "\<And>a. a \<in> set (nodes_of l xs) \<Longrightarrow> next_of a \<noteq> x" using w by (auto simp: wf_nodes_def)
  have i: "a \<in> set (list_head l # xs) \<Longrightarrow> a \<in> set (nodes_of l xs)" for a by (auto simp: nodes_of_def)
  show "forward (M(prev_of x := p)) l xs" "forward (M(prev_of x := p, next_of x := n)) l xs"
    by (rule forward_frame [OF f]; use x i in \<open>force simp: prev_of_def\<close>)+
  have n: "next_of a \<noteq> n" if "a \<in> set (x # nodes_of l xs)" for a
    using wf_neq [OF w that, of n] dll_neighbours(10) [OF d g] by simp
  have "forward (splice p x n M) l (take k xs @ x # drop k xs)" using dll_splice [OF d g w] by (rule dll_forward)
  moreover have "a \<in> set (x # nodes_of l xs)" if "a \<in> set (list_head l # take k xs @ x # drop k xs)" for a
    using that by (auto simp: nodes_of_def dest: in_set_takeD in_set_dropD)
  ultimately show "forward (M(prev_of x := p, next_of x := n, next_of p := x)) l (take k xs @ x # drop k xs)"
    using n by (elim forward_frame) (auto simp: splice_def prev_of_def)
qed

lemma last_short: "last [a] = a" "last [a, b] = b"
  by simp_all

lemma dll_frame:
  assumes "dll M l xs" and "\<And>a. a \<in> set (nodes_of l xs) \<Longrightarrow> M' (next_of a) = M (next_of a) \<and> M' (prev_of a) = M (prev_of a)"
  shows "dll M' l xs"
proof -
  have "linked_nodes M' (nodes_of l xs) = linked_nodes M (nodes_of l xs)"
    by (rule linked_frame) (use assms(2) in \<open>auto dest: in_set_butlastD list.set_sel(2) simp: nodes_of_def\<close>)
  then show ?thesis using assms by (simp add: dll_def nodes_of_def)
qed

lemma new_node:
  assumes "wf_nodes (x # nodes_of l xs)"
  shows "node_ptr x" "x \<notin> set (nodes_of l xs)" "a \<in> set (nodes_of l xs) \<Longrightarrow> next_of a \<noteq> x"
    "a \<in> set (nodes_of l xs) \<Longrightarrow> next_of x \<noteq> a"
  using assms by (auto simp: wf_nodes_def)

lemma dll_fresh:
  assumes "dll M l xs" and "wf_nodes (x # nodes_of l xs)"
  shows "dll (M(prev_of x := u, next_of x := v)) l xs"
  by (rule dll_frame [OF assms(1)]) (use new_node [OF assms(2)] in \<open>auto simp: prev_of_def\<close>)

text \<open>The last steps of both insertions, once the node is reachable.\<close>

lemma wpc_insert_finish:
  assumes d: "dll M l xs" and g: "at_gap l xs k p n" and w: "wf_nodes (x # nodes_of l xs)" and m: "2 \<le> m"
    and Q: "\<And>M K. dll M l (take k xs @ x # drop k xs) \<Longrightarrow> Q Status_OK M K"
    and C: "C = old_or_new l xs (take k xs @ x # drop k xs)"
  shows "wpc (mbind (CorrectPrev m l p n) (\<lambda>_. mret Status_OK)) Q C (M(prev_of x := p, next_of x := n, next_of p := x)) K"
proof -
  let ?M = "M(prev_of x := p, next_of x := n, next_of p := x)"
  note nb = dll_neighbours [OF d g] and nn = new_node [OF w]
  have ne: "x \<noteq> p" "x \<noteq> n" "next_of p \<noteq> x" "next_of n \<noteq> x" "next_of x \<noteq> p" "next_of x \<noteq> n" using nn nb(9,10) by auto
  have f: "?M (next_of p) = x" "?M (next_of x) = n" "?M (prev_of x) = p" "?M (prev_of n) = p"
    using ne nb(1,4,11,12) by (auto simp: link_def prev_of_def)
  have sp: "?M(prev_of n := x) = splice p x n M" by (simp add: splice_def)
  have new: "dll (splice p x n M) l (take k xs @ x # drop k xs)" by (rule dll_splice [OF d g w])
  have C1: "C ?M" using insert_steps_forward(3) [OF d g w] by (simp only: C old_or_new_def simp_thms)
  have C2: "C (splice p x n M)" using dll_forward [OF new] by (simp add: C old_or_new_def)
  have lp: "live_path ?M [p, x] n" using f(1,2) by (simp only: live_path.simps simp_thms)
  have wf: "wf_nodes [n, p, x]" using w nb(4,9,10) ne by (intro wf_nodes_subset [OF w]) auto
  have nd: "\<not> is_deleted (?M (prev_of n))" "\<not> is_deleted (?M (prev_of (last [p, x])))"
    using f(3,4) nb(2) by (simp_all only: last_short node_ptr_simps not_False_eq_True)
  have l: "length [p, x] \<le> m" using m by simp
  show ?thesis
    by (rule wpc_mbind, rule wpc_CorrectPrev [where ws = "[p, x]" and C = C, OF lp wf l C1 nd])
      (use sp C2 Q [OF new] in \<open>simp_all only: last_short list.sel wpc_mret\<close>)
qed

lemma wpc_before_body:
  assumes d: "dll M l xs" and g: "at_gap l xs k p n" and w: "wf_nodes (x # nodes_of l xs)" and m: "2 \<le> m"
    and Q: "\<And>M K. dll M l (take k xs @ x # drop k xs) \<Longrightarrow> Q Status_OK M K"
    and C: "C = old_or_new l xs (take k xs @ x # drop k xs)"
    and retry: "\<And>M K'. next_of p \<notin> K \<Longrightarrow> dll M l xs \<Longrightarrow> next_of p \<in> K' \<Longrightarrow> wpc (cas_before_loop m l n x) Q C M K'"
  shows "wpc (cas_before_loop (Suc m) l n x) Q C M K"
proof -
  let ?M2 = "M(prev_of x := p, next_of x := n)"
  note nb = dll_neighbours [OF d g] and nn = new_node [OF w]
  have ne: "x \<noteq> p" "x \<noteq> n" "next_of p \<noteq> x" "next_of n \<noteq> x" "next_of x \<noteq> p" "next_of x \<noteq> n" using nn nb(9,10) by auto
  have M: "M (prev_of n) = p" "M (next_of p) = n" using nb(1) by (simp_all add: link_def)
  have f: "?M2 (next_of p) = n" "?M2 (prev_of n) = p" "?M2 (prev_of p) = M (prev_of p)"
    using ne M by (auto simp: prev_of_def)
  note fw = insert_steps_forward [OF d g w]
  have C0: "C M" "C (M(prev_of x := p))" "C ?M2"
    using fw(1,2) dll_forward [OF d] by (simp_all only: C old_or_new_def simp_thms)
  have same: "?M2(prev_of n := p) = ?M2" using f(2) by (simp add: fun_upd_idem)
  have d2: "dll ?M2 l xs" by (rule dll_fresh [OF d w])
  have miss: "wpc (mbind (CorrectPrev m l p n) (\<lambda>_. cas_before_loop m l n x)) Q C ?M2 K'" if K: "next_of p \<notin> K" for K'
  proof -
    have lp: "live_path ?M2 [p] n" using f(1) by (simp only: live_path.simps)
    have wf: "wf_nodes [n, p]" using w nb(4,9,10) by (intro wf_nodes_subset [OF w]) auto
    have nd: "\<not> is_deleted (?M2 (prev_of n))" "\<not> is_deleted (?M2 (prev_of (last [p])))"
      using f nb(2,6) by (simp_all only: last_short node_ptr_simps not_False_eq_True)
    have l: "length [p] \<le> m" using m by simp
    show ?thesis
      by (rule wpc_mbind, rule wpc_CorrectPrev [where ws = "[p]" and C = C, OF lp wf l C0(3) nd])
        (use same C0 retry [OF K d2] in \<open>simp_all only: last_short list.sel\<close>)
  qed
  have cas: "wpc (CompareExchange64 (next_of p) x n)
      (\<lambda>r. wpc (if r = n then mbind (mcheck (p \<noteq> 0) (RawCheck ''invalid prev pointer''))
                (\<lambda>_. mbind (CorrectPrev m l p n) (\<lambda>_. mret Status_OK))
              else mbind (CorrectPrev m l p n) (\<lambda>_. cas_before_loop m l n x)) Q C) C ?M2 K'"
    if K': "next_of p \<in> K \<Longrightarrow> next_of p \<in> K'" for K'
  proof (rule wpc_CAS_gen)
    show "C ?M2" by (rule C0)
  next
    fix v assume v: "v = n"
    show "wpc (if v = n then mbind (mcheck (p \<noteq> 0) (RawCheck ''invalid prev pointer''))
                (\<lambda>_. mbind (CorrectPrev m l p n) (\<lambda>_. mret Status_OK))
              else mbind (CorrectPrev m l p n) (\<lambda>_. cas_before_loop m l n x)) Q C (?M2(next_of p := x AND NOT kDirtyFlag))
              (if IsDirtyPtr x then K' - {next_of p} else insert (next_of p) K')"
      unfolding v node_ptr_simps(6) [OF nn(1)] using nb(2)
      by - (simp only: if_True simp_thms, rule wpc_mbind, rule wpc_mcheck, simp, rule wpc_insert_finish [where Q = Q, OF d g w m Q C])
  next
    fix v assume v: "next_of p \<in> K' \<Longrightarrow> v = ?M2 (next_of p)" "v \<noteq> n"
    then have "next_of p \<notin> K" using K' f(1) by blast
    then show "wpc (if v = n then mbind (mcheck (p \<noteq> 0) (RawCheck ''invalid prev pointer''))
                (\<lambda>_. mbind (CorrectPrev m l p n) (\<lambda>_. mret Status_OK))
              else mbind (CorrectPrev m l p n) (\<lambda>_. cas_before_loop m l n x)) Q C ?M2 K'"
      using v(2) miss by simp
  qed
  have nd: "\<not> is_deleted (M (next_of n))" by (rule nb)
  show ?thesis
    unfolding cas_before_loop.simps Let_def
    by (rule wpc_mbind C0 cas wpc_Deref wpc_ReadPersist wpc_Flush wpc_store
        | simp only: M nd if_False node_ptr_simps(5) [OF nb(2)] node_ptr_simps(5) [OF nb(3)]
        | (use nb(2,3) in \<open>simp; fail\<close>))+
qed

lemma wpc_before_loop:
  assumes d: "dll M l xs" and g: "at_gap l xs k p n" and w: "wf_nodes (x # nodes_of l xs)" and m: "4 \<le> m"
    and Q: "\<And>M K. dll M l (take k xs @ x # drop k xs) \<Longrightarrow> Q Status_OK M K"
    and C: "C = old_or_new l xs (take k xs @ x # drop k xs)"
  shows "wpc (cas_before_loop m l n x) Q C M K"
proof -
  obtain j where j: "m = Suc (Suc j)" "2 \<le> j" using m by (intro that [of "m - 2"]) auto
  have "wpc (cas_before_loop (Suc j) l n x) Q C M' K'" if "dll M' l xs" "next_of p \<in> K'" for M' K'
    by (rule wpc_before_body [where Q = Q, OF that(1) g w j(2) Q C]) (use that(2) in auto)
  then show ?thesis unfolding j(1) using j(2) by (intro wpc_before_body [where Q = Q, OF d g w _ Q C]) auto
qed

lemma wpc_after_loop:
  assumes d: "dll M l xs" and g: "at_gap l xs k p n" and w: "wf_nodes (x # nodes_of l xs)" and m: "3 \<le> m"
    and Q: "\<And>M K. dll M l (take k xs @ x # drop k xs) \<Longrightarrow> Q Status_OK M K"
    and C: "C = old_or_new l xs (take k xs @ x # drop k xs)"
  shows "wpc (cas_after_loop m ib l p x) Q C M K"
proof -
  obtain j where j: "m = Suc j" "2 \<le> j" using m by (intro that [of "m - 1"]) auto
  let ?M2 = "M(prev_of x := p, next_of x := n)"
  note nb = dll_neighbours [OF d g] and nn = new_node [OF w]
  have ne: "x \<noteq> p" "next_of p \<noteq> x" using nn nb(9) by auto
  have M: "M (next_of p) = n" "?M2 (next_of p) = n" using nb(1) ne by (simp_all add: link_def prev_of_def)
  have C0: "C M" "C (M(prev_of x := p))" "C ?M2"
    using insert_steps_forward(1,2) [OF d g w] dll_forward [OF d] by (simp_all only: C old_or_new_def simp_thms)
  note fin = wpc_insert_finish [where Q = Q, OF d g w j(2) Q C]
  show ?thesis
    unfolding j(1) cas_after_loop.simps Let_def
    by (rule wpc_mbind C0 fin wpc_ReadPersist wpc_Flush wpc_store wpc_CAS_hit wpc_mcheck M
        | simp only: M if_True simp_thms node_ptr_simps(5) [OF nb(2)] node_ptr_simps(5) [OF nb(3)] node_ptr_simps(6) [OF nn(1)]
        | (use nb(2,3) in \<open>simp; fail\<close>))+
qed

lemma wpc_InsertAfter_gap:
  assumes d: "dll M l xs" and g: "at_gap l xs k p n" and w: "wf_nodes (x # nodes_of l xs)" and m: "4 \<le> m"
    and Q: "\<And>M K. dll M l (take k xs @ x # drop k xs) \<Longrightarrow> Q Status_OK M K"
    and C: "C = old_or_new l xs (take k xs @ x # drop k xs)"
  shows "wpc (CASDList_InsertAfter m l p x) Q C M K"
proof -
  obtain j where j: "m = Suc j" "3 \<le> j" using m by (intro that [of "m - 1"]) auto
  note nb = dll_neighbours [OF d g] and nn = new_node [OF w]
  show ?thesis
    unfolding j(1) CASDList_InsertAfter.simps if_not_P [OF nb(7)]
    by (rule wpc_mbind wpc_mcheck wpc_flush_payload wpc_after_loop [where Q = Q, OF d g w j(2) Q C]
        | (use nb nn in \<open>simp; fail\<close>))+
qed

lemma wpc_insert_before_gap:
  assumes d: "dll M l xs" and g: "at_gap l xs k p n" and w: "wf_nodes (x # nodes_of l xs)" and m: "4 \<le> m"
    and Q: "\<And>M K. dll M l (take k xs @ x # drop k xs) \<Longrightarrow> Q Status_OK M K"
    and C: "C = old_or_new l xs (take k xs @ x # drop k xs)"
  shows "wpc (cas_insert_before ia m l n x) Q C M K"
proof -
  note nb = dll_neighbours [OF d g] and nn = new_node [OF w]
  show ?thesis
    unfolding cas_insert_before_def if_not_P [OF nb(8)]
    by (rule wpc_mbind wpc_mcheck wpc_flush_payload wpc_before_loop [where Q = Q, OF d g w m Q C]
        | (use nb nn in \<open>simp; fail\<close>))+
qed

text \<open>Positions: inserting before the head means after it, inserting after the tail means before it.\<close>

definition gap_before :: "dlist \<Rightarrow> u64 list \<Rightarrow> u64 \<Rightarrow> nat \<Rightarrow> bool" where
  "gap_before l xs n k \<longleftrightarrow> k \<le> length xs \<and> (n = nodes_of l xs ! Suc k \<or> n = list_head l \<and> k = 0)"

definition gap_after :: "dlist \<Rightarrow> u64 list \<Rightarrow> u64 \<Rightarrow> nat \<Rightarrow> bool" where
  "gap_after l xs p k \<longleftrightarrow> k \<le> length xs \<and> (p = nodes_of l xs ! k \<or> p = list_tail l \<and> k = length xs)"

lemma dll_head_tail: "dll M l xs \<Longrightarrow> node_ptr (list_head l)" "dll M l xs \<Longrightarrow> node_ptr (list_tail l)"
  "dll M l xs \<Longrightarrow> list_head l \<noteq> list_tail l"
  by (auto simp: dll_def wf_nodes_def nodes_of_def)

lemma wpc_InsertAfter:
  assumes d: "dll M l xs" and g: "gap_after l xs p k" and w: "wf_nodes (x # nodes_of l xs)" and m: "5 \<le> m"
    and Q: "\<And>M K. dll M l (take k xs @ x # drop k xs) \<Longrightarrow> Q Status_OK M K"
    and C: "C = old_or_new l xs (take k xs @ x # drop k xs)"
  shows "wpc (CASDList_InsertAfter m l p x) Q C M K"
proof (cases "p = nodes_of l xs ! k")
  case True
  then have "at_gap l xs k p (nodes_of l xs ! Suc k)" using g by (simp add: at_gap_def gap_after_def)
  then show ?thesis using m by (intro wpc_InsertAfter_gap [where Q = Q, OF d _ w _ Q C]) auto
next
  case False
  then have p: "p = list_tail l" and k: "k = length xs" using g by (simp_all add: gap_after_def)
  have g': "at_gap l xs k (nodes_of l xs ! k) p" unfolding p k by (simp add: at_gap_def nodes_of_def nth_append)
  obtain j where j: "m = Suc j" "4 \<le> j" using m by (intro that [of "m - 1"]) auto
  note t = dll_head_tail [OF d]
  show ?thesis
    unfolding j(1) CASDList_InsertAfter.simps if_P [OF p]
    by (rule wpc_mbind wpc_mcheck wpc_insert_before_gap [where Q = Q, OF d g' w j(2) Q C]
        | (use p t new_node [OF w] in \<open>simp; fail\<close>))+
qed

lemma wpc_InsertBefore:
  assumes d: "dll M l xs" and g: "gap_before l xs n k" and w: "wf_nodes (x # nodes_of l xs)" and m: "4 \<le> m"
    and Q: "\<And>M K. dll M l (take k xs @ x # drop k xs) \<Longrightarrow> Q Status_OK M K"
    and C: "C = old_or_new l xs (take k xs @ x # drop k xs)"
  shows "wpc (CASDList_InsertBefore m l n x) Q C M K"
  unfolding CASDList_InsertBefore_def
proof (cases "n = nodes_of l xs ! Suc k")
  case True
  then have "at_gap l xs k (nodes_of l xs ! k) n" using g by (simp add: at_gap_def gap_before_def)
  then show "wpc (cas_insert_before (CASDList_InsertAfter m l) m l n x) Q C M K"
    using m by (intro wpc_insert_before_gap [where Q = Q, OF d _ w _ Q C]) auto
next
  case False
  then have n: "n = list_head l" and k: "k = 0" using g by (simp_all add: gap_before_def)
  have "at_gap l xs k n (nodes_of l xs ! Suc k)" unfolding n k by (simp add: at_gap_def nodes_of_def)
  note ia = wpc_InsertAfter_gap [where Q = Q, OF d this w m Q C]
  show "wpc (cas_insert_before (CASDList_InsertAfter m l) m l n x) Q C M K"
    unfolding cas_insert_before_def if_P [OF n]
    by (rule wpc_mbind wpc_mcheck ia | (use n dll_head_tail [OF d] new_node [OF w] in \<open>simp; fail\<close>))+
qed

section \<open>Deletion\<close>

lemma forward_masked:
  assumes "forward M l xs"
    and "\<And>a. a \<in> set (list_head l # xs) \<Longrightarrow> M' (next_of a) AND NOT kNodeDeleted = M (next_of a) AND NOT kNodeDeleted"
  shows "forward M' l xs"
proof -
  have "reaches M' ns = reaches M ns"
    if "\<And>a. a \<in> set (butlast ns) \<Longrightarrow> M' (next_of a) AND NOT kNodeDeleted = M (next_of a) AND NOT kNodeDeleted" for ns
    using that by (induction M ns rule: reaches.induct) auto
  from this [of "nodes_of l xs"] show ?thesis using assms by (simp add: forward_def nodes_of_def butlast_append)
qed

definition unlinked :: "u64 \<Rightarrow> u64 \<Rightarrow> u64 \<Rightarrow> (u64 \<Rightarrow> u64) \<Rightarrow> u64 \<Rightarrow> u64" where
  "unlinked p x n M = M(next_of x := n OR kNodeDeleted, prev_of x := p OR kNodeDeleted, next_of p := n, prev_of n := p)"

lemma dll_unlink:
  assumes d: "dll M l xs" and k: "k < length xs" and x: "x = xs ! k" and p: "at_gap l xs k p x" and n: "at_gap l xs (Suc k) x n"
    and M': "M' (next_of p) = n" "M' (prev_of n) = p"
    and same: "\<And>a. a \<notin> {next_of p, prev_of n, next_of x, prev_of x} \<Longrightarrow> M' a = M a"
  shows "dll M' l (take k xs @ drop (Suc k) xs)"
proof -
  let ?ys = "take k xs @ drop (Suc k) xs"
  have xs: "xs = take k ?ys @ x # drop k ?ys" using k x by (simp add: id_take_nth_drop min_def)
  have ky: "k \<le> length ?ys" using k by simp
  obtain us vs where ns: "nodes_of l ?ys = us @ [nodes_of l ?ys ! k, nodes_of l ?ys ! Suc k] @ vs" and us: "length us = k"
    and ns': "\<And>z. nodes_of l (take k ?ys @ z # drop k ?ys) = us @ [nodes_of l ?ys ! k, z, nodes_of l ?ys ! Suc k] @ vs"
    using nodes_split [OF ky, of l] by blast
  have nx: "nodes_of l xs = us @ [nodes_of l ?ys ! k, x, nodes_of l ?ys ! Suc k] @ vs" using ns' [of x] xs by metis
  have "nodes_of l xs ! k = nodes_of l ?ys ! k" "nodes_of l xs ! Suc (Suc k) = nodes_of l ?ys ! Suc k"
    unfolding nx using us by (simp_all add: nth_append)
  then have pn: "p = nodes_of l ?ys ! k" "n = nodes_of l ?ys ! Suc k" using p n by (simp_all add: at_gap_def)
  have w: "wf_nodes (us @ [p, x, n] @ vs)" and li: "linked_nodes M (us @ [p, x, n] @ vs)"
    using d nx pn by (simp_all add: dll_def)
  have "linked_nodes M' (us @ [p, n] @ vs)" by (rule linked_unlink [OF w li M' same]) simp
  moreover have "wf_nodes (us @ [p, n] @ vs)" using w by (auto simp: wf_nodes_def)
  moreover have "M' (prev_of (list_head l)) = 0" "M' (next_of (list_tail l)) = 0"
  proof -
    note nb = dll_neighbours [OF d p] dll_neighbours [OF d n]
    have wf: "wf_nodes (nodes_of l xs)" using d by (simp add: dll_def)
    have "list_head l \<in> set (nodes_of l xs)" "list_tail l \<in> set (nodes_of l xs)" by (simp_all add: nodes_of_def)
    then have ht: "next_of a \<noteq> list_head l" "next_of (list_tail l) \<noteq> a" if "a \<in> {p, x, n}" for a
      using wf_neq [OF wf] nb(9,10,21,22) that by auto
    have "prev_of (list_head l) \<notin> {next_of p, prev_of n, next_of x, prev_of x}"
      "next_of (list_tail l) \<notin> {next_of p, prev_of n, next_of x, prev_of x}"
      using ht [of p] ht [of x] ht [of n] nb(7,8,19,20) by (auto simp: prev_of_def)
    then show "M' (prev_of (list_head l)) = 0" "M' (next_of (list_tail l)) = 0"
      using same d by (simp_all add: dll_def)
  qed
  ultimately show ?thesis using pn ns by (simp add: dll_def)
qed

text \<open>The facts about the node to be deleted and its neighbours.\<close>

lemma delete_facts:
  assumes d: "dll M l xs" and k: "k < length xs"
  obtains p n where "at_gap l xs k p (xs ! k)" "at_gap l xs (Suc k) (xs ! k) n" "distinct [p, xs ! k, n]"
    "wf_nodes [p, xs ! k, n]" "xs ! k \<noteq> list_head l" "xs ! k \<noteq> list_tail l" "next_of (list_head l) \<noteq> xs ! k"
proof -
  let ?ns = "nodes_of l xs" and ?x = "xs ! k"
  have x: "?ns ! Suc k = ?x" using k by (simp add: nodes_of_def nth_append)
  have w: "wf_nodes ?ns" and dist: "distinct ?ns" using d by (simp_all add: dll_def wf_nodes_def)
  have p: "at_gap l xs k (?ns ! k) ?x" and n: "at_gap l xs (Suc k) ?x (?ns ! Suc (Suc k))"
    using k x by (simp_all add: at_gap_def)
  have "?ns ! k \<noteq> ?ns ! Suc k" "?ns ! k \<noteq> ?ns ! Suc (Suc k)" "?ns ! Suc k \<noteq> ?ns ! Suc (Suc k)"
    using k by (simp_all add: nth_eq_iff_index_eq [OF dist])
  then have dd: "distinct [?ns ! k, ?x, ?ns ! Suc (Suc k)]" using x by simp
  note i = dll_neighbours [OF d p] dll_neighbours [OF d n]
  have "next_of (list_head l) \<noteq> ?x" using wf_neq [OF w, of "list_head l" ?x] i(10) by (simp add: nodes_of_def)
  then show ?thesis
    using i(8,9,10,19,22) wf_nodes_subset [OF w _ dd] dd by (intro that [OF p n]) auto
qed

lemma delete_steps:
  assumes d: "dll M l xs" and k: "k < length xs" and x: "x = xs ! k" and p: "at_gap l xs k p x" and n: "at_gap l xs (Suc k) x n"
    and w: "wf_nodes [p, x, n]"
  shows "forward (M(next_of x := n OR kNodeDeleted)) l xs"
    "forward (M(next_of x := n OR kNodeDeleted, prev_of x := p OR kNodeDeleted)) l xs"
    "forward (M(next_of x := n OR kNodeDeleted, prev_of x := p OR kNodeDeleted, next_of p := n)) l (take k xs @ drop (Suc k) xs)"
    "dll (unlinked p x n M) l (take k xs @ drop (Suc k) xs)"
proof -
  let ?ys = "take k xs @ drop (Suc k) xs"
  note i = dll_neighbours [OF d p] dll_neighbours [OF d n]
  have Mx: "M (next_of x) = n" using i(13) by (simp add: link_def)
  have wf: "wf_nodes (nodes_of l xs)" using d by (simp add: dll_def)
  have nx: "next_of a \<noteq> x" "next_of a \<noteq> n" if "a \<in> set (nodes_of l xs)" for a
    using wf_neq [OF wf that] i(10,22) by auto
  have sub: "a \<in> set (list_head l # xs) \<Longrightarrow> a \<in> set (nodes_of l xs)" "a \<in> set (list_head l # ?ys) \<Longrightarrow> a \<in> set (nodes_of l xs)" for a
    by (auto simp: nodes_of_def dest: in_set_takeD in_set_dropD)
  show "forward (M(next_of x := n OR kNodeDeleted)) l xs"
    "forward (M(next_of x := n OR kNodeDeleted, prev_of x := p OR kNodeDeleted)) l xs"
    by (rule forward_masked [OF dll_forward [OF d]]; use Mx i(15) nx(1) sub(1) in \<open>force simp: prev_of_def\<close>)+
  have ne: "p \<noteq> x" "x \<noteq> n" "p \<noteq> n" "next_of x \<noteq> p" "next_of p \<noteq> x" "next_of p \<noteq> n" "next_of n \<noteq> x"
    using w by (auto simp: wf_nodes_def)
  show u: "dll (unlinked p x n M) l ?ys"
    by (rule dll_unlink [OF d k x p n]) (use ne in \<open>auto simp: unlinked_def prev_of_def\<close>)
  show "forward (M(next_of x := n OR kNodeDeleted, prev_of x := p OR kNodeDeleted, next_of p := n)) l ?ys"
    by (rule forward_frame [OF dll_forward [OF u]]) (use nx sub(2) in \<open>force simp: unlinked_def prev_of_def\<close>)
qed

lemma wpc_delete_correct_prev:
  assumes w: "wf_nodes [p, x, n]" and h: "next_of (list_head l) \<noteq> x" and m: "3 \<le> m"
    and M: "M (next_of p) = x" "M (next_of x) = n OR kNodeDeleted" "M (prev_of x) = p OR kNodeDeleted" "M (prev_of n) = x"
      "\<not> is_deleted (M (prev_of p))"
    and C: "C M" "C (M(next_of p := n))" "C (M(next_of p := n, prev_of n := p))"
    and Q: "\<And>K. Q p (M(next_of p := n, prev_of n := p)) K"
  shows "wpc (correct_prev m l 0 p n) Q C M K"
proof -
  obtain j where j: "m = Suc (Suc (Suc j))" using m by (intro that [of "m - 3"]) auto
  have np: "node_ptr p" "node_ptr x" "node_ptr n"
    and ne: "p \<noteq> x" "x \<noteq> n" "p \<noteq> n" "next_of x \<noteq> p" "next_of p \<noteq> x" "next_of p \<noteq> n" "next_of n \<noteq> x" "next_of n \<noteq> p" "next_of x \<noteq> n"
    using w by (auto simp: wf_nodes_def)
  let ?M1 = "M(next_of p := n)"
  have f: "?M1 (next_of p) = n" "?M1 (prev_of n) = x" "?M1 (prev_of p) = M (prev_of p)"
    using M(4) ne by (auto simp: prev_of_def)
  have lp: "live_path ?M1 [p] n" using f(1) by (simp only: live_path.simps)
  have wf: "wf_nodes [n, p]" by (rule wf_nodes_subset [OF w]) (use ne in auto)
  have nd: "\<not> is_deleted (?M1 (prev_of n))" "\<not> is_deleted (?M1 (prev_of (last [p])))"
    using f M(5) np(2) by (simp_all only: last_short node_ptr_simps not_False_eq_True)
  have le: "length [p] \<le> Suc j" by simp
  have fin: "wpc (correct_prev (Suc j) l 0 p n) Q C ?M1 K'" for K'
    using wpc_correct_prev [where ws = "[p]" and C = C and Q = Q, OF lp wf le C(2) nd, of l 0 K'] C(3) Q
    by (simp only: last_short list.sel)
  have idem: "M(prev_of x := M (prev_of x) OR kNodeDeleted) = M" using M(3) or_deleted_idem [of "M (prev_of x)"] by (simp add: fun_upd_idem)
  have fp: "prev_of x \<noteq> next_of p" "prev_of x \<noteq> next_of (list_head l)" "next_of p \<noteq> prev_of x"
    "next_of p \<noteq> prev_of n" "next_of p \<noteq> next_of x" using ne h by (auto simp: prev_of_def)
  have mark: "wpc (MarkNodePointer (Suc j) l (prev_of x)) Q' C M K'" if "Q' () M (K' - {prev_of x})" for Q' K'
    by (rule wpc_Mark) (use C fp that idem in simp_all)
  have second: "wpc (correct_prev (Suc (Suc j)) l p x n) Q C M (insert (next_of p) K')" for K'
    unfolding correct_prev.simps(2) [of "Suc j"] Let_def node_ptr_simps(5) [OF np(2)]
    by (rule wpc_mbind C fin M wpc_ReadPersist mark wpc_CAS_hit
        | simp only: M deleted_or node_ptr_simps np if_True if_False simp_thms
        | (use fp in \<open>simp; fail\<close>))+
  show ?thesis
    unfolding j correct_prev.simps(2) [of "Suc (Suc j)"] Let_def node_ptr_simps(5) [OF np(1)]
    by (rule wpc_mbind C second wpc_ReadPersist | simp only: M node_ptr_simps np ne if_True if_False simp_thms)+
qed

lemma wpc_Delete:
  assumes d: "dll M l xs" and k: "k < length xs" and x: "x = xs ! k" and m: "4 \<le> m"
    and Q: "\<And>M K. dll M l (take k xs @ drop (Suc k) xs) \<Longrightarrow> is_deleted (M (next_of x)) \<Longrightarrow> Q Status_OK M K"
    and C: "C = old_or_new l xs (take k xs @ drop (Suc k) xs)"
  shows "wpc (CASDList_Delete m l x) Q C M K"
proof -
  obtain j where j: "m = Suc (Suc j)" "2 \<le> j" using m by (intro that [of "m - 2"]) auto
  obtain p n where p: "at_gap l xs k p x" and n: "at_gap l xs (Suc k) x n" and w: "wf_nodes [p, x, n]"
    and xh: "x \<noteq> list_head l" "x \<noteq> list_tail l" "next_of (list_head l) \<noteq> x"
    using delete_facts [OF d k] x by metis
  note i = dll_neighbours [OF d p] dll_neighbours [OF d n] and st = delete_steps [OF d k x p n w]
  let ?M1 = "M(next_of x := n OR kNodeDeleted)"
  let ?M2 = "M(next_of x := n OR kNodeDeleted, prev_of x := p OR kNodeDeleted)"
  have ne: "p \<noteq> x" "x \<noteq> n" "p \<noteq> n" "next_of x \<noteq> p" "next_of p \<noteq> x" "next_of p \<noteq> n" "next_of n \<noteq> x" "next_of x \<noteq> n"
    and np: "node_ptr p" "node_ptr x" "node_ptr n"
    using w by (auto simp: wf_nodes_def)
  have M: "M (next_of p) = x" "M (prev_of x) = p" "M (next_of x) = n" "M (prev_of n) = x"
    using i(1,13) by (simp_all add: link_def)
  have g0: "at_gap l xs 0 (list_head l) (nodes_of l xs ! 1)" by (simp add: at_gap_def nodes_of_def)
  have "next_of (list_head l) \<noteq> next_of x" using xh(1) by simp
  then have h: "?M2 (next_of (list_head l)) = M (next_of (list_head l))" using xh(3) by (simp add: prev_of_def)
  have hd: "\<not> is_deleted v" if "v AND NOT kDirtyFlag = ?M2 (next_of (list_head l))" for v
    using that undirt_deleted [of v] dll_neighbours(1,3) [OF d g0] unfolding h by (simp add: link_def)
  have f1: "?M1 (prev_of x) = p" using M ne by (simp add: prev_of_def)
  have f2: "?M2 (next_of p) = x" "?M2 (next_of x) = n OR kNodeDeleted" "?M2 (prev_of x) = p OR kNodeDeleted" "?M2 (prev_of n) = x"
      "\<not> is_deleted (?M2 (prev_of p))"
    using M ne i(6) by (auto simp: prev_of_def)
  have C0: "C M" "C ?M1" "C ?M2" "C (?M2(next_of p := n))" "C (?M2(next_of p := n, prev_of n := p))"
    using st(1-3) dll_forward [OF st(4)] dll_forward [OF d] by (simp_all only: C old_or_new_def unlinked_def simp_thms)
  have del: "is_deleted (unlinked p x n M (next_of x))" using ne by (simp add: unlinked_def prev_of_def)
  have q: "Q Status_OK (?M2(next_of p := n, prev_of n := p)) K" for K
    using Q [OF st(4) del] by (simp only: unlinked_def)
  have j3: "3 \<le> Suc j" using j(2) by simp
  have cp: "wpc (CorrectPrev (Suc j) l p n) (\<lambda>_. wpc (mret Status_OK) Q C) C ?M2 K'" for K'
    unfolding CorrectPrev_def
    by (rule wpc_mbind wpc_mcheck wpc_delete_correct_prev [where C = C, OF w xh(3) j3 f2 C0(3-5)] wpc_mret q
        | (use np in \<open>simp; fail\<close>))+
  have dp: "wpc (delete_prev_loop (Suc j) x) Q' C ?M1 K'" if "\<And>K. Q' p ?M2 K" for Q' K'
    unfolding delete_prev_loop.simps
    by (rule wpc_mbind C0 wpc_ReadPersist wpc_CAS_hit wpc_mret that | simp only: f1 node_ptr_simps np if_True if_False simp_thms
        | (use f1 in \<open>simp; fail\<close>))+
  show ?thesis
    unfolding CASDList_Delete_def j(1) delete_loop.simps
    by (rule wpc_mbind wpc_mcheck C0 cp dp wpc_load wpc_ReadPersist wpc_CAS_hit
        | simp only: xh M node_ptr_simps np if_True if_False simp_thms hd
        | (use M hd np in \<open>simp; fail\<close>))+
qed

lemma wpc_Delete_end:
  assumes d: "dll M l xs" and x: "x = list_head l \<or> x = list_tail l" and C: "C M" and Q: "\<And>K. Q Status_OK M K"
  shows "wpc (CASDList_Delete m l x) Q C M K"
proof -
  have g: "at_gap l xs 0 (list_head l) (nodes_of l xs ! 1)" "at_gap l xs (length xs) (nodes_of l xs ! length xs) (list_tail l)"
    by (simp_all add: at_gap_def nodes_of_def nth_append)
  note h = dll_neighbours [OF d g(1)] and t = dll_neighbours [OF d g(2)]
  have "\<not> is_deleted (M (next_of x))" "\<not> is_deleted (M (prev_of x))" "node_ptr x"
    using x h(1-3,6) t(1-3,5) by (auto simp: link_def)
  then have nd: "\<not> is_deleted v" if "v AND NOT kDirtyFlag = M (next_of x) \<or> v AND NOT kDirtyFlag = M (prev_of x)" for v
    using that undirt_deleted [of v] by auto
  show ?thesis
    unfolding CASDList_Delete_def if_P [OF x] using \<open>node_ptr x\<close>
    by - (rule wpc_mbind wpc_mcheck wpc_load wpc_mret Q | (use nd in \<open>simp; fail\<close>))+
qed

section \<open>Reading\<close>

lemma wpc_GetNext:
  assumes d: "dll M l xs" and g: "at_gap l xs k p n" and m: "1 \<le> m" and C: "C M" and Q: "\<And>K. Q n M K"
  shows "wpc (CASDList_GetNext m l p) Q C M K"
proof -
  obtain j where j: "m = Suc j" using m by (cases m) auto
  note i = dll_neighbours [OF d g]
  have M: "M (next_of p) = n" using i(1) by (simp add: link_def)
  show ?thesis
    unfolding j CASDList_GetNext.simps if_not_P [OF i(7)]
    by (rule wpc_mbind wpc_mcheck wpc_Deref wpc_ReadPersist wpc_mret C Q
        | simp only: M i(2,3,5) node_ptr_simps if_False simp_thms not_False_eq_True)+
qed

lemma wpc_GetPrev:
  assumes d: "dll M l xs" and g: "at_gap l xs k p n" and m: "1 \<le> m" and C: "C M" and Q: "\<And>K. Q p M K"
  shows "wpc (CASDList_GetPrev m l n) Q C M K"
proof -
  obtain j where j: "m = Suc j" using m by (cases m) auto
  note i = dll_neighbours [OF d g]
  have M: "M (next_of p) = n" "M (prev_of n) = p" using i(1) by (simp_all add: link_def)
  show ?thesis
    unfolding j CASDList_GetPrev.simps if_not_P [OF i(8)]
    by (rule wpc_mbind wpc_mcheck wpc_Deref wpc_ReadPersist wpc_mret C Q
        | simp only: M i(2,3,5) node_ptr_simps if_True simp_thms not_False_eq_True)+
qed

end
