(* ===== verification/MwCrash.thy ===== *)
theory MwCrash
  imports MwExample
begin

text \<open>
  The properties of \<open>MwCAS\<close>: its refinement of the specification, and its behaviour across crashes. A process that dies inside \<open>MwCAS\<close> loses its thread-local and heap state; the next process maps the
  memory pool at the same address and calls \<open>Recovery\<close>.
\<close>

definition restart :: "mw_world \<Rightarrow> mw_world" where
  "restart s = s\<lparr>ew := \<lparr>tls = (\<lambda>_. Nullptr), tls_registry = [], managers = (\<lambda>_. new_manager)\<rparr>,
     freed := [], mstats := \<lparr>enabled = False, instance_cl = new_core_local\<rparr>, budget := None\<rparr>"

lemma restart_simps [simp]:
  "mem (restart s) = mem s" "descs (restart s) = descs s" "pool (restart s) = pool s" "budget (restart s) = None"
  "nv (restart s) = nv s" "\<not> enabled (mstats (restart s))"
  by (simp_all add: restart_def)

section \<open>Recovery from a restarted process\<close>

text \<open>The state in which the loop over the descriptors starts: a new epoch manager and new partitions.\<close>

definition recovery_start :: "mw_world \<Rightarrow> mw_world \<Rightarrow> bool" where
  "recovery_start s s1 \<longleftrightarrow> mem s1 = mem s \<and> descs s1 = descs s \<and> budget s1 = None \<and>
     (\<exists>t. pool s1 = (pool s)\<lparr>partition_table := t\<rparr>) \<and> empty_partitions (pool s1)"

lemma op_ctx_cong:
  assumes "op_ctx s d m0" and "descs s' d = descs s d" and "descriptors (pool s') = descriptors (pool s)"
    and "pool_size (pool s') = pool_size (pool s)"
  shows "op_ctx s' d m0"
  using assms(2) by (intro op_ctx_perm [OF assms(1) _ assms(3,4)]) (simp_all add: op_words_def)

lemma op_facts_cong:
  assumes "words (descs s' d) = words (descs s d)" "d_count (descs s' d) = d_count (descs s d)"
    and "descriptors (pool s') = descriptors (pool s)"
  shows "recoverable s' d = recoverable s d" and "settled s' d = settled s d"
proof -
  have "wrd s' d = wrd s d" "tgt s' d = tgt s d" "cptr s' d = cptr s d" "dptr s' d = dptr s d" "dptr_dirty s' d = dptr_dirty s d"
    using assms by (auto simp: fun_eq_iff wrd_def tgt_def cptr_def dptr_def dptr_dirty_def word_addr_def desc_addr_def)
  then show "recoverable s' d = recoverable s d" "settled s' d = settled s d"
    by (auto simp only: fun_eq_iff recoverable_def undoable_def rolling_forward_def frame_def matches_def settled_def)
qed

lemma quiet_cong:
  assumes "quiet s d m0" and "descriptors (pool s') = descriptors (pool s)" and "pool_size (pool s') = pool_size (pool s)"
    and "\<And>k. k \<noteq> d \<Longrightarrow> descs s' k = descs s k \<or>
       d_count (descs s' k) = 0 \<and> d_status (descs s' k) \<in> {d_status (descs s k), kStatusFinished}"
  shows "quiet s' d m0"
  unfolding quiet_def
proof (intro allI impI)
  fix k assume k: "k < pool_size (pool s')" "k \<noteq> d"
  have "app_value (pool s') = app_value (pool s)"
    using assms(2,3) by (auto simp: fun_eq_iff app_value_def desc_addr_def word_addr_def)
  moreover have "kStatusFinished AND NOT kStatusDirtyFlag = kStatusFinished" by (simp add: status_defs kStatusDirtyFlag_def)
  ultimately show "d_status (descs s' k) AND NOT kStatusDirtyFlag
      \<in> {kStatusFinished, kStatusFailed, kStatusSucceeded, kStatusUndecided} \<and>
     d_count (descs s' k) \<le> DESC_CAP \<and>
     (\<forall>i < d_count (descs s' k). address (wrd s' k i) \<noteq> kAllocNullAddress \<longrightarrow>
        app_value (pool s') (m0 (address (wrd s' k i))))"
    using assms(1) assms(4) [OF k(2)] k assms(3) by (auto simp: quiet_def wrd_def)
qed

lemma recovery_loop:
  assumes ctx: "op_ctx s d m0" and q: "quiet s d m0" and r: "recoverable s d m0 (mem s) (d_status (descs s d))"
    and d: "d < pool_size (pool s)" and b: "budget s = None"
  obtains s1 where "recover_all 0 [0..<pool_size (pool s)] s = Done () s1" "budget s1 = None"
    "pool s1 = pool s" "settled s d m0 (decided_success (d_status (descs s d))) (mem s1)"
proof -
  let ?st = "d_status (descs s d)"
  have w: "wpo s d (recover_all 0 [0..<pool_size (pool s)]) (\<lambda>_ m st. settled s d m0 (decided_success ?st) m) (\<lambda>_ _. True) (mem s) ?st"
    by (rule recover_all_spec [OF ctx q]) (use r d in auto)
  have e: "opst s d (mem s) ?st None (nv s) = s"
    using b by (cases s) (simp add: opst_def)
  show ?thesis
    by (rule wp_DoneE [OF wpoD [OF w, where b = None and v = "nv s", unfolded e] b]) (use that in auto)
qed


text \<open>The set-up of \<open>Recovery\<close> up to that loop, when the pool is mapped where it was.\<close>

lemma Recovery_setup:
  assumes sh: "pool_shape (pool s)" and dpp: "desc_per_partition (pool s) = 2 ^ k" "k < 64"
    and b: "budget s = None" and me: "\<And>tid m' i. tls (ew s) (tid, EpochEntryTls) \<noteq> EntryPtr m' i"
  obtains s1 where "recovery_start s s1" "mgr_inv (pool_epoch (pool s)) (ew s1)"
    "Recovery False cores (pmdk_pool (pool s)) s =
       mbind (mwhen (d_status (descs s 0) \<noteq> kStatusInvalid) (recover_all 0 [0..<pool_size (pool s)])) (\<lambda>_.
       mbind (upd_pool (\<lambda>p. p\<lparr>pmdk_pool := pmdk_pool (pool s)\<rparr>)) (\<lambda>_. InitDescriptors)) s1"
proof -
  let ?m = "pool_epoch (pool s)" and ?p = "pool s"
  let ?w = "set_mgr ?m new_manager (ew s)"
  have ep: "epoch_table (managers ?w ?m) = None" "\<And>tid m' i. tls ?w (tid, EpochEntryTls) \<noteq> EntryPtr m' i"
    using me by (simp_all add: new_manager_def)
  obtain w1 where i: "Initialize True ?m ?w = (Status_OK, w1)" and w1: "mgr_inv ?m w1"
    using Initialize_inv [OF ep] by (cases "Initialize True ?m ?w") simp
  define parts where "parts = replicate (partition_count ?p)
    \<lparr>free_list = 0, part_garbage = fresh_garbage ?m (desc_per_partition ?p), allocated_desc = 0\<rparr>"
  have np: "new_partitions ?m (desc_per_partition ?p) (partition_count ?p) = Inr parts"
    using new_partitions_eq [OF dpp(2,1)] by (simp add: parts_def)
  define s1 where "s1 = s\<lparr>mstats := (mstats s)\<lparr>enabled := False\<rparr>, ew := w1, pool := ?p\<lparr>partition_table := parts\<rparr>\<rparr>"
  have pos: "0 < partition_count ?p" "descriptors ?p \<noteq> 0" "0 < pool_size ?p"
    using sh by (auto simp: pool_shape_def pool_ok_def)
  have "Recovery False cores (pmdk_pool ?p) s =
       mbind (mwhen (d_status (descs s 0) \<noteq> kStatusInvalid) (recover_all 0 [0..<pool_size ?p])) (\<lambda>_.
       mbind (upd_pool (\<lambda>p. p\<lparr>pmdk_pool := pmdk_pool ?p\<rparr>)) (\<lambda>_. InitDescriptors)) s1"
    by (simp add: Recovery_def mbind_Done metrics_init_def Metrics_Initialize_def mget_def epoch_init_def i mcheck_def pos
        mlift_def np upd_pool_def mstore_def b s1_def)
  moreover have "recovery_start s s1"
    by (auto simp: recovery_start_def s1_def b empty_partitions_def parts_def)
  ultimately show ?thesis using that w1 by (simp add: s1_def)
qed

lemma pool_shape_parts: "pool_shape (p\<lparr>partition_table := t\<rparr>) = pool_shape p"
  by (simp add: pool_shape_def pool_ok_def)

lemma Recovery_run:
  assumes sh: "pool_shape (pool s)" and dpp: "desc_per_partition (pool s) = 2 ^ k" "k < 64"
    and b: "budget s = None" and me: "\<And>tid m' i. tls (ew s) (tid, EpochEntryTls) \<noteq> EntryPtr m' i"
    and ctx: "op_ctx s d m0" and q: "quiet s d m0" and r: "recoverable s d m0 (mem s) (d_status (descs s d))"
  shows "\<exists>s2. Recovery False cores (pmdk_pool (pool s)) s = Done () s2 \<and> pool_ready s2 \<and>
    settled s d m0 (decided_success (d_status (descs s d))) (mem s2)"
proof -
  obtain s1 where s1: "recovery_start s s1" and run: "Recovery False cores (pmdk_pool (pool s)) s =
       mbind (mwhen (d_status (descs s 0) \<noteq> kStatusInvalid) (recover_all 0 [0..<pool_size (pool s)])) (\<lambda>_.
       mbind (upd_pool (\<lambda>p. p\<lparr>pmdk_pool := pmdk_pool (pool s)\<rparr>)) (\<lambda>_. InitDescriptors)) s1"
    using Recovery_setup [OF sh dpp b me] by metis
  obtain t where p1: "pool s1 = (pool s)\<lparr>partition_table := t\<rparr>" and e1: "empty_partitions (pool s1)"
    and d1: "descs s1 = descs s" "mem s1 = mem s" "budget s1 = None" using s1 by (auto simp: recovery_start_def)
  have inv: "d_status (descs s 0) \<noteq> kStatusInvalid"
  proof (cases "d = 0")
    case True
    then show ?thesis using recoverable_valid [OF r] by simp
  next
    case False
    then have "d_status (descs s 0) AND NOT kStatusDirtyFlag \<in> {kStatusFinished, kStatusFailed, kStatusSucceeded, kStatusUndecided}"
      using q sh by (auto simp: quiet_def pool_shape_def)
    then show ?thesis by (auto simp: status_defs)
  qed
  have "op_ctx s1 d m0" "quiet s1 d m0" "recoverable s1 d m0 (mem s1) (d_status (descs s1 d))"
    using op_ctx_cong [OF ctx, of s1] quiet_cong [OF q, of s1] op_facts_cong(1) [of s1 d s] r p1 d1 by simp_all
  moreover have "d < pool_size (pool s1)" using op_ctxD(2) [OF ctx] p1 by simp
  ultimately obtain s2 where s2: "recover_all 0 [0..<pool_size (pool s1)] s1 = Done () s2" "budget s2 = None" "pool s2 = pool s1"
    "settled s1 d m0 (decided_success (d_status (descs s1 d))) (mem s2)"
    by (rule recovery_loop [OF _ _ _ _ d1(3)])
  define s3 where "s3 = s2\<lparr>pool := (pool s2)\<lparr>pmdk_pool := pmdk_pool (pool s)\<rparr>\<rparr>"
  have p3: "pool s3 = pool s1" using s2(3) p1 by (simp add: s3_def)
  have run3: "Recovery False cores (pmdk_pool (pool s)) s = InitDescriptors s3"
    using s2 p1 inv by (simp add: run mwhen_def mbind_Done upd_pool_def mstore_def s3_def)
  have shape: "pool_shape (pool s3)" "empty_partitions (pool s3)" "budget s3 = None"
    using sh e1 s2(2) p1 by (simp_all add: p3 pool_shape_parts) (simp add: s3_def)
  have st: "settled s d m0 (decided_success (d_status (descs s d))) (mem s3)"
    using s2(4) op_facts_cong(2) [of s1 d s] p1 d1 by (simp add: s3_def)
  show ?thesis
    unfolding run3
    by (rule wp_DoneE [OF InitDescriptors_spec [OF shape(1,2)] shape(3)]) (use st in \<open>auto simp: untouched_def\<close>)
qed

section \<open>All or nothing across a crash\<close>

text \<open>The memory a crash and a recovery may leave: that of the operation not done or done, where a target may
  still carry the dirty flag.\<close>

definition durable_as :: "word_desc list \<Rightarrow> (u64 \<Rightarrow> u64) \<Rightarrow> (u64 \<Rightarrow> u64) \<Rightarrow> bool" where
  "durable_as ws m m' \<longleftrightarrow> (\<forall>a. m' a = m a \<or> a \<in> address ` set (targets ws) \<and> m' a = m a OR kDirtyFlag)"

lemma settled_durable:
  assumes ctx: "op_ctx s d m0" and st: "settled s d m0 r m'"
  shows "durable_as (op_words s d) (if r then apply_new (op_words s d) m0 else m0) m'"
  unfolding durable_as_def
proof
  fix a
  let ?ws = "op_words s d" and ?f = "if r then apply_new (op_words s d) m0 else m0"
  have l: "d_count (descs s d) \<le> length (words (descs s d))" using op_ctxD(4,5) [OF ctx] by simp
  have dist: "distinct (map address (targets ?ws))" using ctx by (simp add: op_ctx_iff)
  have at: "\<forall>w \<in> set (targets ?ws). m' (address w) \<in> (let v = if r then new_value w else m0 (address w) in {v, v OR kDirtyFlag})"
    using st unfolding op_words_all(2) [OF l] settled_def by blast
  have off: "m' a = m0 a" if "\<forall>w \<in> set (targets ?ws). a \<noteq> address w"
    using st that unfolding op_words_all(2) [OF l] by (simp add: settled_def frame_def)
  show "m' a = ?f a \<or> a \<in> address ` set (targets ?ws) \<and> m' a = ?f a OR kDirtyFlag"
  proof (cases "a \<in> address ` set (targets ?ws)")
    case True
    then obtain w where w: "w \<in> set (targets ?ws)" "a = address w" by blast
    then show ?thesis using at foldr_upd(1) [OF dist w(1), of m0] by (auto simp: Let_def apply_new_def)
  next
    case False
    then show ?thesis using off foldr_upd(2) [OF False, of m0] by (auto simp: apply_new_def)
  qed
qed

lemma interrupted_recoverable: "interrupted s d s' \<Longrightarrow> recoverable s' d (mem s) (mem s') (d_status (descs s' d))"
  unfolding interrupted_def
proof (elim disjE conjE)
  assume "d_status (descs s' d) = kStatusFinished" "mem s' = mem s"
  then show ?thesis by (simp add: recoverable_def status_defs kStatusDirtyFlag_def)
qed (rule stopped_recoverable)

lemma durable_perm: "mset ws = mset ws' \<Longrightarrow> durable_as ws m m' = durable_as ws' m m'"
  using mset_eq_setD [of "targets ws" "targets ws'"] by (simp add: durable_as_def targets_def)

lemma rolled_forward_matches:
  assumes "op_ctx s d m0" and "recoverable s d m0 m st" and "decided_success st"
  shows "fst (mwcas_spec (op_words s d) m0)"
  using assms(2,3) unfolding all_match_spec [OF assms(1), symmetric]
  by (auto simp: recoverable_def decided_success_def rolling_forward_def all_match_def)

text \<open>Recovery from a state in which one operation was stopped: its memory is that of the operation done exactly
  when its status says so.\<close>

lemma recover_stopped:
  assumes ctx: "op_ctx s d (mem s)" and st: "mw_stopped s d s1" and sh: "pool_shape (pool s)"
    and dpp: "desc_per_partition (pool s) = 2 ^ k" "k < 64" and q: "quiet s d (mem s)"
  shows "\<exists>s2. Recovery False cores (pmdk_pool (pool s)) (restart s1) = Done () s2 \<and> pool_ready s2 \<and>
    durable_as (op_words s d)
      (if decided_success (d_status (descs s1 d)) then snd (mwcas_spec (op_words s d) (mem s)) else mem s) (mem s2)"
proof -
  let ?r = "restart s1" and ?ws = "op_words s d"
  have l: "linked s d s1" and i: "interrupted s d s1" using st by (simp_all add: mw_stopped_def)
  obtain t where p: "pool s1 = (pool s)\<lparr>partition_table := t\<rparr>" and ws: "mset (op_words s1 d) = mset ?ws"
    using l by (auto simp: linked_def)
  have ctx1: "op_ctx ?r d (mem s)"
    by (rule op_ctx_perm [OF ctx]) (use l ws p in \<open>simp_all add: linked_def op_words_def\<close>)
  have q1: "quiet ?r d (mem s)" by (rule quiet_cong [OF q]) (use l p in \<open>simp_all add: linked_def\<close>)
  have w1: "op_words ?r d = op_words s1 d" by (simp add: op_words_def)
  define g where "g = decided_success (d_status (descs s1 d))"
  have rec: "recoverable ?r d (mem s) (mem ?r) (d_status (descs ?r d))"
    using interrupted_recoverable [OF i] op_facts_cong(1) [of ?r d s1] by simp
  have none: "tls (ew ?r) (tid, EpochEntryTls) \<noteq> EntryPtr m' i" for tid m' i by (simp add: restart_def)
  obtain s2 where s2: "Recovery False cores (pmdk_pool (pool s)) ?r = Done () s2" "pool_ready s2"
    "settled ?r d (mem s) g (mem s2)"
    using Recovery_run [OF _ _ dpp(2) _ none ctx1 q1 rec, of cores] sh dpp(1) p by (auto simp: pool_shape_parts g_def)
  let ?m = "if g then apply_new (op_words ?r d) (mem s) else mem s"
  have "durable_as ?ws ?m (mem s2)"
    using settled_durable [OF ctx1 s2(3)] durable_perm [OF ws] by (simp add: w1)
  moreover have "?m = (if g then snd (mwcas_spec ?ws (mem s)) else mem s)"
  proof (cases g)
    case True
    then have "fst (mwcas_spec (op_words s1 d) (mem s))"
      using rolled_forward_matches [OF ctx1 rec] by (simp add: g_def w1)
    moreover have dist: "distinct (map address (targets (op_words s1 d)))" using ctx1 by (simp add: op_ctx_iff w1)
    ultimately show ?thesis
      using True mwcas_spec_perm [OF ws dist] apply_new_perm [OF ws dist] by (auto simp: w1 mwcas_spec_def Let_def)
  qed simp
  ultimately show ?thesis using s2(1,2) by (auto simp: g_def)
qed

text \<open>C1. A multi-word compare-and-swap is all-or-nothing across a crash: wherever the process dies inside
  \<open>MwCAS\<close>, the \<open>Recovery\<close> of the next process (with the pool mapped at the same address) succeeds, leaves the
  memory of the operation either not started or completed (a target word may still carry the dirty flag),
  and makes all descriptors available again.\<close>

theorem crash_recovery_all_or_nothing:
  assumes rdy: "mw_ready s d tid" and n: "3 \<le> n" and sh: "pool_shape (pool s)"
    and dpp: "desc_per_partition (pool s) = 2 ^ k" "k < 64" and q: "quiet s d (mem s)"
    and crash: "MwCAS n tid d s = Crashed s1"
  shows "\<exists>s2. Recovery False cores (pmdk_pool (pool s)) (restart s1) = Done () s2 \<and> pool_ready s2 \<and>
    (\<exists>m \<in> {mem s, snd (mwcas_spec (op_words s d) (mem s))}. durable_as (op_words s d) m (mem s2))"
proof -
  have "mw_stopped s d s1" using MwCAS_wp [OF rdy n] crash by (simp add: wp_def)
  from recover_stopped [OF _ this sh dpp q, of cores] show ?thesis using rdy by (auto simp: mw_ready_def split: if_splits)
qed

theorem crash_recovery_all_or_nothing_witness:
  "\<exists>s1 s2. MwCAS 3 7 0 (demo (Some 1)) = Crashed s1 \<and> d_status (descs s1 0) = kStatusUndecided \<and>
     Recovery False 4 4096 (restart s1) = Done () s2 \<and> pool_ready s2 \<and>
     (mem s2 8192 \<in> {5, 5 OR kDirtyFlag} \<and> mem s2 8200 \<in> {7, 7 OR kDirtyFlag} \<or>
      mem s2 8192 \<in> {6, 6 OR kDirtyFlag} \<and> mem s2 8200 \<in> {9, 9 OR kDirtyFlag})"
proof -
  obtain s1 where s1: "MwCAS 3 7 0 (demo (Some 1)) = Crashed s1" "d_status (descs s1 0) = kStatusUndecided"
    using demo_crash by blast
  obtain s2 m where s2: "Recovery False 4 (pmdk_pool (pool (demo (Some 1)))) (restart s1) = Done () s2" "pool_ready s2"
    "m \<in> {mem (demo (Some 1)), snd (mwcas_spec (op_words (demo (Some 1)) 0) (mem (demo (Some 1))))}"
    "durable_as (op_words (demo (Some 1)) 0) m (mem s2)"
    using crash_recovery_all_or_nothing [OF demo_ready order.refl demo_shape(1,2) _ demo_quiet s1(1), of 4] by auto
  have "pmdk_pool (pool (demo (Some 1))) = 4096" by (simp add: demo_pool_def)
  moreover have "snd (mwcas_spec (op_words (demo (Some 1)) 0) (mem (demo (Some 1)))) = (\<lambda>_. 0)(8192 := 6, 8200 := 9)"
    unfolding demo_spec by simp
  moreover have "mem s2 a = m a \<or> mem s2 a = m a OR kDirtyFlag" for a using s2(4) by (auto simp: durable_as_def)
  from this [of 8192] this [of 8200] have "mem s2 8192 \<in> {m 8192, m 8192 OR kDirtyFlag}" "mem s2 8200 \<in> {m 8200, m 8200 OR kDirtyFlag}"
    by auto
  ultimately have "mem s2 8192 \<in> {5, 5 OR kDirtyFlag} \<and> mem s2 8200 \<in> {7, 7 OR kDirtyFlag} \<or>
      mem s2 8192 \<in> {6, 6 OR kDirtyFlag} \<and> mem s2 8200 \<in> {9, 9 OR kDirtyFlag}"
    using s2(3) by (elim insertE) simp_all
  then show ?thesis using s1 s2(1,2) \<open>pmdk_pool _ = 4096\<close> by auto
qed

section \<open>Runs that are not stopped\<close>

text \<open>C2. \<open>MwCAS\<close> refines its specification: from a ready descriptor it returns, with the answer whether all target
  words held their old values, and memory is then the one with all new values or unchanged. Three units of
  fuel are enough when no other operation is in progress.\<close>

theorem mwcas_refines_spec:
  assumes "mw_ready s d tid" and "3 \<le> n" and "budget s = None"
  shows "\<exists>s'. MwCAS n tid d s = Done (fst (mwcas_spec (op_words s d) (mem s))) s' \<and>
    mem s' = snd (mwcas_spec (op_words s d) (mem s))"
  by (rule wp_DoneE [OF MwCAS_wp [OF assms(1,2)] assms(3)]) (auto simp: mw_done_def prod_eq_iff)

theorem mwcas_refines_spec_witness:
  "\<exists>s'. MwCAS 3 7 0 (demo None) = Done True s' \<and> mem s' 8192 = 6 \<and> mem s' 8200 = 9"
  using mwcas_refines_spec [OF demo_ready order.refl, of None] unfolding demo_spec by auto

text \<open>C30. What \<open>MwCAS\<close> makes durable: nothing of the application's. \<open>PersistAddress\<close> flushes the field of the
  descriptor that holds the address, not the word at that address, so when an operation has returned, even
  successfully, the durable image of every word outside the descriptor pool is what it was before.\<close>

theorem mwcas_flushes_no_target:
  assumes "mw_ready s d tid" and "3 \<le> n" and "budget s = None" and "app_word (pool s) a"
  shows "\<exists>r s'. MwCAS n tid d s = Done r s' \<and> nv s' a = nv s a"
  by (rule wp_DoneE [OF MwCAS_wp [OF assms(1,2)] assms(3)]) (use assms(4) in \<open>auto simp: mw_done_def linked_def\<close>)

theorem mwcas_flushes_no_target_witness:
  "\<exists>s'. MwCAS 3 7 0 (demo None) = Done True s' \<and> mem s' 8192 = 6 \<and> nv s' 8192 = 0"
proof -
  obtain r s' where s': "MwCAS 3 7 0 (demo None) = Done r s'" "mw_done (demo None) 0 r s'"
    by (rule wp_DoneE [OF MwCAS_wp [OF demo_ready order.refl]]) simp_all
  have "(r, mem s') = (True, (\<lambda>_. 0)(8192 := 6, 8200 := 9))" using s'(2) unfolding mw_done_def demo_spec by blast
  then have "r" "mem s' 8192 = 6" by auto
  moreover have "nv s' 8192 = 0"
    using mwcas_flushes_no_target [OF demo_ready order.refl _ demo_app_word] s'(1) by auto
  ultimately show ?thesis using s'(1) by auto
qed

end
