(* ===== verification/DListMw.thy ===== *)
theory DListMw
  imports DListCAS MwCrash
begin

text \<open>
  The list on \<open>MwCAS\<close>, run by a protected thread that has its partition of descriptors: an operation reads the
  neighbours, allocates a descriptor, adds its entries and calls \<open>MwCAS\<close>. The lemmas follow the descriptor
  through these steps, so that the refinement of \<open>MwCAS\<close> and the recovery theorem apply to the operations
  of the list.
\<close>

section \<open>Reading\<close>

lemma Resolve_clean:
  assumes "\<not> enabled (mstats s)" and "IsCleanPtr (mem s a)"
  shows "ResolveNodePointer (Suc n) tid a True s = Done (mem s a) s"
  using assms tag_tests [OF assms(2)]
  by (simp add: ResolveNodePointer_def GetValueProtected_def mbind_def metric_def metric_defs mget_def mret_def mcheck_def)

lemma wp_Resolve:
  assumes "\<not> enabled (mstats s)" and "IsCleanPtr (mem s a)" and "1 \<le> n" and "Q (mem s a) s"
  shows "wp (ResolveNodePointer n tid a True) Q C s"
  using Resolve_clean [OF assms(1,2)] assms(3,4) by (cases n) (simp_all add: wp_def)

lemma guarded_True: "guarded tid True body = body"
proof
  fix s
  show "guarded tid True body s = body s"
    by (auto simp: guarded_def mbind_def GetEpoch_def mget_def epoch_step_def EpochGuard_def EpochGuard_destroy_def mret_def
        split: outcome.splits)
qed

lemma wp_load: "Q (mem s a) s \<Longrightarrow> wp (load_word a) Q C s"
  unfolding load_word_def by (rule wp_mget)

lemma wp_flush_payload: "(\<And>v. Q () (s\<lparr>nv := v\<rparr>)) \<Longrightarrow> wp (flush_payload node) Q C s"
  by (simp add: wp_def flush_payload_def mbind_def mget_def Flush_def)

section \<open>A descriptor being filled\<close>

text \<open>What stays the same from the call to \<open>AllocateDescriptor\<close> to the call to \<open>MwCAS\<close>.\<close>

definition same_setting :: "mw_world \<Rightarrow> nat \<Rightarrow> mw_world \<Rightarrow> bool" where
  "same_setting s d s' \<longleftrightarrow> ew s' = ew s \<and> mstats s' = mstats s \<and> (\<forall>k. k \<noteq> d \<longrightarrow> descs s' k = descs s k) \<and>
     owner_partition (descs s' d) = owner_partition (descs s d) \<and>
     (\<exists>t. pool s' = (pool s)\<lparr>partition_table := t\<rparr> \<and> map part_garbage t = map part_garbage (partition_table (pool s)))"

definition entry_words :: "desc_pool \<Rightarrow> nat \<Rightarrow> (u64 \<times> u64 \<times> u64) list \<Rightarrow> word_desc list" where
  "entry_words p d es = map (\<lambda>(a, old, new). \<lparr>address = a, old_value = old, new_value = new,
     status_address = status_addr p d, recycle_policy = kRecycleNever\<rparr>) es"

definition holding :: "mw_world \<Rightarrow> nat \<Rightarrow> (u64 \<times> u64 \<times> u64) list \<Rightarrow> mw_world \<Rightarrow> bool" where
  "holding s d es s' \<longleftrightarrow> same_setting s d s' \<and> d_status (descs s' d) = kStatusFinished \<and> d_count (descs s' d) = length es \<and>
     words (descs s' d) = entry_words (pool s) d es @ replicate (DESC_CAP - length es) empty_word"

lemma same_setting_garbage:
  assumes "same_setting s d s'" and "q < length (partition_table (pool s))"
  shows "part_garbage (the_part s' q) = part_garbage (the_part s q)"
    "length (partition_table (pool s')) = length (partition_table (pool s))"
proof -
  obtain t where t: "pool s' = (pool s)\<lparr>partition_table := t\<rparr>" "map part_garbage t = map part_garbage (partition_table (pool s))"
    using assms(1) by (auto simp: same_setting_def)
  have l: "length t = length (partition_table (pool s))" using t(2) by (metis length_map)
  then show "length (partition_table (pool s')) = length (partition_table (pool s))" using t(1) by simp
  have "map part_garbage t ! q = map part_garbage (partition_table (pool s)) ! q" using t(2) by simp
  then show "part_garbage (the_part s' q) = part_garbage (the_part s q)"
    using t(1) l assms(2) by (simp add: the_part_def)
qed

lemma same_setting_pool:
  assumes "same_setting s d s'"
  shows "pool_size (pool s') = pool_size (pool s)" "descriptors (pool s') = descriptors (pool s)"
    "desc_addr (pool s') = desc_addr (pool s)" "word_addr (pool s') = word_addr (pool s)"
    "status_addr (pool s') = status_addr (pool s)" "app_value (pool s') = app_value (pool s)"
    "pool_ok (pool s') = pool_ok (pool s)" "pool_shape (pool s') = pool_shape (pool s)"
    "desc_per_partition (pool s') = desc_per_partition (pool s)" "pmdk_pool (pool s') = pmdk_pool (pool s)"
proof -
  obtain t where t: "pool s' = (pool s)\<lparr>partition_table := t\<rparr>" using assms by (auto simp: same_setting_def)
  show "pool_size (pool s') = pool_size (pool s)" "descriptors (pool s') = descriptors (pool s)"
    "desc_per_partition (pool s') = desc_per_partition (pool s)" "pmdk_pool (pool s') = pmdk_pool (pool s)"
    by (simp_all add: t)
  show a: "desc_addr (pool s') = desc_addr (pool s)" by (simp add: t fun_eq_iff desc_addr_def)
  show w: "word_addr (pool s') = word_addr (pool s)" "status_addr (pool s') = status_addr (pool s)"
    by (simp_all add: fun_eq_iff word_addr_def status_addr_def a)
  show "app_value (pool s') = app_value (pool s)" by (simp add: fun_eq_iff app_value_def a w) (simp add: t)
  show "pool_ok (pool s') = pool_ok (pool s)" "pool_shape (pool s') = pool_shape (pool s)"
    by (simp_all add: t pool_ok_def pool_shape_def)
qed

lemma same_setting_ready:
  assumes "same_setting s d s'" and c: "cleanup_ready s d"
  shows "cleanup_ready s' d" "protected_thread s' d tid = protected_thread s d tid"
proof -
  have q: "owner_partition (descs s d) < length (partition_table (pool s))" using c by (simp add: cleanup_ready_def)
  note g = same_setting_garbage [OF assms(1) q]
  have o: "owner_partition (descs s' d) = owner_partition (descs s d)" "ew s' = ew s" "\<And>k. k \<noteq> d \<Longrightarrow> descs s' k = descs s k"
    using assms(1) by (simp_all add: same_setting_def)
  have go: "garbage_of s' d = garbage_of s d" using g(1) o(1) by (simp add: garbage_of_def)
  have f: "(d' \<noteq> d \<and> freeable (descs s' d')) = (d' \<noteq> d \<and> freeable (descs s d'))" for d' using o(3) by auto
  show "cleanup_ready s' d"
    using c g(2) o same_setting_pool(1,3) [OF assms(1)] unfolding cleanup_ready_def go f by simp
  show "protected_thread s' d tid = protected_thread s d tid"
    using g(1) o by (simp add: protected_thread_def)
qed

lemma same_setting_quiet:
  assumes "same_setting s d s'" and "quiet s d (mem s)" and "\<And>a. mem s' a = mem s a \<or> app_value (pool s) (mem s' a)"
  shows "quiet s' d (mem s')"
  unfolding quiet_def
proof (intro allI impI)
  fix k assume k: "k < pool_size (pool s')" "k \<noteq> d"
  have e: "descs s' k = descs s k" using assms(1) k(2) by (simp add: same_setting_def)
  have "app_value (pool s') (mem s' a)" if "app_value (pool s) (mem s a)" for a
    using assms(3) [of a] that same_setting_pool(6) [OF assms(1)] by auto
  then show "d_status (descs s' k) AND NOT kStatusDirtyFlag
      \<in> {kStatusFinished, kStatusFailed, kStatusSucceeded, kStatusUndecided} \<and>
     d_count (descs s' k) \<le> DESC_CAP \<and>
     (\<forall>i < d_count (descs s' k). address (wrd s' k i) \<noteq> kAllocNullAddress \<longrightarrow>
        app_value (pool s') (mem s' (address (wrd s' k i))))"
    using assms(2) k same_setting_pool(1) [OF assms(1)] by (auto simp: quiet_def wrd_def e)
qed

lemma same_setting_trans: "same_setting s d s1 \<Longrightarrow> same_setting s1 d s2 \<Longrightarrow> same_setting s d s2"
  by (auto simp: same_setting_def)

lemma same_setting_mem [simp]:
  "same_setting s d (set_mem a v s') = same_setting s d s'" "same_setting s d (s'\<lparr>budget := b\<rparr>) = same_setting s d s'"
  "same_setting s d (s'\<lparr>nv := w\<rparr>) = same_setting s d s'"
  by (simp_all add: same_setting_def set_mem_def)

lemma holding_mem [simp]:
  "holding s d es (set_mem a v s') = holding s d es s'" "holding s d es (s'\<lparr>budget := b\<rparr>) = holding s d es s'"
  "holding s d es (s'\<lparr>nv := w\<rparr>) = holding s d es s'"
  by (simp_all add: holding_def) (simp_all add: set_mem_def)

text \<open>A thread about to update a list: it has a partition whose free list starts with \<open>d\<close>, is protected, and the
  clean-up after its operation will find a slot. The pool lies below the bit that marks deleted nodes.\<close>

definition upd_ready :: "mw_world \<Rightarrow> u64 \<Rightarrow> nat \<Rightarrow> bool" where
  "upd_ready s tid d \<longleftrightarrow> pool_shape (pool s) \<and> unat (descriptors (pool s)) + 256 * pool_size (pool s) \<le> 2 ^ 60 \<and>
     d < pool_size (pool s) \<and> (\<exists>m. tls (ew s) (tid, PartitionTls) = PartitionPtr m (owner_partition (descs s d))) \<and>
     free_list (the_part s (owner_partition (descs s d))) = desc_addr (pool s) d \<and>
     fresh_desc (owner_partition (descs s d)) (descs s d) \<and> protected_thread s d tid \<and> \<not> enabled (mstats s) \<and>
     cleanup_ready s d \<and> quiet s d (mem s)"

definition with_mem :: "mw_world \<Rightarrow> (u64 \<Rightarrow> u64) \<Rightarrow> mw_world \<Rightarrow> bool" where
  "with_mem s m s' \<longleftrightarrow> mem s' = m \<and> ew s' = ew s \<and> descs s' = descs s \<and> pool s' = pool s \<and> mstats s' = mstats s"

lemma with_mem_steps:
  "with_mem s (mem s) s" "with_mem s m s' \<Longrightarrow> with_mem s (m(a := x)) (set_mem a x (s'\<lparr>budget := b\<rparr>))"
  "with_mem s m s' \<Longrightarrow> with_mem s m (s'\<lparr>nv := v\<rparr>)"
  by (auto simp: with_mem_def set_mem_def)

lemma wp_store:
  assumes "C s" and "\<And>b. Q () (set_mem a v (s\<lparr>budget := b\<rparr>))"
  shows "wp (store_word a v) Q C s"
  unfolding store_word_def by (rule wp_mstore) (use assms in auto)

lemma with_mem_holding:
  assumes "upd_ready s tid d" and "with_mem s m s'"
  shows "holding s d [] s'"
  using assms by (auto simp: upd_ready_def fresh_desc_def with_mem_def holding_def same_setting_def entry_words_def
    intro: exI [of _ "partition_table (pool s)"])

lemma wp_metric_alloc: "\<not> enabled (mstats s) \<Longrightarrow> Q () s \<Longrightarrow> wp (metric AddDescriptorAlloc tid) Q C s"
  by (simp add: wp_def metric_def metric_defs)

lemma holding_set_free:
  assumes "holding s d es s'"
  shows "holding s d es (set_part q (\<lambda>p. p\<lparr>free_list := a\<rparr>) s')"
proof -
  obtain t where t: "pool s' = (pool s)\<lparr>partition_table := t\<rparr>" "map part_garbage t = map part_garbage (partition_table (pool s))"
    using assms by (auto simp: holding_def same_setting_def)
  have "map part_garbage (t[q := (t ! q)\<lparr>free_list := a\<rparr>]) = map part_garbage (partition_table (pool s))"
    using t(2) by (simp add: map_update_keep)
  then show ?thesis
    using assms t(1) by (auto simp: holding_def same_setting_def set_part_def the_part_def)
qed

lemma wp_Allocate:
  assumes r: "upd_ready s tid d" and m: "with_mem s m s'" and n: "1 \<le> n"
    and C: "\<And>s'. holding s d [] s' \<Longrightarrow> mem s' = m \<Longrightarrow> C s'"
    and Q: "\<And>s'. holding s d [] s' \<Longrightarrow> mem s' = m \<Longrightarrow> Q d s'"
  shows "wp (AllocateDescriptor n tid NullCallback NullCallback) Q C s'"
proof -
  let ?q = "owner_partition (descs s d)"
  obtain j where j: "n = Suc j" using n by (cases n) auto
  have ok: "pool_ok (pool s)" "d < pool_size (pool s)" using r by (simp_all add: upd_ready_def pool_shape_def)
  have at: "desc_at (pool s) (desc_addr (pool s) d) = Some d" by (rule desc_at_addr [OF ok])
  have nz: "desc_addr (pool s) d \<noteq> 0" using ok by simp
  have h: "holding s d [] s'" and ms: "mem s' = m" using with_mem_holding [OF r m] m by (auto simp: with_mem_def)
  have e: "pool s' = pool s" "descs s' = descs s" "ew s' = ew s" "mstats s' = mstats s" "the_part s' = the_part s"
    using m by (auto simp: with_mem_def the_part_def fun_eq_iff)
  have part: "wp (my_partition tid) P C s'" if "P ?q s'" for P
    using r that by (auto simp: upd_ready_def wp_def my_partition_def e)
  have wait: "wp (wait_descriptor n tid ?q) P C s'" if "P (desc_addr (pool s) d) s'" for P
    using r nz that by (auto simp: j wp_def mbind_def mget_def mret_def e upd_ready_def)
  define s1 where "s1 b = set_part ?q (\<lambda>p. p\<lparr>free_list := next_ptr (descs s d)\<rparr>) (s'\<lparr>budget := b\<rparr>)" for b
  have h1: "holding s d [] (s1 b)" "mem (s1 b) = m" "\<not> enabled (mstats (s1 b))" for b
    using holding_set_free [of s d "[]" "s'\<lparr>budget := b\<rparr>"] h ms r e(4)
    by (simp_all add: s1_def upd_ready_def) (simp_all add: set_part_def)
  have h2: "holding s d [] (upd_desc d (\<lambda>D. D\<lparr>allocate_callback := ac, free_callback := fc\<rparr>) ((s1 b)\<lparr>budget := b'\<rparr>))" for ac fc b b'
    using h1(1) [of b] by (auto simp: holding_def same_setting_def upd_desc_def)
  have tail: "wp (mbind (metric AddDescriptorAlloc tid) (\<lambda>_.
      mbind (mstore (upd_desc d (\<lambda>D. D\<lparr>allocate_callback := ac, free_callback := fc\<rparr>))) (\<lambda>_. mret d))) Q C (s1 b)" for ac fc b
    by (rule wp_mbind wp_metric_alloc wp_mstore wp_mret h1 budget_updates C Q h2 | simp add: upd_desc_def h1)+
  show ?thesis
    unfolding AllocateDescriptor_def
    apply (rule wp_mbind, rule part, rule wp_mbind, rule wait, rule wp_mbind, rule wp_mget)
    apply (simp only: e at option.case)
    apply (rule wp_mbind, rule wp_mget, rule wp_mbind, rule wp_mstore)
    using C [OF h ms] tail by (simp_all add: s1_def e)
qed

lemma holding_words:
  assumes "holding s d es s'" and "i < length es" and "length es \<le> DESC_CAP"
  shows "words (descs s' d) ! i = entry_words (pool s) d es ! i" "address (entry_words (pool s) d es ! i) = fst (es ! i)"
  using assms by (simp_all add: holding_def nth_append entry_words_def split_beta)

lemma wp_AddEntry:
  assumes r: "upd_ready s tid d" and h: "holding s d es s1" and m: "mem s1 = m"
    and es: "length es < DESC_CAP" "unat a mod 8 = 0" "a \<notin> fst ` set es" "IsCleanPtr old" "IsCleanPtr new"
    and C: "C s1" and Q: "\<And>s2. holding s d (es @ [(a, old, new)]) s2 \<Longrightarrow> mem s2 = m \<Longrightarrow> Q (int (length es)) s2"
  shows "wp (AddEntry tid d a old new kRecycleNever) Q C s1"
proof -
  have ss: "same_setting s d s1" and cnt: "d_count (descs s1 d) = length es" using h by (simp_all add: holding_def)
  have pt: "protected_thread s1 d tid" using r same_setting_ready(2) [OF ss, of tid] by (simp add: upd_ready_def)
  have new: "\<not> (\<exists>i < d_count (descs s1 d). a \<noteq> kAllocNullAddress \<and> address (words (descs s1 d) ! i) = a)"
    using holding_words [OF h] es(1,3) by (auto simp: cnt)
  let ?w = "\<lparr>address = a, old_value = old, new_value = new, status_address = status_addr (pool s1) d, recycle_policy = kRecycleNever\<rparr>"
  have upd: "(words (descs s1 d))[length es := ?w] = entry_words (pool s) d (es @ [(a, old, new)]) @
      replicate (DESC_CAP - Suc (length es)) empty_word"
  proof -
    obtain c where "DESC_CAP - length es = Suc c" using es(1) by (metis Suc_diff_Suc)
    then show ?thesis
      using h same_setting_pool(5) [OF ss] by (simp add: holding_def entry_words_def list_update_append)
  qed
  have h2: "holding s d (es @ [(a, old, new)]) (upd_desc d (\<lambda>D. D\<lparr>words := (words D)[length es := ?w], d_count := d_count D + 1\<rparr>) (s1\<lparr>budget := b\<rparr>))" for b
    using h upd cnt by (auto simp: holding_def same_setting_def upd_desc_def)
  have set: "wp (set_entry d (int (length es)) ?w) (\<lambda>_ s2. holding s d (es @ [(a, old, new)]) s2 \<and> mem s2 = m) C s1"
    unfolding set_entry_def by (rule wp_mstore) (use C h2 m in \<open>simp_all add: upd_desc_def\<close>)
  have gip: "wp (GetInsertPosition d a) P C s1" if "P (int (length es)) s1" for P
  proof -
    have "GetInsertPosition d a s1 = Done (int (length es)) s1"
      unfolding GetInsertPosition_def
      using new es(1,2) cnt by (simp add: mbind_def mcheck_def mget_def mret_def if_not_P [OF new])
    then show ?thesis using that by (simp add: wp_def)
  qed
  have fin: "wp (mbind (set_entry d (int (length es)) ?w) (\<lambda>_. mret (int (length es)))) Q C s1"
    by (rule wp_mbind, rule wp_mono [OF set]) (use Q in \<open>auto intro: wp_mret\<close>)
  show ?thesis
    unfolding AddEntry_def
    by (rule wp_mbind wp_check_protected [OF pt] wp_mcheck gip wp_mget fin | (use es in \<open>simp; fail\<close>))+
qed

section \<open>The multi-word CAS of a list operation\<close>

definition entry_ok :: "desc_pool \<Rightarrow> u64 \<times> u64 \<times> u64 \<Rightarrow> bool" where
  "entry_ok p e \<longleftrightarrow> fst e \<noteq> 0 \<and> app_value p (fst (snd e)) \<and> app_value p (snd (snd e))"

definition store_all :: "(u64 \<times> u64 \<times> u64) list \<Rightarrow> (u64 \<Rightarrow> u64) \<Rightarrow> u64 \<Rightarrow> u64" where
  "store_all es m = foldr (\<lambda>e m. m(fst e := snd (snd e))) es m"

lemma entry_words_simps:
  "length (entry_words p d es) = length es" "map address (entry_words p d es) = map fst es"
  "\<forall>e \<in> set es. fst e \<noteq> 0 \<Longrightarrow> targets (entry_words p d es) = entry_words p d es"
  by (auto simp: entry_words_def targets_def kAllocNullAddress_def split_beta)

lemma entry_spec:
  assumes "\<forall>e \<in> set es. fst e \<noteq> 0" and "\<forall>e \<in> set es. m (fst e) = fst (snd e)"
  shows "mwcas_spec (entry_words p d es) m = (True, store_all es m)"
proof -
  have "foldr (\<lambda>w m. m(address w := new_value w)) (entry_words p d es) m = store_all es m"
    by (induction es) (auto simp: entry_words_def store_all_def)
  moreover have "list_all (\<lambda>w. m (address w) = old_value w) (entry_words p d es)"
    using assms(2) by (auto simp: list_all_iff entry_words_def)
  ultimately show ?thesis by (simp add: mwcas_spec_def apply_new_def entry_words_simps(3) [OF assms(1)])
qed

lemma holding_ctx:
  assumes r: "upd_ready s tid d" and h: "holding s d es s1" and es: "length es \<le> DESC_CAP" "distinct (map fst es)"
    "\<forall>e \<in> set es. entry_ok (pool s) e \<and> mem s1 (fst e) = fst (snd e)"
    and m: "\<And>a. mem s1 a = mem s a \<or> app_value (pool s) (mem s1 a)"
  shows "op_ctx s1 d (mem s1)" "quiet s1 d (mem s1)" "op_words s1 d = entry_words (pool s) d es" "mw_ready s1 d tid"
proof -
  have ss: "same_setting s d s1" and c: "d_count (descs s1 d) = length es"
    and w: "words (descs s1 d) = entry_words (pool s) d es @ replicate (DESC_CAP - length es) empty_word"
    and st: "d_status (descs s1 d) = kStatusFinished"
    using h by (simp_all add: holding_def)
  show ow: "op_words s1 d = entry_words (pool s) d es" using c w by (simp add: op_words_def entry_words_simps(1))
  have nz: "\<forall>e \<in> set es. fst e \<noteq> 0" using es(3) by (simp add: entry_ok_def)
  note pe = same_setting_pool [OF ss]
  show ctx: "op_ctx s1 d (mem s1)"
    unfolding op_ctx_iff ow entry_words_simps(3) [OF nz] entry_words_simps(2)
    using r es c w pe by (auto simp: upd_ready_def pool_shape_def entry_words_def entry_ok_def)
  show "quiet s1 d (mem s1)"
    using r by (intro same_setting_quiet [OF ss _ m]) (simp add: upd_ready_def)
  have "\<not> enabled (mstats s1)" using r ss by (simp add: upd_ready_def same_setting_def)
  then show "mw_ready s1 d tid"
    using ctx st r same_setting_ready(1) [OF ss] same_setting_ready(2) [OF ss, of tid] by (simp add: mw_ready_def upd_ready_def)
qed

text \<open>Where an operation of the list may be stopped: its descriptor is being filled and memory holds the old list,
  or its \<open>MwCAS\<close> is under way from the old list to the new one.\<close>

definition list_stopped :: "mw_world \<Rightarrow> nat \<Rightarrow> dlist \<Rightarrow> u64 list \<Rightarrow> u64 list \<Rightarrow> mw_world \<Rightarrow> bool" where
  "list_stopped s d l xs xs' s' \<longleftrightarrow> (\<exists>s1. same_setting s d s1 \<and> op_ctx s1 d (mem s1) \<and> quiet s1 d (mem s1) \<and>
     mw_stopped s1 d s' \<and> dll (mem s1) l xs \<and>
     (decided_success (d_status (descs s' d)) \<longrightarrow> dll (snd (mwcas_spec (op_words s1 d) (mem s1))) l xs'))"

lemma mw_stopped_self: "d_status (descs s d) = kStatusFinished \<Longrightarrow> mw_stopped s d s"
  by (auto simp: mw_stopped_def interrupted_def linked_def intro: exI [of _ "partition_table (pool s)"])

lemma stopped_filling:
  assumes "upd_ready s tid d" and h: "holding s d es s1" and "length es \<le> DESC_CAP" "distinct (map fst es)"
    "\<forall>e \<in> set es. entry_ok (pool s) e \<and> mem s1 (fst e) = fst (snd e)"
    and "\<And>a. mem s1 a = mem s a \<or> app_value (pool s) (mem s1 a)" and "dll (mem s1) l xs"
  shows "list_stopped s d l xs xs' s1"
proof -
  have st: "d_status (descs s1 d) = kStatusFinished" and ss: "same_setting s d s1" using h by (simp_all add: holding_def)
  have "\<not> decided_success kStatusFinished" by (simp add: decided_success_def status_defs kStatusDirtyFlag_def)
  then show ?thesis
    using holding_ctx(1,2) [OF assms(1-6)] mw_stopped_self [OF st] assms(7) st ss unfolding list_stopped_def by metis
qed

lemma wp_list_MwCAS:
  assumes r: "upd_ready s tid d" and h: "holding s d es s1" and es: "length es \<le> DESC_CAP" "distinct (map fst es)"
    "\<forall>e \<in> set es. entry_ok (pool s) e \<and> mem s1 (fst e) = fst (snd e)"
    and m: "\<And>a. mem s1 a = mem s a \<or> app_value (pool s) (mem s1 a)" and old: "dll (mem s1) l xs"
    and new: "dll (store_all es (mem s1)) l xs'" and n: "3 \<le> n"
    and Q: "\<And>s'. mem s' = store_all es (mem s1) \<Longrightarrow> Q True s'"
  shows "wp (MwCAS n tid d) Q (list_stopped s d l xs xs') s1"
proof -
  note c = holding_ctx [OF r h es m]
  have nz: "\<forall>e \<in> set es. fst e \<noteq> 0" "\<forall>e \<in> set es. mem s1 (fst e) = fst (snd e)" using es(3) by (simp_all add: entry_ok_def)
  have sp: "mwcas_spec (op_words s1 d) (mem s1) = (True, store_all es (mem s1))"
    unfolding c(3) by (rule entry_spec [OF nz])
  have ss: "same_setting s d s1" using h by (simp add: holding_def)
  show ?thesis
  proof (rule wp_mono [OF MwCAS_wp [OF c(4) n]])
    show "Q x s'" if "mw_done s1 d x s'" for x s' using that Q by (auto simp: mw_done_def sp)
    show "list_stopped s d l xs xs' s'" if "mw_stopped s1 d s'" for s'
      unfolding list_stopped_def using that c(1,2) ss old new sp by (intro exI [of _ s1]) simp
  qed
qed

section \<open>Insertion\<close>

text \<open>The nodes are 8-byte aligned and lie outside the descriptor pool.\<close>

definition app_nodes :: "desc_pool \<Rightarrow> u64 list \<Rightarrow> bool" where
  "app_nodes p ns \<longleftrightarrow> (\<forall>a \<in> set ns. app_value p a \<and> unat a mod 8 = 0)"

lemma node_fields:
  assumes "node_ptr a" and "unat a mod 8 = 0"
  shows "next_of a \<noteq> 0" "prev_of a \<noteq> 0" "unat (next_of a) mod 8 = 0" "unat (prev_of a) mod 8 = 0" "unat a < 2 ^ 60"
proof -
  have "k < 60" if "bit a k" for k using assms(1) that unfolding node_ptr_def by (meson not_le)
  then have "take_bit 60 a = a" by (intro bit_eqI) (auto simp: bit_take_bit_iff)
  then have "unat a = take_bit 60 (unat a)" by (metis unsigned_take_bit_eq)
  then show lt: "unat a < 2 ^ 60" by (metis take_bit_nat_less_exp)
  then have "unat (next_of a) = unat a + 8"
    using unat_add_of_nat [of a 8] by (simp add: next_of_def)
  then show "next_of a \<noteq> 0" "unat (next_of a) mod 8 = 0" using assms(2) by (auto simp: unat_eq_zero [symmetric])
  show "prev_of a \<noteq> 0" "unat (prev_of a) mod 8 = 0" using assms by (simp_all add: prev_of_def node_ptr_def)
qed

text \<open>What both insertions need once the neighbours are known.\<close>

definition ins_entries :: "u64 \<Rightarrow> u64 \<Rightarrow> u64 \<Rightarrow> (u64 \<times> u64 \<times> u64) list" where
  "ins_entries p x n = [(next_of p, n, x), (prev_of n, p, x)]"

lemma insert_context:
  assumes r: "upd_ready s tid d" and dl: "dll (mem s) l xs" and g: "at_gap l xs k p n" and w: "wf_nodes (x # nodes_of l xs)"
    and ap: "app_nodes (pool s) (x # nodes_of l xs)" and m: "m = (mem s)(prev_of x := p, next_of x := n)"
  shows "dll m l xs" "dll (store_all (ins_entries p x n) m) l (take k xs @ x # drop k xs)"
    "\<And>a. m a = mem s a \<or> app_value (pool s) (m a)"
    "\<forall>e \<in> set (ins_entries p x n). entry_ok (pool s) e \<and> m (fst e) = fst (snd e)" "distinct (map fst (ins_entries p x n))"
    "m (prev_of x) = p" "m (next_of x) = n" "m (prev_of n) = p" "m (next_of p) = n"
    "unat (next_of p) mod 8 = 0" "unat (prev_of n) mod 8 = 0" "node_ptr p" "node_ptr n" "node_ptr x"
proof -
  note nb = dll_neighbours [OF dl g] and nn = new_node [OF w]
  have ne: "x \<noteq> p" "x \<noteq> n" "next_of p \<noteq> x" "next_of n \<noteq> x" "next_of x \<noteq> p" "next_of x \<noteq> n" using nn nb(9,10) by auto
  have av: "app_value (pool s) p" "app_value (pool s) n" "app_value (pool s) x" "unat p mod 8 = 0" "unat n mod 8 = 0"
    using ap nb(9,10) by (auto simp: app_nodes_def)
  have M: "mem s (prev_of n) = p" "mem s (next_of p) = n" using nb(1) by (simp_all add: link_def)
  show "node_ptr p" "node_ptr n" "node_ptr x" using nb nn by simp_all
  show "unat (next_of p) mod 8 = 0" "unat (prev_of n) mod 8 = 0"
    using node_fields [OF nb(2) av(4)] node_fields [OF nb(3) av(5)] by simp_all
  show mm: "m (prev_of x) = p" "m (next_of x) = n" "m (prev_of n) = p" "m (next_of p) = n"
    using M ne by (simp_all add: m prev_of_def)
  show "dll m l xs" unfolding m by (rule dll_fresh [OF dl w])
  have "store_all (ins_entries p x n) m = splice p x n (mem s)"
    using nb(11) ne by (auto simp: store_all_def ins_entries_def m splice_def fun_eq_iff prev_of_def)
  then show "dll (store_all (ins_entries p x n) m) l (take k xs @ x # drop k xs)" using dll_splice [OF dl g w] by simp
  show "m a = mem s a \<or> app_value (pool s) (m a)" for a using av by (simp add: m)
  show "\<forall>e \<in> set (ins_entries p x n). entry_ok (pool s) e \<and> m (fst e) = fst (snd e)"
    using av mm node_fields [OF nb(2) av(4)] node_fields [OF nb(3) av(5)] by (simp add: ins_entries_def entry_ok_def)
  show "distinct (map fst (ins_entries p x n))" using nb(11) by (simp add: ins_entries_def prev_of_def)
qed

text \<open>The descriptor part of \<open>InsertBefore\<close> and \<open>InsertAfter\<close>, from the store of the new node's links on.\<close>

lemma wp_insert_descriptor:
  assumes r: "upd_ready s tid d" and dl: "dll (mem s) l xs" and g: "at_gap l xs k p n" and w: "wf_nodes (x # nodes_of l xs)"
    and ap: "app_nodes (pool s) (x # nodes_of l xs)" and j: "3 \<le> j"
    and m: "m = (mem s)(prev_of x := p, next_of x := n)" and s': "with_mem s m s'"
    and Q: "\<And>s'. dll (mem s') l (take k xs @ x # drop k xs) \<Longrightarrow> Q True s'"
    and C: "C = list_stopped s d l xs (take k xs @ x # drop k xs)"
  shows "wp (AllocateDescriptor j tid NullCallback NullCallback) (\<lambda>desc.
      wp (mbind (load_word (prev_of x)) (\<lambda>node_prev.
        mbind (load_word (next_of x)) (\<lambda>node_next.
        mbind (AddEntry tid desc (next_of node_prev) node_next x kRecycleNever) (\<lambda>_.
        mbind (AddEntry tid desc (prev_of n) node_prev x kRecycleNever) (\<lambda>_. MwCAS j tid desc))))) Q C) C s'"
    (is "wp _ (\<lambda>desc. wp (?before desc) Q C) C s'")
    and "wp (AllocateDescriptor j tid NullCallback NullCallback) (\<lambda>desc.
      wp (mbind (load_word (next_of x)) (\<lambda>node_next.
        mbind (AddEntry tid desc (next_of p) node_next x kRecycleNever) (\<lambda>_.
        mbind (load_word (prev_of x)) (\<lambda>node_prev.
        mbind (AddEntry tid desc (prev_of node_next) node_prev x kRecycleNever) (\<lambda>_. MwCAS j tid desc))))) Q C) C s'"
    (is "wp _ (\<lambda>desc. wp (?after desc) Q C) C s'")
proof -
  note c = insert_context [OF r dl g w ap m]
  let ?es = "ins_entries p x n"
  have pre: "C s1" if h: "holding s d es s1" and ms: "mem s1 = m" and es: "es \<in> {[], [(next_of p, n, x)], ?es}" for es s1
    unfolding C by (rule stopped_filling [OF r h]) (use es c ms in \<open>auto simp: ins_entries_def DESC_CAP_def\<close>)
  have cap: "length ?es \<le> DESC_CAP" by (simp add: ins_entries_def DESC_CAP_def)
  have run: "wp (MwCAS j tid d) Q C s1" if h: "holding s d ?es s1" and ms: "mem s1 = m" for s1
    unfolding C by (rule wp_list_MwCAS [OF r h cap c(5)]) (use c(1-4) Q j in \<open>auto simp: ms\<close>)
  have a2: "wp (AddEntry tid d (prev_of n) p x kRecycleNever) (\<lambda>_. wp (MwCAS j tid d) Q C) C s1"
    if h: "holding s d [(next_of p, n, x)] s1" and ms: "mem s1 = m" for s1
    by (rule wp_AddEntry [OF r h ms]) (use c(5,8,11-14) run pre [OF h ms] in \<open>auto simp: ins_entries_def DESC_CAP_def\<close>)
  have a1: "wp (AddEntry tid d (next_of p) n x kRecycleNever) P C s1"
    if h: "holding s d [] s1" and ms: "mem s1 = m" and P: "\<And>i s1. holding s d [(next_of p, n, x)] s1 \<Longrightarrow> mem s1 = m \<Longrightarrow> P i s1" for s1 P
    by (rule wp_AddEntry [OF r h ms]) (use c(9,10,12-14) P pre [OF h ms] in \<open>auto simp: ins_entries_def DESC_CAP_def\<close>)
  have ld: "wp (load_word (prev_of x)) P C s1" if "P p s1" "mem s1 = m" for P s1 using that c(6) by (intro wp_load) simp
  have ld': "wp (load_word (next_of x)) P C s1" if "P n s1" "mem s1 = m" for P s1 using that c(7) by (intro wp_load) simp
  have "wp (?before d) Q C s1" "wp (?after d) Q C s1" if "holding s d [] s1" "mem s1 = m" for s1
    using that by - (rule wp_mbind ld ld' a1 a2 | assumption)+
  then show "wp (AllocateDescriptor j tid NullCallback NullCallback) (\<lambda>desc. wp (?before desc) Q C) C s'"
    "wp (AllocateDescriptor j tid NullCallback NullCallback) (\<lambda>desc. wp (?after desc) Q C) C s'"
    using j pre by (intro wp_Allocate [OF r s']; auto)+
qed

text \<open>Neighbouring links of a list, as \<open>ResolveNodePointer\<close> reads them.\<close>

lemma dll_reads:
  assumes dl: "dll (mem s) l xs" and g: "at_gap l xs k p n"
  shows "mem s (prev_of n) = p" "mem s (next_of p) = n" "IsCleanPtr (mem s (next_of n))" "IsCleanPtr (mem s (prev_of p))"
    "\<not> is_deleted (mem s (next_of n))" "\<not> is_deleted p" "\<not> is_deleted n" "IsCleanPtr p" "IsCleanPtr n"
proof -
  note nb = dll_neighbours [OF dl g]
  show "mem s (prev_of n) = p" "mem s (next_of p) = n" using nb(1) by (simp_all add: link_def)
  show "\<not> is_deleted (mem s (next_of n))" "\<not> is_deleted p" "\<not> is_deleted n" "IsCleanPtr p" "IsCleanPtr n" using nb by simp_all
  have z: "IsCleanPtr 0" by (simp add: IsCleanPtr_def)
  have k: "k \<le> length xs" and p: "p = nodes_of l xs ! k" and n: "n = nodes_of l xs ! Suc k" using g by (simp_all add: at_gap_def)
  show "IsCleanPtr (mem s (next_of n))"
  proof (cases "k = length xs")
    case True
    then have "n = list_tail l" using n by (simp add: nodes_of_def nth_append)
    then show ?thesis using dl z by (simp add: dll_def)
  next
    case False
    then have "at_gap l xs (Suc k) n (nodes_of l xs ! Suc (Suc k))" using k n by (simp add: at_gap_def)
    from dll_neighbours(1,3) [OF dl this] show ?thesis by (simp add: link_def)
  qed
  show "IsCleanPtr (mem s (prev_of p))"
  proof (cases k)
    case 0
    then have "p = list_head l" using p by (simp add: nodes_of_def)
    then show ?thesis using dl z by (simp add: dll_def)
  next
    case (Suc i)
    then have "at_gap l xs i (nodes_of l xs ! i) p" using k p by (simp add: at_gap_def)
    from dll_neighbours(1,2) [OF dl this] show ?thesis by (simp add: link_def)
  qed
qed

lemma stopped_storing:
  assumes r: "upd_ready s tid d" and dl: "dll (mem s) l xs" and g: "at_gap l xs k p n" and w: "wf_nodes (x # nodes_of l xs)"
    and ap: "app_nodes (pool s) (x # nodes_of l xs)"
    and m: "with_mem s m s1" "m = mem s \<or> m = (mem s)(next_of x := n) \<or> m = (mem s)(prev_of x := p)"
  shows "list_stopped s d l xs xs' s1"
proof (rule stopped_filling [OF r with_mem_holding [OF r m(1)]])
  have "dll ((mem s)(next_of x := n)) l xs" "dll ((mem s)(prev_of x := p)) l xs"
    by (rule dll_frame [OF dl]; use new_node [OF w] in \<open>auto simp: prev_of_def\<close>)+
  then show "dll (mem s1) l xs" using m dl by (auto simp: with_mem_def)
  have "app_value (pool s) n" "app_value (pool s) p" using ap dll_neighbours(9,10) [OF dl g] by (auto simp: app_nodes_def)
  then show "mem s1 a = mem s a \<or> app_value (pool s) (mem s1 a)" for a using m by (auto simp: with_mem_def)
qed simp_all

lemma wp_before_loop:
  assumes r: "upd_ready s tid d" and dl: "dll (mem s) l xs" and g: "at_gap l xs k p n" and w: "wf_nodes (x # nodes_of l xs)"
    and ap: "app_nodes (pool s) (x # nodes_of l xs)" and j: "4 \<le> j" and s': "with_mem s (mem s) s'"
    and Q: "\<And>s'. dll (mem s') l (take k xs @ x # drop k xs) \<Longrightarrow> Q Status_OK s'"
    and C: "C = list_stopped s d l xs (take k xs @ x # drop k xs)"
  shows "wp (mw_before_loop j tid n x) Q C s'"
proof -
  obtain i where i: "j = Suc i" "3 \<le> i" "1 \<le> i" using j by (intro that [of "j - 1"]) auto
  have ms: "mem s' = mem s" "\<not> enabled (mstats s')" using s' r by (simp_all add: with_mem_def upd_ready_def)
  note rd = dll_reads [OF dl g]
  have twist: "(mem s)(next_of x := n, prev_of x := p) = (mem s)(prev_of x := p, next_of x := n)"
    by (rule fun_upd_twist) (simp add: prev_of_def)
  have res: "wp (ResolveNodePointer i tid a True) P C s'" if "IsCleanPtr (mem s a)" "P (mem s a) s'" for a P
    using that ms i by (intro wp_Resolve) simp_all
  have Cs: "C s1" if "with_mem s m s1" "m = mem s \<or> m = (mem s)(next_of x := n) \<or> m = (mem s)(prev_of x := p)" for m s1
    unfolding C by (rule stopped_storing [OF r dl g w ap that])
  have fin: "wp (mbind (AllocateDescriptor i tid NullCallback NullCallback) (\<lambda>desc.
      mbind (load_word (prev_of x)) (\<lambda>node_prev.
        mbind (load_word (next_of x)) (\<lambda>node_next.
        mbind (AddEntry tid desc (next_of node_prev) node_next x kRecycleNever) (\<lambda>_.
        mbind (AddEntry tid desc (prev_of n) node_prev x kRecycleNever) (\<lambda>_.
        mbind (MwCAS i tid desc) (\<lambda>ok. if ok then mret Status_OK else mw_before_loop i tid n x))))))) Q C s1"
    if "with_mem s ((mem s)(next_of x := n, prev_of x := p)) s1" for s1
  proof -
    have "wp (AllocateDescriptor i tid NullCallback NullCallback) (\<lambda>desc.
      wp (mbind (load_word (prev_of x)) (\<lambda>node_prev.
        mbind (load_word (next_of x)) (\<lambda>node_next.
        mbind (AddEntry tid desc (next_of node_prev) node_next x kRecycleNever) (\<lambda>_.
        mbind (AddEntry tid desc (prev_of n) node_prev x kRecycleNever) (\<lambda>_. MwCAS i tid desc)))))
       (\<lambda>ok. wp (if ok then mret Status_OK else mw_before_loop i tid n x) Q C) C) C s1"
      by (rule wp_insert_descriptor(1) [OF r dl g w ap i(2) refl that [unfolded twist] _ C]) (simp add: wp_mret Q)
    then show ?thesis
      by (intro wp_mbind) (elim wp_mono, auto simp: mbind_assoc dest!: wp_mbind)
  qed
  show ?thesis
    unfolding i(1) mw_before_loop.simps
    by (rule wp_mbind wp_mcheck res wp_store wp_Flush fin
        | simp only: rd if_False simp_thms
        | (use rd in \<open>simp; fail\<close>) | rule Cs with_mem_steps s' | (simp; fail))+
qed

lemma wp_mw_after_loop:
  assumes r: "upd_ready s tid d" and dl: "dll (mem s) l xs" and g: "at_gap l xs k p n" and w: "wf_nodes (x # nodes_of l xs)"
    and ap: "app_nodes (pool s) (x # nodes_of l xs)" and j: "4 \<le> j" and s': "with_mem s (mem s) s'"
    and Q: "\<And>s'. dll (mem s') l (take k xs @ x # drop k xs) \<Longrightarrow> Q Status_OK s'"
    and C: "C = list_stopped s d l xs (take k xs @ x # drop k xs)"
  shows "wp (mw_after_loop j tid p x) Q C s'"
proof -
  obtain i where i: "j = Suc i" "3 \<le> i" "1 \<le> i" using j by (intro that [of "j - 1"]) auto
  have ms: "mem s' = mem s" "\<not> enabled (mstats s')" using s' r by (simp_all add: with_mem_def upd_ready_def)
  note rd = dll_reads [OF dl g]
  have res: "wp (ResolveNodePointer i tid a True) P C s'" if "IsCleanPtr (mem s a)" "P (mem s a) s'" for a P
    using that ms i by (intro wp_Resolve) simp_all
  have Cs: "C s1" if "with_mem s m s1" "m = mem s \<or> m = (mem s)(next_of x := n) \<or> m = (mem s)(prev_of x := p)" for m s1
    unfolding C by (rule stopped_storing [OF r dl g w ap that])
  have fin: "wp (mbind (AllocateDescriptor i tid NullCallback NullCallback) (\<lambda>desc.
      mbind (load_word (next_of x)) (\<lambda>node_next.
        mbind (AddEntry tid desc (next_of p) node_next x kRecycleNever) (\<lambda>_.
        mbind (load_word (prev_of x)) (\<lambda>node_prev.
        mbind (AddEntry tid desc (prev_of node_next) node_prev x kRecycleNever) (\<lambda>_.
        mbind (MwCAS i tid desc) (\<lambda>ok. if ok then mret Status_OK else mw_after_loop i tid p x))))))) Q C s1"
    if "with_mem s ((mem s)(prev_of x := p, next_of x := n)) s1" for s1
  proof -
    have "wp (AllocateDescriptor i tid NullCallback NullCallback) (\<lambda>desc.
      wp (mbind (load_word (next_of x)) (\<lambda>node_next.
        mbind (AddEntry tid desc (next_of p) node_next x kRecycleNever) (\<lambda>_.
        mbind (load_word (prev_of x)) (\<lambda>node_prev.
        mbind (AddEntry tid desc (prev_of node_next) node_prev x kRecycleNever) (\<lambda>_. MwCAS i tid desc)))))
       (\<lambda>ok. wp (if ok then mret Status_OK else mw_after_loop i tid p x) Q C) C) C s1"
      by (rule wp_insert_descriptor(2) [OF r dl g w ap i(2) refl that _ C]) (simp add: wp_mret Q)
    then show ?thesis
      by (intro wp_mbind) (elim wp_mono, auto simp: mbind_assoc dest!: wp_mbind)
  qed
  show ?thesis
    unfolding i(1) mw_after_loop.simps
    by (rule wp_mbind wp_mcheck res wp_store wp_Flush fin
        | simp only: rd if_False simp_thms
        | (use rd in \<open>simp; fail\<close>) | rule Cs with_mem_steps s' | (simp; fail))+
qed

lemma wp_mw_InsertAfter:
  assumes r: "upd_ready s tid d" and dl: "dll (mem s) l xs" and g: "gap_after l xs p k" and w: "wf_nodes (x # nodes_of l xs)"
    and ap: "app_nodes (pool s) (x # nodes_of l xs)" and j: "6 \<le> j"
    and Q: "\<And>s'. dll (mem s') l (take k xs @ x # drop k xs) \<Longrightarrow> Q Status_OK s'"
    and C: "C = list_stopped s d l xs (take k xs @ x # drop k xs)"
  shows "wp (MwCASDList_InsertAfter j tid l p x True) Q C s"
proof -
  obtain i where i: "j = Suc i" "4 \<le> i" using j by (intro that [of "j - 1"]) auto
  show ?thesis
  proof (cases "p = list_tail l")
    case True
    have k: "k = length xs"
    proof (rule ccontr)
      assume "k \<noteq> length xs"
      then have "at_gap l xs k p (nodes_of l xs ! Suc k)" using g by (simp add: at_gap_def gap_after_def)
      from dll_neighbours(7) [OF dl this] True show False by simp
    qed
    have g': "at_gap l xs k (nodes_of l xs ! k) p" unfolding True k by (simp add: at_gap_def nodes_of_def nth_append)
    show ?thesis
      unfolding i(1) MwCASDList_InsertAfter.simps if_P [OF True] mw_insert_before_def
        if_not_P [OF dll_neighbours(8) [OF dl g']] guarded_True
      by (rule wp_mbind wp_flush_payload wp_before_loop [where Q = Q, OF r dl g' w ap i(2) _ Q C] with_mem_steps)+
  next
    case False
    then have g': "at_gap l xs k p (nodes_of l xs ! Suc k)" using g by (simp add: at_gap_def gap_after_def)
    show ?thesis
      unfolding i(1) MwCASDList_InsertAfter.simps if_not_P [OF False] guarded_True
      by (rule wp_mbind wp_flush_payload wp_mw_after_loop [where Q = Q, OF r dl g' w ap i(2) _ Q C] with_mem_steps)+
  qed
qed

lemma wp_mw_InsertBefore:
  assumes r: "upd_ready s tid d" and dl: "dll (mem s) l xs" and g: "gap_before l xs n k" and w: "wf_nodes (x # nodes_of l xs)"
    and ap: "app_nodes (pool s) (x # nodes_of l xs)" and j: "6 \<le> j"
    and Q: "\<And>s'. dll (mem s') l (take k xs @ x # drop k xs) \<Longrightarrow> Q Status_OK s'"
    and C: "C = list_stopped s d l xs (take k xs @ x # drop k xs)"
  shows "wp (MwCASDList_InsertBefore j tid l n x True) Q C s"
proof (cases "n = list_head l")
  case True
  have "n \<noteq> nodes_of l xs ! Suc k"
    using g dll_neighbours(8) [OF dl, of k "nodes_of l xs ! k" "nodes_of l xs ! Suc k"] True by (auto simp: at_gap_def gap_before_def)
  then have "gap_after l xs n k" using g True by (simp add: gap_before_def gap_after_def nodes_of_def)
  then show ?thesis
    unfolding MwCASDList_InsertBefore_def mw_insert_before_def if_P [OF True]
    by (intro wp_mw_InsertAfter [where Q = Q, OF r dl _ w ap j Q C])
next
  case False
  then have g': "at_gap l xs k (nodes_of l xs ! k) n" using g by (simp add: at_gap_def gap_before_def)
  have j4: "4 \<le> j" using j by simp
  show ?thesis
    unfolding MwCASDList_InsertBefore_def mw_insert_before_def if_not_P [OF False] guarded_True
    by (rule wp_mbind wp_flush_payload wp_before_loop [where Q = Q, OF r dl g' w ap j4 _ Q C] with_mem_steps)+
qed

section \<open>Deletion\<close>

lemma marked_app_value:
  assumes p: "pool_ok p" "unat (descriptors p) + 256 * pool_size p \<le> 2 ^ 60" and n: "node_ptr n"
  shows "app_value p (n OR kNodeDeleted)"
proof -
  have ne: "n OR kNodeDeleted \<noteq> descriptors p + of_nat (256 * d + k)" if "d < pool_size p" "k < 256" for d k
  proof
    assume e: "n OR kNodeDeleted = descriptors p + of_nat (256 * d + k)"
    have "256 * d + 256 \<le> 256 * pool_size p" using that(1) by linarith
    then have "unat (n OR kNodeDeleted) < 2 ^ 60"
      using p(2) that(2) unat_pool_addr [OF p(1) that] unfolding e by linarith
    moreover have "bit (unat (n OR kNodeDeleted)) 60" by (simp add: bit_unsigned_iff bit_or_iff)
    ultimately show False by (simp add: bit_iff_odd)
  qed
  have "n OR kNodeDeleted \<noteq> desc_addr p d" if "d < pool_size p" for d
    using ne [OF that, of 0] by (simp add: desc_addr_alt)
  moreover have "n OR kNodeDeleted \<noteq> word_addr p d i" if "d < pool_size p" "i < DESC_CAP" for d i
    using ne [OF that(1), of "40 + 40 * i"] that(2) by (simp add: word_addr_alt add.assoc DESC_CAP_def)
  ultimately show ?thesis using n by (simp add: app_value_def)
qed

definition del_entries :: "u64 \<Rightarrow> u64 \<Rightarrow> u64 \<Rightarrow> (u64 \<times> u64 \<times> u64) list" where
  "del_entries p x n = [(next_of p, x, n), (prev_of n, x, p), (next_of x, n, n OR kNodeDeleted)]"

lemma delete_context:
  assumes r: "upd_ready s tid d" and dl: "dll (mem s) l xs" and k: "k < length xs" and x: "x = xs ! k"
    and p: "at_gap l xs k p x" and n: "at_gap l xs (Suc k) x n" and w: "wf_nodes [p, x, n]"
    and ap: "app_nodes (pool s) (nodes_of l xs)"
  shows "dll (store_all (del_entries p x n) (mem s)) l (take k xs @ drop (Suc k) xs)"
    "\<forall>e \<in> set (del_entries p x n). entry_ok (pool s) e \<and> mem s (fst e) = fst (snd e)" "distinct (map fst (del_entries p x n))"
    "\<forall>a \<in> {p, x, n}. unat (next_of a) mod 8 = 0 \<and> unat (prev_of a) mod 8 = 0"
proof -
  note i = dll_neighbours [OF dl p] dll_neighbours [OF dl n]
  have ne: "p \<noteq> x" "x \<noteq> n" "p \<noteq> n" "next_of x \<noteq> p" "next_of p \<noteq> x" "next_of p \<noteq> n" "next_of n \<noteq> x" "next_of x \<noteq> n"
    using w by (auto simp: wf_nodes_def)
  have av: "app_value (pool s) a" "unat a mod 8 = 0" if "a \<in> {p, x, n}" for a
    using ap that i(9,10,22) by (auto simp: app_nodes_def)
  have fl: "next_of a \<noteq> 0 \<and> prev_of a \<noteq> 0 \<and> unat (next_of a) mod 8 = 0 \<and> unat (prev_of a) mod 8 = 0" if "a \<in> {p, x, n}" for a
  proof -
    have "node_ptr a" using that i(2,3,15) by auto
    from node_fields [OF this av(2) [OF that]] show ?thesis by simp
  qed
  show "\<forall>a \<in> {p, x, n}. unat (next_of a) mod 8 = 0 \<and> unat (prev_of a) mod 8 = 0" using fl by simp
  have M: "mem s (next_of p) = x" "mem s (next_of x) = n" "mem s (prev_of n) = x" using i(1,13) by (simp_all add: link_def)
  have "app_value (pool s) (n OR kNodeDeleted)"
    using r i(15) by (intro marked_app_value) (simp_all add: upd_ready_def pool_shape_def)
  then show "\<forall>e \<in> set (del_entries p x n). entry_ok (pool s) e \<and> mem s (fst e) = fst (snd e)"
    using av fl M by (simp add: del_entries_def entry_ok_def)
  show "distinct (map fst (del_entries p x n))" using ne by (auto simp: del_entries_def prev_of_def)
  show "dll (store_all (del_entries p x n) (mem s)) l (take k xs @ drop (Suc k) xs)"
    by (rule dll_unlink [OF dl k x p n]) (use ne in \<open>auto simp: store_all_def del_entries_def prev_of_def\<close>)
qed

lemma wp_mw_Delete:
  assumes r: "upd_ready s tid d" and dl: "dll (mem s) l xs" and k: "k < length xs" and x: "x = xs ! k"
    and ap: "app_nodes (pool s) (nodes_of l xs)" and j: "4 \<le> j"
    and Q: "\<And>s'. dll (mem s') l (take k xs @ drop (Suc k) xs) \<Longrightarrow> is_deleted (mem s' (next_of x)) \<Longrightarrow> Q Status_OK s'"
    and C: "C = list_stopped s d l xs (take k xs @ drop (Suc k) xs)"
  shows "wp (MwCASDList_Delete j tid l x True) Q C s"
proof -
  obtain i where i: "j = Suc i" "3 \<le> i" "1 \<le> i" using j by (intro that [of "j - 1"]) auto
  obtain p n where p: "at_gap l xs k p x" and n: "at_gap l xs (Suc k) x n" and w: "wf_nodes [p, x, n]"
    and xh: "x \<noteq> list_head l" "x \<noteq> list_tail l"
    using delete_facts [OF dl k] x by metis
  note c = delete_context [OF r dl k x p n w ap] and rd = dll_reads [OF dl p] dll_reads [OF dl n]
  let ?es = "del_entries p x n"
  have ne: "p \<noteq> x" "x \<noteq> n" "p \<noteq> n" "next_of x \<noteq> p" "next_of p \<noteq> x" "next_of p \<noteq> n" "next_of n \<noteq> x" "next_of x \<noteq> n"
    and np: "node_ptr p" "node_ptr x" "node_ptr n" using w by (auto simp: wf_nodes_def)
  have me: "\<not> enabled (mstats s)" using r by (simp add: upd_ready_def)
  have res: "wp (ResolveNodePointer i tid a True) P C s" if "IsCleanPtr (mem s a)" "P (mem s a) s" for a P
    using that me i by (intro wp_Resolve)
  have pre: "C s1" if h: "holding s d es s1" and ms: "mem s1 = mem s"
    and es: "es \<in> {[], [(next_of p, x, n)], [(next_of p, x, n), (prev_of n, x, p)], ?es}" for es s1
  proof -
    have "set es \<subseteq> set ?es" "length es \<le> DESC_CAP" using es by (auto simp: del_entries_def DESC_CAP_def)
    moreover have "distinct (map fst es)" using es c(3) by (elim insertE) (simp_all add: del_entries_def)
    moreover have "\<forall>e \<in> set es. entry_ok (pool s) e \<and> mem s1 (fst e) = fst (snd e)"
      using c(2) \<open>set es \<subseteq> set ?es\<close> unfolding ms by blast
    ultimately show ?thesis
      unfolding C using dl ms by (intro stopped_filling [OF r h]) simp_all
  qed
  have cap: "length ?es \<le> DESC_CAP" by (simp add: del_entries_def DESC_CAP_def)
  have marked: "is_deleted (store_all ?es (mem s) (next_of x))" using ne by (simp add: store_all_def del_entries_def prev_of_def)
  have run: "wp (MwCAS i tid d) (\<lambda>ok. wp (if ok then mret Status_OK else mw_delete_loop i tid l x) Q C) C s1"
    if h: "holding s d ?es s1" and ms: "mem s1 = mem s" for s1
    unfolding C by (rule wp_list_MwCAS [OF r h cap c(3)]) (use c(1,2) marked dl Q i in \<open>auto simp: ms intro!: wp_mret\<close>)
  have a3: "wp (AddEntry tid d (next_of x) n (n OR kNodeDeleted) kRecycleNever) P C s1"
    if h: "holding s d [(next_of p, x, n), (prev_of n, x, p)] s1" and ms: "mem s1 = mem s"
      and P: "\<And>i s1. holding s d ?es s1 \<Longrightarrow> mem s1 = mem s \<Longrightarrow> P i s1" for s1 P
    by (rule wp_AddEntry [OF r h ms]) (use c(3,4) P np pre [OF h ms] in \<open>auto simp: del_entries_def DESC_CAP_def\<close>)
  have a2: "wp (AddEntry tid d (prev_of n) x p kRecycleNever) P C s1"
    if h: "holding s d [(next_of p, x, n)] s1" and ms: "mem s1 = mem s"
      and P: "\<And>i s1. holding s d [(next_of p, x, n), (prev_of n, x, p)] s1 \<Longrightarrow> mem s1 = mem s \<Longrightarrow> P i s1" for s1 P
    by (rule wp_AddEntry [OF r h ms]) (use c(3,4) P np pre [OF h ms] in \<open>auto simp: del_entries_def DESC_CAP_def\<close>)
  have a1: "wp (AddEntry tid d (next_of p) x n kRecycleNever) P C s1"
    if h: "holding s d [] s1" and ms: "mem s1 = mem s"
      and P: "\<And>i s1. holding s d [(next_of p, x, n)] s1 \<Longrightarrow> mem s1 = mem s \<Longrightarrow> P i s1" for s1 P
    by (rule wp_AddEntry [OF r h ms]) (use c(4) P np pre [OF h ms] in \<open>auto simp: DESC_CAP_def\<close>)
  have alloc: "wp (AllocateDescriptor i tid NullCallback NullCallback) P C s"
    if P: "\<And>s1. holding s d [] s1 \<Longrightarrow> mem s1 = mem s \<Longrightarrow> P d s1" for P
    using pre P i(3) by (intro wp_Allocate [OF r with_mem_steps(1)]) auto
  show ?thesis
    unfolding MwCASDList_Delete_def guarded_True i(1) mw_delete_loop.simps
    by (rule wp_mbind wp_load res alloc a1 a2 a3 run wp_mret
        | simp only: rd xh np node_ptr_simps if_False if_True simp_thms
        | assumption)+
qed

section \<open>Recovery of a list\<close>

lemma durable_undirt:
  assumes "durable_as ws m m'"
  shows "undirt m' = undirt m"
proof
  fix a
  have "(m a OR kDirtyFlag) AND NOT kDirtyFlag = m a AND NOT kDirtyFlag"
    by (rule bit_eqI) (auto simp: bit_and_iff bit_or_iff bit_not_iff)
  then show "undirt m' a = undirt m a" using assms by (auto simp: durable_as_def undirt_def dest: spec [of _ a])
qed

lemma dll_undirt:
  assumes "dll m l xs"
  shows "dll (undirt m) l xs"
proof -
  have "linked_nodes m ns \<Longrightarrow> wf_nodes ns \<Longrightarrow> linked_nodes (undirt m) ns" for ns
  proof (induction m ns rule: linked_nodes.induct)
    case (1 M a b ns)
    then have "linked_nodes (undirt M) (b # ns)" by (simp add: wf_nodes_def)
    moreover have "node_ptr a" "node_ptr b" using 1(3) by (simp_all add: wf_nodes_def)
    moreover have "link M a b" using 1(2) by simp
    ultimately have "link (undirt M) a b" by (simp add: link_def undirt_def)
    then show ?case using \<open>linked_nodes (undirt M) (b # ns)\<close> by simp
  qed simp_all
  then show ?thesis using assms by (simp add: dll_def undirt_def)
qed

lemma list_recovery:
  assumes st: "list_stopped s d l xs xs' s'" and sh: "pool_shape (pool s)" "desc_per_partition (pool s) = 2 ^ k" "k < 64"
  shows "\<exists>s2. Recovery False cores (pmdk_pool (pool s)) (restart s') = Done () s2 \<and> pool_ready s2 \<and>
    (dll (undirt (mem s2)) l xs \<or> dll (undirt (mem s2)) l xs')"
proof -
  obtain s1 where s1: "same_setting s d s1" "op_ctx s1 d (mem s1)" "quiet s1 d (mem s1)" "mw_stopped s1 d s'" "dll (mem s1) l xs"
    "decided_success (d_status (descs s' d)) \<longrightarrow> dll (snd (mwcas_spec (op_words s1 d) (mem s1))) l xs'"
    using st by (auto simp: list_stopped_def)
  note pe = same_setting_pool [OF s1(1)]
  obtain s2 where s2: "Recovery False cores (pmdk_pool (pool s1)) (restart s') = Done () s2" "pool_ready s2"
    "durable_as (op_words s1 d) (if decided_success (d_status (descs s' d)) then snd (mwcas_spec (op_words s1 d) (mem s1)) else mem s1) (mem s2)"
    using recover_stopped [OF s1(2,4) _ _ sh(3) s1(3), of cores] sh pe by metis
  have "dll (undirt (mem s2)) l xs \<or> dll (undirt (mem s2)) l xs'"
    using durable_undirt [OF s2(3)] dll_undirt s1(5,6) by (cases "decided_success (d_status (descs s' d))") simp_all
  then show ?thesis using s2(1,2) pe by auto
qed

end
