(* ===== verification/DListCursor.thy ===== *)
theory DListCursor
  imports DListMw
begin

text \<open>
  The interface of a list that its readers use (\<open>IDList::GetNext\<close> and \<open>GetPrev\<close>), the cursor on top of it, and
  both lists as its implementations; and the sanity check.
\<close>

section \<open>The interface\<close>

text \<open>Repeated steps of a cursor, with the nodes they return.\<close>

fun visit :: "(cursor \<Rightarrow> (u64 \<times> cursor) mw) \<Rightarrow> nat \<Rightarrow> cursor \<Rightarrow> (u64 list \<times> cursor) mw" where
  "visit step 0 c = mret ([], c)"
| "visit step (Suc n) c =
     mbind (step c) (\<lambda>(x, c1). mbind (visit step n c1) (\<lambda>(xs, c2). mret (x # xs, c2)))"

definition cursor_step :: "(u64 \<Rightarrow> u64 mw) \<Rightarrow> cursor \<Rightarrow> (u64 \<times> cursor) mw" where
  "cursor_step get c = mbind (get (current_node c)) (\<lambda>x. mret (x, c\<lparr>current_node := x\<rparr>))"

locale dlist_reader =
  fixes get_next :: "u64 \<Rightarrow> u64 mw" and get_prev :: "u64 \<Rightarrow> u64 mw" and l :: dlist
    and rep :: "u64 list \<Rightarrow> mw_world \<Rightarrow> bool"
  assumes next_law: "rep xs s \<Longrightarrow> at_gap l xs k p n \<Longrightarrow> \<exists>s'. get_next p s = Done n s' \<and> rep xs s'"
    and prev_law: "rep xs s \<Longrightarrow> at_gap l xs k p n \<Longrightarrow> \<exists>s'. get_prev n s = Done p s' \<and> rep xs s'"
    and next_end: "rep xs s \<Longrightarrow> \<exists>s'. get_next (list_tail l) s = Done 0 s' \<and> rep xs s'"
    and prev_end: "rep xs s \<Longrightarrow> \<exists>s'. get_prev (list_head l) s = Done 0 s' \<and> rep xs s'"
begin

lemma visit_next:
  assumes "rep xs s" and "current_node c = nodes_of l xs ! i" and "i + j \<le> length xs + 1"
  shows "\<exists>s'. visit (cursor_step get_next) j c s =
     Done (take j (drop (Suc i) (nodes_of l xs)), c\<lparr>current_node := nodes_of l xs ! (i + j)\<rparr>) s' \<and> rep xs s'"
  using assms
proof (induction j arbitrary: i c s)
  case 0
  then have "c\<lparr>current_node := nodes_of l xs ! i\<rparr> = c" by (cases c) simp
  then show ?case using 0 by (simp add: mret_def)
next
  case (Suc j)
  let ?ns = "nodes_of l xs"
  have "at_gap l xs i (?ns ! i) (?ns ! Suc i)" using Suc.prems(3) by (simp add: at_gap_def)
  then obtain s1 where s1: "get_next (?ns ! i) s = Done (?ns ! Suc i) s1" "rep xs s1" using next_law [OF Suc.prems(1)] by blast
  let ?c = "c\<lparr>current_node := ?ns ! Suc i\<rparr>"
  have step: "cursor_step get_next c s = Done (?ns ! Suc i, ?c) s1"
    using s1(1) Suc.prems(2) by (simp add: mbind_def cursor_step_def mret_def)
  obtain s2 where s2: "visit (cursor_step get_next) j ?c s1 =
      Done (take j (drop (Suc (Suc i)) ?ns), ?c\<lparr>current_node := ?ns ! (Suc i + j)\<rparr>) s2" "rep xs s2"
    using Suc.IH [OF s1(2), of ?c "Suc i"] Suc.prems(3) by auto
  have "drop (Suc i) ?ns = ?ns ! Suc i # drop (Suc (Suc i)) ?ns" using Suc.prems(3) by (simp add: Cons_nth_drop_Suc)
  then show ?case
    using step s2 by (simp add: mbind_def mret_def)
qed

lemma visit_prev:
  assumes "rep xs s" and "current_node c = nodes_of l xs ! i" and "j \<le> i" and "i \<le> length xs + 1"
  shows "\<exists>s'. visit (cursor_step get_prev) j c s =
     Done (take j (rev (take i (nodes_of l xs))), c\<lparr>current_node := nodes_of l xs ! (i - j)\<rparr>) s' \<and> rep xs s'"
  using assms
proof (induction j arbitrary: i c s)
  case 0
  then have "c\<lparr>current_node := nodes_of l xs ! i\<rparr> = c" by (cases c) simp
  then show ?case using 0 by (simp add: mret_def)
next
  case (Suc j)
  let ?ns = "nodes_of l xs"
  obtain i' where i: "i = Suc i'" using Suc.prems(3) by (cases i) auto
  have "at_gap l xs i' (?ns ! i') (?ns ! i)" using Suc.prems(4) i by (simp add: at_gap_def)
  then obtain s1 where s1: "get_prev (?ns ! i) s = Done (?ns ! i') s1" "rep xs s1" using prev_law [OF Suc.prems(1)] by blast
  let ?c = "c\<lparr>current_node := ?ns ! i'\<rparr>"
  have step: "cursor_step get_prev c s = Done (?ns ! i', ?c) s1"
    using s1(1) Suc.prems(2) by (simp add: mbind_def cursor_step_def mret_def)
  obtain s2 where s2: "visit (cursor_step get_prev) j ?c s1 =
      Done (take j (rev (take i' ?ns)), ?c\<lparr>current_node := ?ns ! (i' - j)\<rparr>) s2" "rep xs s2"
    using Suc.IH [OF s1(2), of ?c i'] Suc.prems(3,4) i by auto
  have "rev (take i ?ns) = ?ns ! i' # rev (take i' ?ns)" using Suc.prems(4) i by (simp add: take_Suc_conv_app_nth)
  then show ?case
    using step s2 i by (simp add: mbind_def mret_def)
qed

text \<open>A cursor at the head sees the whole list and then the tail; stepping back from the tail it sees the list in
  reverse and then the head; past either end it gets a null pointer.\<close>

lemma visit_all:
  assumes "rep xs s" and "current_node c = list_head l"
  shows "\<exists>s'. visit (cursor_step get_next) (length xs + 1) c s = Done (xs @ [list_tail l], c\<lparr>current_node := list_tail l\<rparr>) s' \<and> rep xs s'"
  using visit_next [OF assms(1), of c 0 "length xs + 1"] assms(2) by (simp add: nodes_of_def nth_append)

lemma visit_all_back:
  assumes "rep xs s" and "current_node c = list_tail l"
  shows "\<exists>s'. visit (cursor_step get_prev) (length xs + 1) c s = Done (rev xs @ [list_head l], c\<lparr>current_node := list_head l\<rparr>) s' \<and> rep xs s'"
  using visit_prev [OF assms(1), of c "length xs + 1" "length xs + 1"] assms(2) by (simp add: nodes_of_def nth_append)

lemma ends_null:
  assumes "rep xs s"
  shows "\<exists>s'. cursor_step get_next (c\<lparr>current_node := list_tail l\<rparr>) s = Done (0, c\<lparr>current_node := 0\<rparr>) s' \<and> rep xs s'"
    "\<exists>s'. cursor_step get_prev (c\<lparr>current_node := list_head l\<rparr>) s = Done (0, c\<lparr>current_node := 0\<rparr>) s' \<and> rep xs s'"
  using next_end [OF assms] prev_end [OF assms] by (auto simp: cursor_step_def mbind_def mret_def)

end

section \<open>The two implementations\<close>

lemma wpc_Done:
  assumes "wpc op (\<lambda>x M K. x = y \<and> M = undirt (mem s)) (\<lambda>_. True) (undirt (mem s)) {}" and "budget s = None"
  obtains s' where "op s = Done y s'" "undirt (mem s') = undirt (mem s)" "budget s' = None" "same_rest s s'"
  by (rule wp_DoneE [OF wpcD [OF assms(1) refl] assms(2)]) (use that in \<open>auto simp: clean_on_def\<close>)

interpretation cas_list: dlist_reader "CASDList_GetNext (Suc m) l" "CASDList_GetPrev (Suc m) l" l
  "\<lambda>xs s. dll (undirt (mem s)) l xs \<and> budget s = None" for m l
proof
  fix xs and s :: mw_world and k p n assume r: "dll (undirt (mem s)) l xs \<and> budget s = None" and g: "at_gap l xs k p n"
  have "wpc (CASDList_GetNext (Suc m) l p) (\<lambda>x M K. x = n \<and> M = undirt (mem s)) (\<lambda>_. True) (undirt (mem s)) {}"
    by (rule wpc_GetNext [OF _ g]) (use r in auto)
  then show "\<exists>s'. CASDList_GetNext (Suc m) l p s = Done n s' \<and> dll (undirt (mem s')) l xs \<and> budget s' = None"
    by (rule wpc_Done) (use r in auto)
  have "wpc (CASDList_GetPrev (Suc m) l n) (\<lambda>x M K. x = p \<and> M = undirt (mem s)) (\<lambda>_. True) (undirt (mem s)) {}"
    by (rule wpc_GetPrev [OF _ g]) (use r in auto)
  then show "\<exists>s'. CASDList_GetPrev (Suc m) l n s = Done p s' \<and> dll (undirt (mem s')) l xs \<and> budget s' = None"
    by (rule wpc_Done) (use r in auto)
qed (simp_all add: mret_def)

interpretation mw_list: dlist_reader "\<lambda>p. MwCASDList_GetNext (Suc m) tid p True" "\<lambda>p. MwCASDList_GetPrev (Suc m) tid p True" l
  "\<lambda>xs s. dll (mem s) l xs \<and> \<not> enabled (mstats s)" for m tid l
proof
  fix xs and s :: mw_world and k p n assume r: "dll (mem s) l xs \<and> \<not> enabled (mstats s)" and g: "at_gap l xs k p n"
  note rd = dll_reads [OF conjunct1 [OF r] g] and nb = dll_neighbours [OF conjunct1 [OF r] g]
  have res: "ResolveNodePointer (Suc m) tid a True s = Done (mem s a) s" if "IsCleanPtr (mem s a)" for a
    using r that by (intro Resolve_clean) simp_all
  show "\<exists>s'. MwCASDList_GetNext (Suc m) tid p True s = Done n s' \<and> dll (mem s') l xs \<and> \<not> enabled (mstats s')"
    using res [of "next_of p"] r nb(2,3) rd by (simp add: MwCASDList_GetNext_def mbind_def mret_def)
  show "\<exists>s'. MwCASDList_GetPrev (Suc m) tid n True s = Done p s' \<and> dll (mem s') l xs \<and> \<not> enabled (mstats s')"
    using res [of "prev_of n"] r nb(2,3) rd by (simp add: MwCASDList_GetPrev_def mbind_def mret_def)
next
  fix xs and s :: mw_world assume r: "dll (mem s) l xs \<and> \<not> enabled (mstats s)"
  have res: "ResolveNodePointer (Suc m) tid a True s = Done 0 s" if "mem s a = 0" for a
    using r that Resolve_clean [of s a m tid] by (simp add: IsCleanPtr_def)
  show "\<exists>s'. MwCASDList_GetNext (Suc m) tid (list_tail l) True s = Done 0 s' \<and> dll (mem s') l xs \<and> \<not> enabled (mstats s')"
    using res [of "next_of (list_tail l)"] r dll_head_tail [OF conjunct1 [OF r]]
    by (simp add: MwCASDList_GetNext_def mbind_def mret_def dll_def)
  show "\<exists>s'. MwCASDList_GetPrev (Suc m) tid (list_head l) True s = Done 0 s' \<and> dll (mem s') l xs \<and> \<not> enabled (mstats s')"
    using res [of "prev_of (list_head l)"] r dll_head_tail [OF conjunct1 [OF r]]
    by (simp add: MwCASDList_GetPrev_def mbind_def mret_def dll_def)
qed

end
