(* ===== verification/DListProps.thy ===== *)
theory DListProps
  imports DListCursor
begin

text \<open>
  The properties of the doubly-linked lists, with concrete lists that show that their hypotheses can hold.
\<close>

section \<open>A lagging prev pointer\<close>

text \<open>The state between the two halves of an insertion: the list would be complete if \<open>prev\<close> of \<open>n\<close> pointed to
  \<open>p\<close>, but it still points to a node further to the front.\<close>

definition prev_lags :: "(u64 \<Rightarrow> u64) \<Rightarrow> dlist \<Rightarrow> u64 list \<Rightarrow> nat \<Rightarrow> nat \<Rightarrow> bool" where
  "prev_lags M l xs i k \<longleftrightarrow> i \<le> k \<and> k \<le> length xs \<and>
     dll (M(prev_of (nodes_of l xs ! Suc k) := nodes_of l xs ! k)) l xs \<and>
     M (prev_of (nodes_of l xs ! Suc k)) = nodes_of l xs ! i"

lemma linked_nth:
  "linked_nodes M ns \<Longrightarrow> Suc i < length ns \<Longrightarrow> link M (ns ! i) (ns ! Suc i)"
proof (induction M ns arbitrary: i rule: linked_nodes.induct)
  case (1 M a b ns)
  then show ?case by (cases i) auto
qed simp_all

lemma live_path_nth:
  assumes "\<And>j. i \<le> j \<Longrightarrow> j \<le> k \<Longrightarrow> M (next_of (ns ! j)) = ns ! Suc j" and "i \<le> k" and "Suc k < length ns"
  shows "live_path M (map ((!) ns) [i..<Suc k]) (ns ! Suc k)"
  using assms
proof (induction "k - i" arbitrary: i)
  case 0
  then have "i = k" by simp
  then show ?case using 0 by simp
next
  case (Suc x)
  then have "i < k" by simp
  then have e: "[i..<Suc k] = i # [Suc i..<Suc k]" "[Suc i..<Suc k] = Suc i # [Suc (Suc i)..<Suc k]"
    using Suc.prems(2) by (simp_all add: upt_conv_Cons)
  have "live_path M (map ((!) ns) [Suc i..<Suc k]) (ns ! Suc k)"
    by (rule Suc.hyps) (use Suc.prems Suc.hyps(2) \<open>i < k\<close> in auto)
  then show ?case using Suc.prems(1) [of i] \<open>i < k\<close> unfolding e(1) by (simp add: e(2) del: upt_Suc)
qed

lemma wpc_GetPrev_lag:
  assumes lag: "prev_lags M l xs i k" and m: "k - i + 3 \<le> m" and C: "C M" "C (M(prev_of (nodes_of l xs ! Suc k) := nodes_of l xs ! k))"
    and Q: "\<And>M K. dll M l xs \<Longrightarrow> Q (nodes_of l xs ! k) M K"
  shows "wpc (CASDList_GetPrev m l (nodes_of l xs ! Suc k)) Q C M K"
proof -
  let ?ns = "nodes_of l xs"
  let ?p = "?ns ! k" and ?n = "?ns ! Suc k" and ?q = "?ns ! i"
  let ?M = "M(prev_of ?n := ?p)"
  have ik: "i \<le> k" "k \<le> length xs" and d: "dll ?M l xs" and q: "M (prev_of ?n) = ?q"
    using lag by (simp_all add: prev_lags_def)
  have g: "at_gap l xs k ?p ?n" "at_gap l xs i ?q (?ns ! Suc i)" using ik by (simp_all add: at_gap_def)
  note nb = dll_neighbours [OF d g(1)] and nq = dll_neighbours [OF d g(2)]
  have w: "wf_nodes ?ns" and dist: "distinct ?ns" and li: "linked_nodes ?M ?ns" using d by (simp_all add: dll_def wf_nodes_def)
  have nxt: "M (next_of a) = ?M (next_of a)" if "a \<in> set ?ns" for a
    using wf_neq [OF w that nb(10)] by (simp add: prev_of_def)
  have nx: "M (next_of (?ns ! j)) = ?ns ! Suc j" if "j \<le> length xs" for j
    using linked_nth [OF li, of j] nxt [of "?ns ! j"] that by (simp add: link_def)
  obtain m' where m': "m = Suc m'" "k - i + 2 \<le> m'" using m by (intro that [of "m - 1"]) auto
  have next_n: "\<not> is_deleted (M (next_of ?n))" using nb(5) nxt [OF nb(10)] by (simp del: fun_upd_apply)
  have fin: "wpc (CASDList_GetPrev m' l ?n) Q C ?M K'" for K'
    by (rule wpc_GetPrev [OF d g(1)]) (use m' C Q d in auto)
  have cp: "wpc (CorrectPrev m' l ?q ?n) (\<lambda>_. wpc (CASDList_GetPrev m' l ?n) Q C) C M K'" for K'
  proof -
    let ?ws = "map ((!) ?ns) [i..<Suc k]"
    have lst: "last ?ws = ?p" "hd ?ws = ?q" using ik(1) by (simp_all add: hd_map last_map del: upt_Suc)
    have lp: "live_path M ?ws ?n" by (rule live_path_nth) (use nx ik in auto)
    have "?n \<notin> set ?ws" using dist ik by (auto simp: nth_eq_iff_index_eq)
    moreover have "distinct ?ws" using dist ik by (simp add: distinct_map inj_on_def nth_eq_iff_index_eq del: upt_Suc)
    moreover have "set (?n # ?ws) \<subseteq> set ?ns" using ik by (auto simp del: upt_Suc)
    ultimately have wf: "wf_nodes (?n # ?ws)" by (intro wf_nodes_subset [OF w]) auto
    have le: "length ?ws \<le> m'" using m' ik by simp
    have nd: "\<not> is_deleted (M (prev_of ?n))" "\<not> is_deleted (M (prev_of (last ?ws)))"
      using q nq(2) nb(4,6) unfolding lst by (simp_all add: prev_of_def)
    show ?thesis
      by (rule wpc_CorrectPrev [where ws = ?ws and C = C, OF lp wf le C(1) nd]) (use lst C fin in \<open>simp_all only:\<close>)
  qed
  show ?thesis
  proof (cases "i = k")
    case True
    then have "?M = M" using q by (simp add: fun_upd_idem)
    then show ?thesis using d m C Q by (intro wpc_GetPrev [OF _ g(1)]) auto
  next
    case False
    then have ne: "M (next_of ?q) \<noteq> ?n" using nx [of i] ik by (simp add: nth_eq_iff_index_eq [OF dist])
    show ?thesis
      unfolding m'(1) CASDList_GetPrev.simps if_not_P [OF nb(8)]
      by (rule wpc_mbind wpc_mcheck wpc_Deref wpc_ReadPersist C(1) cp
          | simp only: q nq(2) nb(3) ne next_n node_ptr_simps if_False simp_thms not_False_eq_True)+
  qed
qed

section \<open>The sanity check\<close>

lemma wpc_clear_dirty:
  assumes "C M" and "Q () M (insert a K)"
  shows "wpc (clear_dirty_at a) Q C M K"
  unfolding clear_dirty_at_def
proof (rule wpc_mbind, rule wpc_load)
  fix v assume v: "v AND NOT kDirtyFlag = M a"
  show "wpc (store_word a (v AND NOT kDirtyFlag)) Q C M K"
    by (rule wpc_store, rule assms(1), rule not_dirty_clear) (simp only: v fun_upd_triv assms(2))
qed

text \<open>One round of the loop at two linked nodes.\<close>

lemma wpc_sanity_step:
  assumes li: "M (next_of p) = n" "M (prev_of n) = p" "n \<noteq> 0" and K: "next_of p \<in> K" and C: "C M"
    and fin: "M (next_of n) = 0 \<Longrightarrow> (\<And>K'. Q () M K')"
    and go: "\<And>v K'. M (next_of n) \<noteq> 0 \<Longrightarrow>
       (next_of (M (next_of n)) \<in> K \<Longrightarrow> v = M (next_of (M (next_of n)))) \<Longrightarrow> K \<subseteq> K' \<Longrightarrow> next_of n \<in> K' \<Longrightarrow>
       wpc (if v = list_tail l then mret () else sanity_loop m l n (M (next_of n))) Q C M K'"
  shows "wpc (sanity_loop (Suc m) l p n) Q C M K"
proof -
  let ?K = "insert (prev_of n) (insert (next_of n) K)" and ?x = "M (next_of n)"
  have look: "wpc (load_word (next_of ?x)) (\<lambda>nn. wpc (if nn = list_tail l then mret () else sanity_loop m l n ?x) Q C) C M ?K"
    if x: "?x \<noteq> 0"
  proof (cases "next_of ?x \<in> K")
    case True
    then show ?thesis by (intro wpc_load_clean go [OF x]) auto
  next
    case False
    then show ?thesis by (intro wpc_load go [OF x]) auto
  qed
  have tail: "wpc (if ?x = 0 then mret () else mbind (load_word (next_of ?x)) (\<lambda>nn.
      if nn = list_tail l then mret () else sanity_loop m l n ?x)) Q C M ?K"
    using fin look by (auto intro!: wpc_mret wpc_mbind)
  show ?thesis
    unfolding sanity_loop.simps
    by (rule wpc_mbind wpc_mcheck wpc_clear_dirty C wpc_load_clean tail
        | simp only: li | (use li K in \<open>simp; fail\<close>))+
qed

lemma wpc_sanity_loop:
  assumes "dll M l xs" and "k \<le> length xs" and "next_of (nodes_of l xs ! k) \<in> K" and "length xs + 1 - k \<le> m" and "C M"
    and "\<And>K. Q () M K"
  shows "wpc (sanity_loop m l (nodes_of l xs ! k) (nodes_of l xs ! Suc k)) Q C M K"
  using assms
proof (induction m arbitrary: k K)
  case (Suc m)
  let ?n = "nodes_of l xs ! Suc k"
  have g: "at_gap l xs k (nodes_of l xs ! k) ?n" using Suc.prems(2) by (simp add: at_gap_def)
  note nb = dll_neighbours [OF Suc.prems(1) g]
  have go: "wpc (if v = list_tail l then mret () else sanity_loop m l ?n (M (next_of ?n))) Q C M K'"
    if nz: "M (next_of ?n) \<noteq> 0" and K': "next_of ?n \<in> K'" for v K'
  proof -
    have "k \<noteq> length xs"
      using nz Suc.prems(1) by (auto simp: dll_def nodes_of_def nth_append)
    then have k: "Suc k \<le> length xs" using Suc.prems(2) by simp
    then have "at_gap l xs (Suc k) ?n (nodes_of l xs ! Suc (Suc k))" by (simp add: at_gap_def)
    from dll_neighbours(1) [OF Suc.prems(1) this] have "M (next_of ?n) = nodes_of l xs ! Suc (Suc k)" by (simp add: link_def)
    then show ?thesis using Suc.IH [OF Suc.prems(1) k K'] Suc.prems by (auto intro: wpc_mret)
  qed
  show ?case
    by (rule wpc_sanity_step) (use nb(1,3) Suc.prems(3,5,6) go in \<open>auto simp: link_def\<close>)
qed simp

lemma wpc_sanity_check:
  assumes hd: "M (prev_of (list_head l)) = 0" "M (next_of (list_tail l)) = 0" "M (prev_of (list_tail l)) \<noteq> 0" "M (next_of (list_head l)) \<noteq> 0"
    and K: "prev_of (list_head l) \<in> K" "next_of (list_tail l) \<in> K" and C: "C M"
    and loop: "wpc (sanity_loop m l (list_head l) (M (next_of (list_head l)))) Q C M (insert (next_of (list_head l)) K)"
  shows "wpc (SingleThreadSanityCheck m l) Q C M K"
proof -
  have nz: "v \<noteq> 0" if "v AND NOT kDirtyFlag = M a" "M a \<noteq> 0" for v a using that by auto
  show ?thesis
    unfolding SingleThreadSanityCheck_def
    by (rule wpc_mbind wpc_mcheck wpc_load_clean [OF K(1)] wpc_load_clean [OF K(2)] wpc_clear_dirty C loop
        wpc_load_clean [OF insertI1] wpc_load [where a = "prev_of (list_tail l)"] wpc_load [where a = "next_of (list_head l)"]
        | erule nz | (use hd in \<open>simp; fail\<close>))+
qed

text \<open>On clean words the loop ends before the last node and never looks at the tail.\<close>

lemma wpc_sanity_stops_early:
  assumes d: "dll M l xs" and v: "M' = M(prev_of (list_tail l) := v)" and "k + 2 \<le> length xs" and "length xs - k \<le> m" and "C M'"
    and "\<And>K. Q () M' K" and K: "next_of (nodes_of l xs ! k) \<in> K" "\<forall>a. next_of a \<in> K"
  shows "wpc (sanity_loop m l (nodes_of l xs ! k) (nodes_of l xs ! Suc k)) Q C M' K"
  using assms
proof (induction m arbitrary: k K)
  case (Suc m)
  let ?ns = "nodes_of l xs"
  have w: "wf_nodes ?ns" and li: "linked_nodes M ?ns" and dist: "distinct ?ns" using d by (simp_all add: dll_def wf_nodes_def)
  have t: "list_tail l = ?ns ! Suc (length xs)" by (simp add: nodes_of_def nth_append)
  have nxt: "M' (next_of (?ns ! i)) = ?ns ! Suc i" if "i \<le> length xs" for i
  proof -
    have "?ns ! i \<in> set ?ns" "list_tail l \<in> set ?ns" using that by (simp_all add: t)
    from wf_neq(1) [OF w this] show ?thesis using linked_nth [OF li, of i] that by (simp add: v link_def prev_of_def)
  qed
  have prv: "M' (prev_of (?ns ! Suc i)) = ?ns ! i" if "i < length xs" for i
    using linked_nth [OF li, of i] that by (simp add: v link_def prev_of_def t nth_eq_iff_index_eq [OF dist])
  have np: "node_ptr (?ns ! i)" if "i \<le> Suc (length xs)" for i using w that by (auto simp: wf_nodes_def)
  have k: "k + 2 \<le> length xs" using Suc.prems(3) .
  let ?n = "?ns ! Suc k"
  have x: "M' (next_of ?n) = ?ns ! Suc (Suc k)" "M' (next_of (?ns ! Suc (Suc k))) = ?ns ! Suc (Suc (Suc k))" using nxt k by simp_all
  have go: "wpc (if v = list_tail l then mret () else sanity_loop m l ?n (?ns ! Suc (Suc k))) Q C M' K'"
    if K': "K \<subseteq> K'" and e: "v = ?ns ! Suc (Suc (Suc k))" for v K'
  proof (cases "k + 2 = length xs")
    case True
    then show ?thesis using e t Suc.prems(6) by (auto intro!: wpc_mret)
  next
    case False
    then have "wpc (sanity_loop m l (?ns ! Suc k) (?ns ! Suc (Suc k))) Q C M' K'"
      using Suc.prems K' by (intro Suc.IH) auto
    then show ?thesis using Suc.prems(6) by (simp add: wpc_mret)
  qed
  show ?case
    by (rule wpc_sanity_step) (use nxt [of k] prv [of k] np k x go Suc.prems(5-8) in auto)
qed simp

section \<open>A concrete list\<close>

text \<open>The list with the one node 8320 between the head 8192 and the tail 8256; 8384 is a new node.\<close>

definition demo_list :: "sync_method \<Rightarrow> dlist" where
  "demo_list sync = \<lparr>list_head = 8192, list_tail = 8256, list_sync = sync\<rparr>"

definition list_mem :: "u64 \<Rightarrow> u64" where
  "list_mem = (\<lambda>_. 0)(8200 := 8320, 8320 := 8192, 8328 := 8256, 8256 := 8320)"

lemma node_ptr_small:
  assumes "unat p < 2 ^ 60" and "p \<noteq> 0"
  shows "node_ptr p"
proof -
  have "\<not> bit p k" if k: "60 \<le> k" for k
  proof
    assume "bit p k"
    then have "bit (unat p) k" by (simp add: bit_unsigned_iff u64_bit_less)
    moreover have "unat p < 2 ^ k" using assms(1) k power_increasing [of 60 k "2::nat"] by linarith
    ultimately show False by (simp add: bit_iff_odd)
  qed
  then show ?thesis using assms(2) by (simp add: node_ptr_def)
qed

lemma demo_nodes [simp]:
  "nodes_of (demo_list sync) [8320] = [8192, 8320, 8256]" "list_head (demo_list sync) = 8192"
  "list_tail (demo_list sync) = 8256" "list_sync (demo_list sync) = sync"
  by (simp_all add: demo_list_def nodes_of_def)

lemma demo_wf: "wf_nodes (8384 # nodes_of (demo_list sync) [8320])"
  by (auto simp: wf_nodes_def next_of_def intro!: node_ptr_small)

lemma demo_dll: "dll list_mem (demo_list sync) [8320]"
  using demo_wf [of sync]
  by (simp add: dll_def link_def list_mem_def prev_of_def next_of_def wf_nodes_def)

lemma undirt_list_mem [simp]: "undirt list_mem = list_mem"
  by (auto simp: fun_eq_iff undirt_def list_mem_def kDirtyFlag_def)

section \<open>Properties\<close>

lemma wpc_case:
  assumes "wpc op Q C (undirt (mem s)) K" and "clean_on K (mem s)"
    and "\<And>x M K. Q x M K \<Longrightarrow> x = y \<and> P M"
  shows "case op s of Done r s' \<Rightarrow> r = y \<and> P (undirt (mem s')) \<and> same_rest s s'
     | Crashed s' \<Rightarrow> C (undirt (mem s')) \<and> same_rest s s' | _ \<Rightarrow> False"
  using wpcD [OF assms(1) refl assms(2)] assms(3) by (auto simp: wp_def split: outcome.splits)

text \<open>The updates of a list on single-word CAS, with the list they lead to.\<close>

inductive cas_update :: "nat \<Rightarrow> dlist \<Rightarrow> u64 list \<Rightarrow> status mw \<Rightarrow> u64 list \<Rightarrow> bool" for m l xs where
  before: "gap_before l xs n k \<Longrightarrow> wf_nodes (x # nodes_of l xs) \<Longrightarrow>
     cas_update m l xs (CASDList_InsertBefore m l n x) (take k xs @ x # drop k xs)"
| after: "gap_after l xs p k \<Longrightarrow> wf_nodes (x # nodes_of l xs) \<Longrightarrow>
     cas_update m l xs (CASDList_InsertAfter m l p x) (take k xs @ x # drop k xs)"
| delete: "k < length xs \<Longrightarrow> cas_update m l xs (CASDList_Delete m l (xs ! k)) (take k xs @ drop (Suc k) xs)"
| delete_end: "x = list_head l \<or> x = list_tail l \<Longrightarrow> cas_update m l xs (CASDList_Delete m l x) xs"

text \<open>C17. The updates of the list on single-word CAS, run by one thread: from any list, with any dirty bits left
  over, \<open>InsertBefore\<close>, \<open>InsertAfter\<close> and \<open>Delete\<close> return \<open>OK\<close> and leave a doubly-linked list with the node
  added or removed at its place (before the head means behind it, after the tail means before it, and the
  ends are never deleted). Wherever one is stopped, the nodes reached through \<open>next\<close> are those of the
  old list or of the new one. Nothing outside the nodes changes.\<close>

theorem cas_updates_correct:
  assumes "dll (undirt (mem s)) l xs" and "cas_update m l xs op xs'" and "5 \<le> m"
  shows "case op s of
      Done r s' \<Rightarrow> r = Status_OK \<and> dll (undirt (mem s')) l xs' \<and> same_rest s s'
    | Crashed s' \<Rightarrow> old_or_new l xs xs' (undirt (mem s')) \<and> same_rest s s'
    | _ \<Rightarrow> False"
  using assms(2)
proof cases
  case (before n k x)
  have "wpc op (\<lambda>r M K. r = Status_OK \<and> dll M l xs') (old_or_new l xs xs') (undirt (mem s)) {}"
    unfolding before by (rule wpc_InsertBefore [OF assms(1) before(3,4)]) (use assms(3) in simp_all)
  then show ?thesis by (rule wpc_case) (simp_all add: clean_on_def)
next
  case (after p k x)
  have "wpc op (\<lambda>r M K. r = Status_OK \<and> dll M l xs') (old_or_new l xs xs') (undirt (mem s)) {}"
    unfolding after by (rule wpc_InsertAfter [OF assms(1) after(3,4)]) (use assms(3) in simp_all)
  then show ?thesis by (rule wpc_case) (simp_all add: clean_on_def)
next
  case (delete k)
  have "wpc op (\<lambda>r M K. r = Status_OK \<and> dll M l xs') (old_or_new l xs xs') (undirt (mem s)) {}"
    unfolding delete by (rule wpc_Delete [OF assms(1) delete(3) refl]) (use assms(3) in simp_all)
  then show ?thesis by (rule wpc_case) (simp_all add: clean_on_def)
next
  case (delete_end x)
  have "wpc op (\<lambda>r M K. r = Status_OK \<and> dll M l xs') (old_or_new l xs xs') (undirt (mem s)) {}"
    unfolding delete_end
    by (rule wpc_Delete_end [OF assms(1) delete_end(3)]) (use assms(1) dll_forward in \<open>simp_all add: old_or_new_def\<close>)
  then show ?thesis by (rule wpc_case) (simp_all add: clean_on_def)
qed

theorem cas_updates_correct_witness:
  "\<exists>s'. CASDList_InsertBefore 5 (demo_list kSyncCAS) 8256 8384 (blank_world\<lparr>mem := list_mem\<rparr>) = Done Status_OK s' \<and>
     dll (undirt (mem s')) (demo_list kSyncCAS) [8320, 8384]"
proof -
  let ?s = "blank_world\<lparr>mem := list_mem\<rparr>" and ?l = "demo_list kSyncCAS"
  have "gap_before ?l [8320] 8256 1" by (simp add: gap_before_def)
  from cas_update.before [OF this demo_wf, of 5]
  have u: "cas_update 5 ?l [8320] (CASDList_InsertBefore 5 ?l 8256 8384) [8320, 8384]" by simp
  have d: "dll (undirt (mem ?s)) ?l [8320]" using demo_dll by simp
  have b: "CASDList_InsertBefore 5 ?l 8256 8384 ?s \<noteq> Crashed s'" for s'
  proof -
    have "wpc (CASDList_InsertBefore 5 ?l 8256 8384) (\<lambda>r M K. True) (old_or_new ?l [8320] (take 1 [8320] @ 8384 # drop 1 [8320]))
        (undirt (mem ?s)) {}"
      by (rule wpc_InsertBefore [OF d _ demo_wf, where k = 1]) (simp_all add: gap_before_def)
    from wpcD [OF this refl] show ?thesis by (auto simp: wp_def clean_on_def blank_world_def split: outcome.splits)
  qed
  show ?thesis using cas_updates_correct [OF d u] b by (auto split: outcome.splits)
qed

text \<open>C18. A \<open>prev\<close> pointer that lags behind (as between the two halves of an insertion, or after a crash
  there) is repaired by the next read: \<open>CASDList::GetPrev\<close> returns the true predecessor and leaves a
  complete doubly-linked list. Fuel for the distance to the predecessor and three more rounds is enough.\<close>

theorem cas_get_prev_repairs:
  assumes "prev_lags (undirt (mem s)) l xs i k" and "k - i + 3 \<le> m" and "budget s = None"
  shows "\<exists>s'. CASDList_GetPrev m l (nodes_of l xs ! Suc k) s = Done (nodes_of l xs ! k) s' \<and>
    dll (undirt (mem s')) l xs \<and> same_rest s s'"
proof -
  have "wpc (CASDList_GetPrev m l (nodes_of l xs ! Suc k)) (\<lambda>x M K. x = nodes_of l xs ! k \<and> dll M l xs) (\<lambda>_. True)
      (undirt (mem s)) {}"
    by (rule wpc_GetPrev_lag [OF assms(1,2)]) simp_all
  from wpcD [OF this refl] show ?thesis
    by (rule wp_DoneE [OF _ assms(3)]) (auto simp: clean_on_def)
qed

theorem cas_get_prev_repairs_witness:
  "\<exists>s'. CASDList_GetPrev 4 (demo_list kSyncCAS) 8256 (blank_world\<lparr>mem := list_mem(8256 := 8192)\<rparr>) = Done 8320 s' \<and>
     dll (undirt (mem s')) (demo_list kSyncCAS) [8320]"
proof -
  let ?m = "list_mem(8256 := 8192)" and ?l = "demo_list kSyncCAS"
  have u: "undirt ?m = ?m" by (simp add: undirt_upd kDirtyFlag_def)
  have "?m(8256 := 8320) = list_mem" by (simp add: list_mem_def fun_eq_iff)
  then have lag: "prev_lags (undirt (mem (blank_world\<lparr>mem := ?m\<rparr>))) ?l [8320] 0 1"
    using demo_dll [of kSyncCAS] by (simp add: prev_lags_def u prev_of_def del: fun_upd_apply) simp
  from cas_get_prev_repairs [OF lag, of 4] show ?thesis by (auto simp: blank_world_def)
qed

text \<open>The virtual calls of a cursor go to the implementation of its list.\<close>

lemma visit_cong:
  assumes "\<And>c s. cursor_list c = l \<Longrightarrow> f c s = cursor_step g c s" and "cursor_list c = l"
  shows "visit f n c s = visit (cursor_step g) n c s"
  using assms(2)
proof (induction n arbitrary: c s)
  case (Suc n)
  have "cursor_list c' = l" if "cursor_step g c s = Done (x, c') s'" for x c' s'
    using that Suc.prems by (auto simp: cursor_step_def mbind_def mret_def split: outcome.splits)
  then show ?case
    using Suc assms(1) [OF Suc.prems] by (auto simp: mbind_def split: outcome.splits)
qed simp

lemma visit_dispatch:
  assumes "cursor_list c = l"
  shows "list_sync l = kSyncCAS \<Longrightarrow> visit (Cursor_Next m tid) n c s = visit (cursor_step (CASDList_GetNext m l)) n c s"
    "list_sync l = kSyncCAS \<Longrightarrow> visit (Cursor_Prev m tid) n c s = visit (cursor_step (CASDList_GetPrev m l)) n c s"
    "list_sync l = kSyncMwCAS \<Longrightarrow> visit (Cursor_Next m tid) n c s = visit (cursor_step (\<lambda>p. MwCASDList_GetNext m tid p True)) n c s"
    "list_sync l = kSyncMwCAS \<Longrightarrow> visit (Cursor_Prev m tid) n c s = visit (cursor_step (\<lambda>p. MwCASDList_GetPrev m tid p True)) n c s"
  by (rule visit_cong [OF _ assms],
      simp add: Cursor_Next_def Cursor_Prev_def cursor_step_def IDList_GetNext_def IDList_GetPrev_def)+

text \<open>C19. A cursor on either kind of list, stepped with \<open>Next\<close> from the head, visits the nodes in order and then
  the tail; stepped with \<open>Prev\<close> from there it visits them in reverse order and then the head.\<close>

theorem cursor_visits_list:
  assumes "list_sync l = kSyncCAS \<and> dll (undirt (mem s)) l xs \<and> budget s = None \<or>
      list_sync l = kSyncMwCAS \<and> dll (mem s) l xs \<and> \<not> enabled (mstats s)"
    and "cursor_list c = l" and "current_node c = list_head l"
  shows "\<exists>s1 s2. visit (Cursor_Next (Suc m) tid) (length xs + 1) c s = Done (xs @ [list_tail l], c\<lparr>current_node := list_tail l\<rparr>) s1 \<and>
     visit (Cursor_Prev (Suc m) tid) (length xs + 1) (c\<lparr>current_node := list_tail l\<rparr>) s1 = Done (rev xs @ [list_head l], c) s2"
    (is "\<exists>s1 s2. ?fwd s1 \<and> ?back s1 s2")
  using assms(1)
proof (elim disjE conjE)
  let ?c = "c\<lparr>current_node := list_tail l\<rparr>"
  have cc: "?c\<lparr>current_node := list_head l\<rparr> = c" using assms(3) by (cases c) simp
  have c: "cursor_list ?c = l" "current_node ?c = list_tail l" using assms(2) by simp_all
  note next_of_list = visit_dispatch(1,3) [OF assms(2)] and prev_of_list = visit_dispatch(2,4) [OF c(1)]
  {
    assume sync: "list_sync l = kSyncCAS" and r: "dll (undirt (mem s)) l xs" "budget s = None"
    then obtain s1 where s1: "?fwd s1" "dll (undirt (mem s1)) l xs \<and> budget s1 = None"
      using cas_list.visit_all [OF conjI [OF r] assms(3), of m] next_of_list(1) [OF sync] by metis
    moreover obtain s2 where "?back s1 s2"
      using cas_list.visit_all_back [OF s1(2) c(2), of m] prev_of_list(1) [OF sync] unfolding cc by metis
    ultimately show ?thesis by blast
  next
    assume sync: "list_sync l = kSyncMwCAS" and r: "dll (mem s) l xs" "\<not> enabled (mstats s)"
    then obtain s1 where s1: "?fwd s1" "dll (mem s1) l xs \<and> \<not> enabled (mstats s1)"
      using mw_list.visit_all [OF conjI [OF r] assms(3), of m tid] next_of_list(2) [OF sync] by metis
    moreover obtain s2 where "?back s1 s2"
      using mw_list.visit_all_back [OF s1(2) c(2), of m tid] prev_of_list(2) [OF sync] unfolding cc by metis
    ultimately show ?thesis by blast
  }
qed

theorem cursor_visits_list_witness:
  "\<exists>s1. visit (Cursor_Next 1 7) 2 \<lparr>cursor_list = demo_list kSyncMwCAS, current_node = 8192, unprot = False\<rparr>
     (blank_world\<lparr>mem := list_mem\<rparr>) = Done ([8320, 8256], \<lparr>cursor_list = demo_list kSyncMwCAS, current_node = 8256, unprot = False\<rparr>) s1"
  using cursor_visits_list [of "demo_list kSyncMwCAS" "blank_world\<lparr>mem := list_mem\<rparr>" "[8320]"
      "\<lparr>cursor_list = demo_list kSyncMwCAS, current_node = 8192, unprot = False\<rparr>" 0 7] demo_dll [of kSyncMwCAS]
  by (auto simp: blank_world_def numeral_2_eq_2)

text \<open>C20. The sanity check accepts every well-formed list, whatever dirty bits its links carry, and changes
  nothing but those bits.\<close>

theorem sanity_check_accepts:
  assumes d: "dll (undirt (mem s)) l xs" and e: "mem s (prev_of (list_head l)) = 0" "mem s (next_of (list_tail l)) = 0"
    and m: "length xs + 1 \<le> m" and b: "budget s = None"
  shows "\<exists>s'. SingleThreadSanityCheck m l s = Done () s' \<and> undirt (mem s') = undirt (mem s) \<and> same_rest s s'"
proof -
  let ?M = "undirt (mem s)" and ?K = "{prev_of (list_head l), next_of (list_tail l)}"
  have g: "at_gap l xs 0 (list_head l) (nodes_of l xs ! 1)" "at_gap l xs (length xs) (nodes_of l xs ! length xs) (list_tail l)"
    by (simp_all add: at_gap_def nodes_of_def nth_append)
  note nb = dll_neighbours [OF d g(1)] dll_neighbours [OF d g(2)]
  have h: "?M (prev_of (list_head l)) = 0" "?M (next_of (list_tail l)) = 0" using d by (simp_all add: dll_def)
  have n: "?M (next_of (list_head l)) = nodes_of l xs ! 1" "?M (prev_of (list_tail l)) = nodes_of l xs ! length xs"
    using nb(1,13) by (simp_all add: link_def)
  have nz: "?M (prev_of (list_tail l)) \<noteq> 0" "?M (next_of (list_head l)) \<noteq> 0" using n nb(3,14) by simp_all
  have hd: "list_head l = nodes_of l xs ! 0" by (simp add: nodes_of_def)
  have loop: "wpc (sanity_loop m l (list_head l) (?M (next_of (list_head l)))) (\<lambda>_ M _. M = ?M) (\<lambda>_. True) ?M (insert (next_of (list_head l)) ?K)"
    using wpc_sanity_loop [OF d, of 0 "insert (next_of (list_head l)) ?K" m] m n(1) hd by simp
  have "wpc (SingleThreadSanityCheck m l) (\<lambda>_ M _. M = ?M) (\<lambda>_. True) ?M ?K"
    by (rule wpc_sanity_check [OF h nz _ _ _ loop]) simp_all
  moreover have "clean_on ?K (mem s)" using e by (auto simp: clean_on_def IsDirtyPtr_def)
  ultimately show ?thesis by (rule wp_DoneE [OF wpcD [OF _ refl] b]) auto
qed

theorem sanity_check_accepts_witness:
  "\<exists>s'. SingleThreadSanityCheck 2 (demo_list kSyncCAS) (blank_world\<lparr>mem := list_mem\<rparr>) = Done () s'"
proof -
  have "dll (undirt (mem (blank_world\<lparr>mem := list_mem\<rparr>))) (demo_list kSyncCAS) [8320]" using demo_dll by simp
  from sanity_check_accepts [OF this, of 2] show ?thesis by (auto simp: list_mem_def prev_of_def next_of_def blank_world_def)
qed

text \<open>C21. The sanity check does not look at the end of the list: on a clean list of at least two nodes it stops when
  it reaches the last one, so it also accepts the list after \<open>prev\<close> of the tail has been overwritten with any
  other pointer.\<close>

theorem sanity_check_ignores_tail:
  assumes d: "dll (mem s) l xs" and c: "\<forall>a. \<not> IsDirtyPtr (mem s a)" and xs: "2 \<le> length xs" and v: "v \<noteq> 0" "\<not> IsDirtyPtr v" "v \<noteq> last xs"
    and m: "length xs \<le> m" and b: "budget s = None"
  shows "(\<exists>s'. SingleThreadSanityCheck m l (set_mem (prev_of (list_tail l)) v s) = Done () s') \<and>
    \<not> dll (mem (set_mem (prev_of (list_tail l)) v s)) l xs"
proof
  let ?s = "set_mem (prev_of (list_tail l)) v s"
  let ?M = "(mem s)(prev_of (list_tail l) := v)"
  have g: "at_gap l xs 0 (list_head l) (nodes_of l xs ! 1)" "at_gap l xs (length xs) (nodes_of l xs ! length xs) (list_tail l)"
    by (simp_all add: at_gap_def nodes_of_def nth_append)
  note nb = dll_neighbours [OF d g(1)] dll_neighbours [OF d g(2)]
  have w: "wf_nodes (nodes_of l xs)" using d by (simp add: dll_def)
  have cl: "clean_on UNIV ?M" using c v(2) by (simp add: clean_on_def)
  then have u: "undirt (mem ?s) = ?M" using clean_on_undirt [OF cl] by (auto simp: set_mem_def fun_eq_iff)
  have ne: "next_of (list_head l) \<noteq> prev_of (list_tail l)" "next_of (list_tail l) \<noteq> prev_of (list_tail l)" "prev_of (list_head l) \<noteq> prev_of (list_tail l)"
    using wf_neq(1) [OF w, of _ "list_tail l"] dll_head_tail(3) [OF d] by (auto simp: prev_of_def nodes_of_def)
  have h: "?M (prev_of (list_head l)) = 0" "?M (next_of (list_tail l)) = 0" "?M (prev_of (list_tail l)) \<noteq> 0" "?M (next_of (list_head l)) \<noteq> 0"
    using d ne v(1) nb(1,3) by (auto simp: dll_def link_def)
  have n: "?M (next_of (list_head l)) = nodes_of l xs ! Suc 0" "list_head l = nodes_of l xs ! 0"
    using nb(1) ne by (simp_all add: link_def nodes_of_def)
  have loop: "wpc (sanity_loop m l (list_head l) (?M (next_of (list_head l)))) (\<lambda>_ _ _. True) (\<lambda>_. True) ?M (insert (next_of (list_head l)) UNIV)"
    using wpc_sanity_stops_early [OF d refl, of 0 m "\<lambda>_. True" v "\<lambda>_ _ _. True" UNIV] xs m
    unfolding n(1) n(2) [symmetric] by (simp del: fun_upd_apply)
  have "wpc (SingleThreadSanityCheck m l) (\<lambda>_ _ _. True) (\<lambda>_. True) ?M UNIV"
    by (rule wpc_sanity_check [OF h _ _ _ loop]) simp_all
  from wpcD [OF this u] show "\<exists>s'. SingleThreadSanityCheck m l ?s = Done () s'"
    by (rule wp_DoneE) (use cl b in \<open>auto simp: set_mem_def\<close>)
  have "nodes_of l xs ! length xs = last xs" using xs by (cases xs) (auto simp: nodes_of_def nth_append last_conv_nth)
  then show "\<not> dll (mem ?s) l xs"
    using v(3) dll_neighbours(1) [OF _ g(2), of "mem ?s"] by (auto simp: link_def set_mem_def)
qed

theorem sanity_check_ignores_tail_witness:
  "\<exists>s'. SingleThreadSanityCheck 2 (demo_list kSyncCAS)
     (blank_world\<lparr>mem := (\<lambda>_. 0)(8200 := 8320, 8320 := 8192, 8328 := 8384, 8384 := 8320, 8392 := 8256, 8256 := 64)\<rparr>) = Done () s'"
proof -
  let ?m = "(\<lambda>_. 0)(8200 := 8320, 8320 := 8192, 8328 := 8384, 8384 := 8320, 8392 := 8256, 8256 := (8384 :: u64))"
  have n: "nodes_of (demo_list kSyncCAS) [8320, 8384] = [8192, 8320, 8384, 8256]" by (simp add: demo_list_def nodes_of_def)
  have "wf_nodes [8192, 8320, 8384, 8256]" by (auto simp: wf_nodes_def next_of_def intro!: node_ptr_small)
  then have d: "dll (mem (blank_world\<lparr>mem := ?m\<rparr>)) (demo_list kSyncCAS) [8320, 8384]"
    by (simp add: dll_def n link_def prev_of_def next_of_def)
  have "\<forall>a. \<not> IsDirtyPtr (mem (blank_world\<lparr>mem := ?m\<rparr>) a)" by (simp add: IsDirtyPtr_def kDirtyFlag_def)
  from sanity_check_ignores_tail [OF d this, of 64 2] show ?thesis
    by (simp add: blank_world_def set_mem_def prev_of_def IsDirtyPtr_def kDirtyFlag_def)
qed

end
