(* ===== verification/DListDurable.thy ===== *)
theory DListDurable
  imports DListProps
begin

text \<open>
  The properties of the list on \<open>MwCAS\<close>: its updates refine those of an abstract list, and a crash inside one,
  followed by \<open>Recovery\<close>, leaves the old or the new list.
\<close>

text \<open>The updates with the abstract list they lead to.\<close>

inductive mw_update :: "nat \<Rightarrow> u64 \<Rightarrow> desc_pool \<Rightarrow> dlist \<Rightarrow> u64 list \<Rightarrow> status mw \<Rightarrow> u64 list \<Rightarrow> bool"
  for m tid p l xs where
  before: "gap_before l xs n k \<Longrightarrow> wf_nodes (x # nodes_of l xs) \<Longrightarrow> app_nodes p (x # nodes_of l xs) \<Longrightarrow>
     mw_update m tid p l xs (MwCASDList_InsertBefore m tid l n x True) (take k xs @ x # drop k xs)"
| after: "gap_after l xs q k \<Longrightarrow> wf_nodes (x # nodes_of l xs) \<Longrightarrow> app_nodes p (x # nodes_of l xs) \<Longrightarrow>
     mw_update m tid p l xs (MwCASDList_InsertAfter m tid l q x True) (take k xs @ x # drop k xs)"
| delete: "k < length xs \<Longrightarrow> app_nodes p (nodes_of l xs) \<Longrightarrow>
     mw_update m tid p l xs (MwCASDList_Delete m tid l (xs ! k) True) (take k xs @ drop (Suc k) xs)"

lemma wp_mw_update:
  assumes r: "upd_ready s tid d" and dl: "dll (mem s) l xs" and u: "mw_update m tid (pool s) l xs op xs'" and m: "6 \<le> m"
  shows "wp op (\<lambda>st s'. st = Status_OK \<and> dll (mem s') l xs') (list_stopped s d l xs xs') s"
  using u
proof cases
  case (before n k x)
  then show ?thesis unfolding before(1,2) by (intro wp_mw_InsertBefore [OF r dl before(3-5) m]) simp_all
next
  case (after q k x)
  then show ?thesis unfolding after(1,2) by (intro wp_mw_InsertAfter [OF r dl after(3-5) m]) simp_all
next
  case (delete k)
  have "4 \<le> m" using m by simp
  then show ?thesis unfolding delete(1,2) by (intro wp_mw_Delete [OF r dl delete(3) refl delete(4)]) simp_all
qed

section \<open>A thread ready to update the concrete list\<close>

definition list_epochs :: epoch_world where
  "list_epochs = demo_epochs\<lparr>tls := (tls demo_epochs)((7, PartitionTls) := PartitionPtr 0 0)\<rparr>"

definition list_pool :: desc_pool where
  "list_pool = demo_pool\<lparr>partition_table := replicate 2 \<lparr>free_list = 4096, part_garbage = fresh_garbage 0 2, allocated_desc = 0\<rparr>\<rparr>"

definition list_demo :: "nat option \<Rightarrow> mw_world" where
  "list_demo b = \<lparr>ew = list_epochs, mem = list_mem, nv = (\<lambda>_. 0), descs = (\<lambda>_. zero_desc\<lparr>d_status := kStatusFinished\<rparr>),
     pool = list_pool, freed = [], mstats = \<lparr>enabled = False, instance_cl = new_core_local\<rparr>, budget = b\<rparr>"

lemma list_epochs_spec:
  "mgr_inv 0 list_epochs" "IsProtected 0 7 list_epochs = Inr (True, list_epochs)" "GetCurrentEpoch 0 list_epochs = 1"
proof -
  have e: "managers list_epochs = managers demo_epochs" "tls list_epochs (t, EpochEntryTls) = tls demo_epochs (t, EpochEntryTls)" for t
    by (simp_all add: list_epochs_def)
  then have en: "entries m list_epochs = entries m demo_epochs" for m by (simp add: entries_def)
  show "mgr_inv 0 list_epochs" using demo_epochs_spec(1) by (simp add: mgr_inv_def e en)
  show "GetCurrentEpoch 0 list_epochs = 1" using demo_epochs_spec(3) by (simp add: GetCurrentEpoch_def e)
  have g: "get_entry m i list_epochs = get_entry m i demo_epochs" for m i by (simp add: get_entry_def the_table_def e)
  show "IsProtected 0 7 list_epochs = Inr (True, list_epochs)"
    using demo_epochs_spec(2,4) g by (auto simp: IsProtected_def GetEntryForThread_def e rbind_Inr_iff)
qed

lemma list_demo_ready: "upd_ready (list_demo b) 7 0"
proof -
  let ?s = "list_demo b" and ?gl = "fresh_garbage 0 2"
  have g: "garbage_of ?s 0 = ?gl" by (simp add: garbage_of_def the_part_def list_demo_def list_pool_def zero_desc_def)
  have wf: "wf_gl ?gl"
    by (auto simp: wf_gl_def fresh_garbage_def wf_item_def empty_item_def invalid_epoch_def list_all_length
        intro!: exI [of _ 1])
  have "epoch_ok 0 (push_fuel ?gl) list_epochs"
    using list_epochs_spec(1,3) by (simp add: epoch_ok_def push_fuel_def fresh_garbage_def GetCurrentEpoch_def)
  then have "cleanup_ready ?s 0"
    using wf unfolding cleanup_ready_def g
    by (simp add: fresh_garbage_def takeable_def empty_item_def pending_def list_demo_def zero_desc_def list_pool_def)
  moreover have "protected_thread ?s 0 7"
    using g list_epochs_spec(2) by (simp add: protected_thread_def garbage_of_def fresh_garbage_def list_demo_def)
  moreover have "pool_shape (pool ?s)" using demo_shape(1) by (simp add: list_demo_def list_pool_def pool_shape_parts)
  moreover have "quiet ?s 0 (mem ?s)"
    by (auto simp: quiet_def list_demo_def zero_desc_def status_defs kStatusDirtyFlag_def)
  ultimately show ?thesis
    by (auto simp: upd_ready_def list_demo_def list_pool_def demo_pool_def list_epochs_def zero_desc_def fresh_desc_def
        the_part_def desc_addr_def)
qed

lemma list_demo_app: "app_nodes (pool (list_demo b)) (8384 # nodes_of (demo_list sync) [8320])"
proof -
  have "app_value list_pool v" if v: "8192 \<le> v" "v < 8448" for v
  proof -
    have "IsCleanPtr v" using v by (intro small_clean) (simp add: word_less_nat_alt)
    moreover have "v \<noteq> desc_addr list_pool d \<and> v \<noteq> word_addr list_pool d i" if "d < 4" "i < 4" for d i
    proof -
      have "d \<in> {0, 1, 2, 3}" "i \<in> {0, 1, 2, 3}" using that by auto
      then have "desc_addr list_pool d < 8192 \<and> word_addr list_pool d i < 8192"
        by (auto simp: desc_addr_def word_addr_def list_pool_def demo_pool_def)
      then show ?thesis using v by auto
    qed
    ultimately show ?thesis by (auto simp: app_value_def DESC_CAP_def list_pool_def demo_pool_def)
  qed
  then show ?thesis by (simp add: app_nodes_def list_demo_def)
qed

lemma list_demo_update:
  "mw_update 6 7 (pool (list_demo b)) (demo_list kSyncMwCAS) [8320] (MwCASDList_InsertAfter 6 7 (demo_list kSyncMwCAS) 8320 8384 True)
     [8320, 8384]"
proof -
  have "gap_after (demo_list kSyncMwCAS) [8320] 8320 1" by (simp add: gap_after_def)
  from mw_update.after [OF this demo_wf list_demo_app, of 6 7 b] show ?thesis by simp
qed

section \<open>Properties\<close>

text \<open>C8. The updates of the list on \<open>MwCAS\<close> refine those of an abstract list: from a list in memory, with a
  descriptor available to a protected thread, \<open>InsertBefore\<close>, \<open>InsertAfter\<close> and \<open>Delete\<close> return \<open>OK\<close> and leave
  exactly the list with the node added or removed at its place.\<close>

theorem mw_updates_refine_list:
  assumes "upd_ready s tid d" and "dll (mem s) l xs" and "mw_update m tid (pool s) l xs op xs'" and "6 \<le> m" and "budget s = None"
  shows "\<exists>s'. op s = Done Status_OK s' \<and> dll (mem s') l xs'"
  by (rule wp_DoneE [OF wp_mw_update [OF assms(1-4)] assms(5)]) auto

theorem mw_updates_refine_list_witness:
  "\<exists>s'. MwCASDList_InsertAfter 6 7 (demo_list kSyncMwCAS) 8320 8384 True (list_demo None) = Done Status_OK s' \<and>
     dll (mem s') (demo_list kSyncMwCAS) [8320, 8384]"
proof -
  have "dll (mem (list_demo None)) (demo_list kSyncMwCAS) [8320]" using demo_dll by (simp add: list_demo_def)
  from mw_updates_refine_list [OF list_demo_ready this list_demo_update] show ?thesis by (simp add: list_demo_def)
qed

text \<open>C7. The list on \<open>MwCAS\<close> is durable: wherever the process dies inside an update, from the first store to the
  new node to the clean-up of the descriptor, the \<open>Recovery\<close> of the next process succeeds and leaves a
  complete doubly-linked list, the old one or the new one (up to dirty bits), and a usable descriptor pool.\<close>

theorem mw_list_survives_crash:
  assumes "upd_ready s tid d" and "dll (mem s) l xs" and "mw_update m tid (pool s) l xs op xs'" and "6 \<le> m"
    and "desc_per_partition (pool s) = 2 ^ k" and "k < 64" and "op s = Crashed s1"
  shows "\<exists>s2. Recovery False cores (pmdk_pool (pool s)) (restart s1) = Done () s2 \<and> pool_ready s2 \<and>
    (dll (undirt (mem s2)) l xs \<or> dll (undirt (mem s2)) l xs')"
proof -
  have "list_stopped s d l xs xs' s1" using wp_mw_update [OF assms(1-4)] assms(7) by (simp add: wp_def)
  then show ?thesis by (rule list_recovery [OF _ _ assms(5,6)]) (use assms(1) in \<open>simp add: upd_ready_def\<close>)
qed

theorem mw_list_survives_crash_witness:
  "\<exists>s1 s2. MwCASDList_InsertAfter 6 7 (demo_list kSyncMwCAS) 8320 8384 True (list_demo (Some 0)) = Crashed s1 \<and>
     Recovery False 4 4096 (restart s1) = Done () s2 \<and>
     (dll (undirt (mem s2)) (demo_list kSyncMwCAS) [8320] \<or> dll (undirt (mem s2)) (demo_list kSyncMwCAS) [8320, 8384])"
proof -
  let ?s = "list_demo (Some 0)" and ?op = "MwCASDList_InsertAfter 6 7 (demo_list kSyncMwCAS) 8320 8384 True"
  have d: "dll (mem ?s) (demo_list kSyncMwCAS) [8320]" using demo_dll by (simp add: list_demo_def)
  have "\<exists>s1. ?op ?s = Crashed s1"
  proof -
    let ?t = "\<lambda>v. ?s\<lparr>nv := v\<rparr>"
    have f: "\<exists>v. flush_payload 8384 ?s = Done () (?t v)" by (simp add: flush_payload_def mbind_def mget_def Flush_def) blast
    have "\<not> enabled (mstats (?t v))" "mem (?t v) = list_mem" "budget (?t v) = Some 0" for v by (simp_all add: list_demo_def)
    then have r: "list_mem a = x \<Longrightarrow> IsCleanPtr x \<Longrightarrow> ResolveNodePointer 4 7 a True (?t v) = Done x (?t v)"
      and st: "store_word a x (?t v) = Crashed (?t v)" for v a x
      using Resolve_clean [of "?t v" a 3 7] by (auto simp: store_word_def mstore_def)
    have np: "node_ptr 8320" "node_ptr 8256" by (auto intro!: node_ptr_small)
    have z: "IsCleanPtr 0" "\<not> is_deleted 0" by (simp_all add: IsCleanPtr_def is_deleted_def)
    have m: "list_mem (next_of 8320) = 8256" "list_mem (next_of 8256) = 0" by (simp_all add: list_mem_def next_of_def)
    have "mw_after_loop 5 7 8320 8384 (?t v) = Crashed (?t v)" for v
      using np z r [OF m(1), of v] r [OF m(2), of v] st by (simp add: eval_nat_numeral mbind_def mcheck_def)
    moreover have "?op = mbind (flush_payload 8384) (\<lambda>_. mw_after_loop 5 7 8320 8384)"
      using MwCASDList_InsertAfter.simps(2) [of 5 7 "demo_list kSyncMwCAS" 8320 8384 True] by (simp add: guarded_True)
    ultimately show ?thesis using f by (auto simp: mbind_def)
  qed
  then obtain s1 where s1: "?op ?s = Crashed s1" by blast
  have p: "desc_per_partition (pool ?s) = 2 ^ 1" "pmdk_pool (pool ?s) = 4096" by (simp_all add: list_demo_def list_pool_def demo_pool_def)
  from mw_list_survives_crash [OF list_demo_ready d list_demo_update _ p(1) _ s1, of 4] show ?thesis
    using s1 unfolding p(2) by auto
qed

end
