(* ===== verification/BzWord.thy ===== *)
theory BzWord
  imports MwWord
begin

text \<open>
  The words and strings of a BzTree node (\<open>bztree/bztree.h\<close>): the bit-fields of the status word and of a
  record's metadata and their packing into the 64-bit words that \<open>MwCAS\<close> swaps, the eight bytes such a
  word occupies in the body of a node, and the C strings that are read out of it.

  The layout is that of \<open>#pragma pack(1)\<close> bit-fields on a little-endian machine: the first field in the
  lowest bits, no padding.
\<close>

section \<open>Status word and metadata\<close>

record node_status =
  sw_control :: "3 word"
  frozen :: bool
  record_count :: u16
  block_size :: "22 word"
  delete_size :: "22 word"

record node_metadata =
  md_control :: "3 word"
  visible :: bool
  offset :: "28 word"
  key_len :: u16
  total_len :: u16

definition pack_sw :: "node_status \<Rightarrow> u64" where
  "pack_sw s = ucast (sw_control s) OR push_bit 3 (of_bool (frozen s)) OR push_bit 4 (ucast (record_count s)) OR
     push_bit 20 (ucast (block_size s)) OR push_bit 42 (ucast (delete_size s))"

definition unpack_sw :: "u64 \<Rightarrow> node_status" where
  "unpack_sw w = \<lparr>sw_control = ucast w, frozen = bit w 3, record_count = ucast (drop_bit 4 w),
     block_size = ucast (drop_bit 20 w), delete_size = ucast (drop_bit 42 w)\<rparr>"

definition pack_md :: "node_metadata \<Rightarrow> u64" where
  "pack_md m = ucast (md_control m) OR push_bit 3 (of_bool (visible m)) OR push_bit 4 (ucast (offset m)) OR
     push_bit 32 (ucast (key_len m)) OR push_bit 48 (ucast (total_len m))"

definition unpack_md :: "u64 \<Rightarrow> node_metadata" where
  "unpack_md w = \<lparr>md_control = ucast w, visible = bit w 3, offset = ucast (drop_bit 4 w),
     key_len = ucast (drop_bit 32 w), total_len = ucast (drop_bit 48 w)\<rparr>"

lemma not_bit_beyond: "LENGTH('a) \<le> n \<Longrightarrow> \<not> bit (w :: 'a::len word) n"
  by (metis bit_imp_le_length not_le)

lemma bit_flag: "bit (push_bit 3 (of_bool b) :: u64) n \<longleftrightarrow> n = 3 \<and> b"
  by (auto simp: bit_push_bit_iff bit_of_bool_iff)

lemmas field_bits = bit_flag bit_1_iff not_bit_beyond bit_or_iff bit_push_bit_iff bit_drop_bit_eq bit_unsigned_iff

lemma unpack_pack_sw: "unpack_sw (pack_sw s) = s"
proof (cases s)
  case (fields c f r b d)
  then show ?thesis
    unfolding unpack_sw_def pack_sw_def
    by (auto simp: field_bits simp del: push_bit_of_1 intro!: bit_word_eqI)
qed

lemma pack_unpack_sw: "pack_sw (unpack_sw w) = w"
proof (rule bit_eqI)
  fix n assume "possible_bit TYPE(u64) n"
  then have "n < 64" by simp
  then consider "n < 3" | "n = 3" | "4 \<le> n" "n < 20" | "20 \<le> n" "n < 42" | "42 \<le> n" "n < 64" by linarith
  then show "bit (pack_sw (unpack_sw w)) n = bit w n"
    unfolding unpack_sw_def pack_sw_def by cases (auto simp: bit_simps)
qed

lemma unpack_pack_md: "unpack_md (pack_md m) = m"
proof (cases m)
  case (fields c f r b d)
  then show ?thesis
    unfolding unpack_md_def pack_md_def
    by (auto simp: field_bits simp del: push_bit_of_1 intro!: bit_word_eqI)
qed

lemma pack_unpack_md: "pack_md (unpack_md w) = w"
proof (rule bit_eqI)
  fix n assume "possible_bit TYPE(u64) n"
  then have "n < 64" by simp
  then consider "n < 3" | "n = 3" | "4 \<le> n" "n < 32" | "32 \<le> n" "n < 48" | "48 \<le> n" "n < 64" by linarith
  then show "bit (pack_md (unpack_md w)) n = bit w n"
    unfolding unpack_md_def pack_md_def by cases (auto simp: bit_simps)
qed

lemma pack_sw_eq_iff [simp]: "pack_sw s = pack_sw t \<longleftrightarrow> s = t"
  by (metis unpack_pack_sw)

lemma pack_md_eq_iff [simp]: "pack_md s = pack_md t \<longleftrightarrow> s = t"
  by (metis unpack_pack_md)

section \<open>The bytes of a word\<close>

text \<open>A word lies in the body of a node as its eight bytes, lowest first.\<close>

fun nat_bytes :: "nat \<Rightarrow> nat \<Rightarrow> string" where
  "nat_bytes 0 x = []"
| "nat_bytes (Suc n) x = char_of x # nat_bytes n (x div 256)"

fun bytes_nat :: "string \<Rightarrow> nat" where
  "bytes_nat [] = 0"
| "bytes_nat (c # cs) = of_char c + 256 * bytes_nat cs"

definition word_bytes :: "u64 \<Rightarrow> string" where
  "word_bytes w = nat_bytes 8 (unat w)"

definition bytes_word :: "string \<Rightarrow> u64" where
  "bytes_word cs = of_nat (bytes_nat cs)"

lemma length_nat_bytes [simp]: "length (nat_bytes n x) = n"
  by (induction n x rule: nat_bytes.induct) auto

lemma length_word_bytes [simp]: "length (word_bytes w) = 8"
  by (simp add: word_bytes_def)

lemma of_char_less: "(of_char c :: nat) < 256"
  using of_char_mod_256 [of c, where 'a = nat] by (metis mod_less_divisor zero_less_numeral)

lemma bytes_nat_bytes: "bytes_nat (nat_bytes n x) = x mod 256 ^ n"
  by (induction n x rule: nat_bytes.induct) (simp_all add: mod_mult2_eq)

lemma nat_bytes_nat: "nat_bytes (length cs) (bytes_nat cs) = cs"
proof (induction cs)
  case (Cons c cs)
  have "(char_of (of_char c + 256 * bytes_nat cs :: nat) :: char) = c"
    by (metis char_of_mod_256 char_of_char mod_mult_self2)
  moreover have "(of_char c + 256 * bytes_nat cs) div 256 = bytes_nat cs"
    using of_char_less [of c] by simp
  ultimately show ?case using Cons by simp
qed simp

lemma bytes_nat_less: "bytes_nat cs < 256 ^ length cs"
proof (induction cs)
  case (Cons c cs)
  then have "Suc (bytes_nat cs) \<le> 256 ^ length cs" by simp
  then have "256 * Suc (bytes_nat cs) \<le> 256 * 256 ^ length cs" by (rule mult_le_mono2)
  moreover have "of_char c + 256 * bytes_nat cs < 256 * Suc (bytes_nat cs)" using of_char_less [of c] by simp
  ultimately have "of_char c + 256 * bytes_nat cs < 256 * 256 ^ length cs" by (rule less_le_trans [rotated])
  then show ?case by simp
qed simp

lemma bytes_word_bytes [simp]: "bytes_word (word_bytes w) = w"
proof -
  have "unat w < 256 ^ 8" using unsigned_less [of w] by simp
  then have "unat w mod 256 ^ 8 = unat w" by (rule mod_less)
  then show ?thesis unfolding bytes_word_def word_bytes_def bytes_nat_bytes by simp
qed

lemma word_bytes_word: "length cs = 8 \<Longrightarrow> word_bytes (bytes_word cs) = cs"
  using bytes_nat_less [of cs] nat_bytes_nat [of cs]
  by (simp add: word_bytes_def bytes_word_def unat_of_nat)

section \<open>C strings\<close>

definition NUL :: char where "NUL = CHR 0x00"

text \<open>A \<open>std::string\<close> as the bytes that \<open>c_str()\<close> points to.\<close>

definition cbytes :: "string \<Rightarrow> string" where
  "cbytes s = s @ [NUL]"

text \<open>\<open>strcmp\<close> of two buffers: the sign of the first difference, 0 when both strings end at the same place.
  Reading past the end of a buffer is undefined.\<close>

fun strcmp :: "string \<Rightarrow> string \<Rightarrow> int res" where
  "strcmp (a # as) (b # bs) =
     (if a < b then Inr (- 1) else if b < a then Inr 1 else if a = NUL then Inr 0 else strcmp as bs)"
| "strcmp _ _ = Inl (BadAccess ''strcmp'')"

text \<open>The \<open>std::string\<close> that starts at a character pointer.\<close>

fun string_at :: "string \<Rightarrow> string res" where
  "string_at [] = Inl (BadAccess ''unterminated string'')"
| "string_at (c # cs) = (if c = NUL then Inr [] else rbind (string_at cs) (\<lambda>s. Inr (c # s)))"

lemma string_at_cbytes: "NUL \<notin> set s \<Longrightarrow> string_at (cbytes s @ rest) = Inr s"
  by (induction s) (auto simp: cbytes_def)

lemma NUL_least: "NUL \<le> c"
  by (simp add: NUL_def less_eq_char_def)

text \<open>On terminated strings \<open>strcmp\<close> is the lexicographic order of the bytes, which is also the order by
  which \<open>std::string\<close> compares the keys with their terminating zero.\<close>

lemma strcmp_cbytes:
  assumes "NUL \<notin> set s" and "NUL \<notin> set t"
  shows "strcmp (cbytes s @ r) (cbytes t @ r') = Inr (if cbytes s < cbytes t then - 1 else if cbytes t < cbytes s then 1 else 0)"
  using assms
proof (induction s arbitrary: t)
  case Nil
  then show ?case using NUL_least by (cases t) (auto simp: cbytes_def less_le)
next
  case (Cons a s)
  then show ?case using NUL_least [of a] by (cases t) (auto simp: cbytes_def less_le)
qed

lemma strcmp_eq_iff:
  assumes "NUL \<notin> set s" and "NUL \<notin> set t"
  shows "strcmp (cbytes s @ r) (cbytes t) = Inr 0 \<longleftrightarrow> s = t"
  using strcmp_cbytes [OF assms, of r "[]"] by (auto simp: cbytes_def)

end
