(* ===== verification/BzNode.thy ===== *)
theory BzNode
  imports BzWord
begin

text \<open>
  A node of the BzTree as its bytes: the header and a body of 240 bytes in which the metadata words grow
  from the front and the keys and values from the back (\<open>bztree/bztree.h\<close>), the scan for a key that the tree
  operations share (\<open>bztree/bztree.cc\<close>), and the copying of all records out of a node and into a new one
  (\<open>copy_out\<close>, \<open>copy_in\<close> of \<open>bztree/bztree_smos.cc\<close>).

  A read or write outside the body of the node is undefined in C++ and an error here; a write inside it that
  runs over other records is done as the code does it.
\<close>

section \<open>Nodes\<close>

record node =
  node_size :: u32
  sorted_count :: u32
  status_word :: node_status
  body :: string

definition BZTREE_NODE_SIZE :: nat where "BZTREE_NODE_SIZE = 256"
definition BZTREE_MIN_FREE_SPACE :: nat where "BZTREE_MIN_FREE_SPACE = 48"
definition BZTREE_MAX_DELETED_SPACE :: nat where "BZTREE_MAX_DELETED_SPACE = 100"
definition sizeof_header :: nat where "sizeof_header = 16"
definition sizeof_metadata :: nat where "sizeof_metadata = 8"
definition sizeof_body :: nat where "sizeof_body = BZTREE_NODE_SIZE - sizeof_header"

lemmas bz_sizes = BZTREE_NODE_SIZE_def BZTREE_MIN_FREE_SPACE_def BZTREE_MAX_DELETED_SPACE_def sizeof_header_def
  sizeof_metadata_def sizeof_body_def

text \<open>\<open>POBJ_ZNEW\<close>\<close>

definition zero_node :: node where
  "zero_node = \<lparr>node_size = 0, sorted_count = 0, status_word = unpack_sw 0, body = replicate sizeof_body NUL\<rparr>"

definition free_space :: "node_status \<Rightarrow> u32" where
  "free_space sw = ucast (of_nat BZTREE_NODE_SIZE - of_nat sizeof_header - ucast (record_count sw) * of_nat sizeof_metadata
     - ucast (block_size sw) :: u64)"

section \<open>Bytes of the body\<close>

definition patch :: "nat \<Rightarrow> string \<Rightarrow> string \<Rightarrow> string" where
  "patch off bs buf = take off buf @ bs @ drop (off + length bs) buf"

definition memcpy_at :: "nat \<Rightarrow> string \<Rightarrow> string \<Rightarrow> string res" where
  "memcpy_at off bs buf =
     (if off + length bs \<le> length buf then Inr (patch off bs buf) else Inl (BadAccess ''write past the node''))"

text \<open>The metadata array at the front of the body.\<close>

definition body_md :: "string \<Rightarrow> nat \<Rightarrow> node_metadata" where
  "body_md buf i = unpack_md (bytes_word (take 8 (drop (8 * i) buf)))"

definition read_nmd :: "string \<Rightarrow> nat \<Rightarrow> node_metadata res" where
  "read_nmd buf i = (if 8 * i + 8 \<le> length buf then Inr (body_md buf i) else Inl (BadAccess ''nmd''))"

definition write_nmd :: "nat \<Rightarrow> node_metadata \<Rightarrow> string \<Rightarrow> string res" where
  "write_nmd i m buf = memcpy_at (8 * i) (word_bytes (pack_md m)) buf"

section \<open>The scan for a key\<close>

text \<open>The loop of \<open>insert\<close>, \<open>update\<close>, \<open>lookup\<close> and \<open>erase\<close>: the first visible record whose key is equal. The
  flag \<open>recheck\<close> that the loop of \<open>insert\<close> sets is never read.\<close>

fun find_key :: "string \<Rightarrow> string \<Rightarrow> nat list \<Rightarrow> nat option res" where
  "find_key buf key [] = Inr None"
| "find_key buf key (i # is) =
     rbind (read_nmd buf i) (\<lambda>m.
       if visible m then
         rbind (strcmp (drop (unat (offset m)) buf) (cbytes key)) (\<lambda>c.
           if c = 0 then Inr (Some i) else find_key buf key is)
       else find_key buf key is)"

definition node_find :: "node \<Rightarrow> string \<Rightarrow> nat option res" where
  "node_find n key = find_key (body n) key [0..<unat (record_count (status_word n))]"

section \<open>Copying records out and in\<close>

type_synonym kv = "string \<times> string"

definition md_kv :: "string \<Rightarrow> node_metadata \<Rightarrow> kv" where
  "md_kv buf m = (let o' = unat (offset m); k = unat (key_len m)
     in (take k (drop o' buf), take (unat (total_len m) - k) (drop (o' + k) buf)))"

definition read_kv :: "string \<Rightarrow> node_metadata \<Rightarrow> kv res" where
  "read_kv buf m = (if key_len m \<le> total_len m \<and> unat (offset m) + unat (total_len m) \<le> length buf
     then Inr (md_kv buf m) else Inl (BadAccess ''read past the node''))"

fun copy_out_loop :: "string \<Rightarrow> nat list \<Rightarrow> kv list res" where
  "copy_out_loop buf [] = Inr []"
| "copy_out_loop buf (i # is) =
     rbind (read_nmd buf i) (\<lambda>m.
       if \<not> visible m then copy_out_loop buf is
       else rbind (read_kv buf m) (\<lambda>p. rbind (copy_out_loop buf is) (\<lambda>ps. Inr (p # ps))))"

text \<open>\<open>std::sort\<close> orders equal keys in an unspecified way; the keys of a node are distinct.\<close>

definition copy_out :: "node \<Rightarrow> kv list res" where
  "copy_out n =
     rbind (copy_out_loop (body n) [0..<unat (record_count (status_word n))]) (\<lambda>ps. Inr (sort_key fst ps))"

fun copy_in_loop :: "kv list \<Rightarrow> u16 \<Rightarrow> u32 \<Rightarrow> string \<Rightarrow> (u16 \<times> u32 \<times> string) res" where
  "copy_in_loop [] rc off buf = Inr (rc, off, buf)"
| "copy_in_loop ((key, val) # ps) rc off buf =
     (let off' = off - of_nat (length key + length val);
          m = \<lparr>md_control = 0, visible = True, offset = ucast off', key_len = of_nat (length key),
               total_len = of_nat (length key + length val)\<rparr>
      in rbind (write_nmd (unat rc) m buf) (\<lambda>buf1.
         rbind (memcpy_at (unat off') key buf1) (\<lambda>buf2.
         rbind (memcpy_at (unat (off' + of_nat (length key))) val buf2) (\<lambda>buf3.
           copy_in_loop ps (rc + 1) off' buf3))))"

text \<open>The node that \<open>copy_in\<close> fills; its allocation is in the tree operations.\<close>

definition copy_in :: "kv list \<Rightarrow> node res" where
  "copy_in pairs =
     rbind (copy_in_loop pairs 0 (of_nat sizeof_body) (body zero_node)) (\<lambda>(rc, off, buf).
       Inr (zero_node\<lparr>status_word := (status_word zero_node)\<lparr>record_count := rc,
              block_size := ucast (of_nat sizeof_body - off)\<rparr>, sorted_count := ucast rc, body := buf\<rparr>))"

section \<open>Bytes that a write leaves alone\<close>

lemma length_patch [simp]: "off + length bs \<le> length buf \<Longrightarrow> length (patch off bs buf) = length buf"
  by (simp add: patch_def)

lemma patch_other:
  assumes "off + length bs \<le> length buf" and "o' + n \<le> off \<or> off + length bs \<le> o'"
  shows "take n (drop o' (patch off bs buf)) = take n (drop o' buf)"
  using assms(2)
proof
  assume "o' + n \<le> off"
  then show ?thesis using assms(1) by (auto simp: patch_def drop_take min_def)
next
  assume "off + length bs \<le> o'"
  then show ?thesis using assms(1) by (simp add: patch_def)
qed

lemma patch_same:
  assumes "off + length bs \<le> length buf"
  shows "take (length bs) (drop off (patch off bs buf)) = bs"
  using assms by (simp add: patch_def)

lemma body_md_patch_word:
  assumes "8 * i + 8 \<le> length buf"
  shows "body_md (patch (8 * i) (word_bytes w) buf) j = (if j = i then unpack_md w else body_md buf j)"
proof (cases "j = i")
  case True
  then show ?thesis using patch_same [of "8 * i" "word_bytes w" buf] assms by (simp add: body_md_def)
next
  case False
  then have "8 * j + 8 \<le> 8 * i \<or> 8 * i + 8 \<le> 8 * j" by linarith
  then show ?thesis using patch_other [of "8 * i" "word_bytes w" buf "8 * j" 8] assms False by (simp add: body_md_def)
qed

lemma body_md_patch_data:
  assumes "off + length bs \<le> length buf" and "8 * j + 8 \<le> off"
  shows "body_md (patch off bs buf) j = body_md buf j"
  using patch_other [OF assms(1), of "8 * j" 8] assms(2) by (simp add: body_md_def)

lemma md_kv_patch:
  assumes "off + length bs \<le> length buf" and "off + length bs \<le> unat (offset m)"
  shows "md_kv (patch off bs buf) m = md_kv buf m"
  using assms by (simp add: md_kv_def Let_def patch_other)

lemmas patch_keeps = body_md_patch_word body_md_patch_data md_kv_patch

end
