(* ===== verification/BzHeap.thy ===== *)
theory BzHeap
  imports BzNode Descriptor
begin

text \<open>
  What the BzTree works on (\<open>bztree/bztree.h\<close>, \<open>bztree/bztree_helpers.cc\<close>): the persistent objects of its pool,
  the epoch manager and garbage list of the tree, and the multi-word compare-and-swap on words of these objects.

  A persistent pointer is an offset into the one pool; offset 0 is null. \<open>avail\<close> holds the offsets that the
  allocator of the pool will return, in order. \<open>MwCAS\<close> is used through its specification (all words hold
  their old values and get the new ones, or nothing changes), with the checks that \<open>AddEntry\<close> makes.

  \<open>lib\<close> is the state of the library with the descriptor pool that the constructor builds; \<open>pool_mgr\<close> is the epoch manager
  of that pool.

  \<open>others\<close> is what other threads do to the pool: one function is applied before and one after each
  compare-and-swap of the thread that is modelled. With an empty list the thread runs alone.
\<close>

section \<open>State\<close>

datatype bz_callback = DestroyNode

record bz_metadata =
  root_node :: u64
  height :: u64
  md_epoch :: u64

record bz_heap =
  nodes :: "u64 \<rightharpoonup> node"
  mds :: "u64 \<rightharpoonup> bz_metadata"
  root_md :: u64
  root_pool :: u64

record bz_world =
  heap :: bz_heap
  avail :: "u64 list"
  bew :: epoch_world
  bz_mgr :: nat
  pool_mgr :: nat
  garbage :: "bz_callback garbage_list"
  bz_pool :: u64
  global_epoch :: u64
  pop :: bool
  others :: "(bz_heap \<Rightarrow> bz_heap) list"
  lib :: mw_world

section \<open>The monad\<close>

type_synonym 'a bz = "bz_world \<Rightarrow> ('a, bz_world) outcome"

definition zret :: "'a \<Rightarrow> 'a bz" where
  "zret x w = Done x w"

definition zbind :: "'a bz \<Rightarrow> ('a \<Rightarrow> 'b bz) \<Rightarrow> 'b bz" where
  "zbind m f w = (case m w of Done x w' \<Rightarrow> f x w' | Crashed w' \<Rightarrow> Crashed w' | Aborted e \<Rightarrow> Aborted e | NoFuel \<Rightarrow> NoFuel)"

definition zget :: "(bz_world \<Rightarrow> 'a) \<Rightarrow> 'a bz" where
  "zget f w = Done (f w) w"

definition zupd :: "(bz_world \<Rightarrow> bz_world) \<Rightarrow> unit bz" where
  "zupd f w = Done () (f w)"

definition zlift :: "'a res \<Rightarrow> 'a bz" where
  "zlift r w = (case r of Inl e \<Rightarrow> Aborted e | Inr x \<Rightarrow> Done x w)"

definition zassert :: "bool \<Rightarrow> string \<Rightarrow> unit bz" where
  "zassert b msg w = (if b then Done () w else Aborted (AssertFail msg))"

definition zno_fuel :: "'a bz" where
  "zno_fuel w = NoFuel"

fun zfor :: "('x \<Rightarrow> unit bz) \<Rightarrow> 'x list \<Rightarrow> unit bz" where
  "zfor f [] = zret ()"
| "zfor f (x # xs) = zbind (f x) (\<lambda>_. zfor f xs)"

text \<open>A call of the library: its descriptor pool is in \<open>lib\<close>, the epoch managers are shared with the tree.\<close>

definition run_lib :: "'a mw \<Rightarrow> 'a bz" where
  "run_lib f w =
     (case f ((lib w)\<lparr>ew := bew w\<rparr>) of
        Done x s \<Rightarrow> Done x (w\<lparr>lib := s, bew := ew s\<rparr>)
      | Crashed s \<Rightarrow> Crashed (w\<lparr>lib := s, bew := ew s\<rparr>)
      | Aborted e \<Rightarrow> Aborted e
      | NoFuel \<Rightarrow> NoFuel)"

section \<open>Epoch and garbage\<close>

definition zepoch :: "(nat \<Rightarrow> epoch_world \<Rightarrow> epoch_world res) \<Rightarrow> unit bz" where
  "zepoch f w = (case f (bz_mgr w) (bew w) of Inl e \<Rightarrow> Aborted e | Inr ew' \<Rightarrow> Done () (w\<lparr>bew := ew'\<rparr>))"

definition bz_Protect :: "u64 \<Rightarrow> unit bz" where
  "bz_Protect tid = zepoch (\<lambda>m. Protect m tid)"

definition bz_Unprotect :: "u64 \<Rightarrow> unit bz" where
  "bz_Unprotect tid = zepoch (\<lambda>m. Unprotect m tid)"

definition upd_heap :: "(bz_heap \<Rightarrow> bz_heap) \<Rightarrow> bz_world \<Rightarrow> bz_world" where
  "upd_heap f w = w\<lparr>heap := f (heap w)\<rparr>"

text \<open>\<open>POBJ_FREE\<close> of an object\<close>

definition free_obj :: "u64 \<Rightarrow> bz_heap \<Rightarrow> bz_heap" where
  "free_obj p h = h\<lparr>nodes := (nodes h)(p := None), mds := (mds h)(p := None)\<rparr>"

definition run_DestroyNode :: "bz_callback destroy_call \<Rightarrow> bz_heap \<Rightarrow> bz_heap" where
  "run_DestroyNode c h = (case fst c of None \<Rightarrow> h | Some DestroyNode \<Rightarrow> free_obj (snd (snd c)) h)"

text \<open>\<open>garbage.Push(p, DestroyNode, nullptr)\<close>\<close>

definition bz_Push :: "nat \<Rightarrow> u64 \<Rightarrow> unit bz" where
  "bz_Push fuel p w =
     (case Push_shared fuel (manager_ops (bz_mgr w)) p DestroyNode 0 (garbage w) (bew w) of
        Inl e \<Rightarrow> Aborted e
      | Inr (st, gl', ew', calls) \<Rightarrow>
          if Status_ok st then Done () (upd_heap (fold run_DestroyNode calls) (w\<lparr>garbage := gl', bew := ew'\<rparr>))
          else Aborted (AssertFail ''garbage.Push''))"

section \<open>Persistent objects\<close>

definition load_node :: "u64 \<Rightarrow> node bz" where
  "load_node p w = (case nodes (heap w) p of None \<Rightarrow> Aborted (BadAccess ''node'') | Some n \<Rightarrow> Done n w)"

definition load_md :: "u64 \<Rightarrow> bz_metadata bz" where
  "load_md p w = (case mds (heap w) p of None \<Rightarrow> Aborted (BadAccess ''metadata'') | Some m \<Rightarrow> Done m w)"

definition set_node :: "u64 \<Rightarrow> node \<Rightarrow> bz_heap \<Rightarrow> bz_heap" where
  "set_node p n h = h\<lparr>nodes := (nodes h)(p \<mapsto> n)\<rparr>"

definition set_md :: "u64 \<Rightarrow> bz_metadata \<Rightarrow> bz_heap \<Rightarrow> bz_heap" where
  "set_md p m h = h\<lparr>mds := (mds h)(p \<mapsto> m)\<rparr>"

definition store_node :: "u64 \<Rightarrow> node \<Rightarrow> unit bz" where
  "store_node p n = zupd (upd_heap (set_node p n))"

definition store_md :: "u64 \<Rightarrow> bz_metadata \<Rightarrow> unit bz" where
  "store_md p m = zupd (upd_heap (set_md p m))"

text \<open>The offset that the next \<open>POBJ_ZNEW\<close> yields\<close>

definition znew :: "u64 bz" where
  "znew w = (case avail w of [] \<Rightarrow> Aborted (BadAccess ''POBJ_ZNEW'') | p # ps \<Rightarrow> Done p (w\<lparr>avail := ps\<rparr>))"

text \<open>\<open>POBJ_FREE(D_RW(node))\<close>: the macro takes the address of a persistent pointer, and is given the address of
  the object. The first 16 bytes of the object are read as a persistent pointer: for a node, the words
  \<open>node_size\<close>, \<open>sorted_count\<close> and the status word; unless the status word is zero this is no object of an open pool.\<close>

definition pobj_free_header :: "u64 \<Rightarrow> unit bz" where
  "pobj_free_header p =
     zbind (load_node p) (\<lambda>n. if pack_sw (status_word n) = 0 then zret () else zlift (Inl (BadAccess ''POBJ_FREE'')))"

text \<open>\<open>child_sw->frozen = 0\<close>\<close>

definition set_frozen :: "bool \<Rightarrow> node_status \<Rightarrow> node_status" where
  "set_frozen b sw = sw\<lparr>frozen := b\<rparr>"

definition unfreeze :: "u64 \<Rightarrow> unit bz" where
  "unfreeze p = zbind (load_node p) (\<lambda>n. store_node p (n\<lparr>status_word := set_frozen False (status_word n)\<rparr>))"

section \<open>Multi-word compare-and-swap on the pool\<close>

datatype loc =
    StatusLoc u64        \<comment> \<open>the status word of a node\<close>
  | BodyLoc u64 nat      \<comment> \<open>eight bytes of the body of a node\<close>
  | MdRootLoc u64        \<comment> \<open>\<open>root_node.oid.off\<close> of a metadata object\<close>
  | RootLoc              \<comment> \<open>\<open>metadata.oid.off\<close> of the root object\<close>

type_synonym cas_entry = "loc \<times> u64 \<times> u64"

fun loc_word :: "bz_heap \<Rightarrow> loc \<Rightarrow> u64 option" where
  "loc_word h (StatusLoc p) = map_option (\<lambda>n. pack_sw (status_word n)) (nodes h p)"
| "loc_word h (BodyLoc p pos) =
     (case nodes h p of None \<Rightarrow> None
      | Some n \<Rightarrow> if pos + 8 \<le> length (body n) then Some (bytes_word (take 8 (drop pos (body n)))) else None)"
| "loc_word h (MdRootLoc p) = map_option root_node (mds h p)"
| "loc_word h RootLoc = Some (root_md h)"

fun set_loc :: "loc \<Rightarrow> u64 \<Rightarrow> bz_heap \<Rightarrow> bz_heap" where
  "set_loc (StatusLoc p) v h =
     (case nodes h p of None \<Rightarrow> h | Some n \<Rightarrow> set_node p (n\<lparr>status_word := unpack_sw v\<rparr>) h)"
| "set_loc (BodyLoc p pos) v h =
     (case nodes h p of None \<Rightarrow> h | Some n \<Rightarrow> set_node p (n\<lparr>body := patch pos (word_bytes v) (body n)\<rparr>) h)"
| "set_loc (MdRootLoc p) v h = (case mds h p of None \<Rightarrow> h | Some m \<Rightarrow> set_md p (m\<lparr>root_node := v\<rparr>) h)"
| "set_loc RootLoc v h = h\<lparr>root_md := v\<rparr>"

text \<open>The header takes the first 16 bytes of a node, the status word the last 8 of them.\<close>

fun loc_aligned :: "loc \<Rightarrow> bool" where
  "loc_aligned (StatusLoc p) \<longleftrightarrow> (unat p + 8) mod 8 = 0"
| "loc_aligned (BodyLoc p pos) \<longleftrightarrow> (unat p + sizeof_header + pos) mod 8 = 0"
| "loc_aligned (MdRootLoc p) \<longleftrightarrow> (unat p + 8) mod 8 = 0"
| "loc_aligned RootLoc \<longleftrightarrow> True"

text \<open>\<open>DCHECK(... GetEpoch()->IsProtected())\<close>, on the epoch manager of the descriptor pool\<close>

definition bz_check_protected :: "u64 \<Rightarrow> unit bz" where
  "bz_check_protected tid w =
     (case IsProtected (pool_mgr w) tid (bew w) of
        Inl e \<Rightarrow> Aborted e
      | Inr (b, ew') \<Rightarrow> if b then Done () (w\<lparr>bew := ew'\<rparr>) else Aborted (DCheck ''IsProtected()''))"

definition zcheck :: "bool \<Rightarrow> err \<Rightarrow> unit bz" where
  "zcheck b e w = (if b then Done () w else Aborted e)"

fun bz_AddEntries :: "u64 \<Rightarrow> loc list \<Rightarrow> cas_entry list \<Rightarrow> unit bz" where
  "bz_AddEntries tid ls [] = zret ()"
| "bz_AddEntries tid ls ((l, oldval, newval) # es) =
     zbind (bz_check_protected tid) (\<lambda>_.
     zbind (zcheck (IsCleanPtr oldval) (DCheck ''IsCleanPtr(oldval)'')) (\<lambda>_.
     zbind (zcheck (IsCleanPtr newval \<or> newval = kNewValueReserved) (DCheck ''IsCleanPtr(newval)'')) (\<lambda>_.
     zbind (zcheck (loc_aligned l) (DCheck ''uint64_t(addr) % sizeof(uint64_t) == 0'')) (\<lambda>_.
     zbind (zcheck (length ls < DESC_CAP) (RawCheck ''too many words'')) (\<lambda>_.
     zbind (zcheck (l \<notin> set ls) (RawCheck ''invalid insert position'')) (\<lambda>_.
       bz_AddEntries tid (l # ls) es))))))"

definition interfere :: "unit bz" where
  "interfere w = Done () (case others w of [] \<Rightarrow> w | f # fs \<Rightarrow> w\<lparr>heap := f (heap w), others := fs\<rparr>)"

definition cas_words :: "cas_entry list \<Rightarrow> bool bz" where
  "cas_words es w =
     (if \<exists>e \<in> set es. loc_word (heap w) (fst e) = None then Aborted (BadAccess ''MwCAS'')
      else if \<forall>e \<in> set es. loc_word (heap w) (fst e) = Some (fst (snd e))
      then Done True (upd_heap (fold (\<lambda>e. set_loc (fst e) (snd (snd e))) es) w)
      else Done False w)"

definition bz_MwCAS :: "u64 \<Rightarrow> cas_entry list \<Rightarrow> bool bz" where
  "bz_MwCAS tid es =
     zbind (bz_AddEntries tid [] es) (\<lambda>_.
     zbind interfere (\<lambda>_.
     zbind (cas_words es) (\<lambda>ok.
     zbind interfere (\<lambda>_. zret ok))))"

end
