(* ===== verification/BzTree.thy ===== *)
theory BzTree
  imports BzHeap
begin

text \<open>
  The BzTree (\<open>bztree/bztree.cc\<close>, \<open>bztree/bztree_helpers.cc\<close>, \<open>bztree/bztree_smos.cc\<close>): structure modifications of
  nodes, the descent to a leaf with the modifications it makes on the way, and the public operations.

  Loops that retry and the recursive calls of the operations take a fuel argument; running out of it is
  the outcome \<open>NoFuel\<close>. Diagnostic output is left out.
\<close>

section \<open>Structure modifications\<close>

text \<open>\<open>copy_in\<close> with its allocation\<close>

definition zcopy_in :: "kv list \<Rightarrow> u64 bz" where
  "zcopy_in pairs = zbind znew (\<lambda>p. zbind (zlift (copy_in pairs)) (\<lambda>n. zbind (store_node p n) (\<lambda>_. zret p)))"

definition zcopy_out :: "u64 \<Rightarrow> kv list bz" where
  "zcopy_out p = zbind (load_node p) (\<lambda>n. zlift (copy_out n))"

definition node_compact :: "u64 \<Rightarrow> u64 bz" where
  "node_compact p = zbind (zcopy_out p) zcopy_in"

text \<open>The loop that looks for the pivot; the iterator is advanced before the test.\<close>

fun pivot_loop :: "kv list \<Rightarrow> nat \<Rightarrow> nat \<Rightarrow> nat \<Rightarrow> nat" where
  "pivot_loop [] ttl seen sep = sep"
| "pivot_loop (p # ps) ttl seen sep =
     (let seen' = seen + length (fst p)
      in if seen' + seen' > ttl then sep + 1 else pivot_loop ps ttl seen' (sep + 1))"

definition pivot :: "kv list \<Rightarrow> nat res" where
  "pivot srt =
     (let sep = pivot_loop srt (sum_list (map (\<lambda>p. length (fst p)) srt)) 0 0
      in rbind (guard (sep \<noteq> length srt) (AssertFail ''sep != sorted.end()'')) (\<lambda>_.
           Inr (if sep + 1 = length srt then sep - 1 else sep)))"

text \<open>The position of a child in the records of its parent, compared without the low three bits.\<close>

fun child_pos :: "u64 \<Rightarrow> kv list \<Rightarrow> nat \<Rightarrow> nat option res" where
  "child_pos p [] i = Inr None"
| "child_pos p (q # qs) i =
     (if length (snd q) < 8 then Inl (BadAccess ''child pointer'')
      else if bytes_word (take 8 (snd q)) AND NOT 7 = p AND NOT 7 then Inr (Some i)
      else child_pos p qs (i + 1))"

definition find_child :: "u64 \<Rightarrow> kv list \<Rightarrow> nat res" where
  "find_child p qs =
     rbind (child_pos p qs 0) (\<lambda>r. case r of None \<Rightarrow> Inl (AssertFail ''i != parent_kv.end()'') | Some i \<Rightarrow> Inr i)"

definition node_split :: "u64 option \<Rightarrow> u64 \<Rightarrow> (u64 \<times> u64 \<times> u64) bz" where
  "node_split parent p =
     zbind (zcopy_out p) (\<lambda>srt.
     zbind (zassert (length srt > 2) ''sorted.size() > 2'') (\<lambda>_.
     zbind (zlift (pivot srt)) (\<lambda>sep.
       let left = take sep srt; right = drop sep srt
       in zbind (zcopy_in left) (\<lambda>new_left.
          zbind (zcopy_in right) (\<lambda>new_right.
            let lkv = (fst (last left), word_bytes new_left); rkv = (fst (last right), word_bytes new_right)
            in zbind (case parent of
                 Some q \<Rightarrow> zbind (zcopy_out q) (\<lambda>parent_kv.
                   zbind (zlift (find_child p parent_kv)) (\<lambda>i.
                     zret (take i parent_kv @ [lkv, rkv] @ drop (i + 1) parent_kv)))
               | None \<Rightarrow> zret [lkv, rkv]) (\<lambda>parent_kv.
               zbind (zcopy_in parent_kv) (\<lambda>new_parent. zret (new_parent, new_left, new_right))))))))"

definition node_merge :: "u64 \<Rightarrow> u64 \<Rightarrow> u64 \<Rightarrow> (u64 \<times> u64) bz" where
  "node_merge parent merge_left merge_right =
     zbind (zcopy_out parent) (\<lambda>parent_kv.
     zbind (zcopy_out merge_left) (\<lambda>sorted_left.
     zbind (zcopy_out merge_right) (\<lambda>sorted_right.
     zbind (zlift (find_child merge_left parent_kv)) (\<lambda>i.
     zbind (zcopy_in (sorted_left @ sorted_right)) (\<lambda>new_child.
       if length parent_kv \<le> i + 1 then zlift (Inl (BadAccess ''i[1]''))
       else zbind (zcopy_in (take i parent_kv @ [(fst (parent_kv ! (i + 1)), word_bytes new_child)]
                             @ drop (i + 2) parent_kv)) (\<lambda>new_parent.
            zret (new_parent, new_child)))))))"

section \<open>Helpers\<close>

definition get_metadata :: "u64 option bz" where
  "get_metadata = zget (\<lambda>w. if root_md (heap w) = 0 then None else Some (root_md (heap w)))"

text \<open>The status word of a parent that must not be frozen, if there is a parent: \<open>None\<close> when it is frozen.\<close>

definition parent_status :: "u64 option \<Rightarrow> (u64 \<times> node_status) option option bz" where
  "parent_status parent = (case parent of
     None \<Rightarrow> zret (Some None)
   | Some q \<Rightarrow> zbind (load_node q) (\<lambda>n.
       zret (if frozen (status_word n) then None else Some (Some (q, status_word n)))))"

definition guard_entry :: "(u64 \<times> node_status) option \<Rightarrow> cas_entry list" where
  "guard_entry g = (case g of None \<Rightarrow> [] | Some (q, sw) \<Rightarrow> [(StatusLoc q, pack_sw sw, pack_sw sw)])"

definition load_loc :: "loc \<Rightarrow> u64 bz" where
  "load_loc l w = (case loc_word (heap w) l of None \<Rightarrow> Aborted (BadAccess ''load'') | Some v \<Rightarrow> Done v w)"

fun swap_loop :: "nat \<Rightarrow> u64 \<Rightarrow> u64 option \<Rightarrow> (u64 \<times> node_status) option \<Rightarrow> loc \<Rightarrow> u64 \<Rightarrow> u64 \<Rightarrow> bool bz" where
  "swap_loop 0 tid parent g ptr old_offset new_offset = zno_fuel"
| "swap_loop (Suc n) tid parent g ptr old_offset new_offset =
     zbind (bz_MwCAS tid (guard_entry g @ [(ptr, old_offset, new_offset)])) (\<lambda>ok.
       if ok then zret True
       else zbind (load_loc ptr) (\<lambda>v.
         if v \<noteq> old_offset then zret False
         else zbind (parent_status parent) (\<lambda>g'. case g' of
             None \<Rightarrow> zret False
           | Some g'' \<Rightarrow> swap_loop n tid parent g'' ptr old_offset new_offset)))"

definition swap_node :: "nat \<Rightarrow> u64 \<Rightarrow> u64 option \<Rightarrow> loc \<Rightarrow> u64 \<Rightarrow> u64 \<Rightarrow> bool bz" where
  "swap_node fuel tid parent ptr old_node new_node =
     zbind (parent_status parent) (\<lambda>g. case g of
         None \<Rightarrow> zret False
       | Some g' \<Rightarrow> swap_loop fuel tid parent g' ptr old_node new_node)"

section \<open>The root\<close>

definition root_needs_compact :: "node_status \<Rightarrow> bool" where
  "root_needs_compact sw \<longleftrightarrow> unat (delete_size sw) > BZTREE_MAX_DELETED_SPACE"

definition root_needs_split :: "node_status \<Rightarrow> bool" where
  "root_needs_split sw \<longleftrightarrow> BZTREE_NODE_SIZE < BZTREE_MIN_FREE_SPACE + sizeof_header + unat (block_size sw) +
     unat (record_count sw) * sizeof_metadata"

definition freeze_entry :: "u64 \<Rightarrow> node_status \<Rightarrow> cas_entry" where
  "freeze_entry p sw = (StatusLoc p, pack_sw sw, pack_sw (set_frozen True sw))"

text \<open>Freeze the root, build its replacement under new metadata, and install that in the root object. When this
  fails, \<open>POBJ_FREE(md_new)\<close> frees what the first field of the new metadata points to and clears it, so the
  next call gets a null pointer.\<close>

definition root_smo :: "nat \<Rightarrow> u64 \<Rightarrow> u64 \<Rightarrow> bool bz" where
  "root_smo fuel tid md_off =
     zbind (load_md md_off) (\<lambda>md.
     zbind (load_node (root_node md)) (\<lambda>root.
       let root_sw = status_word root; root_compact = root_needs_compact root_sw; root_split = root_needs_split root_sw
       in if \<not> (root_compact \<or> root_split) then zret False
          else zbind (bz_MwCAS tid [freeze_entry (root_node md) root_sw]) (\<lambda>ok.
            if \<not> ok then zret True
            else zbind znew (\<lambda>md_new_off.
              zbind (if root_compact then zbind (node_compact (root_node md)) (\<lambda>r. zret (r, height md))
                     else zbind (node_split None (root_node md)) (\<lambda>(r, _). zret (r, height md + 1))) (\<lambda>(new_root, h).
              zbind (store_md md_new_off \<lparr>root_node = new_root, height = h, md_epoch = md_epoch md\<rparr>) (\<lambda>_.
              zbind (bz_MwCAS tid [(RootLoc, md_off, md_new_off)]) (\<lambda>installed.
                if installed then
                  zbind (bz_Push fuel md_off) (\<lambda>_. zbind (bz_Push fuel (root_node md)) (\<lambda>_. zret True))
                else
                  zbind (zupd (upd_heap (\<lambda>h. set_md md_new_off \<lparr>root_node = 0, height = height md, md_epoch = md_epoch md\<rparr>
                                              (free_obj new_root h)))) (\<lambda>_.
                  zlift (Inl (BadAccess ''POBJ_FREE(nullptr)''))))))))))"

section \<open>The descent\<close>

text \<open>The position of the child to follow: the first key that is not smaller, or the last.\<close>

fun child_scan :: "string \<Rightarrow> string \<Rightarrow> nat list \<Rightarrow> nat \<Rightarrow> nat res" where
  "child_scan buf key [] stop = Inr stop"
| "child_scan buf key (i # is) stop =
     rbind (read_nmd buf i) (\<lambda>m.
     rbind (guard (unat (total_len m) = unat (key_len m) + 8) (AssertFail ''total_len == key_len + 8'')) (\<lambda>_.
     rbind (strcmp (drop (unat (offset m)) buf) (cbytes key)) (\<lambda>c.
       if c \<ge> 0 then Inr i else child_scan buf key is stop)))"

definition child_index :: "node \<Rightarrow> string \<Rightarrow> nat res" where
  "child_index n key =
     (let rc = unat (record_count (status_word n))
      in rbind (child_scan (body n) key [0..<rc] rc) (\<lambda>i.
           Inr (if i = rc then unat (of_nat i - 1 :: u16) else i)))"

text \<open>Where in the body the pointer of record \<open>i\<close> lies, and the pointer.\<close>

definition ptr_pos :: "node \<Rightarrow> nat \<Rightarrow> nat res" where
  "ptr_pos n i = rbind (read_nmd (body n) i) (\<lambda>m. Inr (unat (offset m) + unat (key_len m)))"

definition child_ptr :: "node \<Rightarrow> nat \<Rightarrow> u64 res" where
  "child_ptr n i =
     rbind (ptr_pos n i) (\<lambda>pos.
       if pos + 8 \<le> length (body n) then Inr (bytes_word (take 8 (drop pos (body n)))) else Inl (BadAccess ''child pointer''))"

text \<open>A sibling that fits with the child into one node; the sum is one of 32-bit numbers.\<close>

definition can_merge :: "node_status \<Rightarrow> node_status \<Rightarrow> bool" where
  "can_merge a b \<longleftrightarrow> unat (free_space a + free_space b) \<ge> BZTREE_MIN_FREE_SPACE + BZTREE_NODE_SIZE"

definition merge_sibling :: "node \<Rightarrow> node_status \<Rightarrow> bool \<Rightarrow> nat \<Rightarrow> u64 option bz" where
  "merge_sibling parent child_sw exists j =
     (if \<not> exists then zret None
      else zbind (zlift (child_ptr parent j)) (\<lambda>s.
           zbind (load_node s) (\<lambda>n. zret (if can_merge child_sw (status_word n) \<and> s \<noteq> 0 then Some s else None))))"

definition is_frozen :: "u64 option \<Rightarrow> bool bz" where
  "is_frozen p = (case p of None \<Rightarrow> zret False | Some q \<Rightarrow> zbind (load_node q) (\<lambda>n. zret (frozen (status_word n))))"

text \<open>The three modifications of a child. All end in a new descent.\<close>

definition compact_child :: "nat \<Rightarrow> u64 \<Rightarrow> u64 \<Rightarrow> node_status \<Rightarrow> loc \<Rightarrow> u64 \<Rightarrow> node_status \<Rightarrow> unit bz" where
  "compact_child fuel tid parent parent_sw child_off_ptr child child_sw =
     (if frozen parent_sw then zret ()
      else zbind (bz_MwCAS tid [freeze_entry child child_sw]) (\<lambda>ok.
        if \<not> ok then zret ()
        else zbind (node_compact child) (\<lambda>new_child.
             zbind (swap_node fuel tid (Some parent) child_off_ptr child new_child) (\<lambda>swapped.
               if swapped then bz_Push fuel child
               else zbind (unfreeze child) (\<lambda>_. pobj_free_header new_child)))))"

definition split_child :: "nat \<Rightarrow> u64 \<Rightarrow> u64 option \<Rightarrow> loc \<Rightarrow> u64 \<Rightarrow> node_status \<Rightarrow> u64 \<Rightarrow> node_status \<Rightarrow> unit bz" where
  "split_child fuel tid grandparent parent_off_ptr parent parent_sw child child_sw =
     (if frozen parent_sw then zret ()
      else zbind (is_frozen grandparent) (\<lambda>gf. if gf then zret ()
        else zbind (bz_MwCAS tid [freeze_entry child child_sw, freeze_entry parent parent_sw]) (\<lambda>ok.
          if \<not> ok then zret ()
          else zbind (node_split (Some parent) child) (\<lambda>(new_parent, new_left, new_right).
               zbind (swap_node fuel tid grandparent parent_off_ptr parent new_parent) (\<lambda>swapped.
                 if swapped then zbind (bz_Push fuel child) (\<lambda>_. bz_Push fuel parent)
                 else zbind (unfreeze parent) (\<lambda>_. zbind (unfreeze child) (\<lambda>_.
                      zbind (pobj_free_header new_left) (\<lambda>_. zbind (pobj_free_header new_right) (\<lambda>_.
                        pobj_free_header new_parent)))))))))"

definition merge_children :: "nat \<Rightarrow> u64 \<Rightarrow> u64 option \<Rightarrow> loc \<Rightarrow> u64 \<Rightarrow> node_status \<Rightarrow> u64 \<Rightarrow> u64 \<Rightarrow> unit bz" where
  "merge_children fuel tid grandparent parent_off_ptr parent parent_sw merge_left merge_right =
     (if frozen parent_sw then zret ()
      else zbind (is_frozen grandparent) (\<lambda>gf. if gf then zret ()
        else zbind (load_node merge_left) (\<lambda>nl. zbind (load_node merge_right) (\<lambda>nr.
          let sl = status_word nl; sr = status_word nr
          in if frozen sl \<or> frozen sr then zret ()
             else if \<not> can_merge sl sr then zret ()
             else zbind (bz_MwCAS tid [freeze_entry merge_left sl, freeze_entry merge_right sr, freeze_entry parent parent_sw]) (\<lambda>ok.
               if \<not> ok then zret ()
               else zbind (node_merge parent merge_left merge_right) (\<lambda>(new_parent, new_child).
                    zbind (swap_node fuel tid grandparent parent_off_ptr parent new_parent) (\<lambda>swapped.
                      if swapped then zbind (bz_Push fuel merge_left) (\<lambda>_. zbind (bz_Push fuel merge_right) (\<lambda>_. bz_Push fuel parent))
                      else zbind (unfreeze merge_left) (\<lambda>_. zbind (unfreeze merge_right) (\<lambda>_. zbind (unfreeze parent) (\<lambda>_.
                           zbind (pobj_free_header new_child) (\<lambda>_. pobj_free_header new_parent)))))))))))"

text \<open>The modifications considered at one child; the result says whether one was tried.\<close>

definition child_smo ::
  "nat \<Rightarrow> u64 \<Rightarrow> u64 option \<Rightarrow> loc \<Rightarrow> u64 \<Rightarrow> node_status \<Rightarrow> loc \<Rightarrow> u64 \<Rightarrow> node_status \<Rightarrow> u64 option \<Rightarrow> u64 option \<Rightarrow> bool bz" where
  "child_smo fuel tid grandparent parent_off_ptr parent parent_sw child_off_ptr child child_sw sib_left sib_right =
     (let tried = (\<lambda>m. zbind m (\<lambda>_. zret True))
      in if unat (delete_size child_sw) > BZTREE_MAX_DELETED_SPACE
         then tried (compact_child fuel tid parent parent_sw child_off_ptr child child_sw)
         else if unat (free_space child_sw) < BZTREE_MIN_FREE_SPACE
         then tried (split_child fuel tid grandparent parent_off_ptr parent parent_sw child child_sw)
         else case sib_left of
           Some l \<Rightarrow> tried (merge_children fuel tid grandparent parent_off_ptr parent parent_sw l child)
         | None \<Rightarrow> (case sib_right of
             Some r \<Rightarrow> tried (merge_children fuel tid grandparent parent_off_ptr parent parent_sw child r)
           | None \<Rightarrow> zret False))"

text \<open>The loop over the levels: \<open>Suc n\<close> dereferences are left.\<close>

fun descend ::
  "nat \<Rightarrow> nat \<Rightarrow> u64 \<Rightarrow> string \<Rightarrow> bool \<Rightarrow> u64 option \<Rightarrow> loc \<Rightarrow> u64 \<Rightarrow> (u64 \<times> u64 option \<times> u16) option bz" where
  "descend 0 fuel tid key perform_smo grandparent parent_off_ptr parent = zno_fuel"
| "descend (Suc n) fuel tid key perform_smo grandparent parent_off_ptr parent =
     zbind (load_node parent) (\<lambda>pn.
     zbind (zlift (child_index pn key)) (\<lambda>i.
     zbind (zlift (ptr_pos pn i)) (\<lambda>pos.
     zbind (zlift (child_ptr pn i)) (\<lambda>child.
     zbind (load_node child) (\<lambda>cn.
     zbind (merge_sibling pn (status_word cn) (i > 0) (i - 1)) (\<lambda>sib_left.
     zbind (merge_sibling pn (status_word cn) (i + 1 < unat (record_count (status_word pn))) (i + 1)) (\<lambda>sib_right.
     zbind (if perform_smo then child_smo fuel tid grandparent parent_off_ptr parent (status_word pn) (BodyLoc parent pos)
                                    child (status_word cn) sib_left sib_right
            else zret False) (\<lambda>tried.
       if tried then zret None
       else if n = 0 then zret (Some (child, Some parent, of_nat i))
       else descend n fuel tid key perform_smo (Some parent) (BodyLoc parent pos) child))))))))"

definition find_leaf_parent_smo :: "nat \<Rightarrow> u64 \<Rightarrow> string \<Rightarrow> bool \<Rightarrow> u64 option \<Rightarrow> (u64 \<times> u64 option \<times> u16) option bz" where
  "find_leaf_parent_smo fuel tid key perform_smo md = (case md of
     None \<Rightarrow> zlift (Inl (BadAccess ''md''))
   | Some md_off \<Rightarrow>
       zbind (if perform_smo then root_smo fuel tid md_off else zret False) (\<lambda>tried.
         if tried then zret None
         else zbind (load_md md_off) (\<lambda>m.
           if height m = 1 then zret (Some (root_node m, None, 0))
           else descend (unat (height m - 1)) fuel tid key perform_smo None (MdRootLoc md_off) (root_node m))))"

fun find_leaf_parent :: "nat \<Rightarrow> nat \<Rightarrow> u64 \<Rightarrow> string \<Rightarrow> bool \<Rightarrow> (u64 \<times> u64 option \<times> u16) bz" where
  "find_leaf_parent 0 fuel tid key perform_smo = zno_fuel"
| "find_leaf_parent (Suc n) fuel tid key perform_smo =
     zbind get_metadata (\<lambda>md.
     zbind (find_leaf_parent_smo fuel tid key perform_smo md) (\<lambda>v. case v of
         None \<Rightarrow> find_leaf_parent n fuel tid key perform_smo
       | Some r \<Rightarrow> zret r))"

definition find_leaf :: "nat \<Rightarrow> u64 \<Rightarrow> string \<Rightarrow> bool \<Rightarrow> u64 bz" where
  "find_leaf fuel tid key perform_smo =
     zbind (find_leaf_parent fuel fuel tid key perform_smo) (\<lambda>(leaf, parent, idx). zret leaf)"

end
