(* ===== verification/BzOps.thy ===== *)
theory BzOps
  imports BzTree DescPool
begin

text \<open>
  The public operations of the BzTree (\<open>bztree/bztree.cc\<close>): construction, \<open>insert\<close>, \<open>update\<close>, \<open>lookup\<close>, \<open>erase\<close> and
  \<open>destroy\<close>, and the check \<open>DEBUG_verify_sorted\<close> (\<open>bztree/bztree_debug.cc\<close>).

  \<open>insert\<close> and \<open>update\<close> work in two atomic steps: one reserves space in the status word, the other makes the
  record visible; the bytes of the record are copied in between.
\<close>

section \<open>Common steps\<close>

definition GLOBAL_EPOCH_OFFSET_BIT :: u64 where "GLOBAL_EPOCH_OFFSET_BIT = push_bit 27 1"

definition record_bytes :: "string \<Rightarrow> string \<Rightarrow> nat" where
  "record_bytes key val = length key + 1 + length val + 1"

text \<open>Key and value are copied to the body at the offset of the record.\<close>

definition copy_record :: "u64 \<Rightarrow> node_metadata \<Rightarrow> string \<Rightarrow> string \<Rightarrow> unit bz" where
  "copy_record leaf m key val =
     zbind (load_node leaf) (\<lambda>n.
     zbind (zlift (memcpy_at (unat (offset m)) (cbytes key) (body n))) (\<lambda>b1.
     zbind (zlift (memcpy_at (unat (offset m) + unat (key_len m)) (cbytes val) b1)) (\<lambda>b2.
       store_node leaf (n\<lparr>body := b2\<rparr>))))"

text \<open>The test that a reservation of \<open>bytes\<close> does not fit, in the arithmetic of \<open>size_t\<close>.\<close>

definition too_large :: "node_status \<Rightarrow> nat \<Rightarrow> bool" where
  "too_large sw bytes \<longleftrightarrow> (ucast (block_size sw) + of_nat bytes :: u64) >
     of_nat BZTREE_NODE_SIZE - of_nat sizeof_header - ucast (record_count sw) * of_nat sizeof_metadata"

definition nmd_loc :: "u64 \<Rightarrow> nat \<Rightarrow> loc" where
  "nmd_loc leaf i = BodyLoc leaf (sizeof_metadata * i)"

section \<open>insert\<close>

fun reserve :: "nat \<Rightarrow> u64 \<Rightarrow> u64 \<Rightarrow> string \<Rightarrow> string \<Rightarrow> unit bz" where
  "reserve 0 tid leaf key val = zno_fuel"
| "reserve (Suc n) tid leaf key val =
     zbind (load_node leaf) (\<lambda>nd.
       let sw_old = status_word nd
       in if too_large sw_old (sizeof_metadata + record_bytes key val)
          then zbind (bz_Unprotect tid) (\<lambda>_. zbind (zassert False ''too large to fit'') (\<lambda>_. zno_fuel))
          else
            let sw = sw_old\<lparr>block_size := block_size sw_old + of_nat (record_bytes key val),
                            record_count := record_count sw_old + 1\<rparr>
            in zbind (zlift (read_nmd (body nd) (unat (record_count sw_old)))) (\<lambda>md_old.
               zbind (zassert (\<not> visible md_old) ''md.visible == 0'') (\<lambda>_.
               zbind (zget global_epoch) (\<lambda>ge.
                 let md = md_old\<lparr>offset := ucast (ge OR GLOBAL_EPOCH_OFFSET_BIT)\<rparr>
                 in zbind (bz_MwCAS tid [(StatusLoc leaf, pack_sw sw_old, pack_sw sw),
                      (nmd_loc leaf (unat (record_count sw_old)), pack_md md_old, pack_md md)]) (\<lambda>ok.
                      if ok then zret () else reserve n tid leaf key val)))))"

text \<open>After the reservation: copy the record into the last slot of the node and make it visible. \<open>False\<close> says that
  the whole insertion starts again.\<close>

definition publish :: "u64 \<Rightarrow> u64 \<Rightarrow> string \<Rightarrow> string \<Rightarrow> bool bz" where
  "publish tid leaf key val =
     zbind (load_node leaf) (\<lambda>nd.
       let sw = status_word nd; i = unat (record_count sw - 1)
       in zbind (zlift (read_nmd (body nd) i)) (\<lambda>md_old.
            let md = md_old\<lparr>offset := ucast (of_nat sizeof_body - ucast (block_size sw) :: u64),
                            key_len := of_nat (length key + 1), total_len := of_nat (record_bytes key val)\<rparr>
            in zbind (copy_record leaf md key val) (\<lambda>_.
                 if frozen sw then zret False
                 else bz_MwCAS tid [(StatusLoc leaf, pack_sw sw, pack_sw sw),
                        (nmd_loc leaf i, pack_md md_old, pack_md (md\<lparr>visible := True\<rparr>))])))"

fun BzTree_insert :: "nat \<Rightarrow> u64 \<Rightarrow> string \<Rightarrow> string \<Rightarrow> bool bz" where
  "BzTree_insert 0 tid key val = zno_fuel"
| "BzTree_insert (Suc n) tid key val =
     (if sizeof_metadata + record_bytes key val > BZTREE_MIN_FREE_SPACE then zret False
      else zbind (bz_Protect tid) (\<lambda>_.
           zbind (find_leaf n tid key True) (\<lambda>leaf.
           zbind (load_node leaf) (\<lambda>nd.
           zbind (zlift (node_find nd key)) (\<lambda>found. case found of
               Some i \<Rightarrow> zbind (bz_Unprotect tid) (\<lambda>_. zret False)
             | None \<Rightarrow>
                 zbind (reserve n tid leaf key val) (\<lambda>_.
                 zbind (publish tid leaf key val) (\<lambda>ok.
                 zbind (bz_Unprotect tid) (\<lambda>_.
                   if ok then zret True else BzTree_insert n tid key val))))))))"

section \<open>update\<close>

text \<open>The inner loop on the record that was found. \<open>None\<close>: the tree has to be searched again.\<close>

fun update_loop :: "nat \<Rightarrow> u64 \<Rightarrow> u64 \<Rightarrow> nat \<Rightarrow> string \<Rightarrow> string \<Rightarrow> bool option bz" where
  "update_loop 0 tid leaf i key val = zno_fuel"
| "update_loop (Suc n) tid leaf i key val =
     zbind (load_node leaf) (\<lambda>nd.
     zbind (zlift (read_nmd (body nd) i)) (\<lambda>nmdi_old.
       let sw_old = status_word nd
       in if \<not> visible nmdi_old \<or> frozen sw_old then zbind (bz_Unprotect tid) (\<lambda>_. zret None)
          else if too_large sw_old (record_bytes key val)
          then zbind (bz_Unprotect tid) (\<lambda>_. zbind (zassert False ''too large to fit'') (\<lambda>_. zno_fuel))
          else
            let sw = sw_old\<lparr>block_size := block_size sw_old + of_nat (record_bytes key val)\<rparr>
            in zbind (bz_MwCAS tid [(StatusLoc leaf, pack_sw sw_old, pack_sw sw)]) (\<lambda>ok.
                 if \<not> ok then update_loop n tid leaf i key val
                 else
                   let sw' = sw\<lparr>delete_size := delete_size sw + ucast (total_len nmdi_old)\<rparr>;
                       nmdi = nmdi_old\<lparr>offset := ucast (of_nat sizeof_body - ucast (block_size sw) :: u64)\<rparr>
                   in zbind (zassert (unat (key_len nmdi) = length key + 1) ''key_len == key.length() + 1'') (\<lambda>_.
                        let nmdi' = nmdi\<lparr>total_len := of_nat (record_bytes key val)\<rparr>
                        in zbind (copy_record leaf nmdi' key val) (\<lambda>_.
                           zbind (bz_MwCAS tid [(StatusLoc leaf, pack_sw sw, pack_sw sw'),
                             (nmd_loc leaf i, pack_md nmdi_old, pack_md nmdi')]) (\<lambda>ok2.
                             if \<not> ok2 then update_loop n tid leaf i key val
                             else zbind (bz_Unprotect tid) (\<lambda>_. zret (Some True))))))))"

fun BzTree_update :: "nat \<Rightarrow> u64 \<Rightarrow> string \<Rightarrow> string \<Rightarrow> bool bz" where
  "BzTree_update 0 tid key val = zno_fuel"
| "BzTree_update (Suc n) tid key val =
     (if sizeof_metadata + record_bytes key val > BZTREE_MIN_FREE_SPACE then zret False
      else zbind (bz_Protect tid) (\<lambda>_.
           zbind (find_leaf n tid key True) (\<lambda>leaf.
           zbind (load_node leaf) (\<lambda>nd.
           zbind (zlift (node_find nd key)) (\<lambda>found. case found of
               None \<Rightarrow> zbind (bz_Unprotect tid) (\<lambda>_. zret False)
             | Some i \<Rightarrow>
                 zbind (update_loop n tid leaf i key val) (\<lambda>r. case r of
                     Some b \<Rightarrow> zret b
                   | None \<Rightarrow> BzTree_update n tid key val))))))"

section \<open>lookup and erase\<close>

definition BzTree_lookup :: "nat \<Rightarrow> u64 \<Rightarrow> string \<Rightarrow> string option bz" where
  "BzTree_lookup fuel tid key =
     zbind (bz_Protect tid) (\<lambda>_.
     zbind (find_leaf fuel tid key False) (\<lambda>leaf.
     zbind (load_node leaf) (\<lambda>nd.
     zbind (zlift (node_find nd key)) (\<lambda>found. case found of
         None \<Rightarrow> zbind (bz_Unprotect tid) (\<lambda>_. zret None)
       | Some i \<Rightarrow>
           zbind (zlift (rbind (ptr_pos nd i) (\<lambda>pos. string_at (drop pos (body nd))))) (\<lambda>res.
           zbind (bz_Unprotect tid) (\<lambda>_. zret (Some res)))))))"

text \<open>The path that erased the record returns without \<open>Unprotect\<close>.\<close>

fun BzTree_erase :: "nat \<Rightarrow> u64 \<Rightarrow> string \<Rightarrow> bool bz" where
  "BzTree_erase 0 tid key = zno_fuel"
| "BzTree_erase (Suc n) tid key =
     zbind (bz_Protect tid) (\<lambda>_.
     zbind (find_leaf n tid key False) (\<lambda>leaf.
     zbind (load_node leaf) (\<lambda>nd.
     zbind (zlift (node_find nd key)) (\<lambda>found. case found of
         None \<Rightarrow> zbind (bz_Unprotect tid) (\<lambda>_. zret False)
       | Some i \<Rightarrow>
           zbind (zlift (read_nmd (body nd) i)) (\<lambda>nmdi_old.
             let sw_old = status_word nd
             in if \<not> visible nmdi_old \<or> frozen sw_old
                then zbind (bz_Unprotect tid) (\<lambda>_. BzTree_erase n tid key)
                else
                  let nmdi = nmdi_old\<lparr>offset := 0, visible := False\<rparr>;
                      sw = sw_old\<lparr>delete_size := delete_size sw_old + ucast (total_len nmdi) + of_nat sizeof_metadata\<rparr>
                  in zbind (bz_MwCAS tid [(StatusLoc leaf, pack_sw sw_old, pack_sw sw),
                       (nmd_loc leaf i, pack_md nmdi_old, pack_md nmdi)]) (\<lambda>ok.
                       if ok then zret True
                       else zbind (bz_Unprotect tid) (\<lambda>_. BzTree_erase n tid key)))))))"

section \<open>Construction and destruction\<close>

definition kGarbageItems :: u64 where "kGarbageItems = 128 * 1024"

text \<open>The initialization of the epoch manager and of the garbage list of the tree.\<close>

definition bz_init :: "bool \<Rightarrow> bool \<Rightarrow> unit bz" where
  "bz_init mem1 mem2 w =
     (let (s1, ew1) = Initialize mem1 (bz_mgr w) (bew w);
          (s2, gl) = GarbageList_Initialize mem2 (Some (bz_mgr w)) kGarbageItems (garbage w)
      in if \<not> Status_ok s1 then Aborted (AssertFail ''epoch.Initialize().ok()'')
         else if \<not> Status_ok s2 then Aborted (AssertFail ''garbage.Initialize(&epoch).ok()'')
         else Done () (w\<lparr>bew := ew1, garbage := gl\<rparr>))"

definition POOL_SIZE :: nat where "POOL_SIZE = 1000"
definition POOL_THREADS :: nat where "POOL_THREADS = 10"

text \<open>\<open>descs_mem\<close> and \<open>pmdk\<close> are the block for the descriptors and the base of the memory pool, for the constructor of the
  descriptor pool.\<close>

definition BzTree_new :: "bool \<Rightarrow> bool \<Rightarrow> u64 \<Rightarrow> u64 \<Rightarrow> unit bz" where
  "BzTree_new mem1 mem2 descs_mem pmdk =
     zbind (bz_init mem1 mem2) (\<lambda>_.
     zbind (zupd (\<lambda>w. w\<lparr>pop := True\<rparr>)) (\<lambda>_.
     zbind get_metadata (\<lambda>md. case md of
         None \<Rightarrow>
           zbind znew (\<lambda>md_off. zbind znew (\<lambda>root.
           zbind (store_node root zero_node) (\<lambda>_.
           zbind (store_md md_off \<lparr>root_node = root, height = 1, md_epoch = 0\<rparr>) (\<lambda>_.
           zbind (zupd (\<lambda>w. w\<lparr>global_epoch := 0\<rparr>)) (\<lambda>_.
           zbind znew (\<lambda>pool_off.
           zbind (zupd (\<lambda>w. w\<lparr>bz_pool := pool_off\<rparr>)) (\<lambda>_.
           zbind (zget pool_mgr) (\<lambda>m.
           zbind (run_lib (DescriptorPool POOL_SIZE POOL_THREADS False 0 m descs_mem pmdk)) (\<lambda>_.
             zupd (\<lambda>w. w\<lparr>heap := (heap w)\<lparr>root_md := md_off, root_pool := pool_off\<rparr>\<rparr>))))))))))
       | Some md_off \<Rightarrow>
           zupd (\<lambda>w. w\<lparr>bz_pool := root_pool (heap w), global_epoch := 1\<rparr>))))"

definition BzTree_delete :: "unit bz" where
  "BzTree_delete = zupd (\<lambda>w. w\<lparr>bew := ClearRegistry True (bew w)\<rparr>)"

definition BzTree_destroy :: "unit bz" where
  "BzTree_destroy w =
     (let h = (heap w)\<lparr>root_md := 0, root_pool := 0\<rparr>;
          (s1, gl, calls) = GarbageList_Uninitialize (garbage w);
          (s2, ew1) = Uninitialize (bz_mgr w) (bew w)
      in if \<not> pop w then Aborted (BadAccess ''POBJ_ROOT'')
         else Done () (w\<lparr>heap := fold run_DestroyNode calls h, bz_pool := 0, pop := False, garbage := gl,
                bew := ClearRegistry True ew1\<rparr>))"

section \<open>DEBUG_verify_sorted\<close>

fun verify_loop :: "string \<Rightarrow> nat list \<Rightarrow> string \<Rightarrow> bool \<Rightarrow> bool res" where
  "verify_loop buf [] prev ok = Inr ok"
| "verify_loop buf (i # is) prev ok =
     rbind (read_nmd buf i) (\<lambda>m.
       if \<not> visible m then verify_loop buf is prev ok
       else let curr = drop (unat (offset m)) buf
            in rbind (strcmp prev curr) (\<lambda>c. verify_loop buf is curr (if c \<ge> 0 then False else ok)))"

definition DEBUG_verify_sorted :: "u64 \<Rightarrow> unit bz" where
  "DEBUG_verify_sorted p =
     zbind (load_node p) (\<lambda>n.
     zbind (zlift (rbind (read_nmd (body n) 0) (\<lambda>m.
              verify_loop (body n) [1..<unat (record_count (status_word n))] (drop (unat (offset m)) (body n)) True))) (\<lambda>ok.
       zassert ok ''sorted''))"

end
