(* ===== verification/BzArea.thy ===== *)
theory BzArea
  imports BzNode
begin

text \<open>
  The layout invariant of a node body, as a fact about its bytes: \<open>rc\<close> metadata words at the front, data from
  position \<open>lo\<close> on, zeros in between, and every visible record inside the data. Records are added by the two
  writes the code makes (its bytes below the data, its metadata word behind the others); both keep the
  invariant and all other records.
\<close>

section \<open>The records of a body\<close>

definition md_in :: "nat \<Rightarrow> node_metadata \<Rightarrow> bool" where
  "md_in lo m \<longleftrightarrow> lo \<le> unat (offset m) \<and> unat (offset m) + unat (total_len m) \<le> sizeof_body \<and> key_len m \<le> total_len m"

definition area_ok :: "nat \<Rightarrow> nat \<Rightarrow> string \<Rightarrow> bool" where
  "area_ok rc lo buf \<longleftrightarrow> length buf = sizeof_body \<and> 8 * rc \<le> lo \<and> lo \<le> sizeof_body \<and>
     (\<forall>i < rc. visible (body_md buf i) \<longrightarrow> md_in lo (body_md buf i)) \<and>
     (\<forall>j. 8 * rc \<le> j \<and> j < lo \<longrightarrow> buf ! j = NUL)"

definition slot_of :: "string \<Rightarrow> node_metadata \<Rightarrow> kv option" where
  "slot_of buf m = (if visible m then Some (md_kv buf m) else None)"

definition area_slots :: "nat \<Rightarrow> string \<Rightarrow> kv option list" where
  "area_slots rc buf = map (\<lambda>i. slot_of buf (body_md buf i)) [0..<rc]"

fun somes :: "'a option list \<Rightarrow> 'a list" where
  "somes [] = []"
| "somes (None # xs) = somes xs"
| "somes (Some x # xs) = x # somes xs"

lemma somes_append [simp]: "somes (xs @ ys) = somes xs @ somes ys"
  by (induction xs rule: somes.induct) auto

lemma somes_map_Some [simp]: "somes (map Some xs) = xs"
  by (induction xs) auto

lemma set_somes: "set (somes xs) = {x. Some x \<in> set xs}"
  by (induction xs rule: somes.induct) auto

lemma somes_update:
  assumes "i < length xs"
  shows "somes (xs[i := y]) = somes (take i xs) @ somes [y] @ somes (drop (Suc i) xs)"
  and "somes xs = somes (take i xs) @ somes [xs ! i] @ somes (drop (Suc i) xs)"
proof -
  show "somes (xs[i := y]) = somes (take i xs) @ somes [y] @ somes (drop (Suc i) xs)"
    unfolding upd_conv_take_nth_drop [OF assms] somes_append [symmetric] by simp
  show "somes xs = somes (take i xs) @ somes [xs ! i] @ somes (drop (Suc i) xs)"
    unfolding somes_append [symmetric] by (simp add: id_take_nth_drop [OF assms, symmetric])
qed

lemma length_area_slots [simp]: "length (area_slots rc buf) = rc"
  by (simp add: area_slots_def)

lemma nth_area_slots [simp]: "i < rc \<Longrightarrow> area_slots rc buf ! i = slot_of buf (body_md buf i)"
  by (simp add: area_slots_def)

section \<open>Writes\<close>

lemma patch_nth:
  assumes "off + length bs \<le> length buf" and "j < off \<or> off + length bs \<le> j" and "j < length buf"
  shows "patch off bs buf ! j = buf ! j"
  using assms by (auto simp: patch_def nth_append)

lemma patch_patch:
  assumes "off + length k + length v \<le> length buf"
  shows "patch (off + length k) v (patch off k buf) = patch off (k @ v) buf"
  using assms by (simp add: patch_def ac_simps)

lemma patch_commute:
  assumes "off + length bs \<le> off'" and "off' + length bs' \<le> length buf"
  shows "patch off bs (patch off' bs' buf) = patch off' bs' (patch off bs buf)"
proof -
  have "drop (off + length bs) (take off' buf) = take (off' - (off + length bs)) (drop (off + length bs) buf)"
    by (simp add: drop_take)
  moreover have "off' \<le> off \<Longrightarrow> off' = off \<and> bs = []" using assms(1) by (cases bs) auto
  ultimately show ?thesis using assms by (auto simp: patch_def min_def)
qed

lemma slot_of_patch: "off + length bs \<le> length buf \<Longrightarrow> (visible m \<Longrightarrow> off + length bs \<le> unat (offset m)) \<Longrightarrow>
    slot_of (patch off bs buf) m = slot_of buf m"
  by (simp add: slot_of_def md_kv_patch)

text \<open>Bytes below the data.\<close>

lemma area_write_data:
  assumes ok: "area_ok rc lo buf" and lo: "lo' + length bs = lo" and rc: "8 * rc \<le> lo'"
  shows "area_ok rc lo' (patch lo' bs buf)" and "area_slots rc (patch lo' bs buf) = area_slots rc buf"
    and "\<And>i. i < rc \<Longrightarrow> body_md (patch lo' bs buf) i = body_md buf i"
proof -
  have l: "lo' + length bs \<le> length buf" "length buf = sizeof_body" using ok lo by (simp_all add: area_ok_def)
  have md: "body_md (patch lo' bs buf) i = body_md buf i" if "i < rc" for i
    by (rule body_md_patch_data [OF l(1)]) (use rc that in linarith)
  then show "\<And>i. i < rc \<Longrightarrow> body_md (patch lo' bs buf) i = body_md buf i" .
  have in': "md_in lo m \<Longrightarrow> md_in lo' m" for m using lo by (simp add: md_in_def)
  have "patch lo' bs buf ! j = NUL" if "8 * rc \<le> j" "j < lo'" for j
    using patch_nth [OF l(1), of j] that lo ok by (auto simp: area_ok_def)
  then show "area_ok rc lo' (patch lo' bs buf)"
    using ok lo rc l md in' by (auto simp: area_ok_def)
  have "slot_of (patch lo' bs buf) (body_md buf i) = slot_of buf (body_md buf i)" if "i < rc" for i
    by (rule slot_of_patch [OF l(1)]) (use ok that lo in \<open>auto simp: area_ok_def md_in_def\<close>)
  then show "area_slots rc (patch lo' bs buf) = area_slots rc buf"
    using md by (simp add: area_slots_def)
qed

text \<open>A metadata word, over an existing one or as the next one.\<close>

lemma area_write_md:
  assumes ok: "area_ok rc lo buf" and rc: "8 * max rc (Suc i) \<le> lo" "i \<le> rc" and m: "visible m \<Longrightarrow> md_in lo m"
  defines "buf' \<equiv> patch (8 * i) (word_bytes (pack_md m)) buf"
  shows "area_ok (max rc (Suc i)) lo buf'"
    and "j < rc \<Longrightarrow> i \<noteq> j \<Longrightarrow> slot_of buf' (body_md buf' j) = slot_of buf (body_md buf j)"
    and "slot_of buf' (body_md buf' i) = slot_of buf m"
proof -
  have max8: "8 * max rc (Suc i) \<le> j \<longleftrightarrow> 8 * rc \<le> j \<and> 8 * i + 8 \<le> j" for j by (auto simp: max_def)
  have i: "8 * i + 8 \<le> lo" using rc(1) by (simp add: max8)
  then have l: "8 * i + length (word_bytes (pack_md m)) \<le> length buf" "length buf = sizeof_body"
    using ok by (auto simp: area_ok_def)
  have md: "body_md buf' j = (if j = i then m else body_md buf j)" for j
    unfolding buf'_def using body_md_patch_word [of i buf "pack_md m"] l by (simp add: unpack_pack_md)
  have keep: "slot_of buf' m' = slot_of buf m'" if "visible m' \<Longrightarrow> md_in lo m'" for m'
    unfolding buf'_def using that i by (intro slot_of_patch [OF l(1)]) (auto simp: md_in_def)
  have nul: "buf' ! j = NUL" if "8 * max rc (Suc i) \<le> j" "j < lo" for j
    unfolding buf'_def using patch_nth [OF l(1), of j] that ok by (auto simp: area_ok_def max8)
  have "length buf' = sizeof_body" unfolding buf'_def using l by simp
  moreover have "visible (body_md buf' j) \<longrightarrow> md_in lo (body_md buf' j)" if "j < max rc (Suc i)" for j
    using ok that rc(2) m unfolding md area_ok_def by (cases "j = i") auto
  ultimately show "area_ok (max rc (Suc i)) lo buf'"
    using ok rc nul unfolding area_ok_def by blast
  show "j < rc \<Longrightarrow> i \<noteq> j \<Longrightarrow> slot_of buf' (body_md buf' j) = slot_of buf (body_md buf j)"
    using keep [of "body_md buf j"] ok by (simp add: md area_ok_def)
  show "slot_of buf' (body_md buf' i) = slot_of buf m"
    using keep [OF m] by (simp add: md)
qed

lemma area_set_md:
  assumes "area_ok rc lo buf" and "i < rc" and "visible m \<Longrightarrow> md_in lo m"
  shows "area_ok rc lo (patch (8 * i) (word_bytes (pack_md m)) buf)"
    and "area_slots rc (patch (8 * i) (word_bytes (pack_md m)) buf) = (area_slots rc buf)[i := slot_of buf m]"
proof -
  have rc: "max rc (Suc i) = rc" "8 * rc \<le> lo" using assms(1,2) by (auto simp: area_ok_def)
  note w = area_write_md [OF assms(1) _ less_imp_le [OF assms(2)] assms(3), unfolded rc(1), OF rc(2)]
  show "area_ok rc lo (patch (8 * i) (word_bytes (pack_md m)) buf)" by (rule w(1))
  show "area_slots rc (patch (8 * i) (word_bytes (pack_md m)) buf) = (area_slots rc buf)[i := slot_of buf m]"
    using w(2,3) assms(2) by (intro nth_equalityI) (auto simp: nth_list_update)
qed

lemma area_add_md:
  assumes "area_ok rc lo buf" and "8 * Suc rc \<le> lo" and "visible m \<Longrightarrow> md_in lo m"
  shows "area_ok (Suc rc) lo (patch (8 * rc) (word_bytes (pack_md m)) buf)"
    and "area_slots (Suc rc) (patch (8 * rc) (word_bytes (pack_md m)) buf) = area_slots rc buf @ [slot_of buf m]"
proof -
  have rc: "max rc (Suc rc) = Suc rc" by simp
  note w = area_write_md [OF assms(1) _ order.refl assms(3), unfolded rc, OF assms(2)]
  show "area_ok (Suc rc) lo (patch (8 * rc) (word_bytes (pack_md m)) buf)" by (rule w(1))
  show "area_slots (Suc rc) (patch (8 * rc) (word_bytes (pack_md m)) buf) = area_slots rc buf @ [slot_of buf m]"
    using w(2,3) by (intro nth_equalityI) (auto simp: nth_append less_Suc_eq)
qed

text \<open>The record that was just written is read back.\<close>

lemma md_kv_written:
  assumes "lo + length k + length v \<le> length buf" and "unat (offset m) = lo" and "unat (key_len m) = length k"
    and "unat (total_len m) = length k + length v"
  shows "md_kv (patch lo (k @ v) buf) m = (k, v)"
  using assms by (simp add: md_kv_def patch_def)

end
