(* ===== verification/BzRecords.thy ===== *)
theory BzRecords
  imports BzArea "HOL-Library.Multiset"
begin

text \<open>
  Nodes as lists of records: the invariant of a node, its slots (a key-value pair, or nothing where a record
  is deleted or not yet visible), and what \<open>node_find\<close>, \<open>copy_out\<close> and \<open>copy_in\<close> do in these terms.
\<close>

section \<open>Invariant and contents\<close>

abbreviation recs :: "node \<Rightarrow> nat" where "recs n \<equiv> unat (record_count (status_word n))"
abbreviation blk :: "node \<Rightarrow> nat" where "blk n \<equiv> unat (block_size (status_word n))"
abbreviation del :: "node \<Rightarrow> nat" where "del n \<equiv> unat (delete_size (status_word n))"

definition slots :: "node \<Rightarrow> kv option list" where
  "slots n = area_slots (recs n) (body n)"

definition kvs :: "node \<Rightarrow> kv list" where
  "kvs n = somes (slots n)"

definition kv_space :: "kv \<Rightarrow> nat" where
  "kv_space p = length (fst p) + length (snd p) + sizeof_metadata"

definition space :: "kv list \<Rightarrow> nat" where
  "space ps = sum_list (map kv_space ps)"

text \<open>The layout of the body, and the accounting: what is not deleted is enough for the visible records.\<close>

definition used :: "node \<Rightarrow> nat" where
  "used n = blk n + sizeof_metadata * recs n"

definition node_ok :: "node \<Rightarrow> bool" where
  "node_ok n \<longleftrightarrow> area_ok (recs n) (sizeof_body - blk n) (body n) \<and> blk n \<le> sizeof_body \<and>
     del n + space (kvs n) \<le> used n"

lemma space_simps [simp]: "space [] = 0" "space (p # ps) = kv_space p + space ps" "space (ps @ qs) = space ps + space qs"
  by (simp_all add: space_def)

lemma space_mset: "mset ps = mset qs \<Longrightarrow> space ps = space qs"
  unfolding space_def by (metis mset_map sum_mset_sum_list)

lemma length_slots [simp]: "length (slots n) = recs n"
  by (simp add: slots_def)

lemma node_ok_bounds:
  assumes "node_ok n"
  shows "8 * recs n + blk n \<le> 240" and "del n \<le> 240" and "used n \<le> 240" and "length (body n) = 240"
  using assms by (auto simp: node_ok_def area_ok_def bz_sizes used_def)

lemma free_space_nat:
  assumes "node_ok n"
  shows "unat (free_space (status_word n)) = 240 - used n"
proof -
  have b: "8 * recs n + blk n \<le> 240" by (rule node_ok_bounds [OF assms])
  have c: "(ucast w :: u64) = of_nat (unat w)" for w :: "'a::len word" by simp
  have "(of_nat (240 - (8 * recs n + blk n)) :: u64) = of_nat 240 - of_nat (8 * recs n + blk n)"
    by (rule of_nat_diff [OF b])
  then have "free_space (status_word n) = ucast (of_nat (240 - (8 * recs n + blk n)) :: u64)"
    unfolding free_space_def c bz_sizes by (simp add: mult.commute diff_diff_eq)
  also have "unat \<dots> = 240 - (8 * recs n + blk n)"
    by (simp add: unsigned_ucast_eq unsigned_of_nat take_bit_nat_eq_self)
  finally show ?thesis by (simp add: used_def bz_sizes)
qed

section \<open>Copying out\<close>

lemma read_nmd_ok:
  assumes "node_ok n" and "i < recs n"
  shows "read_nmd (body n) i = Inr (body_md (body n) i)"
  using node_ok_bounds [OF assms(1)] assms(2) by (simp add: read_nmd_def)

lemma visible_in:
  assumes "node_ok n" and "i < recs n" and "visible (body_md (body n) i)"
  shows "md_in (sizeof_body - blk n) (body_md (body n) i)"
  using assms by (simp add: node_ok_def area_ok_def)

lemma copy_out_loop_ok:
  assumes "node_ok n" and "\<forall>i \<in> set is. i < recs n"
  shows "copy_out_loop (body n) is = Inr (somes (map (\<lambda>i. slot_of (body n) (body_md (body n) i)) is))"
  using assms(2)
proof (induction "is")
  case (Cons i "is")
  then show ?case
    using visible_in [OF assms(1), of i] node_ok_bounds(4) [OF assms(1)]
    by (auto simp: read_nmd_ok [OF assms(1)] slot_of_def read_kv_def md_in_def bz_sizes)
qed simp

lemma copy_out_ok: "node_ok n \<Longrightarrow> copy_out n = Inr (sort_key fst (kvs n))"
  by (simp add: copy_out_def copy_out_loop_ok kvs_def slots_def area_slots_def)

section \<open>Copying in\<close>

lemma copy_in_step:
  fixes rc :: u16 and off :: u32
  assumes ok: "area_ok (unat rc) (unat off) buf" and sp: "8 * unat rc + kv_space (key, val) \<le> unat off"
  defines "off' \<equiv> off - of_nat (length key + length val)"
  defines "m \<equiv> \<lparr>md_control = 0, visible = True, offset = ucast off', key_len = of_nat (length key),
                 total_len = of_nat (length key + length val)\<rparr>"
  shows "\<exists>buf'. rbind (write_nmd (unat rc) m buf) (\<lambda>buf1. rbind (memcpy_at (unat off') key buf1)
             (\<lambda>buf2. rbind (memcpy_at (unat (off' + of_nat (length key))) val buf2) f)) = f buf' \<and>
      unat off' = unat off - (length key + length val) \<and> unat (rc + 1) = unat rc + 1 \<and>
      area_ok (unat (rc + 1)) (unat off') buf' \<and>
      area_slots (unat (rc + 1)) buf' = area_slots (unat rc) buf @ [Some (key, val)]"
proof -
  define z where "z = length key + length val"
  define lo where "lo = unat off - z"
  have b: "unat off \<le> 240" "length buf = 240" using ok by (simp_all add: area_ok_def bz_sizes)
  have z: "z \<le> unat off" "8 * unat rc + 8 \<le> lo" "lo + z = unat off"
    using sp by (simp_all add: z_def lo_def kv_space_def bz_sizes)
  have off': "unat off' = lo"
  proof -
    have u: "unat (of_nat z :: u32) = z" using z(1) b(1) by (simp add: unat_of_nat)
    then have "(of_nat z :: u32) \<le> off" using z(1) by (simp add: word_le_nat_alt)
    then show ?thesis unfolding off'_def z_def [symmetric] using u by (simp add: unat_sub lo_def)
  qed
  have rc1: "unat (rc + 1) = unat rc + 1"
    by (rule unat_suc_eq) (use z b in simp)
  have offk: "unat (off' + of_nat (length key)) = lo + length key"
  proof -
    have "off' = of_nat lo" using off' by (simp flip: off')
    then have "off' + of_nat (length key) = of_nat (lo + length key)" by simp
    then show ?thesis using z b by (simp only: unat_of_nat) (simp add: z_def)
  qed
  have "unat (of_nat z :: u16) = z" using z b by (simp add: unat_of_nat)
  then have m: "unat (offset m) = lo" "unat (key_len m) = length key" "unat (total_len m) = length key + length val"
    unfolding m_def z_def [symmetric]
    using z b off' by (simp_all add: m_def unsigned_ucast_eq unat_of_nat z_def take_bit_word_eq_self unsigned_take_bit_eq take_bit_nat_eq_self)
  let ?w = "word_bytes (pack_md m)"
  define buf1 where "buf1 = patch lo (key @ val) buf"
  define buf' where "buf' = patch (8 * unat rc) ?w buf1"
  have d: "area_ok (unat rc) lo buf1" "area_slots (unat rc) buf1 = area_slots (unat rc) buf"
    using area_write_data [OF ok, of lo "key @ val"] z unfolding buf1_def z_def by simp_all
  have min: "md_in lo m" using m z b by (simp add: md_in_def bz_sizes z_def word_le_nat_alt)
  have kv: "slot_of buf1 m = Some (key, val)"
    using md_kv_written [OF _ m] z b unfolding buf1_def by (simp add: slot_of_def z_def m_def)
  have "patch (lo + length key) val (patch lo key (patch (8 * unat rc) ?w buf)) = buf'"
    using z b unfolding buf'_def buf1_def by (simp add: patch_patch patch_commute z_def)
  then have "rbind (write_nmd (unat rc) m buf) (\<lambda>buf1. rbind (memcpy_at (unat off') key buf1)
             (\<lambda>buf2. rbind (memcpy_at (unat (off' + of_nat (length key))) val buf2) f)) = f buf'"
    using z b unfolding off' offk write_nmd_def memcpy_at_def by (simp add: z_def)
  moreover have "area_ok (Suc (unat rc)) lo buf'" "area_slots (Suc (unat rc)) buf' = area_slots (unat rc) buf @ [Some (key, val)]"
    using area_add_md [OF d(1) _ min] z(2) kv unfolding buf'_def d(2) by simp_all
  ultimately show ?thesis unfolding off' rc1 lo_def z_def by auto
qed

lemma copy_in_loop_ok:
  assumes "area_ok (unat rc) (unat off) buf" and "8 * unat rc + space ps \<le> unat off"
  shows "\<exists>rc' off' buf'. copy_in_loop ps rc off buf = Inr (rc', off', buf') \<and> area_ok (unat rc') (unat off') buf' \<and>
    unat rc' = unat rc + length ps \<and> unat off' + space ps = unat off + 8 * length ps \<and>
    area_slots (unat rc') buf' = area_slots (unat rc) buf @ map Some ps"
  using assms
proof (induction ps arbitrary: rc off buf)
  case (Cons p ps)
  obtain key val where p: "p = (key, val)" by force
  have sp: "8 * unat rc + kv_space (key, val) \<le> unat off" using Cons.prems(2) p by simp
  define off1 where "off1 = off - of_nat (length key + length val)"
  obtain buf1 where
    step: "copy_in_loop (p # ps) rc off buf = copy_in_loop ps (rc + 1) off1 buf1" and
    off1: "unat off1 = unat off - (length key + length val)" and rc1: "unat (rc + 1) = unat rc + 1" and
    ok1: "area_ok (unat (rc + 1)) (unat off1) buf1" and
    sl1: "area_slots (unat (rc + 1)) buf1 = area_slots (unat rc) buf @ [Some (key, val)]"
    using copy_in_step [OF Cons.prems(1) sp, where f = "copy_in_loop ps (rc + 1) off1"] unfolding p off1_def
    by (auto simp: Let_def)
  have "8 * unat (rc + 1) + space ps \<le> unat off1"
    using Cons.prems(2) unfolding rc1 off1 p by (simp add: kv_space_def bz_sizes)
  from Cons.IH [OF ok1 this] obtain rc' off' buf' where
    "copy_in_loop ps (rc + 1) off1 buf1 = Inr (rc', off', buf')" "area_ok (unat rc') (unat off') buf'"
    "unat rc' = unat (rc + 1) + length ps" "unat off' + space ps = unat off1 + 8 * length ps"
    "area_slots (unat rc') buf' = area_slots (unat (rc + 1)) buf1 @ map Some ps" by blast
  then show ?case
    using step off1 sp unfolding rc1 sl1 [unfolded rc1] p by (auto simp: kv_space_def bz_sizes simp del: copy_in_loop.simps)
qed simp

lemma area_ok_zero: "area_ok 0 sizeof_body (body zero_node)" "area_slots 0 buf = []"
  by (auto simp: area_ok_def zero_node_def area_slots_def)

text \<open>What a new node looks like.\<close>

definition fresh_node :: "kv list \<Rightarrow> node \<Rightarrow> bool" where
  "fresh_node ps n \<longleftrightarrow> node_ok n \<and> slots n = map Some ps \<and> \<not> frozen (status_word n) \<and>
     sw_control (status_word n) = 0 \<and> delete_size (status_word n) = 0 \<and> used n = space ps"

lemma fresh_nodeD:
  assumes "fresh_node ps n"
  shows "node_ok n" "kvs n = ps" "recs n = length ps" "\<not> frozen (status_word n)" "del n = 0" "used n = space ps"
  using assms length_slots [of n] by (auto simp: fresh_node_def kvs_def simp del: length_slots)

lemma copy_in_ok:
  assumes "space ps \<le> 240"
  shows "\<exists>n. copy_in ps = Inr n \<and> fresh_node ps n"
proof -
  have b: "unat (of_nat sizeof_body :: u32) = sizeof_body" "unat (0 :: u16) = 0" by (simp_all add: bz_sizes)
  obtain rc off buf where
    r: "copy_in_loop ps 0 (of_nat sizeof_body) (body zero_node) = Inr (rc, off, buf)" and
    ok: "area_ok (unat rc) (unat off) buf" and rc: "unat rc = length ps" and
    off: "unat off + space ps = 240 + 8 * length ps" and sl: "area_slots (unat rc) buf = map Some ps"
    using copy_in_loop_ok [where rc = 0 and off = "of_nat sizeof_body" and ps = ps and buf = "body zero_node"] assms
      area_ok_zero(1) unfolding b area_ok_zero(2) by (auto simp: bz_sizes)
  define n where "n = zero_node\<lparr>status_word := (status_word zero_node)\<lparr>record_count := rc,
              block_size := ucast (of_nat sizeof_body - off)\<rparr>, sorted_count := ucast rc, body := buf\<rparr>"
  have n: "copy_in ps = Inr n" unfolding copy_in_def r n_def by simp
  have "unat off \<le> 240" using ok by (simp add: area_ok_def bz_sizes)
  then have "unat (of_nat sizeof_body - off) = 240 - unat off"
    by (simp add: bz_sizes unat_sub word_le_nat_alt)
  then have blk: "blk n = 240 - unat off"
    by (simp add: n_def unsigned_ucast_eq take_bit_nat_eq_self unsigned_take_bit_eq)
  have f: "slots n = map Some ps" "body n = buf" "recs n = unat rc" "status_word n = unpack_sw 0\<lparr>record_count := rc,
      block_size := ucast (of_nat sizeof_body - off)\<rparr>"
    using sl by (simp_all add: n_def slots_def zero_node_def)
  have u: "used n = space ps" using off \<open>unat off \<le> 240\<close> unfolding used_def blk f(3) rc by (simp add: bz_sizes)
  have k: "kvs n = ps" unfolding kvs_def f(1) by simp
  have d: "del n = 0" unfolding f(4) by (simp add: unpack_sw_def)
  have "node_ok n"
    unfolding node_ok_def f(2,3) u k d blk using ok \<open>unat off \<le> 240\<close> by (simp add: bz_sizes)
  moreover have "\<not> frozen (status_word n)" "sw_control (status_word n) = 0" "delete_size (status_word n) = 0"
    unfolding f(4) by (simp_all add: unpack_sw_def)
  ultimately show ?thesis using n f(1) u unfolding fresh_node_def by blast
qed

section \<open>Finding a key\<close>

definition c_string :: "string \<Rightarrow> bool" where
  "c_string s \<longleftrightarrow> s \<noteq> [] \<and> last s = NUL \<and> NUL \<notin> set (butlast s)"

lemma c_string_iff: "c_string s \<longleftrightarrow> (\<exists>t. NUL \<notin> set t \<and> s = cbytes t)"
  unfolding c_string_def cbytes_def by (metis append_butlast_last_id butlast_snoc last_snoc snoc_eq_iff_butlast)

lemma c_string_cbytes [simp]: "c_string (cbytes t) \<longleftrightarrow> NUL \<notin> set t"
  by (auto simp: c_string_def cbytes_def)

lemma cbytes_inj [simp]: "cbytes s = cbytes t \<longleftrightarrow> s = t"
  by (simp add: cbytes_def)

definition keys_ok :: "kv list \<Rightarrow> bool" where
  "keys_ok ps \<longleftrightarrow> (\<forall>p \<in> set ps. c_string (fst p))"

lemma strcmp_record:
  assumes "node_ok n" and "i < recs n" and "slots n ! i = Some (k, v)" and "c_string k" and "NUL \<notin> set key"
  shows "strcmp (drop (unat (offset (body_md (body n) i))) (body n)) (cbytes key) =
    Inr (if k < cbytes key then - 1 else if cbytes key < k then 1 else 0)"
proof -
  let ?m = "body_md (body n) i"
  obtain t where t: "NUL \<notin> set t" "k = cbytes t" using assms(4) by (auto simp: c_string_iff)
  have "slot_of (body n) ?m = Some (k, v)" using assms(2,3) by (simp add: slots_def)
  then have "k = take (unat (key_len ?m)) (drop (unat (offset ?m)) (body n))"
    by (auto simp: slot_of_def md_kv_def Let_def split: if_splits)
  then have "drop (unat (offset ?m)) (body n) = cbytes t @ drop (unat (key_len ?m)) (drop (unat (offset ?m)) (body n))"
    unfolding t(2) [symmetric] by (metis append_take_drop_id)
  then show ?thesis using strcmp_cbytes [OF t(1) assms(5), where r' = "[]"] t(2) by (metis append_Nil2)
qed

definition first_slot :: "string \<Rightarrow> kv option list \<Rightarrow> nat list \<Rightarrow> nat option" where
  "first_slot k sl is = List.find (\<lambda>i. \<exists>v. sl ! i = Some (k, v)) is"

lemma find_key_ok:
  assumes "node_ok n" and "keys_ok (kvs n)" and "NUL \<notin> set key" and "\<forall>i \<in> set is. i < recs n"
  shows "find_key (body n) key is = Inr (first_slot (cbytes key) (slots n) is)"
  using assms(4)
proof (induction "is")
  case (Cons i "is")
  then have i: "i < recs n" by simp
  have sl: "slots n ! i = slot_of (body n) (body_md (body n) i)" using i by (simp add: slots_def)
  show ?case
  proof (cases "slots n ! i")
    case None
    then have "\<not> visible (body_md (body n) i)" using sl by (simp add: slot_of_def split: if_splits)
    then show ?thesis using Cons None by (simp add: read_nmd_ok [OF assms(1) i] first_slot_def)
  next
    case (Some p)
    obtain k v where p: "p = (k, v)" by force
    have "visible (body_md (body n) i)" using sl Some by (simp add: slot_of_def split: if_splits)
    moreover have "Some p \<in> set (slots n)" using Some i by (metis length_slots nth_mem)
    then have "c_string k" using assms(2) p by (auto simp: keys_ok_def kvs_def set_somes)
    ultimately show ?thesis
      using Cons Some p strcmp_record [OF assms(1) i, of k v key] assms(3)
      by (auto simp: read_nmd_ok [OF assms(1) i] first_slot_def)
  qed
qed (simp add: first_slot_def)

lemma node_find_ok:
  assumes "node_ok n" and "keys_ok (kvs n)" and "NUL \<notin> set key"
  obtains (none) "node_find n key = Inr None" "cbytes key \<notin> fst ` set (kvs n)"
  | (some) i v where "node_find n key = Inr (Some i)" "i < recs n" "slots n ! i = Some (cbytes key, v)"
proof -
  have f: "node_find n key = Inr (first_slot (cbytes key) (slots n) [0..<recs n])"
    unfolding node_find_def by (rule find_key_ok [OF assms]) simp
  show thesis
  proof (cases "first_slot (cbytes key) (slots n) [0..<recs n]")
    case None
    have "cbytes key \<notin> fst ` set (kvs n)"
    proof
      assume "cbytes key \<in> fst ` set (kvs n)"
      then obtain v where "Some (cbytes key, v) \<in> set (slots n)" by (auto simp: kvs_def set_somes)
      then obtain i where "i < recs n" "slots n ! i = Some (cbytes key, v)" by (auto simp: in_set_conv_nth)
      then show False using None by (auto simp: first_slot_def find_None_iff)
    qed
    then show ?thesis using none f None by simp
  next
    case (Some i)
    then obtain v where "i < recs n" "slots n ! i = Some (cbytes key, v)"
      by (auto simp: first_slot_def find_Some_iff)
    then show ?thesis using some f Some by simp
  qed
qed

end
