(* ===== verification/BzQuiet.thy ===== *)
theory BzQuiet
  imports BzOps BzRecords
begin

text \<open>
  A thread that runs alone on the tree: the calls of the epoch manager succeed, the checks of \<open>AddEntry\<close> pass on
  the words of well-formed nodes, and a compare-and-swap of words that hold their old values succeeds.
\<close>

section \<open>Words that the compare-and-swap can hold\<close>

text \<open>The flags of \<open>MwCAS\<close> are bits 61 to 63 of a word. In a status word these are the top bits of \<open>delete_size\<close>, in a
  record's metadata those of \<open>total_len\<close>; the field \<open>control\<close> is not involved.\<close>

lemma not_bit_small: "unat (w :: 'a::len word) < 2 ^ k \<Longrightarrow> k \<le> n \<Longrightarrow> \<not> bit w n"
proof -
  assume w: "unat w < 2 ^ k" and "k \<le> n"
  then have "(2::nat) ^ k \<le> 2 ^ n" by (intro power_increasing) simp_all
  with w have "unat w < 2 ^ n" by linarith
  moreover have "bit w n \<Longrightarrow> bit (unat w) n" using bit_imp_le_length [of w n] by (simp add: bit_unsigned_iff)
  ultimately show ?thesis by (auto simp: bit_iff_odd)
qed

lemma clean_sw_iff: "IsCleanPtr (pack_sw s) \<longleftrightarrow> \<not> bit (delete_size s) 19 \<and> \<not> bit (delete_size s) 20 \<and> \<not> bit (delete_size s) 21"
  unfolding ptr_bits(4) pack_sw_def by (simp add: field_bits)

lemma clean_md_iff: "IsCleanPtr (pack_md m) \<longleftrightarrow> \<not> bit (total_len m) 13 \<and> \<not> bit (total_len m) 14 \<and> \<not> bit (total_len m) 15"
  unfolding ptr_bits(4) pack_md_def by (simp add: field_bits)

lemma clean_swI: "unat (delete_size s) < 2 ^ 19 \<Longrightarrow> IsCleanPtr (pack_sw s)"
  unfolding clean_sw_iff by (intro conjI not_bit_small [where k = 19]) simp_all

lemma clean_mdI: "unat (total_len m) < 2 ^ 13 \<Longrightarrow> IsCleanPtr (pack_md m)"
  unfolding clean_md_iff by (intro conjI not_bit_small [where k = 13]) simp_all

section \<open>Runs\<close>

lemma zbind_Done [simp]: "m w = Done x w' \<Longrightarrow> zbind m f w = f x w'"
  by (simp add: zbind_def)

lemma zbind_bool [simp]: "m w = Done True w' \<Longrightarrow> zbind m f w = f True w'" "m w = Done False w' \<Longrightarrow> zbind m f w = f False w'"
  by (simp_all add: zbind_def)

lemma zret_simp [simp]: "zret x w = Done x w"
  by (simp add: zret_def)

lemma zget_simp [simp]: "zget f w = Done (f w) w"
  by (simp add: zget_def)

lemma zupd_simp [simp]: "zupd f w = Done () (f w)"
  by (simp add: zupd_def)

lemma zlift_simp [simp]: "zlift (Inr x) w = Done x w" "zlift (Inl e) w = Aborted e"
  by (simp_all add: zlift_def)

lemma zassert_simp [simp]: "zassert True msg w = Done () w" "zassert False msg w = Aborted (AssertFail msg)"
  by (simp_all add: zassert_def)

lemma zcheck_simp [simp]: "zcheck True e w = Done () w"
  by (simp add: zcheck_def)

lemma load_node_simp [simp]: "nodes (heap w) p = Some n \<Longrightarrow> load_node p w = Done n w"
  by (simp add: load_node_def)

lemma load_md_simp [simp]: "mds (heap w) p = Some n \<Longrightarrow> load_md p w = Done n w"
  by (simp add: load_md_def)

lemma upd_heap_simps [simp]:
  "heap (upd_heap f w) = f (heap w)" "bew (upd_heap f w) = bew w" "bz_mgr (upd_heap f w) = bz_mgr w"
  "pool_mgr (upd_heap f w) = pool_mgr w" "others (upd_heap f w) = others w" "global_epoch (upd_heap f w) = global_epoch w"
  "avail (upd_heap f w) = avail w" "garbage (upd_heap f w) = garbage w" "pop (upd_heap f w) = pop w"
  "upd_heap f (upd_heap g w) = upd_heap (\<lambda>h. f (g h)) w"
  by (simp_all add: upd_heap_def)

lemma set_node_simps [simp]:
  "nodes (set_node p n h) = (nodes h)(p \<mapsto> n)" "mds (set_node p n h) = mds h" "root_md (set_node p n h) = root_md h"
  "root_pool (set_node p n h) = root_pool h" "set_node p n (set_node p n' h) = set_node p n h"
  by (simp_all add: set_node_def)

lemma set_md_simps [simp]:
  "mds (set_md p n h) = (mds h)(p \<mapsto> n)" "nodes (set_md p n h) = nodes h" "root_md (set_md p n h) = root_md h"
  by (simp_all add: set_md_def)

section \<open>Alone\<close>

definition bz_idle :: "u64 \<Rightarrow> bz_world \<Rightarrow> bool" where
  "bz_idle tid w \<longleftrightarrow> mgr_inv (bz_mgr w) (bew w) \<and> has_room (bz_mgr w) tid (bew w) \<and> tid \<noteq> 0 \<and> others w = [] \<and>
     current_epoch (managers (bew w) (bz_mgr w)) \<noteq> 0"

definition bz_in :: "u64 \<Rightarrow> bz_world \<Rightarrow> bool" where
  "bz_in tid w \<longleftrightarrow> bz_idle tid w \<and> (\<exists>p. protected_at (bz_mgr w) tid p (bew w))"

lemma bz_in_idle: "bz_in tid w \<Longrightarrow> bz_idle tid w"
  by (simp add: bz_in_def)

lemma bz_in_upd [simp]:
  "bz_in tid (upd_heap f w) = bz_in tid w" "bz_idle tid (upd_heap f w) = bz_idle tid w"
  "bz_in tid (w\<lparr>avail := ps\<rparr>) = bz_in tid w"
  by (simp_all add: bz_in_def bz_idle_def)

lemma bz_Protect_ok:
  assumes "bz_idle tid w"
  obtains ew' where "bz_Protect tid w = Done () (w\<lparr>bew := ew'\<rparr>)" "bz_in tid (w\<lparr>bew := ew'\<rparr>)"
proof -
  let ?m = "bz_mgr w"
  have a: "mgr_inv ?m (bew w)" "has_room ?m tid (bew w)" "tid \<noteq> 0" "others w = []" "current_epoch (managers (bew w) ?m) \<noteq> 0"
    using assms by (simp_all add: bz_idle_def)
  obtain i w' where p: "Protect ?m tid (bew w) = Inr w'" "mgr_inv ?m w'" "i < length (entries ?m (bew w))"
    "tls w' = (tls (bew w))((tid, EpochEntryTls) := EntryPtr ?m i)"
    "map protected_epoch (entries ?m w') = (map protected_epoch (entries ?m (bew w)))[i := current_epoch (managers (bew w) ?m)]"
    "current_epoch (managers w' ?m) = current_epoch (managers (bew w) ?m)"
    using Protect_spec [OF a(1-3)] by metis
  have "protected_at ?m tid (current_epoch (managers (bew w) ?m)) w'"
    using p(3,4,5) a(5) by (auto simp: protected_at_def)
  moreover have "has_room ?m tid w'" using p(4) by (auto simp: has_room_def)
  ultimately have "bz_in tid (w\<lparr>bew := w'\<rparr>)"
    using a p by (auto simp: bz_in_def bz_idle_def)
  then show thesis using that p(1) by (simp add: bz_Protect_def zepoch_def)
qed

lemma bz_Unprotect_ok:
  assumes "bz_idle tid w"
  obtains ew' where "bz_Unprotect tid w = Done () (w\<lparr>bew := ew'\<rparr>)" "bz_idle tid (w\<lparr>bew := ew'\<rparr>)"
proof -
  let ?m = "bz_mgr w"
  have a: "mgr_inv ?m (bew w)" "has_room ?m tid (bew w)" "tid \<noteq> 0" "others w = []" "current_epoch (managers (bew w) ?m) \<noteq> 0"
    using assms by (simp_all add: bz_idle_def)
  obtain i w' where p: "Unprotect ?m tid (bew w) = Inr w'" "mgr_inv ?m w'"
    "tls w' = (tls (bew w))((tid, EpochEntryTls) := EntryPtr ?m i)"
    "current_epoch (managers w' ?m) = current_epoch (managers (bew w) ?m)"
    using Unprotect_spec [OF a(1-3)] by metis
  have "has_room ?m tid w'" using p(3) by (auto simp: has_room_def)
  then have "bz_idle tid (w\<lparr>bew := w'\<rparr>)" using a p by (auto simp: bz_idle_def)
  then show thesis using that p(1) by (simp add: bz_Unprotect_def zepoch_def)
qed

text \<open>The thread-local entry is shared by all epoch managers, so the check on the manager of the descriptor pool
  finds the protection that the tree's manager gave.\<close>

lemma bz_check_protected_ok:
  assumes "bz_in tid w"
  shows "bz_check_protected tid w = Done () w"
proof -
  obtain p i where p: "p \<noteq> 0" "tls (bew w) (tid, EpochEntryTls) = EntryPtr (bz_mgr w) i"
    "map protected_epoch (entries (bz_mgr w) (bew w)) ! i = p" and inv: "mgr_inv (bz_mgr w) (bew w)"
    using assms by (auto simp: bz_in_def bz_idle_def protected_at_def)
  have i: "i < length (entries (bz_mgr w) (bew w))" using mgr_inv_epochs(3) [OF inv p(2)] by simp
  then have "get_entry (bz_mgr w) i (bew w) = Inr (entries (bz_mgr w) (bew w) ! i)"
    by (rule get_entry_entries [OF inv])
  then have "IsProtected (pool_mgr w) tid (bew w) = Inr (True, bew w)"
    using p i by (simp add: IsProtected_def GetEntryForThread_def)
  then show ?thesis by (simp add: bz_check_protected_def)
qed

section \<open>Compare-and-swap\<close>

definition entry_ok :: "cas_entry \<Rightarrow> bool" where
  "entry_ok e \<longleftrightarrow> loc_aligned (fst e) \<and> IsCleanPtr (fst (snd e)) \<and> IsCleanPtr (snd (snd e))"

lemma bz_AddEntries_checked:
  assumes "bz_check_protected tid w = Done () w" and "\<forall>e \<in> set es. entry_ok e" and "distinct (map fst es)"
    and "fst ` set es \<inter> set ls = {}" and "length ls + length es \<le> DESC_CAP"
  shows "bz_AddEntries tid ls es w = Done () w"
  using assms(2-)
proof (induction es arbitrary: ls)
  case (Cons e es)
  obtain l old_v new_v where e: "e = (l, old_v, new_v)" by (metis surj_pair)
  have "bz_AddEntries tid (l # ls) es w = Done () w"
    using Cons.prems e by (intro Cons.IH) auto
  then show ?case
    using Cons.prems e assms(1) by (simp add: entry_ok_def)
qed simp

lemmas bz_AddEntries_ok = bz_AddEntries_checked [OF bz_check_protected_ok]

lemma interfere_alone: "others w = [] \<Longrightarrow> interfere w = Done () w"
  by (simp add: interfere_def)

lemma bz_MwCAS_ok:
  assumes "bz_in tid w" and "\<forall>e \<in> set es. entry_ok e" and "distinct (map fst es)" and "length es \<le> DESC_CAP"
    and "\<forall>e \<in> set es. loc_word (heap w) (fst e) = Some (fst (snd e))"
  shows "bz_MwCAS tid es w = Done True (upd_heap (fold (\<lambda>e. set_loc (fst e) (snd (snd e))) es) w)"
proof -
  have o: "others w = []" using assms(1) by (simp add: bz_in_def bz_idle_def)
  have "bz_AddEntries tid [] es w = Done () w"
    using assms by (intro bz_AddEntries_ok) auto
  moreover have "cas_words es w = Done True (upd_heap (fold (\<lambda>e. set_loc (fst e) (snd (snd e))) es) w)"
    using assms(5) by (auto simp: cas_words_def)
  ultimately show ?thesis by (simp add: bz_MwCAS_def interfere_alone o)
qed

end
