(* ===== verification/BzLeaf.thy ===== *)
theory BzLeaf
  imports BzQuiet
begin

text \<open>
  Insertion, update and deletion of a record in one node, by a thread that runs alone: which slots the node has
  afterwards, and that its invariant is kept.
\<close>

section \<open>Small arithmetic\<close>

lemma unat_plus_of_nat:
  fixes x :: "'a::len word"
  assumes "unat x + k < 2 ^ LENGTH('a)"
  shows "unat (x + of_nat k) = unat x + k"
proof -
  have "x + of_nat k = of_nat (unat x + k)" by simp
  then have "unat (x + of_nat k) = (unat x + k) mod 2 ^ LENGTH('a)" by (simp only: unat_of_nat)
  then show ?thesis using assms by simp
qed

lemma ucast_small:
  fixes x :: "'a::len word"
  assumes "unat x < 2 ^ LENGTH('b)"
  shows "unat (ucast x :: 'b::len word) = unat x"
  using assms by (simp add: unsigned_ucast_eq unsigned_take_bit_eq take_bit_nat_eq_self)

lemma body_end: "unat (b :: 'a::len word) \<le> 240 \<Longrightarrow> (of_nat sizeof_body - ucast b :: u64) = of_nat (240 - unat b)"
  by (simp add: of_nat_diff bz_sizes)

lemma too_large_iff:
  assumes "node_ok n" and "bytes < 2 ^ 16"
  shows "too_large (status_word n) bytes \<longleftrightarrow> used n + bytes > 240"
proof -
  let ?s = "status_word n"
  have b: "8 * recs n + blk n \<le> 240" by (rule node_ok_bounds [OF assms(1)])
  have c: "(ucast w :: u64) = of_nat (unat w)" for w :: "'a::len word" by simp
  have l: "unat (ucast (block_size ?s) + of_nat bytes :: u64) = blk n + bytes"
    unfolding c of_nat_add [symmetric] using b assms(2) by (simp only: unat_of_nat) simp
  have "(of_nat (240 - 8 * recs n) :: u64) = of_nat 240 - of_nat (8 * recs n)"
    by (rule of_nat_diff) (use b in linarith)
  then have r: "(of_nat BZTREE_NODE_SIZE - of_nat sizeof_header - ucast (record_count ?s) * of_nat sizeof_metadata :: u64)
      = of_nat (240 - 8 * recs n)"
    unfolding c bz_sizes by (simp add: mult.commute)
  have "unat (of_nat (240 - 8 * recs n) :: u64) = 240 - 8 * recs n" by (simp only: unat_of_nat) simp
  then show ?thesis
    unfolding too_large_def word_less_nat_alt l r using b by (simp add: used_def sizeof_metadata_def) linarith
qed

section \<open>Two words of a leaf\<close>

lemma md_word: "bytes_word (take 8 (drop (8 * i) buf)) = pack_md (body_md buf i)"
  by (simp add: body_md_def pack_unpack_md)

lemma cas_leaf:
  assumes "bz_in tid w" and "nodes (heap w) leaf = Some n" and "unat leaf mod 8 = 0" and "8 * i + 8 \<le> length (body n)"
    and "unat (delete_size (status_word n)) < 2 ^ 19" and "unat (delete_size sw) < 2 ^ 19"
    and "unat (total_len (body_md (body n) i)) < 2 ^ 13" and "unat (total_len md) < 2 ^ 13"
  shows "bz_MwCAS tid [(StatusLoc leaf, pack_sw (status_word n), pack_sw sw),
           (nmd_loc leaf i, pack_md (body_md (body n) i), pack_md md)] w =
    Done True (upd_heap (set_node leaf (n\<lparr>status_word := sw, body := patch (8 * i) (word_bytes (pack_md md)) (body n)\<rparr>)) w)"
proof -
  let ?es = "[(StatusLoc leaf, pack_sw (status_word n), pack_sw sw),
           (nmd_loc leaf i, pack_md (body_md (body n) i), pack_md md)]"
  have al: "(unat leaf + 8) mod 8 = 0" "(unat leaf + 16 + 8 * i) mod 8 = 0" using assms(3) by presburger+
  have "bz_MwCAS tid ?es w = Done True (upd_heap (fold (\<lambda>e. set_loc (fst e) (snd (snd e))) ?es) w)"
    by (rule bz_MwCAS_ok [OF assms(1)])
      (use assms al in \<open>auto simp: entry_ok_def clean_swI clean_mdI nmd_loc_def bz_sizes DESC_CAP_def md_word\<close>)
  then show ?thesis
    using assms(2) by (simp add: upd_heap_def nmd_loc_def bz_sizes unpack_pack_sw)
qed

lemma cas_status:
  assumes "bz_in tid w" and "nodes (heap w) leaf = Some n" and "unat leaf mod 8 = 0"
    and "unat (delete_size (status_word n)) < 2 ^ 19" and "unat (delete_size sw) < 2 ^ 19"
  shows "bz_MwCAS tid [(StatusLoc leaf, pack_sw (status_word n), pack_sw sw)] w =
    Done True (upd_heap (set_node leaf (n\<lparr>status_word := sw\<rparr>)) w)"
proof -
  let ?es = "[(StatusLoc leaf, pack_sw (status_word n), pack_sw sw)]"
  have al: "(unat leaf + 8) mod 8 = 0" using assms(3) by presburger
  have "bz_MwCAS tid ?es w = Done True (upd_heap (fold (\<lambda>e. set_loc (fst e) (snd (snd e))) ?es) w)"
    by (rule bz_MwCAS_ok [OF assms(1)]) (use assms al in \<open>auto simp: entry_ok_def clean_swI DESC_CAP_def\<close>)
  then show ?thesis using assms(2) by (simp add: upd_heap_def unpack_pack_sw)
qed

lemma copy_record_ok:
  assumes "nodes (heap w) leaf = Some n" and "unat (key_len m) = length key + 1"
    and "unat (offset m) + record_bytes key val \<le> length (body n)"
  shows "copy_record leaf m key val w =
    Done () (upd_heap (set_node leaf (n\<lparr>body := patch (unat (offset m)) (cbytes key @ cbytes val) (body n)\<rparr>)) w)"
proof -
  have "length (cbytes key) = length key + 1" "length (cbytes val) = length val + 1" by (simp_all add: cbytes_def)
  then show ?thesis
    using assms patch_patch [of "unat (offset m)" "cbytes key" "cbytes val" "body n"]
    by (simp add: copy_record_def memcpy_at_def record_bytes_def store_node_def)
qed

section \<open>Slots\<close>

lemma node_area: "node_ok n \<Longrightarrow> area_ok (recs n) (240 - blk n) (body n)"
  by (simp add: node_ok_def bz_sizes)

lemma node_okI:
  assumes "area_ok (recs n) (240 - blk n) (body n)" and "blk n \<le> 240" and "del n + space (kvs n) \<le> used n"
  shows "node_ok n"
  using assms by (simp add: node_ok_def bz_sizes)

lemma free_slot:
  assumes "node_ok n" and "used n + 8 \<le> 240"
  shows "body_md (body n) (recs n) = unpack_md 0"
proof -
  have b: "length (body n) = 240" "8 * recs n + 8 \<le> 240 - blk n"
    using assms(2) node_ok_bounds [OF assms(1)] by (simp_all add: used_def bz_sizes)
  have "body n ! j = NUL" if "8 * recs n \<le> j" "j < 8 * recs n + 8" for j
    using node_area [OF assms(1)] that b by (simp add: area_ok_def)
  then have "take 8 (drop (8 * recs n) (body n)) = replicate 8 NUL"
    using b by (intro nth_equalityI) (auto simp: nth_append)
  moreover have "bytes_word (replicate 8 NUL) = 0"
    by (simp add: bytes_word_def numeral_eq_Suc NUL_def)
  ultimately show ?thesis by (simp add: body_md_def)
qed

lemma slot_visible:
  assumes "node_ok n" and "i < recs n" and "slots n ! i = Some p"
  shows "visible (body_md (body n) i)" and "md_in (240 - blk n) (body_md (body n) i)"
    and "unat (total_len (body_md (body n) i)) = length (fst p) + length (snd p)"
    and "unat (key_len (body_md (body n) i)) = length (fst p)" and "unat (total_len (body_md (body n) i)) \<le> 240"
    and "md_kv (body n) (body_md (body n) i) = p"
proof -
  let ?m = "body_md (body n) i"
  have s: "slot_of (body n) ?m = Some p" using assms(2,3) by (simp add: slots_def)
  then show v: "visible ?m" and kv: "md_kv (body n) ?m = p" by (auto simp: slot_of_def split: if_splits)
  show m: "md_in (240 - blk n) ?m" using visible_in [OF assms(1,2) v] by (simp add: bz_sizes)
  have l: "length (body n) = 240" using node_ok_bounds [OF assms(1)] by simp
  have le: "unat (offset ?m) + unat (total_len ?m) \<le> 240" "unat (key_len ?m) \<le> unat (total_len ?m)"
    using m by (simp_all add: md_in_def bz_sizes word_le_nat_alt)
  then show "unat (total_len ?m) \<le> 240" by simp
  show "unat (total_len ?m) = length (fst p) + length (snd p)" "unat (key_len ?m) = length (fst p)"
    unfolding kv [symmetric] using le l by (auto simp: md_kv_def Let_def)
qed

lemma nth_slots_kvs:
  assumes "i < recs n"
  shows "kvs n = somes (take i (slots n)) @ somes [slots n ! i] @ somes (drop (Suc i) (slots n))"
  unfolding kvs_def using assms by (intro somes_update(2)) simp

section \<open>Insertion\<close>

lemma cbytes_length [simp]: "length (cbytes s) = length s + 1"
  by (simp add: cbytes_def)

lemma kv_space_cbytes: "kv_space (cbytes key, cbytes val) = 8 + record_bytes key val"
  by (simp add: kv_space_def bz_sizes record_bytes_def)

definition inserted :: "node \<Rightarrow> kv \<Rightarrow> node \<Rightarrow> bool" where
  "inserted n p n' \<longleftrightarrow> node_ok n' \<and> slots n' = slots n @ [Some p] \<and> frozen (status_word n') = frozen (status_word n) \<and>
     used n' = used n + kv_space p \<and> del n' = del n"

lemma reserve_ok:
  assumes w: "bz_in tid w" and nd: "nodes (heap w) leaf = Some n" and al: "unat leaf mod 8 = 0" and ok: "node_ok n"
    and sp: "used n + 8 + record_bytes key val \<le> 240"
  defines "sw \<equiv> (status_word n)\<lparr>block_size := block_size (status_word n) + of_nat (record_bytes key val),
                                record_count := record_count (status_word n) + 1\<rparr>"
  defines "md \<equiv> (unpack_md 0)\<lparr>offset := ucast (global_epoch w OR GLOBAL_EPOCH_OFFSET_BIT)\<rparr>"
  shows "reserve (Suc f) tid leaf key val w =
    Done () (upd_heap (set_node leaf (n\<lparr>status_word := sw, body := patch (8 * recs n) (word_bytes (pack_md md)) (body n)\<rparr>)) w)"
proof -
  have b: "length (body n) = 240" "8 * recs n + 8 \<le> 240" "del n \<le> 240"
    using sp node_ok_bounds [OF ok] by (simp_all add: used_def bz_sizes)
  have md0: "body_md (body n) (recs n) = unpack_md 0" by (rule free_slot [OF ok]) (use sp in linarith)
  have tl: "\<not> too_large (status_word n) (sizeof_metadata + record_bytes key val)"
    by (subst too_large_iff [OF ok]) (use sp in \<open>simp_all add: bz_sizes\<close>)
  have v: "\<not> visible (unpack_md 0)" "total_len (unpack_md 0) = 0" by (simp_all add: unpack_md_def)
  have "bz_MwCAS tid [(StatusLoc leaf, pack_sw (status_word n), pack_sw sw),
      (nmd_loc leaf (recs n), pack_md (body_md (body n) (recs n)), pack_md md)] w =
    Done True (upd_heap (set_node leaf (n\<lparr>status_word := sw, body := patch (8 * recs n) (word_bytes (pack_md md)) (body n)\<rparr>)) w)"
    by (rule cas_leaf [OF w nd al]) (use b in \<open>simp_all add: sw_def md_def v md0\<close>)
  then show ?thesis
    using nd tl b v(1) unfolding md0 by (simp add: read_nmd_def md0 sw_def md_def Let_def)
qed

lemma publish_ok:
  assumes w: "bz_in tid w" and nd: "nodes (heap w) leaf = Some n" and al: "unat leaf mod 8 = 0"
    and ar: "area_ok (recs n) lo (body n)" and lo: "lo + blk n = 240 + record_bytes key val" and bl: "blk n \<le> 240"
    and rc: "0 < recs n" "8 * recs n + record_bytes key val \<le> lo" and nf: "\<not> frozen (status_word n)"
    and fr: "\<not> visible (body_md (body n) (recs n - 1))" "unat (total_len (body_md (body n) (recs n - 1))) < 2 ^ 13"
    and del: "del n < 2 ^ 19"
  shows "\<exists>n'. publish tid leaf key val w = Done True (upd_heap (set_node leaf n') w) \<and> status_word n' = status_word n \<and>
    area_ok (recs n) (240 - blk n) (body n') \<and>
    area_slots (recs n) (body n') = (area_slots (recs n) (body n))[recs n - 1 := Some (cbytes key, cbytes val)]"
proof -
  let ?R = "record_bytes key val"
  define i where "i = recs n - 1"
  define lo' where "lo' = 240 - blk n"
  have b: "lo' + ?R = lo" "lo \<le> 240" "length (body n) = 240" "?R \<le> 240" "blk n \<le> 240" "8 * recs n \<le> lo'"
    using lo ar rc bl by (simp_all add: lo'_def area_ok_def bz_sizes)
  have "record_count (status_word n) \<noteq> 0" using rc(1) by auto
  then have i: "unat (record_count (status_word n) - 1) = i" "i < recs n" "8 * i + 8 \<le> lo'"
    using rc(1) b(6) unat_pred_eq [of "record_count (status_word n)"] unfolding i_def by (simp, linarith+)
  define md where "md = (body_md (body n) i)\<lparr>offset := ucast (of_nat sizeof_body - ucast (block_size (status_word n)) :: u64),
      key_len := of_nat (length key + 1), total_len := of_nat ?R\<rparr>"
  have "(of_nat sizeof_body - ucast (block_size (status_word n)) :: u64) = of_nat lo'"
    using body_end [OF b(5)] by (simp add: lo'_def)
  then have off: "unat (offset md) = lo'"
    unfolding md_def using b(2,1) by (simp add: unsigned_of_nat take_bit_nat_eq_self)
  have kl: "unat (key_len md) = length key + 1" "unat (total_len md) = ?R"
    unfolding md_def using b(4) by (simp_all add: unat_of_nat record_bytes_def del: of_nat_Suc of_nat_add)
  define n2 where "n2 = n\<lparr>body := patch lo' (cbytes key @ cbytes val) (body n)\<rparr>"
  have cp: "copy_record leaf md key val w = Done () (upd_heap (set_node leaf n2) w)"
    unfolding n2_def off [symmetric] by (rule copy_record_ok [OF nd kl(1)]) (use b off in simp)
  have len: "length (cbytes key @ cbytes val) = ?R" by (simp add: record_bytes_def)
  note d = area_write_data [OF ar, of lo' "cbytes key @ cbytes val", unfolded len, OF b(1,6)]
  have md2: "body_md (body n2) i = body_md (body n) i" using d(3) [OF i(2)] by (simp add: n2_def)
  define md' where "md' = md\<lparr>visible := True\<rparr>"
  define n3 where "n3 = n2\<lparr>status_word := status_word n2, body := patch (8 * i) (word_bytes (pack_md md')) (body n2)\<rparr>"
  have n2: "status_word n2 = status_word n" "length (body n2) = 240" using b len by (simp_all add: n2_def)
  have "bz_MwCAS tid [(StatusLoc leaf, pack_sw (status_word n2), pack_sw (status_word n2)),
      (nmd_loc leaf i, pack_md (body_md (body n2) i), pack_md md')] (upd_heap (set_node leaf n2) w) =
    Done True (upd_heap (set_node leaf n3) (upd_heap (set_node leaf n2) w))"
    unfolding n3_def
    by (rule cas_leaf) (use w al b i n2 del fr [folded i_def] kl(2) in \<open>simp_all add: md2 md'_def\<close>)
  moreover have "publish tid leaf key val w = zbind (copy_record leaf md key val)
      (\<lambda>_. bz_MwCAS tid [(StatusLoc leaf, pack_sw (status_word n), pack_sw (status_word n)),
         (nmd_loc leaf i, pack_md (body_md (body n) i), pack_md md')]) w"
    using i b nf by (simp add: publish_def nd Let_def read_nmd_def i(1) md'_def md_def)
  ultimately have run: "publish tid leaf key val w = Done True (upd_heap (set_node leaf n3) w)"
    unfolding md2 n2(1) using cp by simp
  have "md_kv (body n2) md' = (cbytes key, cbytes val)"
    unfolding n2_def by (simp, rule md_kv_written) (use b off kl len in \<open>simp_all add: md'_def record_bytes_def\<close>)
  then have so: "slot_of (body n2) md' = Some (cbytes key, cbytes val)" by (simp add: slot_of_def md'_def)
  have "md_in lo' md'" using off kl b by (simp add: md_in_def md'_def bz_sizes word_le_nat_alt record_bytes_def)
  then have "area_ok (recs n) lo' (body n3)"
    "area_slots (recs n) (body n3) = (area_slots (recs n) (body n2))[i := slot_of (body n2) md']"
    using area_set_md [of "recs n" lo' "body n2" i md'] d(1) i(2) by (simp_all add: n3_def n2_def)
  then show ?thesis
    using run d(2) so n2(1) by (auto simp: n3_def n2_def lo'_def i_def)
qed

lemma insert_leaf:
  assumes w: "bz_in tid w" and nd: "nodes (heap w) leaf = Some n" and al: "unat leaf mod 8 = 0" and ok: "node_ok n"
    and nf: "\<not> frozen (status_word n)" and sp: "used n + 8 + record_bytes key val \<le> 240"
  shows "\<exists>w1 n'. reserve (Suc f) tid leaf key val w = Done () w1 \<and>
    publish tid leaf key val w1 = Done True (upd_heap (set_node leaf n') w) \<and> inserted n (cbytes key, cbytes val) n'"
proof -
  let ?R = "record_bytes key val"
  define sw where "sw = (status_word n)\<lparr>block_size := block_size (status_word n) + of_nat ?R,
      record_count := record_count (status_word n) + 1\<rparr>"
  define md where "md = (unpack_md 0)\<lparr>offset := ucast (global_epoch w OR GLOBAL_EPOCH_OFFSET_BIT)\<rparr>"
  define n1 where "n1 = n\<lparr>status_word := sw, body := patch (8 * recs n) (word_bytes (pack_md md)) (body n)\<rparr>"
  have b: "8 * recs n + blk n + 8 + ?R \<le> 240" "del n \<le> 240" "length (body n) = 240"
    using sp node_ok_bounds [OF ok] by (simp_all add: used_def bz_sizes)
  have r: "reserve (Suc f) tid leaf key val w = Done () (upd_heap (set_node leaf n1) w)"
    unfolding n1_def sw_def md_def by (rule reserve_ok [OF w nd al ok sp])
  have v: "\<not> visible md" "total_len md = 0" by (simp_all add: md_def unpack_md_def)
  have n1: "recs n1 = Suc (recs n)" "blk n1 = blk n + ?R" "del n1 = del n" "frozen (status_word n1) = frozen (status_word n)"
    using b unat_plus_of_nat [of "block_size (status_word n)" ?R] unat_suc_eq [of "record_count (status_word n)"]
    by (simp_all add: n1_def sw_def)
  have a: "area_ok (Suc (recs n)) (240 - blk n) (body n1)" "area_slots (Suc (recs n)) (body n1) = slots n @ [None]"
    using area_add_md [OF node_area [OF ok], of md] b v by (simp_all add: n1_def slots_def slot_of_def)
  have m1: "body_md (body n1) (recs n) = md"
    using body_md_patch_word [of "recs n" "body n" "pack_md md" "recs n"] b
    by (simp add: n1_def unpack_pack_md)
  have lo: "240 - blk n + blk n1 = 240 + ?R" using b n1(2) by simp
  have "\<exists>n'. publish tid leaf key val (upd_heap (set_node leaf n1) w) =
      Done True (upd_heap (set_node leaf n') (upd_heap (set_node leaf n1) w)) \<and> status_word n' = status_word n1 \<and>
    area_ok (recs n1) (240 - blk n1) (body n') \<and>
    area_slots (recs n1) (body n') = (area_slots (recs n1) (body n1))[recs n1 - 1 := Some (cbytes key, cbytes val)]"
    by (rule publish_ok [where lo = "240 - blk n"]) (use w al a(1) b n1 lo nf v in \<open>simp_all add: m1\<close>)
  then obtain n' where p: "publish tid leaf key val (upd_heap (set_node leaf n1) w) = Done True (upd_heap (set_node leaf n') w)"
    and n': "status_word n' = status_word n1" "area_ok (recs n') (240 - blk n') (body n')"
    "slots n' = slots n @ [Some (cbytes key, cbytes val)]"
    using a(2) by (auto simp: n1(1) slots_def list_update_append)
  have u: "used n' = used n + 8 + ?R" unfolding used_def n'(1) n1 by (simp add: bz_sizes)
  have "node_ok n'"
    by (rule node_okI [OF n'(2)])
      (use b n1 n'(1) u ok in \<open>simp_all add: kvs_def n'(3) kv_space_cbytes node_ok_def\<close>)
  then have "inserted n (cbytes key, cbytes val) n'"
    using n'(1,3) n1 u by (simp add: inserted_def kv_space_cbytes)
  then show ?thesis using r p by blast
qed

section \<open>Deletion\<close>

definition erased :: "node \<Rightarrow> nat \<Rightarrow> node \<Rightarrow> bool" where
  "erased n i n' \<longleftrightarrow> node_ok n' \<and> slots n' = (slots n)[i := None] \<and> frozen (status_word n') = frozen (status_word n) \<and>
     used n' = used n"

lemma erase_leaf:
  assumes w: "bz_in tid w" and nd: "nodes (heap w) leaf = Some n" and al: "unat leaf mod 8 = 0" and ok: "node_ok n"
    and i: "i < recs n" and sl: "slots n ! i = Some p"
  defines "md \<equiv> (body_md (body n) i)\<lparr>offset := 0, visible := False\<rparr>"
  defines "sw \<equiv> (status_word n)\<lparr>delete_size := delete_size (status_word n) + ucast (total_len md) + of_nat sizeof_metadata\<rparr>"
  shows "\<exists>n'. bz_MwCAS tid [(StatusLoc leaf, pack_sw (status_word n), pack_sw sw),
      (nmd_loc leaf i, pack_md (body_md (body n) i), pack_md md)] w = Done True (upd_heap (set_node leaf n') w) \<and> erased n i n'"
proof -
  let ?m = "body_md (body n) i"
  note s = slot_visible [OF ok i sl] and b = node_ok_bounds [OF ok]
  define n' where "n' = n\<lparr>status_word := sw, body := patch (8 * i) (word_bytes (pack_md md)) (body n)\<rparr>"
  have "unat (ucast (total_len ?m) :: 22 word) = unat (total_len ?m)" by (rule ucast_small) (use s(5) in simp)
  then have "(ucast (total_len ?m) :: 22 word) = of_nat (unat (total_len ?m))" by simp
  then have "delete_size sw = delete_size (status_word n) + of_nat (unat (total_len ?m) + 8)"
    by (simp add: sw_def md_def bz_sizes)
  moreover have "unat (delete_size (status_word n) + of_nat (unat (total_len ?m) + 8)) = del n + (unat (total_len ?m) + 8)"
    by (rule unat_plus_of_nat) (use b(2) s(5) in simp)
  ultimately have ds: "unat (delete_size sw) = del n + kv_space p" using s(3) by (simp add: kv_space_def bz_sizes)
  have kv: "kv_space p \<le> 248" using s(3,5) by (simp add: kv_space_def bz_sizes)
  have "bz_MwCAS tid [(StatusLoc leaf, pack_sw (status_word n), pack_sw sw),
      (nmd_loc leaf i, pack_md ?m, pack_md md)] w = Done True (upd_heap (set_node leaf n') w)"
    unfolding n'_def by (rule cas_leaf [OF w nd al]) (use b i ds kv s(5) in \<open>simp_all add: md_def\<close>)
  moreover have "erased n i n'"
  proof -
    have n': "recs n' = recs n" "blk n' = blk n" "del n' = del n + kv_space p" "frozen (status_word n') = frozen (status_word n)"
      using ds by (simp_all add: n'_def) (simp_all add: sw_def)
    have a: "area_ok (recs n) (240 - blk n) (body n')" "slots n' = (slots n)[i := None]"
      using area_set_md [OF node_area [OF ok] i, of md] n' by (simp_all add: n'_def slots_def slot_of_def md_def)
    have "space (kvs n) = space (kvs n') + kv_space p"
      unfolding nth_slots_kvs [OF i] kvs_def [of n'] a(2) using somes_update(1) [of i "slots n" None] i sl by simp
    moreover have u: "used n' = used n" unfolding used_def n' ..
    ultimately have "node_ok n'"
      using a(1) n' ok by (intro node_okI) (simp_all add: node_ok_def bz_sizes)
    then show ?thesis using a(2) n' u by (simp add: erased_def)
  qed
  ultimately show ?thesis by blast
qed

section \<open>Update\<close>

definition updated :: "node \<Rightarrow> nat \<Rightarrow> kv \<Rightarrow> node \<Rightarrow> bool" where
  "updated n i p n' \<longleftrightarrow> node_ok n' \<and> slots n' = (slots n)[i := Some p] \<and> frozen (status_word n') = frozen (status_word n) \<and>
     used n' + sizeof_metadata = used n + kv_space p"

lemma unat_delete_add:
  fixes d :: "22 word" and t :: u16
  assumes "unat d \<le> 240" and "unat t \<le> 240"
  shows "unat (d + ucast t) = unat d + unat t"
proof -
  have "unat (ucast t :: 22 word) = unat t" by (rule ucast_small) (use assms in simp)
  then have "d + ucast t = d + of_nat (unat t)" by simp
  also have "unat \<dots> = unat d + unat t" by (rule unat_plus_of_nat) (use assms in simp)
  finally show ?thesis .
qed

lemma update_leaf:
  assumes w: "bz_in tid w" and nd: "nodes (heap w) leaf = Some n" and al: "unat leaf mod 8 = 0" and ok: "node_ok n"
    and nf: "\<not> frozen (status_word n)" and i: "i < recs n" and sl: "slots n ! i = Some (cbytes key, v0)"
    and sp: "used n + record_bytes key val \<le> 240"
  shows "\<exists>n'. update_loop (Suc f) tid leaf i key val w =
      zbind (bz_Unprotect tid) (\<lambda>_. zret (Some True)) (upd_heap (set_node leaf n') w) \<and> updated n i (cbytes key, cbytes val) n'"
proof -
  let ?R = "record_bytes key val" and ?m = "body_md (body n) i" and ?s = "status_word n"
  note s = slot_visible [OF ok i sl] and b = node_ok_bounds [OF ok]
  define lo where "lo = 240 - blk n - ?R"
  define sw where "sw = ?s\<lparr>block_size := block_size ?s + of_nat ?R\<rparr>"
  define sw' where "sw' = sw\<lparr>delete_size := delete_size sw + ucast (total_len ?m)\<rparr>"
  define md0 where "md0 = ?m\<lparr>offset := ucast (of_nat sizeof_body - ucast (block_size sw) :: u64)\<rparr>"
  define md where "md = md0\<lparr>total_len := of_nat ?R\<rparr>"
  have bl: "blk n + ?R + 8 * recs n \<le> 240" using sp by (simp add: used_def bz_sizes)
  have bs: "unat (block_size sw) = blk n + ?R"
    using bl unat_plus_of_nat [of "block_size ?s" ?R] by (simp add: sw_def)
  have lo: "lo + ?R = 240 - blk n" "8 * recs n \<le> lo" "lo \<le> 240" "240 - (blk n + ?R) = lo"
    using bl by (simp_all add: lo_def)
  have "(of_nat sizeof_body - ucast (block_size sw) :: u64) = of_nat lo"
    using body_end [of "block_size sw"] bl lo(4) unfolding bs by simp
  then have off: "unat (offset md) = lo"
    unfolding md_def md0_def using lo(3) by (simp add: unsigned_of_nat take_bit_nat_eq_self)
  have kl: "unat (key_len md) = length key + 1" "unat (total_len md) = ?R"
    using s(4) bl by (simp_all add: md_def md0_def unat_of_nat)
  define n1 where "n1 = n\<lparr>status_word := sw\<rparr>"
  define n2 where "n2 = n1\<lparr>body := patch lo (cbytes key @ cbytes val) (body n1)\<rparr>"
  define n3 where "n3 = n2\<lparr>status_word := sw', body := patch (8 * i) (word_bytes (pack_md md)) (body n2)\<rparr>"
  have c1: "bz_MwCAS tid [(StatusLoc leaf, pack_sw ?s, pack_sw sw)] w = Done True (upd_heap (set_node leaf n1) w)"
    unfolding n1_def by (rule cas_status [OF w nd al]) (use b in \<open>simp_all add: sw_def\<close>)
  have c2: "copy_record leaf md key val (upd_heap (set_node leaf n1) w) = Done () (upd_heap (set_node leaf n2) w)"
    using copy_record_ok [of "upd_heap (set_node leaf n1) w" leaf n1 md key val] kl lo b off
    by (simp add: n2_def n1_def)
  have len: "length (cbytes key @ cbytes val) = ?R" by (simp add: record_bytes_def)
  note d = area_write_data [OF node_area [OF ok], of lo "cbytes key @ cbytes val", unfolded len, OF lo(1,2)]
  have md2: "body_md (body n2) i = ?m" "length (body n2) = 240" "status_word n2 = sw"
    using d(3) [OF i] b(4) lo len by (simp_all add: n2_def n1_def)
  have ds: "unat (delete_size sw') = del n + unat (total_len ?m)" "unat (delete_size sw) = del n"
    using unat_delete_add [OF b(2) s(5)] by (simp_all add: sw'_def sw_def)
  have c3: "bz_MwCAS tid [(StatusLoc leaf, pack_sw sw, pack_sw sw'), (nmd_loc leaf i, pack_md ?m, pack_md md)]
      (upd_heap (set_node leaf n2) w) = Done True (upd_heap (set_node leaf n3) w)"
    using cas_leaf [of tid "upd_heap (set_node leaf n2) w" leaf n2 i sw' md] w al md2 i b ds s(5) kl(2) lo
    by (simp add: n3_def)
  have tl: "\<not> too_large ?s ?R" by (subst too_large_iff [OF ok]) (use sp in simp_all)
  have "update_loop (Suc f) tid leaf i key val w =
      zbind (bz_Unprotect tid) (\<lambda>_. zret (Some True)) (upd_heap (set_node leaf n3) w)"
    using nd i b s(1,4) nf tl c1 c2 c3
    by (simp add: read_nmd_def Let_def sw_def [symmetric] sw'_def [symmetric] md0_def [symmetric] md_def [symmetric])
      (simp add: md0_def)
  moreover have "updated n i (cbytes key, cbytes val) n3"
  proof -
    have "md_kv (body n2) md = (cbytes key, cbytes val)"
      unfolding n2_def n1_def by (simp, rule md_kv_written) (use b off kl lo in \<open>simp_all add: record_bytes_def\<close>)
    then have so: "slot_of (body n2) md = Some (cbytes key, cbytes val)"
      using s(1) by (simp add: slot_of_def md_def md0_def)
    have "md_in lo md" using off kl lo by (simp add: md_in_def bz_sizes word_le_nat_alt record_bytes_def)
    then have a: "area_ok (recs n) lo (body n3)" "area_slots (recs n) (body n3) = (slots n)[i := Some (cbytes key, cbytes val)]"
      using area_set_md [of "recs n" lo "body n2" i md] d(1,2) i so by (simp_all add: n3_def n2_def n1_def slots_def)
    have n3: "recs n3 = recs n" "blk n3 = blk n + ?R" "del n3 = del n + unat (total_len ?m)"
      "frozen (status_word n3) = frozen ?s"
      using ds bs by (simp_all add: n3_def) (simp_all add: sw'_def sw_def)
    have sl3: "slots n3 = (slots n)[i := Some (cbytes key, cbytes val)]" using a(2) n3 by (simp add: slots_def)
    have "space (kvs n3) + kv_space (cbytes key, v0) = space (kvs n) + kv_space (cbytes key, cbytes val)"
      unfolding nth_slots_kvs [OF i] kvs_def [of n3] sl3
      using somes_update(1) [of i "slots n" "Some (cbytes key, cbytes val)"] i sl by simp
    moreover have "unat (total_len ?m) + 8 = kv_space (cbytes key, v0)" using s(3) by (simp add: kv_space_def bz_sizes)
    moreover have u: "used n3 = used n + ?R" unfolding used_def n3 by simp
    ultimately have "node_ok n3"
      using a(1) n3 ok bl lo(4) by (intro node_okI) (simp_all add: node_ok_def kv_space_cbytes)
    then show ?thesis using sl3 n3 u by (simp add: updated_def kv_space_cbytes bz_sizes)
  qed
  ultimately show ?thesis by blast
qed

end
