(* ===== verification/BzPath.thy ===== *)
theory BzPath
  imports BzLeaf
begin

text \<open>
  The tree in the heap: well-formed leaves and inner nodes, the key ranges that the separators of inner nodes
  assign to their children, the contents of a tree as the list of all records of its leaves, and the descent to
  the leaf of a key.
\<close>

section \<open>Leaves and inner nodes\<close>

definition node_keys :: "node \<Rightarrow> string list" where
  "node_keys n = map fst (kvs n)"

definition leaf_ok :: "node \<Rightarrow> bool" where
  "leaf_ok n \<longleftrightarrow> node_ok n \<and> distinct (node_keys n) \<and> (\<forall>p \<in> set (kvs n). c_string (fst p) \<and> c_string (snd p))"

definition inner_ok :: "node \<Rightarrow> bool" where
  "inner_ok n \<longleftrightarrow> node_ok n \<and> slots n = map Some (kvs n) \<and> kvs n \<noteq> [] \<and> sorted_wrt (<) (node_keys n) \<and>
     (\<forall>p \<in> set (kvs n). c_string (fst p) \<and> length (snd p) = 8)"

definition child_of :: "node \<Rightarrow> nat \<Rightarrow> u64" where
  "child_of n j = bytes_word (snd (kvs n ! j))"

text \<open>The child for a key: the first whose separator is not smaller, or the last.\<close>

definition route :: "string list \<Rightarrow> string \<Rightarrow> nat" where
  "route ks k = (let i = length (takeWhile (\<lambda>x. x < k) ks) in if i = length ks then i - 1 else i)"

lemma route_less: "ks \<noteq> [] \<Longrightarrow> route ks k < length ks"
  using length_takeWhile_le [of "\<lambda>x. x < k" ks] by (cases "ks = []") (auto simp: route_def Let_def)

lemma inner_recs: "inner_ok n \<Longrightarrow> recs n = length (kvs n)"
  using length_slots [of n] by (auto simp: inner_ok_def simp del: length_slots)

lemma inner_slot: "inner_ok n \<Longrightarrow> i < length (kvs n) \<Longrightarrow> slots n ! i = Some (kvs n ! i)"
  by (simp add: inner_ok_def)

lemma child_scan_ok:
  assumes n: "inner_ok n" and k: "NUL \<notin> set key" and "a \<le> length (kvs n)"
  shows "child_scan (body n) key [a..<length (kvs n)] (length (kvs n)) =
    Inr (a + length (takeWhile (\<lambda>x. x < cbytes key) (drop a (node_keys n))))"
  using assms(3)
proof (induction "length (kvs n) - a" arbitrary: a)
  case 0
  then show ?case by (simp add: node_keys_def)
next
  case (Suc d)
  then have a: "a < length (kvs n)" by simp
  have ok: "node_ok n" using n by (simp add: inner_ok_def)
  obtain k' v where p: "kvs n ! a = (k', v)" by force
  have kv: "c_string k'" "length v = 8" using n nth_mem [OF a] unfolding inner_ok_def p by fastforce+
  have ra: "a < recs n" using a inner_recs [OF n] by simp
  have sl: "slots n ! a = Some (k', v)" using inner_slot [OF n a] p by simp
  note s = slot_visible [OF ok ra sl]
  have dr: "drop a (node_keys n) = k' # drop (Suc a) (node_keys n)"
    using a p by (simp add: node_keys_def Cons_nth_drop_Suc [symmetric])
  have up: "[a..<length (kvs n)] = a # [Suc a..<length (kvs n)]" using a by (rule upt_conv_Cons)
  have cmp: "strcmp (drop (unat (offset (body_md (body n) a))) (body n)) (cbytes key) =
    Inr (if k' < cbytes key then - 1 else if cbytes key < k' then 1 else 0)"
    by (rule strcmp_record [OF ok ra sl kv(1) k])
  have IH: "child_scan (body n) key [Suc a..<length (kvs n)] (length (kvs n)) =
    Inr (Suc a + length (takeWhile (\<lambda>x. x < cbytes key) (drop (Suc a) (node_keys n))))"
    by (rule Suc.hyps(1)) (use Suc a in auto)
  show ?case
    using IH s(3,4) kv(2) cmp unfolding up dr by (simp add: read_nmd_ok [OF ok ra])
qed

lemma child_index_ok:
  assumes "inner_ok n" and "NUL \<notin> set key"
  shows "child_index n key = Inr (route (node_keys n) (cbytes key))"
proof -
  let ?l = "length (takeWhile (\<lambda>x. x < cbytes key) (node_keys n))"
  have ne: "0 < length (kvs n)" using assms(1) by (simp add: inner_ok_def)
  have b: "length (kvs n) \<le> 30"
    using node_ok_bounds(1) [of n] assms(1) inner_recs [OF assms(1)] by (simp add: inner_ok_def)
  have m1: "unat (of_nat (length (kvs n)) - 1 :: u16) = length (kvs n) - 1"
  proof -
    have "(of_nat (length (kvs n)) - 1 :: u16) = of_nat (length (kvs n) - 1)" using of_nat_diff [of 1 "length (kvs n)", where 'a = u16] ne by (simp add: Suc_le_eq)
    then show ?thesis using b by (simp add: unat_of_nat)
  qed
  then show ?thesis
    using child_scan_ok [OF assms, of 0] unfolding child_index_def inner_recs [OF assms(1)]
    by (simp add: Let_def route_def node_keys_def)
qed

lemma child_ptr_ok:
  assumes "inner_ok n" and "i < length (kvs n)"
  shows "child_ptr n i = Inr (child_of n i)"
    and "\<exists>pos. ptr_pos n i = Inr pos \<and> pos + 8 \<le> length (body n) \<and> take 8 (drop pos (body n)) = snd (kvs n ! i) \<and>
      8 * recs n \<le> pos"
proof -
  have ok: "node_ok n" using assms(1) by (simp add: inner_ok_def)
  have ri: "i < recs n" using assms inner_recs by simp
  have l: "length (snd (kvs n ! i)) = 8" using assms nth_mem by (auto simp: inner_ok_def)
  let ?m = "body_md (body n) i"
  note s = slot_visible [OF ok ri inner_slot [OF assms]] and b = node_ok_bounds [OF ok]
  have m: "unat (offset ?m) + unat (total_len ?m) \<le> 240" "240 - blk n \<le> unat (offset ?m)"
    using s(2) by (simp_all add: md_in_def bz_sizes)
  have pos: "ptr_pos n i = Inr (unat (offset ?m) + unat (key_len ?m))" by (simp add: ptr_pos_def read_nmd_ok [OF ok ri])
  moreover have t: "take 8 (drop (unat (offset ?m) + unat (key_len ?m)) (body n)) = snd (kvs n ! i)"
    using arg_cong [OF s(6), of snd] s(3,4) l by (simp add: md_kv_def Let_def)
  ultimately show "child_ptr n i = Inr (child_of n i)"
    using s(3,4) l b m by (simp add: child_ptr_def child_of_def)
  show "\<exists>pos. ptr_pos n i = Inr pos \<and> pos + 8 \<le> length (body n) \<and> take 8 (drop pos (body n)) = snd (kvs n ! i) \<and>
      8 * recs n \<le> pos"
    using pos t s(3,4) l b m by auto
qed

section \<open>Trees\<close>

definition ptr_ok :: "u64 \<Rightarrow> bool" where
  "ptr_ok p \<longleftrightarrow> p \<noteq> 0 \<and> unat p mod 8 = 0 \<and> IsCleanPtr p"

definition live_node :: "(u64 \<rightharpoonup> node) \<Rightarrow> u64 \<Rightarrow> node \<Rightarrow> bool" where
  "live_node N p n \<longleftrightarrow> N p = Some n \<and> ptr_ok p \<and> \<not> frozen (status_word n)"

text \<open>\<open>tree N h p I\<close>: at \<open>p\<close> there is a tree with \<open>h\<close> levels of inner nodes, all of whose keys satisfy \<open>I\<close>.\<close>

fun tree :: "(u64 \<rightharpoonup> node) \<Rightarrow> nat \<Rightarrow> u64 \<Rightarrow> (string \<Rightarrow> bool) \<Rightarrow> bool" where
  "tree N 0 p I \<longleftrightarrow> (\<exists>n. live_node N p n \<and> leaf_ok n \<and> (\<forall>q \<in> set (kvs n). I (fst q)))"
| "tree N (Suc h) p I \<longleftrightarrow> (\<exists>n. live_node N p n \<and> inner_ok n \<and>
     (\<forall>j < length (kvs n). tree N h (child_of n j) (\<lambda>k. I k \<and> route (node_keys n) k = j)))"

fun tree_nodes :: "(u64 \<rightharpoonup> node) \<Rightarrow> nat \<Rightarrow> u64 \<Rightarrow> u64 list" where
  "tree_nodes N 0 p = [p]"
| "tree_nodes N (Suc h) p = p # concat (map (\<lambda>j. tree_nodes N h (child_of (the (N p)) j)) [0..<length (kvs (the (N p)))])"

fun tree_kvs :: "(u64 \<rightharpoonup> node) \<Rightarrow> nat \<Rightarrow> u64 \<Rightarrow> kv list" where
  "tree_kvs N 0 p = kvs (the (N p))"
| "tree_kvs N (Suc h) p = concat (map (\<lambda>j. tree_kvs N h (child_of (the (N p)) j)) [0..<length (kvs (the (N p)))])"

text \<open>The leaf of a key and its parent.\<close>

fun leaf_for :: "(u64 \<rightharpoonup> node) \<Rightarrow> nat \<Rightarrow> u64 \<Rightarrow> string \<Rightarrow> u64" where
  "leaf_for N 0 p k = p"
| "leaf_for N (Suc h) p k = leaf_for N h (child_of (the (N p)) (route (node_keys (the (N p))) k)) k"

lemma tree_live: "tree N h p I \<Longrightarrow> \<exists>n. live_node N p n \<and> node_ok n"
  by (cases h) (auto simp: leaf_ok_def inner_ok_def)

lemma tree_mono: "tree N h p I \<Longrightarrow> (\<And>k. I k \<Longrightarrow> J k) \<Longrightarrow> tree N h p J"
proof (induction h arbitrary: p I J)
  case (Suc h)
  then obtain n where n: "live_node N p n" "inner_ok n"
    "\<And>j. j < length (kvs n) \<Longrightarrow> tree N h (child_of n j) (\<lambda>k. I k \<and> route (node_keys n) k = j)" by auto
  have "tree N h (child_of n j) (\<lambda>k. J k \<and> route (node_keys n) k = j)" if "j < length (kvs n)" for j
    by (rule Suc.IH [OF n(3) [OF that]]) (use Suc.prems(2) in auto)
  then show ?case using n(1,2) by auto
qed auto

lemma tree_keys: "tree N h p I \<Longrightarrow> q \<in> set (tree_kvs N h p) \<Longrightarrow> I (fst q) \<and> c_string (fst q) \<and> c_string (snd q)"
proof (induction h arbitrary: p I)
  case 0
  then show ?case by (auto simp: live_node_def leaf_ok_def)
next
  case (Suc h)
  then obtain n where n: "N p = Some n" "\<And>j. j < length (kvs n) \<Longrightarrow>
    tree N h (child_of n j) (\<lambda>k. I k \<and> route (node_keys n) k = j)" by (auto simp: live_node_def)
  obtain j where j: "j < length (kvs n)" "q \<in> set (tree_kvs N h (child_of n j))" using Suc.prems(2) n(1) by auto
  show ?case using Suc.IH [OF n(2) [OF j(1)] j(2)] by simp
qed

lemma tree_in_route:
  assumes "tree N (Suc h) p I" and "N p = Some n" and "j < length (kvs n)" and "q \<in> set (tree_kvs N h (child_of n j))"
  shows "route (node_keys n) (fst q) = j"
proof -
  have "tree N h (child_of n j) (\<lambda>k. I k \<and> route (node_keys n) k = j)"
    using assms(1-3) by (auto simp: live_node_def)
  from tree_keys [OF this assms(4)] show ?thesis by simp
qed

lemma map_of_concat:
  assumes "j < m" and "\<And>i. i < m \<Longrightarrow> i \<noteq> j \<Longrightarrow> k \<notin> fst ` set (f i)"
  shows "map_of (concat (map f [0..<m])) k = map_of (f j) k"
proof -
  have none: "map_of (concat (map f xs)) k = None" if "set xs \<subseteq> {..<m} - {j}" for xs
    using that assms(2) by (auto simp: map_of_eq_None_iff)
  have "[0..<m] = [0..<j] @ j # [Suc j..<m]" 
    using upt_add_eq_append [of 0 j "m - j"] assms(1) by (simp add: upt_conv_Cons)
  moreover have "map_of (concat (map f [0..<j])) k = None" "map_of (concat (map f [Suc j..<m])) k = None"
    using assms(1) by (intro none; auto)+
  ultimately show ?thesis by (simp add: map_of_append map_add_def split: option.split)
qed

lemma tree_map_inner:
  assumes t: "tree N (Suc h) p I" and n: "N p = Some n"
  shows "map_of (tree_kvs N (Suc h) p) k = map_of (tree_kvs N h (child_of n (route (node_keys n) k))) k"
proof -
  have "node_keys n \<noteq> []" using t n by (auto simp: live_node_def inner_ok_def node_keys_def)
  then have "route (node_keys n) k < length (kvs n)" using route_less [of "node_keys n" k] by (simp add: node_keys_def)
  then show ?thesis
    using n tree_in_route [OF t n] by (simp, intro map_of_concat) auto
qed

text \<open>What the tree says about a key is what the leaf of the key says.\<close>

lemma tree_map_leaf:
  assumes "tree N h p I"
  shows "\<exists>n. live_node N (leaf_for N h p k) n \<and> leaf_ok n \<and> map_of (tree_kvs N h p) k = map_of (kvs n) k \<and>
    leaf_for N h p k \<in> set (tree_nodes N h p)"
  using assms
proof (induction h arbitrary: p I)
  case 0
  then show ?case by (auto simp: live_node_def)
next
  case (Suc h)
  then obtain n where n: "N p = Some n" "inner_ok n" "\<And>j. j < length (kvs n) \<Longrightarrow>
    tree N h (child_of n j) (\<lambda>k. I k \<and> route (node_keys n) k = j)" by (auto simp: live_node_def)
  have j: "route (node_keys n) k < length (kvs n)"
    using route_less [of "node_keys n" k] n(2) by (auto simp: inner_ok_def node_keys_def)
  from Suc.IH [OF n(3) [OF j]] obtain m where
    "live_node N (leaf_for N (Suc h) p k) m" "leaf_ok m" "map_of (tree_kvs N (Suc h) p) k = map_of (kvs m) k"
    "leaf_for N (Suc h) p k \<in> set (tree_nodes N h (child_of n (route (node_keys n) k)))"
    using tree_map_inner [OF Suc.prems n(1)] n(1) by auto
  then show ?case using n(1) j by (intro exI [of _ m]) auto
qed

end
