(* ===== verification/BzSearch.thy ===== *)
theory BzSearch
  imports BzPath
begin

text \<open>
  The descent on a tree in the heap, and what replacing a leaf does to the tree: lookup, deletion, and insertion
  and update where no node on the path needs a structure modification.
\<close>

section \<open>The descent\<close>

text \<open>No structure modification is due at child \<open>i\<close> of an inner node, or anywhere on the path of a key.\<close>

definition calm_child :: "(u64 \<rightharpoonup> node) \<Rightarrow> node \<Rightarrow> nat \<Rightarrow> bool" where
  "calm_child N pn i \<longleftrightarrow> (let sw = (\<lambda>j. status_word (the (N (child_of pn j))))
     in unat (delete_size (sw i)) \<le> BZTREE_MAX_DELETED_SPACE \<and> unat (free_space (sw i)) \<ge> BZTREE_MIN_FREE_SPACE \<and>
        (i > 0 \<longrightarrow> \<not> can_merge (sw i) (sw (i - 1))) \<and> (i + 1 < length (kvs pn) \<longrightarrow> \<not> can_merge (sw i) (sw (i + 1))))"

fun calm_path :: "(u64 \<rightharpoonup> node) \<Rightarrow> nat \<Rightarrow> u64 \<Rightarrow> string \<Rightarrow> bool" where
  "calm_path N 0 p k \<longleftrightarrow> True"
| "calm_path N (Suc h) p k \<longleftrightarrow> (let n = the (N p); i = route (node_keys n) k
     in calm_child N n i \<and> calm_path N h (child_of n i) k)"

lemma merge_sibling_ok:
  assumes "inner_ok pn" and "b \<Longrightarrow> j < length (kvs pn) \<and> live_node (nodes (heap w)) (child_of pn j) cn"
  shows "merge_sibling pn sw b j w =
    Done (if b \<and> can_merge sw (status_word cn) then Some (child_of pn j) else None) w"
  using assms child_ptr_ok(1) [OF assms(1), of j]
  by (cases b) (auto simp: merge_sibling_def live_node_def ptr_ok_def)

declare descend.simps [simp del]

lemma descend_step:
  assumes t: "tree (nodes (heap w)) (Suc h) p I" and pn: "nodes (heap w) p = Some pn" and key: "NUL \<notin> set key"
    and b: "b \<Longrightarrow> calm_child (nodes (heap w)) pn i" and i: "i = route (node_keys pn) (cbytes key)"
  shows "\<exists>pos. descend (Suc n) fuel tid key b gp ptr p w =
    (if n = 0 then Done (Some (child_of pn i, Some p, of_nat i)) w
     else descend n fuel tid key b (Some p) (BodyLoc p pos) (child_of pn i) w)"
proof -
  let ?N = "nodes (heap w)"
  have n: "inner_ok pn" and ch: "\<And>j. j < length (kvs pn) \<Longrightarrow> \<exists>cn. live_node ?N (child_of pn j) cn \<and> node_ok cn"
    using t pn tree_live by (fastforce simp: live_node_def)+
  have il: "i < length (kvs pn)" using route_less [of "node_keys pn" "cbytes key"] n i by (auto simp: inner_ok_def node_keys_def)
  obtain pos where pos: "ptr_pos pn i = Inr pos" using child_ptr_ok(2) [OF n il] by blast
  define nd where "nd j = the (?N (child_of pn j))" for j
  have cn: "live_node ?N (child_of pn j) (nd j)" if "j < length (kvs pn)" for j
    using ch [OF that] by (auto simp: nd_def live_node_def)
  have c: "load_node (child_of pn i) w = Done (nd i) w" using cn [OF il] by (simp add: live_node_def)
  define L where "L = (if i > 0 \<and> can_merge (status_word (nd i)) (status_word (nd (i - 1))) then Some (child_of pn (i - 1)) else None)"
  define R where "R = (if i + 1 < recs pn \<and> can_merge (status_word (nd i)) (status_word (nd (i + 1))) then Some (child_of pn (i + 1)) else None)"
  have sib: "merge_sibling pn (status_word (nd i)) (i > 0) (i - 1) w = Done L w"
    "merge_sibling pn (status_word (nd i)) (i + 1 < recs pn) (i + 1) w = Done R w"
    unfolding L_def R_def using cn il by (intro merge_sibling_ok [OF n]; simp add: inner_recs [OF n])+
  have smo: "(if b then child_smo fuel tid gp ptr p (status_word pn) (BodyLoc p pos) (child_of pn i) (status_word (nd i)) L R
      else zret False) w = Done False w"
    using b inner_recs [OF n] by (auto simp: child_smo_def calm_child_def Let_def nd_def L_def R_def)
  have ci: "child_index pn key = Inr i" using child_index_ok [OF n key] i by simp
  have "descend (Suc n) fuel tid key b gp ptr p w =
    (if n = 0 then Done (Some (child_of pn i, Some p, of_nat i)) w
     else descend n fuel tid key b (Some p) (BodyLoc p pos) (child_of pn i) w)"
    unfolding descend.simps
    using smo pn c sib ci child_ptr_ok(1) [OF n il] pos by (cases b; simp)
  then show ?thesis ..
qed

lemma descend_ok:
  assumes "tree (nodes (heap w)) (Suc h) p I" and "NUL \<notin> set key"
    and "b \<Longrightarrow> calm_path (nodes (heap w)) (Suc h) p (cbytes key)"
  shows "\<exists>q i. descend (Suc h) fuel tid key b gp ptr p w =
    Done (Some (leaf_for (nodes (heap w)) (Suc h) p (cbytes key), Some q, i)) w"
  using assms(1,3)
proof (induction h arbitrary: p I gp ptr)
  case 0
  then obtain pn where pn: "nodes (heap w) p = Some pn" by (auto simp: live_node_def)
  show ?case
    using descend_step [OF 0(1) pn assms(2), where n = 0] 0(2) pn by (auto simp: Let_def)
next
  case (Suc h)
  then obtain pn where pn: "nodes (heap w) p = Some pn" "inner_ok pn" and
    ch: "\<And>j. j < length (kvs pn) \<Longrightarrow> tree (nodes (heap w)) (Suc h) (child_of pn j) (\<lambda>k. I k \<and> route (node_keys pn) k = j)"
    by (auto simp: live_node_def simp del: tree.simps(2)) (auto simp: live_node_def)
  let ?i = "route (node_keys pn) (cbytes key)"
  have il: "?i < length (kvs pn)" using route_less [of "node_keys pn"] pn(2) by (auto simp: inner_ok_def node_keys_def)
  have calm: "b \<Longrightarrow> calm_child (nodes (heap w)) pn ?i" "b \<Longrightarrow> calm_path (nodes (heap w)) (Suc h) (child_of pn ?i) (cbytes key)"
    using Suc.prems(2) pn(1) by (simp_all add: Let_def)
  obtain pos where "descend (Suc (Suc h)) fuel tid key b gp ptr p w =
     descend (Suc h) fuel tid key b (Some p) (BodyLoc p pos) (child_of pn ?i) w"
    using descend_step [OF Suc.prems(1) pn(1) assms(2) calm(1) refl, where n = "Suc h" and b = b and gp = gp and ptr = ptr
        and fuel = fuel and tid = tid] by auto
  then show ?case
    using Suc.IH [OF ch [OF il] calm(2), of "Some p" "BodyLoc p pos"] pn(1) by simp
qed

section \<open>Changing a leaf\<close>

lemma tree_frame:
  assumes "tree N h p I" and "\<And>x. x \<in> set (tree_nodes N h p) \<Longrightarrow> N' x = N x"
  shows "tree N' h p I \<and> tree_nodes N' h p = tree_nodes N h p \<and> tree_kvs N' h p = tree_kvs N h p"
  using assms
proof (induction h arbitrary: p I)
  case 0
  then show ?case by (auto simp: live_node_def)
next
  case (Suc h)
  then obtain n where n: "live_node N p n" "inner_ok n" "\<And>j. j < length (kvs n) \<Longrightarrow>
    tree N h (child_of n j) (\<lambda>k. I k \<and> route (node_keys n) k = j)" by auto
  have p: "N p = Some n" "N' p = Some n" using n(1) Suc.prems(2) [of p] by (auto simp: live_node_def)
  have ch: "tree N' h (child_of n j) (\<lambda>k. I k \<and> route (node_keys n) k = j) \<and>
    tree_nodes N' h (child_of n j) = tree_nodes N h (child_of n j) \<and> tree_kvs N' h (child_of n j) = tree_kvs N h (child_of n j)"
    if j: "j < length (kvs n)" for j
  proof (rule Suc.IH [OF n(3) [OF j]])
    fix x assume "x \<in> set (tree_nodes N h (child_of n j))"
    then have "x \<in> set (tree_nodes N (Suc h) p)" using p(1) j by auto
    then show "N' x = N x" by (rule Suc.prems(2))
  qed
  then have "map (\<lambda>j. tree_nodes N' h (child_of n j)) [0..<length (kvs n)] = map (\<lambda>j. tree_nodes N h (child_of n j)) [0..<length (kvs n)]"
    "map (\<lambda>j. tree_kvs N' h (child_of n j)) [0..<length (kvs n)] = map (\<lambda>j. tree_kvs N h (child_of n j)) [0..<length (kvs n)]"
    by simp_all
  then have "tree_nodes N' (Suc h) p = tree_nodes N (Suc h) p" "tree_kvs N' (Suc h) p = tree_kvs N (Suc h) p"
    by (simp_all only: tree_nodes.simps tree_kvs.simps p option.sel)
  moreover have "tree N' (Suc h) p I" using ch n p by (auto simp: live_node_def)
  ultimately show ?case by blast
qed

lemma distinct_concat_upt:
  assumes "distinct (concat (map f [0..<m]))" and "i < m" and "j < m" and "i \<noteq> j"
  shows "set (f i) \<inter> set (f j) = {}"
proof -
  have *: "x \<in> set (f a) \<Longrightarrow> x \<in> set (f b) \<Longrightarrow> a < b \<Longrightarrow> b < m \<Longrightarrow> False" for x a b
  proof -
    assume x: "x \<in> set (f a)" "x \<in> set (f b)" "a < b" "b < m"
    have "[0..<m] = [0..<b] @ [b..<m]" using upt_add_eq_append [of 0 b "m - b"] x by simp
    then have "set (concat (map f [0..<b])) \<inter> set (concat (map f [b..<m])) = {}" using assms(1) by simp
    moreover have "x \<in> set (concat (map f [0..<b]))" "x \<in> set (concat (map f [b..<m]))" using x by auto
    ultimately show False by blast
  qed
  show ?thesis using * assms(2-4) by (metis disjoint_iff nat_neq_iff)
qed

lemma distinct_concat_nth: "distinct (concat (map f [0..<m])) \<Longrightarrow> j < m \<Longrightarrow> distinct (f j)"
  by (auto simp: distinct_concat_iff)

definition leaf_change :: "string \<Rightarrow> node \<Rightarrow> node \<Rightarrow> bool" where
  "leaf_change k n n' \<longleftrightarrow> leaf_ok n' \<and> \<not> frozen (status_word n') \<and> fst ` set (kvs n') \<subseteq> insert k (fst ` set (kvs n)) \<and>
     (\<forall>x. x \<noteq> k \<longrightarrow> map_of (kvs n') x = map_of (kvs n) x)"

lemma tree_replace_leaf:
  assumes "tree N h p I" and "distinct (tree_nodes N h p)" and "leaf_change k (the (N (leaf_for N h p k))) n'" and "I k"
  defines "N' \<equiv> N(leaf_for N h p k \<mapsto> n')"
  shows "tree N' h p I \<and> tree_nodes N' h p = tree_nodes N h p \<and>
    map_of (tree_kvs N' h p) = (map_of (tree_kvs N h p))(k := map_of (kvs n') k)"
  using assms(1-4) unfolding N'_def
proof (induction h arbitrary: p I)
  case 0
  then obtain n where n: "N p = Some n" "ptr_ok p" "\<And>x. x \<in> fst ` set (kvs n) \<Longrightarrow> I x" by (auto simp: live_node_def)
  have "I (fst q)" if "q \<in> set (kvs n')" for q
  proof -
    have "fst q \<in> insert k (fst ` set (kvs n))" using 0(3) n(1) that by (auto simp: leaf_change_def)
    then show ?thesis using n(3) 0(4) by blast
  qed
  then show ?case using 0(3) n by (auto simp: live_node_def leaf_change_def fun_eq_iff)
next
  case (Suc h)
  let ?q = "leaf_for N (Suc h) p k" and ?N = "N(leaf_for N (Suc h) p k \<mapsto> n')"
  obtain n where n: "live_node N p n" "inner_ok n" and
    ch: "\<And>j. j < length (kvs n) \<Longrightarrow> tree N h (child_of n j) (\<lambda>k. I k \<and> route (node_keys n) k = j)"
    using Suc.prems(1) by auto
  have p: "N p = Some n" using n(1) by (simp add: live_node_def)
  define j where "j = route (node_keys n) k"
  have j: "j < length (kvs n)" using route_less [of "node_keys n" k] n(2) by (auto simp: j_def inner_ok_def node_keys_def)
  have q: "?q = leaf_for N h (child_of n j) k" by (simp add: p j_def)
  have d: "distinct (concat (map (\<lambda>j. tree_nodes N h (child_of n j)) [0..<length (kvs n)]))"
    "p \<notin> set (concat (map (\<lambda>j. tree_nodes N h (child_of n j)) [0..<length (kvs n)]))"
    using Suc.prems(2) p by simp_all
  have qj: "?q \<in> set (tree_nodes N h (child_of n j))" using tree_map_leaf [OF ch [OF j], of k] q by auto
  have pq: "p \<noteq> ?q" using d(2) qj j by auto
  have other: "tree ?N h (child_of n i) (\<lambda>k. I k \<and> route (node_keys n) k = i) \<and>
      tree_nodes ?N h (child_of n i) = tree_nodes N h (child_of n i) \<and> tree_kvs ?N h (child_of n i) = tree_kvs N h (child_of n i)"
    if "i < length (kvs n)" "i \<noteq> j" for i
    by (rule tree_frame [OF ch [OF that(1)]]) (use distinct_concat_upt [OF d(1) that(1) j that(2)] qj in auto)
  have this': "tree ?N h (child_of n j) (\<lambda>k. I k \<and> route (node_keys n) k = j) \<and>
      tree_nodes ?N h (child_of n j) = tree_nodes N h (child_of n j) \<and>
      map_of (tree_kvs ?N h (child_of n j)) = (map_of (tree_kvs N h (child_of n j)))(k := map_of (kvs n') k)"
    unfolding q by (rule Suc.IH [OF ch [OF j] distinct_concat_nth [OF d(1) j]])
      (use Suc.prems(3,4) q in \<open>simp_all add: j_def\<close>)
  have p': "?N p = Some n" using p pq by simp
  have t: "tree ?N (Suc h) p I"
    using other this' n p' by (auto simp: live_node_def)
  have nd: "tree_nodes ?N (Suc h) p = tree_nodes N (Suc h) p"
  proof -
    have "map (\<lambda>j. tree_nodes ?N h (child_of n j)) [0..<length (kvs n)] = map (\<lambda>j. tree_nodes N h (child_of n j)) [0..<length (kvs n)]"
      using other this' by (intro map_cong refl) (metis atLeastLessThan_iff set_upt)
    then show ?thesis by (simp only: tree_nodes.simps p p' option.sel)
  qed
  have "map_of (tree_kvs ?N (Suc h) p) x = ((map_of (tree_kvs N (Suc h) p))(k := map_of (kvs n') k)) x" for x
  proof -
    have r: "route (node_keys n) x < length (kvs n)" using route_less [of "node_keys n" x] n(2) by (auto simp: inner_ok_def node_keys_def)
    show ?thesis
      unfolding tree_map_inner [OF t p'] using tree_map_inner [OF Suc.prems(1) p, of x] other [OF r] this'
      by (cases "route (node_keys n) x = j") (auto simp: j_def)
  qed
  then show ?case using t nd by (simp only: fun_eq_iff) blast
qed

end
