(* ===== verification/BzMap.thy ===== *)
theory BzMap
  imports BzSearch
begin

text \<open>
  The tree as a finite map from strings to strings: what \<open>lookup\<close>, \<open>erase\<close>, \<open>insert\<close> and \<open>update\<close> do to it when they run
  alone, whatever the height of the tree.
\<close>

section \<open>The map of a tree\<close>

definition root_of :: "bz_heap \<Rightarrow> u64" where
  "root_of H = root_node (the (mds H (root_md H)))"

definition bz_tree :: "bz_heap \<Rightarrow> nat \<Rightarrow> bool" where
  "bz_tree H h \<longleftrightarrow> (\<exists>md. root_md H \<noteq> 0 \<and> mds H (root_md H) = Some md \<and> unat (height md) = Suc h \<and>
     tree (nodes H) h (root_node md) (\<lambda>_. True) \<and> distinct (tree_nodes (nodes H) h (root_node md)))"

definition bz_map :: "bz_heap \<Rightarrow> nat \<Rightarrow> string \<Rightarrow> string option" where
  "bz_map H h key = map_option butlast (map_of (tree_kvs (nodes H) h (root_of H)) (cbytes key))"

definition leaf_at :: "bz_heap \<Rightarrow> nat \<Rightarrow> string \<Rightarrow> u64" where
  "leaf_at H h key = leaf_for (nodes H) h (root_of H) (cbytes key)"

text \<open>No structure modification is due for the key.\<close>

definition calm :: "bz_heap \<Rightarrow> nat \<Rightarrow> string \<Rightarrow> bool" where
  "calm H h key \<longleftrightarrow> (let sw = status_word (the (nodes H (root_of H))) in \<not> root_needs_compact sw \<and> \<not> root_needs_split sw) \<and>
     calm_path (nodes H) h (root_of H) (cbytes key)"

lemma bz_treeD:
  assumes "bz_tree H h"
  obtains md where "root_md H \<noteq> 0" "mds H (root_md H) = Some md" "unat (height md) = Suc h" "root_node md = root_of H"
    "tree (nodes H) h (root_of H) (\<lambda>_. True)" "distinct (tree_nodes (nodes H) h (root_of H))"
  using assms by (auto simp: bz_tree_def root_of_def)

lemma find_leaf_parent_ok:
  assumes "bz_tree (heap w) h" and "NUL \<notin> set key" and "b \<Longrightarrow> calm (heap w) h key"
  shows "\<exists>q i. find_leaf_parent (Suc n) (Suc f) tid key b w = Done (leaf_at (heap w) h key, q, i) w"
proof -
  obtain md where md: "root_md (heap w) \<noteq> 0" "mds (heap w) (root_md (heap w)) = Some md" "unat (height md) = Suc h"
    "root_node md = root_of (heap w)" and t: "tree (nodes (heap w)) h (root_of (heap w)) (\<lambda>_. True)"
    using bz_treeD [OF assms(1)] by metis
  obtain rn where rn: "nodes (heap w) (root_of (heap w)) = Some rn" using tree_live [OF t] by (auto simp: live_node_def)
  have smo: "(if b then root_smo (Suc f) tid (root_md (heap w)) else zret False) w = Done False w"
    using md rn assms(3) by (auto simp: root_smo_def calm_def Let_def)
  have gm: "get_metadata w = Done (Some (root_md (heap w))) w" using md(1) by (simp add: get_metadata_def)
  have "\<exists>q i. find_leaf_parent_smo (Suc f) tid key b (Some (root_md (heap w))) w =
      Done (Some (leaf_at (heap w) h key, q, i)) w"
  proof (cases h)
    case 0
    then have "height md = 1" using md(3) by (metis One_nat_def unat_1 word_unat_eq_iff)
    then show ?thesis using smo md 0 by (cases b) (simp_all add: find_leaf_parent_smo_def leaf_at_def)
  next
    case (Suc h')
    have "height md \<noteq> 1" using md(3) Suc by (auto dest: arg_cong [where f = unat])
    moreover have "unat (height md - 1) = Suc h'" using md(3) Suc by (metis One_nat_def diff_Suc_1 unat_eq_zero unat_pred_eq nat.distinct(1))
    moreover obtain q i where "descend (Suc h') (Suc f) tid key b None (MdRootLoc (root_md (heap w))) (root_of (heap w)) w =
        Done (Some (leaf_at (heap w) h key, Some q, i)) w"
      using descend_ok [of w h' "root_of (heap w)" "\<lambda>_. True" key b "Suc f" tid None "MdRootLoc (root_md (heap w))"]
        t assms(2,3) Suc by (auto simp: leaf_at_def calm_def)
    ultimately show ?thesis using smo md by (cases b) (auto simp: find_leaf_parent_smo_def)
  qed
  then show ?thesis using gm by auto
qed

lemma find_leaf_ok:
  assumes "bz_tree (heap w) h" and "NUL \<notin> set key" and "b \<Longrightarrow> calm (heap w) h key"
  shows "find_leaf (Suc f) tid key b w = Done (leaf_at (heap w) h key) w"
  using find_leaf_parent_ok [of w h key b f f tid] assms by (auto simp: find_leaf_def simp del: find_leaf_parent.simps)

text \<open>After a modification of the root the descent starts again.\<close>

lemma find_leaf_retry:
  assumes "root_md (heap w) \<noteq> 0" and "root_smo (Suc (Suc f)) tid (root_md (heap w)) w = Done True w1"
    and "bz_tree (heap w1) h" and "NUL \<notin> set key" and "calm (heap w1) h key"
  shows "find_leaf (Suc (Suc f)) tid key True w = Done (leaf_at (heap w1) h key) w1"
proof -
  obtain q i where "find_leaf_parent (Suc f) (Suc (Suc f)) tid key True w1 = Done (leaf_at (heap w1) h key, q, i) w1"
    using find_leaf_parent_ok [of w1 h key True f "Suc f" tid] assms(3-5) by auto
  then have "find_leaf_parent (Suc (Suc f)) (Suc (Suc f)) tid key True w = Done (leaf_at (heap w1) h key, q, i) w1"
    using assms(1,2) by (subst find_leaf_parent.simps) (simp add: get_metadata_def find_leaf_parent_smo_def del: find_leaf_parent.simps)
  then show ?thesis by (simp add: find_leaf_def)
qed

section \<open>Changes of a leaf as changes of the map\<close>

lemma keys_ok_leaf: "leaf_ok n \<Longrightarrow> keys_ok (kvs n)"
  by (simp add: leaf_ok_def keys_ok_def)

lemma leaf_split:
  assumes "leaf_ok n" and "i < recs n" and "slots n ! i = Some (k, v)"
  obtains A B where "kvs n = A @ (k, v) # B" "\<And>y. somes ((slots n)[i := y]) = A @ somes [y] @ B"
    "k \<notin> fst ` set A" "k \<notin> fst ` set B"
proof (rule that)
  let ?A = "somes (take i (slots n))" and ?B = "somes (drop (Suc i) (slots n))"
  show e: "kvs n = ?A @ (k, v) # ?B" using nth_slots_kvs [OF assms(2)] assms(3) by simp
  show "\<And>y. somes ((slots n)[i := y]) = ?A @ somes [y] @ ?B" using somes_update(1) [of i "slots n"] assms(2) by simp
  show "k \<notin> fst ` set ?A" "k \<notin> fst ` set ?B"
    using assms(1) unfolding leaf_ok_def node_keys_def e by auto
qed

lemma map_of_mid: "k \<notin> fst ` set A \<Longrightarrow> map_of (A @ (k, v) # B) k = Some v"
  "x \<noteq> k \<Longrightarrow> map_of (A @ (k, v) # B) x = map_of (A @ B) x"
  by (induction A) auto

lemma erased_change:
  assumes n: "leaf_ok n" "\<not> frozen (status_word n)" "i < recs n" "slots n ! i = Some (k, v)" and e: "erased n i n'"
  shows "leaf_change k n n'" and "map_of (kvs n') k = None"
proof -
  obtain A B where s: "kvs n = A @ (k, v) # B" "\<And>y. somes ((slots n)[i := y]) = A @ somes [y] @ B"
    "k \<notin> fst ` set A" "k \<notin> fst ` set B" using leaf_split [OF n(1,3,4)] by metis
  have k': "kvs n' = A @ B" using e s(2) [of None] by (simp add: erased_def kvs_def)
  then show "map_of (kvs n') k = None" using s(3,4) by (auto simp: map_of_eq_None_iff)
  have "leaf_ok n'" using n(1) e s(1) k' by (auto simp: leaf_ok_def erased_def node_keys_def)
  then show "leaf_change k n n'"
    using e n(2) by (auto simp: leaf_change_def erased_def s(1) k' map_of_mid(2) simp del: map_of_append)
qed

lemma updated_change:
  assumes n: "leaf_ok n" "\<not> frozen (status_word n)" "i < recs n" "slots n ! i = Some (k, v0)" and u: "updated n i (k, v) n'"
    and v: "c_string v"
  shows "leaf_change k n n'" and "map_of (kvs n') k = Some v"
proof -
  obtain A B where s: "kvs n = A @ (k, v0) # B" "\<And>y. somes ((slots n)[i := y]) = A @ somes [y] @ B"
    "k \<notin> fst ` set A" "k \<notin> fst ` set B" using leaf_split [OF n(1,3,4)] by metis
  have k': "kvs n' = A @ (k, v) # B" using u s(2) [of "Some (k, v)"] by (simp add: updated_def kvs_def)
  then show "map_of (kvs n') k = Some v" using map_of_mid(1) [OF s(3)] by simp
  have "leaf_ok n'" using n(1) u s(1) k' v by (auto simp: leaf_ok_def updated_def node_keys_def)
  then show "leaf_change k n n'"
    using u n(2) by (auto simp: leaf_change_def updated_def s(1) k' map_of_mid(2) simp del: map_of_append)
qed

lemma inserted_change:
  assumes n: "leaf_ok n" "\<not> frozen (status_word n)" "k \<notin> fst ` set (kvs n)" and i: "inserted n (k, v) n'"
    and v: "c_string k" "c_string v"
  shows "leaf_change k n n'" and "map_of (kvs n') k = Some v"
proof -
  have k': "kvs n' = kvs n @ [(k, v)]" using i by (simp add: inserted_def kvs_def)
  then show "map_of (kvs n') k = Some v" using map_of_mid(1) [of k "kvs n" v "[]"] n(3) by simp
  have "leaf_ok n'" using n i k' v by (auto simp: leaf_ok_def inserted_def node_keys_def)
  then show "leaf_change k n n'"
    using i n(2) k' map_of_mid(2) [of _ k "kvs n" v "[]"] by (auto simp: leaf_change_def inserted_def)
qed

text \<open>A changed leaf in the heap.\<close>

lemma bz_tree_change:
  assumes t: "bz_tree H h" and c: "leaf_change (cbytes key) (the (nodes H (leaf_at H h key))) n'"
    and key: "NUL \<notin> set key"
  shows "bz_tree (set_node (leaf_at H h key) n' H) h" and
    "bz_map (set_node (leaf_at H h key) n' H) h = (bz_map H h)(key := map_option butlast (map_of (kvs n') (cbytes key)))"
proof -
  obtain md where md: "root_md H \<noteq> 0" "mds H (root_md H) = Some md" "unat (height md) = Suc h" "root_node md = root_of H"
    and tr: "tree (nodes H) h (root_of H) (\<lambda>_. True)" "distinct (tree_nodes (nodes H) h (root_of H))"
    using bz_treeD [OF t] by metis
  let ?H = "set_node (leaf_at H h key) n' H"
  have r: "root_of ?H = root_of H" by (simp add: root_of_def)
  have *: "tree (nodes ?H) h (root_of H) (\<lambda>_. True) \<and> tree_nodes (nodes ?H) h (root_of H) = tree_nodes (nodes H) h (root_of H) \<and>
    map_of (tree_kvs (nodes ?H) h (root_of H)) = (map_of (tree_kvs (nodes H) h (root_of H)))(cbytes key := map_of (kvs n') (cbytes key))"
    using tree_replace_leaf [OF tr, of "cbytes key" n'] c by (simp add: leaf_at_def)
  then show "bz_tree ?H h" unfolding bz_tree_def using md tr(2) by auto
  show "bz_map ?H h = (bz_map H h)(key := map_option butlast (map_of (kvs n') (cbytes key)))"
    unfolding bz_map_def r using * by (auto simp: fun_eq_iff)
qed

lemma leaf_at_ok:
  assumes "bz_tree H h"
  obtains n where "nodes H (leaf_at H h key) = Some n" "unat (leaf_at H h key) mod 8 = 0" "\<not> frozen (status_word n)" "leaf_ok n"
    "bz_map H h key = map_option butlast (map_of (kvs n) (cbytes key))"
proof -
  have "tree (nodes H) h (root_of H) (\<lambda>_. True)" using bz_treeD [OF assms] by metis
  from tree_map_leaf [OF this, of "cbytes key"] show thesis
    by (auto simp: live_node_def ptr_ok_def leaf_at_def bz_map_def intro: that)
qed

section \<open>Room in the leaf\<close>

lemma calm_path_room:
  assumes "tree N (Suc h) p I" and "calm_path N (Suc h) p k"
  shows "used (the (N (leaf_for N (Suc h) p k))) + 48 \<le> 240"
  using assms
proof (induction h arbitrary: p I)
  case 0
  then obtain n where n: "N p = Some n" "inner_ok n" "\<forall>j < length (kvs n). \<exists>m. N (child_of n j) = Some m \<and> node_ok m"
    by (fastforce simp: live_node_def leaf_ok_def)
  have "route (node_keys n) k < length (kvs n)" using route_less [of "node_keys n" k] n(2) by (auto simp: inner_ok_def node_keys_def)
  then obtain m where m: "N (child_of n (route (node_keys n) k)) = Some m" "node_ok m" using n(3) by blast
  have "unat (free_space (status_word m)) \<ge> 48" using 0(2) n(1) m(1) by (auto simp: Let_def calm_child_def bz_sizes)
  then show ?case using free_space_nat [OF m(2)] n(1) m(1) by simp
next
  case (Suc h)
  then obtain n where n: "N p = Some n" "inner_ok n" "\<And>j. j < length (kvs n) \<Longrightarrow>
    tree N (Suc h) (child_of n j) (\<lambda>k. I k \<and> route (node_keys n) k = j)" by (auto simp: live_node_def)
  have r: "route (node_keys n) k < length (kvs n)" using route_less [of "node_keys n" k] n(2) by (auto simp: inner_ok_def node_keys_def)
  have "calm_path N (Suc h) (child_of n (route (node_keys n) k)) k" using Suc.prems(2) n(1) by (simp add: Let_def)
  from Suc.IH [OF n(3) [OF r] this] show ?case using n(1) by simp
qed

lemma calm_room:
  assumes "bz_tree H h" and "calm H h key"
  shows "used (the (nodes H (leaf_at H h key))) + 48 \<le> 240"
proof (cases h)
  case 0
  then show ?thesis using assms(2) by (auto simp: calm_def leaf_at_def Let_def root_needs_split_def used_def bz_sizes)
next
  case (Suc h')
  have "tree (nodes H) h (root_of H) (\<lambda>_. True)" using bz_treeD [OF assms(1)] by metis
  then show ?thesis using calm_path_room assms(2) Suc unfolding calm_def leaf_at_def by blast
qed

section \<open>Operations\<close>

declare reserve.simps [simp del] update_loop.simps [simp del]

lemma butlast_cbytes [simp]: "butlast (cbytes s) = s"
  by (simp add: cbytes_def)

text \<open>The worlds that an operation of a lone thread may end in: only the epoch table and the given heap differ.\<close>

lemma lookup_ok:
  assumes w: "bz_idle tid w" and t: "bz_tree (heap w) h" and key: "NUL \<notin> set key"
  obtains ew' where "BzTree_lookup (Suc f) tid key w = Done (bz_map (heap w) h key) (w\<lparr>bew := ew'\<rparr>)" "bz_idle tid (w\<lparr>bew := ew'\<rparr>)"
proof -
  obtain ew1 where p: "bz_Protect tid w = Done () (w\<lparr>bew := ew1\<rparr>)" "bz_in tid (w\<lparr>bew := ew1\<rparr>)" using bz_Protect_ok [OF w] .
  let ?w = "w\<lparr>bew := ew1\<rparr>"
  obtain ew2 where u: "bz_Unprotect tid ?w = Done () (?w\<lparr>bew := ew2\<rparr>)" "bz_idle tid (?w\<lparr>bew := ew2\<rparr>)"
    using bz_Unprotect_ok [OF bz_in_idle [OF p(2)]] .
  obtain n where n: "nodes (heap w) (leaf_at (heap w) h key) = Some n" "leaf_ok n"
    "bz_map (heap w) h key = map_option butlast (map_of (kvs n) (cbytes key))" using leaf_at_ok [OF t] by metis
  have fl: "find_leaf (Suc f) tid key False ?w = Done (leaf_at (heap w) h key) ?w"
    using find_leaf_ok [of ?w h key False f tid] t key by simp
  have ok: "node_ok n" using n(2) by (simp add: leaf_ok_def)
  show thesis
  proof (rule node_find_ok [OF ok keys_ok_leaf [OF n(2)] key])
    assume a: "node_find n key = Inr None" "cbytes key \<notin> fst ` set (kvs n)"
    then have "bz_map (heap w) h key = None" using n(3) by (simp add: map_of_eq_None_iff)
    then show thesis using that [of ew2] p(1) u fl n(1) a(1) by (simp add: BzTree_lookup_def)
  next
    fix i v assume a: "node_find n key = Inr (Some i)" "i < recs n" "slots n ! i = Some (cbytes key, v)"
    let ?m = "body_md (body n) i" and ?pos = "unat (offset (body_md (body n) i)) + unat (key_len (body_md (body n) i))"
    note s = slot_visible [OF ok a(2,3)]
    have "Some (cbytes key, v) \<in> set (slots n)" using a(2,3) nth_mem [of i "slots n"] by simp
    then have kv: "(cbytes key, v) \<in> set (kvs n)" by (simp add: kvs_def set_somes)
    then obtain t where t: "v = cbytes t" "NUL \<notin> set t" using n(2) by (fastforce simp: leaf_ok_def c_string_iff)
    have "map_of (kvs n) (cbytes key) = Some v" using n(2) kv by (simp add: leaf_ok_def node_keys_def)
    then have mp: "bz_map (heap w) h key = Some t" using n(3) t(1) by (simp add: cbytes_def)
    have "take (unat (total_len ?m) - unat (key_len ?m)) (drop ?pos (body n)) = v"
      using arg_cong [OF s(6), of snd] by (simp add: md_kv_def Let_def)
    then have "drop ?pos (body n) = cbytes t @ drop (unat (total_len ?m) - unat (key_len ?m)) (drop ?pos (body n))"
      unfolding t(1) by (metis append_take_drop_id)
    then have "string_at (drop ?pos (body n)) = Inr t" using string_at_cbytes [OF t(2)] by metis
    then show thesis
      using that [of ew2] p(1) u fl n(1) a(1) mp by (simp add: BzTree_lookup_def ptr_pos_def read_nmd_ok [OF ok a(2)])
  qed
qed

lemma erase_ok:
  assumes w: "bz_idle tid w" and t: "bz_tree (heap w) h" and key: "NUL \<notin> set key"
  obtains (absent) ew' where "bz_map (heap w) h key = None" "BzTree_erase (Suc (Suc f)) tid key w = Done False (w\<lparr>bew := ew'\<rparr>)"
      "bz_idle tid (w\<lparr>bew := ew'\<rparr>)"
  | (present) v ew' H' where "bz_map (heap w) h key = Some v"
      "BzTree_erase (Suc (Suc f)) tid key w = Done True (w\<lparr>bew := ew', heap := H'\<rparr>)"
      "bz_in tid (w\<lparr>bew := ew', heap := H'\<rparr>)" "bz_tree H' h" "bz_map H' h = (bz_map (heap w) h)(key := None)"
proof -
  obtain ew1 where p: "bz_Protect tid w = Done () (w\<lparr>bew := ew1\<rparr>)" "bz_in tid (w\<lparr>bew := ew1\<rparr>)" using bz_Protect_ok [OF w] .
  let ?w = "w\<lparr>bew := ew1\<rparr>" and ?l = "leaf_at (heap w) h key"
  obtain ew2 where u: "bz_Unprotect tid ?w = Done () (?w\<lparr>bew := ew2\<rparr>)" "bz_idle tid (?w\<lparr>bew := ew2\<rparr>)"
    using bz_Unprotect_ok [OF bz_in_idle [OF p(2)]] .
  obtain n where n: "nodes (heap w) ?l = Some n" "unat ?l mod 8 = 0" "\<not> frozen (status_word n)" "leaf_ok n"
    "bz_map (heap w) h key = map_option butlast (map_of (kvs n) (cbytes key))" using leaf_at_ok [OF t] by metis
  have fl: "find_leaf (Suc f) tid key False ?w = Done ?l ?w"
    using find_leaf_ok [of ?w h key False f tid] t key by simp
  have ok: "node_ok n" using n(4) by (simp add: leaf_ok_def)
  show thesis
  proof (rule node_find_ok [OF ok keys_ok_leaf [OF n(4)] key])
    assume a: "node_find n key = Inr None" "cbytes key \<notin> fst ` set (kvs n)"
    then have "bz_map (heap w) h key = None" using n(5) by (simp add: map_of_eq_None_iff)
    then show thesis using absent [of ew2] p(1) u fl n(1) a(1) by simp
  next
    fix i v assume a: "node_find n key = Inr (Some i)" "i < recs n" "slots n ! i = Some (cbytes key, v)"
    define md where "md = (body_md (body n) i)\<lparr>offset := 0, visible := False\<rparr>"
    define sw where "sw = (status_word n)\<lparr>delete_size := delete_size (status_word n) + ucast (total_len md) + of_nat sizeof_metadata\<rparr>"
    obtain n' where c: "bz_MwCAS tid [(StatusLoc ?l, pack_sw (status_word n), pack_sw sw),
        (nmd_loc ?l i, pack_md (body_md (body n) i), pack_md md)] ?w = Done True (upd_heap (set_node ?l n') ?w)" and e: "erased n i n'"
      using erase_leaf [OF p(2) _ n(2) ok a(2,3)] n(1) unfolding md_def sw_def by auto
    have "map_of (kvs n) (cbytes key) = Some v"
      using n(4) a(2,3) nth_mem [of i "slots n"] by (auto simp: leaf_ok_def node_keys_def kvs_def set_somes)
    then have m: "bz_map (heap w) h key = Some (butlast v)" using n(5) by simp
    have "leaf_change (cbytes key) (the (nodes (heap w) ?l)) n'" using erased_change(1) [OF n(4,3) a(2,3) e] n(1) by simp
    note ch = bz_tree_change [OF t this key]
    have r: "BzTree_erase (Suc (Suc f)) tid key w = Done True (upd_heap (set_node ?l n') ?w)"
      using p(1) fl n(1,3) a(1) c slot_visible(1) [OF ok a(2,3)]
      by (simp add: read_nmd_ok [OF ok a(2)] Let_def md_def [symmetric] sw_def [symmetric])
    have eq: "upd_heap (set_node ?l n') ?w = w\<lparr>bew := ew1, heap := set_node ?l n' (heap w)\<rparr>" by (simp add: upd_heap_def)
    have "bz_in tid (upd_heap (set_node ?l n') ?w)" using p(2) by simp
    then show thesis
      using present [OF m r [unfolded eq] _ ch(1)] ch(2) erased_change(2) [OF n(4,3) a(2,3) e] unfolding eq by simp
  qed
qed

definition fits :: "string \<Rightarrow> string \<Rightarrow> bool" where
  "fits key val \<longleftrightarrow> NUL \<notin> set key \<and> NUL \<notin> set val \<and> sizeof_metadata + record_bytes key val \<le> BZTREE_MIN_FREE_SPACE"

lemma fitsD: "fits key val \<Longrightarrow> 8 + record_bytes key val \<le> 48" "fits key val \<Longrightarrow> NUL \<notin> set key" "fits key val \<Longrightarrow> NUL \<notin> set val"
  by (simp_all add: fits_def bz_sizes)

text \<open>The insertion, once the leaf is found in a world \<open>w1\<close> and has room.\<close>

lemma insert_found:
  assumes p: "bz_Protect tid w = Done () w0" and fl: "find_leaf (Suc f') tid key True w0 = Done (leaf_at (heap w1) h key) w1"
    and w1: "bz_in tid w1" "bz_tree (heap w1) h" and f: "fits key val"
    and room: "used (the (nodes (heap w1) (leaf_at (heap w1) h key))) + 48 \<le> 240"
  obtains (present) v ew' where "bz_map (heap w1) h key = Some v" "BzTree_insert (Suc (Suc f')) tid key val w = Done False (w1\<lparr>bew := ew'\<rparr>)"
      "bz_idle tid (w1\<lparr>bew := ew'\<rparr>)"
  | (absent) ew' H' where "bz_map (heap w1) h key = None"
      "BzTree_insert (Suc (Suc f')) tid key val w = Done True (w1\<lparr>bew := ew', heap := H'\<rparr>)"
      "bz_idle tid (w1\<lparr>bew := ew', heap := H'\<rparr>)" "bz_tree H' h" "bz_map H' h = (bz_map (heap w1) h)(key \<mapsto> val)"
proof -
  note k = fitsD [OF f]
  let ?l = "leaf_at (heap w1) h key"
  obtain n where n: "nodes (heap w1) ?l = Some n" "unat ?l mod 8 = 0" "\<not> frozen (status_word n)" "leaf_ok n"
    "bz_map (heap w1) h key = map_option butlast (map_of (kvs n) (cbytes key))" using leaf_at_ok [OF w1(2)] by metis
  have ok: "node_ok n" using n(4) by (simp add: leaf_ok_def)
  have sp: "used n + 8 + record_bytes key val \<le> 240" using room n(1) k(1) by simp
  show thesis
  proof (rule node_find_ok [OF ok keys_ok_leaf [OF n(4)] k(2)])
    assume a: "node_find n key = Inr None" "cbytes key \<notin> fst ` set (kvs n)"
    obtain w2 n' where r: "reserve (Suc f') tid ?l key val w1 = Done () w2"
      "publish tid ?l key val w2 = Done True (upd_heap (set_node ?l n') w1)" and i: "inserted n (cbytes key, cbytes val) n'"
      using insert_leaf [OF w1(1) _ n(2) ok n(3) sp, of f'] n(1) by auto
    have idle: "bz_idle tid (upd_heap (set_node ?l n') w1)" using bz_in_idle [OF w1(1)] by simp
    obtain ew2 where u: "bz_Unprotect tid (upd_heap (set_node ?l n') w1) = Done () ((upd_heap (set_node ?l n') w1)\<lparr>bew := ew2\<rparr>)"
      "bz_idle tid ((upd_heap (set_node ?l n') w1)\<lparr>bew := ew2\<rparr>)" using bz_Unprotect_ok [OF idle] .
    have eq: "(upd_heap (set_node ?l n') w1)\<lparr>bew := ew2\<rparr> = w1\<lparr>bew := ew2, heap := set_node ?l n' (heap w1)\<rparr>" by (simp add: upd_heap_def)
    note ic = inserted_change [OF n(4,3) a(2) i]
    have "leaf_change (cbytes key) (the (nodes (heap w1) ?l)) n'" using ic(1) k n(1) by simp
    note ch = bz_tree_change [OF w1(2) this k(2)]
    have "map_option butlast (map_of (kvs n') (cbytes key)) = Some val" using ic(2) k by simp
    then have m': "bz_map (set_node ?l n' (heap w1)) h = (bz_map (heap w1) h)(key \<mapsto> val)" using ch(2) by (simp only:)
    have run: "BzTree_insert (Suc (Suc f')) tid key val w = Done True (w1\<lparr>bew := ew2, heap := set_node ?l n' (heap w1)\<rparr>)"
      using p fl n(1) a(1) r u(1) k(1) unfolding eq [symmetric] by (simp add: bz_sizes)
    have "bz_map (heap w1) h key = None" using a(2) n(5) by (simp add: map_of_eq_None_iff)
    then show thesis by (rule absent [OF _ run u(2) [unfolded eq] ch(1) m'])
  next
    fix i v assume a: "node_find n key = Inr (Some i)" "i < recs n" "slots n ! i = Some (cbytes key, v)"
    obtain ew2 where u: "bz_Unprotect tid w1 = Done () (w1\<lparr>bew := ew2\<rparr>)" "bz_idle tid (w1\<lparr>bew := ew2\<rparr>)"
      using bz_Unprotect_ok [OF bz_in_idle [OF w1(1)]] .
    have "map_of (kvs n) (cbytes key) = Some v"
      using n(4) a(2,3) nth_mem [of i "slots n"] by (auto simp: leaf_ok_def node_keys_def kvs_def set_somes)
    then have m: "bz_map (heap w1) h key = Some (butlast v)" using n(5) by simp
    show thesis by (rule present [OF m, of ew2]) (use p fl n(1) a(1) u k(1) in \<open>simp_all add: bz_sizes\<close>)
  qed
qed

lemma update_found:
  assumes p: "bz_Protect tid w = Done () w0" and fl: "find_leaf (Suc f') tid key True w0 = Done (leaf_at (heap w1) h key) w1"
    and w1: "bz_in tid w1" "bz_tree (heap w1) h" and f: "fits key val"
    and room: "used (the (nodes (heap w1) (leaf_at (heap w1) h key))) + 48 \<le> 240"
  obtains (absent) ew' where "bz_map (heap w1) h key = None" "BzTree_update (Suc (Suc f')) tid key val w = Done False (w1\<lparr>bew := ew'\<rparr>)"
      "bz_idle tid (w1\<lparr>bew := ew'\<rparr>)"
  | (present) v ew' H' where "bz_map (heap w1) h key = Some v"
      "BzTree_update (Suc (Suc f')) tid key val w = Done True (w1\<lparr>bew := ew', heap := H'\<rparr>)"
      "bz_idle tid (w1\<lparr>bew := ew', heap := H'\<rparr>)" "bz_tree H' h" "bz_map H' h = (bz_map (heap w1) h)(key \<mapsto> val)"
proof -
  note k = fitsD [OF f]
  let ?l = "leaf_at (heap w1) h key"
  obtain n where n: "nodes (heap w1) ?l = Some n" "unat ?l mod 8 = 0" "\<not> frozen (status_word n)" "leaf_ok n"
    "bz_map (heap w1) h key = map_option butlast (map_of (kvs n) (cbytes key))" using leaf_at_ok [OF w1(2)] by metis
  have ok: "node_ok n" using n(4) by (simp add: leaf_ok_def)
  have sp: "used n + record_bytes key val \<le> 240" using room n(1) k(1) by simp
  show thesis
  proof (rule node_find_ok [OF ok keys_ok_leaf [OF n(4)] k(2)])
    fix i v assume a: "node_find n key = Inr (Some i)" "i < recs n" "slots n ! i = Some (cbytes key, v)"
    obtain n' where r: "update_loop (Suc f') tid ?l i key val w1 =
        zbind (bz_Unprotect tid) (\<lambda>_. zret (Some True)) (upd_heap (set_node ?l n') w1)" and up: "updated n i (cbytes key, cbytes val) n'"
      using update_leaf [OF w1(1) _ n(2) ok n(3) a(2,3) sp, of f'] n(1) by auto
    have idle: "bz_idle tid (upd_heap (set_node ?l n') w1)" using bz_in_idle [OF w1(1)] by simp
    obtain ew2 where u: "bz_Unprotect tid (upd_heap (set_node ?l n') w1) = Done () ((upd_heap (set_node ?l n') w1)\<lparr>bew := ew2\<rparr>)"
      "bz_idle tid ((upd_heap (set_node ?l n') w1)\<lparr>bew := ew2\<rparr>)" using bz_Unprotect_ok [OF idle] .
    have eq: "(upd_heap (set_node ?l n') w1)\<lparr>bew := ew2\<rparr> = w1\<lparr>bew := ew2, heap := set_node ?l n' (heap w1)\<rparr>" by (simp add: upd_heap_def)
    note uc = updated_change [OF n(4,3) a(2,3) up]
    have "leaf_change (cbytes key) (the (nodes (heap w1) ?l)) n'" using uc(1) k n(1) by simp
    note ch = bz_tree_change [OF w1(2) this k(2)]
    have "map_option butlast (map_of (kvs n') (cbytes key)) = Some val" using uc(2) k by simp
    then have m': "bz_map (set_node ?l n' (heap w1)) h = (bz_map (heap w1) h)(key \<mapsto> val)" using ch(2) by (simp only:)
    have "update_loop (Suc f') tid ?l i key val w1 = Done (Some True) (w1\<lparr>bew := ew2, heap := set_node ?l n' (heap w1)\<rparr>)"
      using r u(1) unfolding eq by simp
    then have run: "BzTree_update (Suc (Suc f')) tid key val w = Done True (w1\<lparr>bew := ew2, heap := set_node ?l n' (heap w1)\<rparr>)"
      using p fl n(1) a(1) k(1) by (simp add: bz_sizes)
    have "map_of (kvs n) (cbytes key) = Some v"
      using n(4) a(2,3) nth_mem [of i "slots n"] by (auto simp: leaf_ok_def node_keys_def kvs_def set_somes)
    then have m: "bz_map (heap w1) h key = Some (butlast v)" using n(5) by simp
    show thesis by (rule present [OF m run u(2) [unfolded eq] ch(1) m'])
  next
    assume a: "node_find n key = Inr None" "cbytes key \<notin> fst ` set (kvs n)"
    obtain ew2 where u: "bz_Unprotect tid w1 = Done () (w1\<lparr>bew := ew2\<rparr>)" "bz_idle tid (w1\<lparr>bew := ew2\<rparr>)"
      using bz_Unprotect_ok [OF bz_in_idle [OF w1(1)]] .
    have m: "bz_map (heap w1) h key = None" using a(2) n(5) by (simp add: map_of_eq_None_iff)
    show thesis by (rule absent [OF m, of ew2]) (use p fl n(1) a(1) u k(1) in \<open>simp_all add: bz_sizes\<close>)
  qed
qed

end
