(* ===== verification/BzSplit.thy ===== *)
theory BzSplit
  imports BzMap
begin

text \<open>
  Structure modifications: the nodes that compaction, splitting and merging build, and the proof that replacing
  the root by its compacted copy, or by a new root over its two halves, leaves the map of the tree as it is.
\<close>

section \<open>Sorted copies\<close>

lemma sort_key_leaf:
  assumes "distinct (map fst ps)"
  shows "map_of (sort_key fst ps) = map_of ps" and "sorted_wrt (<) (map fst (sort_key fst ps))"
    and "distinct (map fst (sort_key fst ps))" and "set (sort_key fst ps) = set ps"
proof -
  have m: "mset (map fst (sort_key fst ps)) = mset (map fst ps)" by simp
  show d: "distinct (map fst (sort_key fst ps))" using assms mset_eq_imp_distinct_iff [OF m] by simp
  show s: "set (sort_key fst ps) = set ps" by simp
  have "map_of (sort_key fst ps) k = Some v \<longleftrightarrow> map_of ps k = Some v" for k v
    unfolding map_of_eq_Some_iff [OF d] map_of_eq_Some_iff [OF assms] s ..
  then show "map_of (sort_key fst ps) = map_of ps" by (intro ext) (metis not_Some_eq)
  show "sorted_wrt (<) (map fst (sort_key fst ps))"
    using d by (simp add: strict_sorted_iff)
qed

lemma sort_key_sorted: "sorted_wrt (<) (map fst ps) \<Longrightarrow> sort_key fst ps = ps"
  by (simp add: sorted_sort_id strict_sorted_iff sort_key_id_if_sorted)

lemma space_sort [simp]: "space (sort_key fst ps) = space ps"
  by (rule space_mset) simp

lemma space_part: "space (take i ps) \<le> space ps" "space (drop i ps) \<le> space ps"
proof -
  have "space ps = space (take i ps) + space (drop i ps)" by (metis append_take_drop_id space_simps(3))
  then show "space (take i ps) \<le> space ps" "space (drop i ps) \<le> space ps" by simp_all
qed

lemma node_space: "node_ok n \<Longrightarrow> space (kvs n) \<le> 240"
  using node_ok_bounds(3) [of n] by (simp add: node_ok_def)

section \<open>New nodes\<close>

lemma zcopy_in_ok:
  assumes "avail w = p # av" and "space ps \<le> 240"
  obtains n where "zcopy_in ps w = Done p (upd_heap (set_node p n) (w\<lparr>avail := av\<rparr>))" "fresh_node ps n"
  using copy_in_ok [OF assms(2)] assms(1) that by (auto simp: zcopy_in_def znew_def store_node_def)

lemma zcopy_out_ok: "nodes (heap w) p = Some n \<Longrightarrow> node_ok n \<Longrightarrow> zcopy_out p w = Done (sort_key fst (kvs n)) w"
  by (simp add: zcopy_out_def copy_out_ok)

lemma node_compact_ok:
  assumes "nodes (heap w) p = Some n" and "node_ok n" and "avail w = q # av"
  obtains n' where "node_compact p w = Done q (upd_heap (set_node q n') (w\<lparr>avail := av\<rparr>))"
    "fresh_node (sort_key fst (kvs n)) n'"
  using zcopy_in_ok [OF assms(3), of "sort_key fst (kvs n)"] node_space [OF assms(2)]
    zcopy_out_ok [OF assms(1,2)] that by (auto simp: node_compact_def)

lemma pivot_loop_bounds: "ps \<noteq> [] \<Longrightarrow> sep < pivot_loop ps t s sep \<and> pivot_loop ps t s sep \<le> sep + length ps"
proof (induction ps arbitrary: s sep)
  case (Cons p ps)
  show ?case
  proof (cases "ps = []")
    case False
    then show ?thesis using Cons.IH [OF False, of "Suc sep" "s + length (fst p)"] by (auto simp: Let_def)
  qed (simp add: Let_def)
qed simp

lemma pivot_bounds:
  assumes "pivot ps = Inr sep" and "2 < length ps"
  shows "0 < sep" and "sep < length ps"
proof -
  have "ps \<noteq> []" using assms(2) by auto
  from pivot_loop_bounds [OF this, of 0 "sum_list (map (\<lambda>p. length (fst p)) ps)" 0]
  show "0 < sep" "sep < length ps"
    using assms by (auto simp: pivot_def Let_def rbind_guard split: if_splits)
qed

lemma node_split_root:
  assumes n: "nodes (heap w) p = Some n" "node_ok n" and av: "avail w = [a, b, c] @ av"
    and s: "2 < length (kvs n)" "pivot (sort_key fst (kvs n)) = Inr sep"
    and k: "\<forall>q \<in> set (kvs n). length (fst q) \<le> 104"
  defines "l \<equiv> take sep (sort_key fst (kvs n))" and "r \<equiv> drop sep (sort_key fst (kvs n))"
  obtains na nb nc where
    "node_split None p w = Done (c, a, b) (upd_heap (\<lambda>H. set_node c nc (set_node b nb (set_node a na H))) (w\<lparr>avail := av\<rparr>))"
    "fresh_node l na" "fresh_node r nb" "fresh_node [(fst (last l), word_bytes a), (fst (last r), word_bytes b)] nc"
    "l \<noteq> []" "r \<noteq> []"
proof -
  have len: "length (sort_key fst (kvs n)) = length (kvs n)" by simp
  have sep: "0 < sep" "sep < length (kvs n)" using pivot_bounds [OF s(2)] s(1) by simp_all
  have "length l = sep" "length r = length (kvs n) - sep" using sep by (simp_all add: l_def r_def)
  then have ne: "l \<noteq> []" "r \<noteq> []" using sep by auto
  have sp: "space l \<le> 240" "space r \<le> 240"
    using space_part [of sep "sort_key fst (kvs n)"] node_space [OF n(2)] by (simp_all add: l_def r_def)
  have "last l \<in> set (kvs n)" "last r \<in> set (kvs n)"
    using last_in_set [OF ne(1)] last_in_set [OF ne(2)] set_take_subset [of sep "sort_key fst (kvs n)"]
      set_drop_subset [of sep "sort_key fst (kvs n)"] by (auto simp: l_def r_def)
  then have sc: "space [(fst (last l), word_bytes a), (fst (last r), word_bytes b)] \<le> 240"
    using bspec [OF k, of "last l"] bspec [OF k, of "last r"] by (simp add: kv_space_def bz_sizes)
  have co: "zcopy_out p w = Done (sort_key fst (kvs n)) w" by (rule zcopy_out_ok [OF n])
  obtain na where a: "zcopy_in l w = Done a (upd_heap (set_node a na) (w\<lparr>avail := b # c # av\<rparr>))" "fresh_node l na"
    using zcopy_in_ok [OF _ sp(1), of w a "b # c # av"] av by auto
  define w1 where "w1 = upd_heap (set_node a na) (w\<lparr>avail := b # c # av\<rparr>)"
  obtain nb where b: "zcopy_in r w1 = Done b (upd_heap (set_node b nb) (w1\<lparr>avail := c # av\<rparr>))" "fresh_node r nb"
    using zcopy_in_ok [OF _ sp(2), of w1 b "c # av"] by (auto simp: w1_def)
  define w2 where "w2 = upd_heap (set_node b nb) (w1\<lparr>avail := c # av\<rparr>)"
  obtain nc where c: "zcopy_in [(fst (last l), word_bytes a), (fst (last r), word_bytes b)] w2 =
      Done c (upd_heap (set_node c nc) (w2\<lparr>avail := av\<rparr>))" "fresh_node [(fst (last l), word_bytes a), (fst (last r), word_bytes b)] nc"
    using zcopy_in_ok [OF _ sc, of w2 c av] by (auto simp: w2_def)
  have "upd_heap (set_node c nc) (w2\<lparr>avail := av\<rparr>) =
      upd_heap (\<lambda>H. set_node c nc (set_node b nb (set_node a na H))) (w\<lparr>avail := av\<rparr>)"
    by (simp add: w2_def w1_def upd_heap_def)
  then have "node_split None p w = Done (c, a, b) (upd_heap (\<lambda>H. set_node c nc (set_node b nb (set_node a na H))) (w\<lparr>avail := av\<rparr>))"
    using co s a(1) b(1) c(1) unfolding w1_def [symmetric] w2_def [symmetric]
    by (simp add: node_split_def l_def [symmetric] r_def [symmetric] Let_def)
  then show thesis by (rule that [OF _ a(2) b(2) c(2) ne])
qed

section \<open>Halves of a node\<close>

lemma route_pair: "route [x, y] k = (if k \<le> x then 0 else 1)"
  by (auto simp: route_def Let_def)

lemma sorted_last: "sorted_wrt (<) xs \<Longrightarrow> (x :: 'a::linorder) \<in> set xs \<Longrightarrow> x \<le> last xs"
  by (induction xs rule: rev_induct) (auto simp: sorted_wrt_append less_imp_le)

text \<open>A key is routed to the same child by a node and by the half of it that the separator selects.\<close>

lemma route_halves:
  assumes "sorted_wrt (<) (A @ B)" and "A \<noteq> []" and "B \<noteq> []"
  shows "k \<le> last A \<Longrightarrow> route (A @ B) k = route A k" and "\<not> k \<le> last A \<Longrightarrow> route (A @ B) k = length A + route B k"
    and "route (A @ B) k < length A \<longleftrightarrow> k \<le> last A"
proof -
  have le: "x \<le> last A" if "x \<in> set A" for x
    using that assms(1) by (intro sorted_last) (simp_all add: sorted_wrt_append)
  have lo: "route (A @ B) k = route A k \<and> route A k < length A" if "k \<le> last A"
  proof -
    have "\<not> last A < k" using that by simp
    then have ne: "takeWhile (\<lambda>x. x < k) A \<noteq> A" using assms(2) by (metis last_in_set takeWhile_eq_all_conv)
    then have "length (takeWhile (\<lambda>x. x < k) A) < length A"
      by (metis length_takeWhile_le order_le_neq_trans takeWhile_eq_take take_all_iff order.refl)
    moreover have "takeWhile (\<lambda>x. x < k) (A @ B) = takeWhile (\<lambda>x. x < k) A"
      using ne by (meson takeWhile_append1 takeWhile_eq_all_conv)
    ultimately show ?thesis by (simp add: route_def Let_def)
  qed
  have hi: "route (A @ B) k = length A + route B k" if "\<not> k \<le> last A"
  proof -
    have "x < k" if "x \<in> set A" for x using le [OF that] \<open>\<not> k \<le> last A\<close> by (meson le_less_trans not_le)
    then have "takeWhile (\<lambda>x. x < k) (A @ B) = A @ takeWhile (\<lambda>x. x < k) B" by (simp add: takeWhile_append2)
    moreover have "0 < length B" using assms(3) by simp
    ultimately show ?thesis by (simp add: route_def Let_def del: length_greater_0_conv)
  qed
  show "k \<le> last A \<Longrightarrow> route (A @ B) k = route A k" "\<not> k \<le> last A \<Longrightarrow> route (A @ B) k = length A + route B k"
    using lo hi by blast+
  show "route (A @ B) k < length A \<longleftrightarrow> k \<le> last A"
    using lo hi by fastforce
qed

text \<open>A new node with a part of the records of a node of the tree.\<close>

lemma fresh_leaf:
  assumes "leaf_ok n" and "fresh_node ps n'" and "set ps \<subseteq> set (kvs n)" and "distinct (map fst ps)"
  shows "leaf_ok n'"
  using assms fresh_nodeD [OF assms(2)] by (auto simp: leaf_ok_def node_keys_def)

lemma fresh_inner:
  assumes "fresh_node ps n'" and "ps \<noteq> []" and "sorted_wrt (<) (map fst ps)"
    and "\<forall>p \<in> set ps. c_string (fst p) \<and> length (snd p) = 8"
  shows "inner_ok n'"
  using assms fresh_nodeD [OF assms(1)] by (auto simp: inner_ok_def node_keys_def fresh_node_def)

lemma tree_part:
  assumes t: "tree N h p I" and n: "N p = Some n" and s: "sort_key fst (kvs n) = xs @ ps @ ys" and ps: "ps \<noteq> []"
    and n': "N' a = Some n'" "fresh_node ps n'" "ptr_ok a"
    and fr: "\<And>x. x \<in> set (tree_nodes N h p) \<Longrightarrow> x \<noteq> p \<Longrightarrow> N' x = N x" and d: "distinct (tree_nodes N h p)"
    and leaf: "h = 0 \<Longrightarrow> (\<And>q. q \<in> set ps \<Longrightarrow> J (fst q))"
    and inner: "\<And>k. h \<noteq> 0 \<Longrightarrow> I k \<Longrightarrow> length xs \<le> route (node_keys n) k \<Longrightarrow> route (node_keys n) k < length xs + length ps \<Longrightarrow>
      J k \<and> length xs + route (map fst ps) k = route (node_keys n) k"
  shows "tree N' h a J"
    and "h = 0 \<Longrightarrow> tree_kvs N' h a = ps"
    and "h = Suc h' \<Longrightarrow> j < length ps \<Longrightarrow> child_of n' j = child_of n (length xs + j) \<and>
      tree_kvs N' h' (child_of n' j) = tree_kvs N h' (child_of n (length xs + j)) \<and>
      tree_nodes N' h' (child_of n' j) = tree_nodes N h' (child_of n (length xs + j))"
proof -
  note f = fresh_nodeD [OF n'(2)]
  have live: "live_node N' a n'" using n' f by (simp add: live_node_def)
  show "h = 0 \<Longrightarrow> tree_kvs N' h a = ps" using n' f by simp
  have main: "tree N' h a J \<and> (\<forall>h'. h = Suc h' \<longrightarrow> (\<forall>j < length ps. child_of n' j = child_of n (length xs + j) \<and>
      tree_kvs N' h' (child_of n' j) = tree_kvs N h' (child_of n (length xs + j)) \<and>
      tree_nodes N' h' (child_of n' j) = tree_nodes N h' (child_of n (length xs + j))))"
  proof (cases h)
    case 0
    have l: "leaf_ok n" using t n 0 by (auto simp: live_node_def)
    have "set ps \<subseteq> set (kvs n)" "distinct (map fst ps)"
      using sort_key_leaf(3,4) [of "kvs n"] l s by (auto simp: leaf_ok_def node_keys_def)
    then have "leaf_ok n'" by (rule fresh_leaf [OF l n'(2)])
    then show ?thesis using live leaf 0 f by auto
  next
    case (Suc h')
    have i: "inner_ok n" and ch: "\<And>j. j < length (kvs n) \<Longrightarrow> tree N h' (child_of n j) (\<lambda>k. I k \<and> route (node_keys n) k = j)"
      using t n Suc by (auto simp: live_node_def)
    have k: "kvs n = xs @ ps @ ys" using s sort_key_sorted [of "kvs n"] i by (simp add: inner_ok_def node_keys_def)
    have i': "inner_ok n'"
      by (rule fresh_inner [OF n'(2) ps]) (use i in \<open>auto simp: inner_ok_def node_keys_def k sorted_wrt_append\<close>)
    have c: "child_of n' j = child_of n (length xs + j)" if "j < length ps" for j
      using that f by (simp add: child_of_def k nth_append)
    have fr': "tree N' h' (child_of n j) (\<lambda>k. I k \<and> route (node_keys n) k = j) \<and>
        tree_nodes N' h' (child_of n j) = tree_nodes N h' (child_of n j) \<and> tree_kvs N' h' (child_of n j) = tree_kvs N h' (child_of n j)"
      if j: "j < length (kvs n)" for j
    proof (rule tree_frame [OF ch [OF j]])
      fix x assume x: "x \<in> set (tree_nodes N h' (child_of n j))"
      have "x \<in> set (tree_nodes N h p)" using x j n Suc by auto
      moreover have "x \<noteq> p" using d x j n Suc by auto
      ultimately show "N' x = N x" by (rule fr)
    qed
    have "tree N' h' (child_of n' j) (\<lambda>k. J k \<and> route (node_keys n') k = j)" if j: "j < length ps" for j
    proof -
      have "tree N' h' (child_of n (length xs + j)) (\<lambda>k. I k \<and> route (node_keys n) k = length xs + j)"
        using fr' [of "length xs + j"] j k by simp
      then show ?thesis unfolding c [OF j]
        by (rule tree_mono) (use inner Suc j f in \<open>force simp: node_keys_def\<close>)
    qed
    then have "tree N' h a J" using live i' f Suc by auto
    moreover have "child_of n' j = child_of n (length xs + j) \<and>
      tree_kvs N' h' (child_of n' j) = tree_kvs N h' (child_of n (length xs + j)) \<and>
      tree_nodes N' h' (child_of n' j) = tree_nodes N h' (child_of n (length xs + j))" if "j < length ps" for j
      using c [OF that] fr' [of "length xs + j"] that k by simp
    ultimately show ?thesis using Suc by blast
  qed
  then show "tree N' h a J" by blast
  show "h = Suc h' \<Longrightarrow> j < length ps \<Longrightarrow> child_of n' j = child_of n (length xs + j) \<and>
      tree_kvs N' h' (child_of n' j) = tree_kvs N h' (child_of n (length xs + j)) \<and>
      tree_nodes N' h' (child_of n' j) = tree_nodes N h' (child_of n (length xs + j))"
    using main by blast
qed

section \<open>A new root over two halves\<close>

text \<open>\<open>split_root\<close>: in \<open>N'\<close> the nodes \<open>a\<close> and \<open>b\<close> hold the halves \<open>l\<close> and \<open>r\<close> of the records of the root \<open>p\<close> of a tree in \<open>N\<close>, and \<open>c\<close> is
  a new root over them; the other nodes of the tree are as in \<open>N\<close>.\<close>

definition split_root :: "(u64 \<rightharpoonup> node) \<Rightarrow> (u64 \<rightharpoonup> node) \<Rightarrow> nat \<Rightarrow> u64 \<Rightarrow> kv list \<Rightarrow> kv list \<Rightarrow> u64 \<Rightarrow> u64 \<Rightarrow> u64 \<Rightarrow> bool" where
  "split_root N N' h p l r a b c \<longleftrightarrow> tree N h p (\<lambda>_. True) \<and> distinct (tree_nodes N h p) \<and>
     sort_key fst (kvs (the (N p))) = l @ r \<and> l \<noteq> [] \<and> r \<noteq> [] \<and>
     (\<exists>na nb nc. N' a = Some na \<and> N' b = Some nb \<and> N' c = Some nc \<and> fresh_node l na \<and> fresh_node r nb \<and>
       fresh_node [(fst (last l), word_bytes a), (fst (last r), word_bytes b)] nc) \<and>
     ptr_ok a \<and> ptr_ok b \<and> ptr_ok c \<and> distinct [a, b, c] \<and> {a, b, c} \<inter> set (tree_nodes N h p) = {} \<and>
     (\<forall>x \<in> set (tree_nodes N h p). x \<noteq> p \<longrightarrow> N' x = N x)"

lemma split_rootD:
  assumes "split_root N N' h p l r a b c"
  obtains n na nb nc where "tree N h p (\<lambda>_. True)" "N p = Some n" "distinct (tree_nodes N h p)" "sort_key fst (kvs n) = l @ r" "l \<noteq> []" "r \<noteq> []"
    "N' a = Some na" "N' b = Some nb" "N' c = Some nc" "fresh_node l na" "fresh_node r nb"
    "fresh_node [(fst (last l), word_bytes a), (fst (last r), word_bytes b)] nc" "ptr_ok a" "ptr_ok b" "ptr_ok c"
proof -
  obtain n where "N p = Some n" using assms tree_live [of N h p "\<lambda>_. True"] by (auto simp: split_root_def live_node_def)
  then show thesis using assms that by (auto simp: split_root_def)
qed

text \<open>The keys of the two halves lie on the two sides of the separator, the last key of the left half.\<close>

lemma split_keys:
  assumes "split_root N N' h p l r a b c"
  shows "sorted_wrt (<) (map fst l @ map fst r)" and "\<And>q. q \<in> set l \<Longrightarrow> fst q \<le> fst (last l)"
    and "\<And>q. q \<in> set r \<Longrightarrow> \<not> fst q \<le> fst (last l)" and "h \<noteq> 0 \<Longrightarrow> kvs (the (N p)) = l @ r"
    and "\<And>q. q \<in> set l \<union> set r \<Longrightarrow> c_string (fst q)"
proof -
  obtain n where t: "tree N h p (\<lambda>_. True)" and n: "N p = Some n" and s: "sort_key fst (kvs n) = l @ r" "l \<noteq> []" "r \<noteq> []"
    using split_rootD [OF assms] by metis
  have srt: "sorted_wrt (<) (map fst (sort_key fst (kvs n))) \<and> (h \<noteq> 0 \<longrightarrow> kvs n = l @ r)"
  proof (cases h)
    case 0
    then show ?thesis using t n sort_key_leaf(2) [of "kvs n"] by (auto simp: live_node_def leaf_ok_def node_keys_def)
  next
    case (Suc h')
    then have "sorted_wrt (<) (map fst (kvs n))" using t n by (auto simp: live_node_def inner_ok_def node_keys_def)
    then show ?thesis using sort_key_sorted s(1) by metis
  qed
  then show ks: "sorted_wrt (<) (map fst l @ map fst r)" by (simp add: s(1))
  show "h \<noteq> 0 \<Longrightarrow> kvs (the (N p)) = l @ r" using srt n by simp
  have kl: "fst (last l) = last (map fst l)" "last (map fst l) \<in> fst ` set l" using s(2) by (simp_all add: last_map)
  show "fst q \<le> fst (last l)" if "q \<in> set l" for q
    using that ks unfolding kl(1) by (intro sorted_last) (simp_all add: sorted_wrt_append)
  show "\<not> fst q \<le> fst (last l)" if "q \<in> set r" for q
    using that ks kl(2) unfolding kl(1) sorted_wrt_append by (metis image_eqI leD set_map)
  have "set (kvs n) = set l \<union> set r" using s(1) by (metis set_append set_sort)
  then show "c_string (fst q)" if "q \<in> set l \<union> set r" for q
    using that t n by (cases h) (auto simp: live_node_def leaf_ok_def inner_ok_def)
qed

text \<open>Each half is a tree, with the contents and nodes of its part of the children.\<close>

lemma split_left:
  assumes sr: "split_root N N' h p l r a b c" and na: "N' a = Some na"
  shows "tree N' h a (\<lambda>k. k \<le> fst (last l))" and "h = 0 \<Longrightarrow> tree_kvs N' h a = l"
    and "h = Suc h' \<Longrightarrow> j < length l \<Longrightarrow> tree_kvs N' h' (child_of na j) = tree_kvs N h' (child_of (the (N p)) j) \<and>
      tree_nodes N' h' (child_of na j) = tree_nodes N h' (child_of (the (N p)) j)"
proof -
  obtain n where t: "tree N h p (\<lambda>_. True)" and n: "N p = Some n" and d: "distinct (tree_nodes N h p)"
    and s: "sort_key fst (kvs n) = l @ r" "l \<noteq> []" "r \<noteq> []" and f: "fresh_node l na" "ptr_ok a" using split_rootD [OF sr] na by (metis option.inject)
  have fr: "\<And>x. x \<in> set (tree_nodes N h p) \<Longrightarrow> x \<noteq> p \<Longrightarrow> N' x = N x" using sr by (auto simp: split_root_def)
  note k = split_keys [OF sr]
  have s': "sort_key fst (kvs n) = [] @ l @ r" using s(1) by simp
  have kl: "fst (last l) = last (map fst l)" using s(2) by (simp add: last_map)
  have inn: "k \<le> fst (last l) \<and> route (map fst l) k = route (node_keys n) k" if "h \<noteq> 0" "route (node_keys n) k < length l" for k
    using that k(4) n route_halves [OF k(1), of k] s(2,3) by (auto simp: node_keys_def kl)
  note P = tree_part [OF t n s' s(2) na f fr d, of "\<lambda>k. k \<le> fst (last l)"]
  show "tree N' h a (\<lambda>k. k \<le> fst (last l))" "h = 0 \<Longrightarrow> tree_kvs N' h a = l"
    by (rule P(1) P(2); use k(2) inn in simp)+
  assume h: "h = Suc h'" "j < length l"
  have "child_of na j = child_of n (length ([] :: kv list) + j) \<and>
    tree_kvs N' h' (child_of na j) = tree_kvs N h' (child_of n (length ([] :: kv list) + j)) \<and>
    tree_nodes N' h' (child_of na j) = tree_nodes N h' (child_of n (length ([] :: kv list) + j))"
    by (rule P(3) [OF _ _ _ _ h]) (use k(2) inn in simp_all)
  then show "tree_kvs N' h' (child_of na j) = tree_kvs N h' (child_of (the (N p)) j) \<and>
      tree_nodes N' h' (child_of na j) = tree_nodes N h' (child_of (the (N p)) j)" unfolding list.size add_0 n option.sel by blast
qed

lemma split_right:
  assumes sr: "split_root N N' h p l r a b c" and nb: "N' b = Some nb"
  shows "tree N' h b (\<lambda>k. \<not> k \<le> fst (last l))" and "h = 0 \<Longrightarrow> tree_kvs N' h b = r"
    and "h = Suc h' \<Longrightarrow> j < length r \<Longrightarrow> tree_kvs N' h' (child_of nb j) = tree_kvs N h' (child_of (the (N p)) (length l + j)) \<and>
      tree_nodes N' h' (child_of nb j) = tree_nodes N h' (child_of (the (N p)) (length l + j))"
proof -
  obtain n where t: "tree N h p (\<lambda>_. True)" and n: "N p = Some n" and d: "distinct (tree_nodes N h p)"
    and s: "sort_key fst (kvs n) = l @ r" "l \<noteq> []" "r \<noteq> []" and f: "fresh_node r nb" "ptr_ok b" using split_rootD [OF sr] nb by (metis option.inject)
  have fr: "\<And>x. x \<in> set (tree_nodes N h p) \<Longrightarrow> x \<noteq> p \<Longrightarrow> N' x = N x" using sr by (auto simp: split_root_def)
  note k = split_keys [OF sr]
  have s': "sort_key fst (kvs n) = l @ r @ []" using s(1) by simp
  have kl: "fst (last l) = last (map fst l)" using s(2) by (simp add: last_map)
  have inn: "\<not> k \<le> fst (last l) \<and> length l + route (map fst r) k = route (node_keys n) k" if "h \<noteq> 0" "length l \<le> route (node_keys n) k" for k
    using that k(4) n route_halves [OF k(1), of k] s(2,3) by (auto simp: node_keys_def kl)
  note P = tree_part [OF t n s' s(3) nb f fr d, of "\<lambda>k. \<not> k \<le> fst (last l)"]
  show "tree N' h b (\<lambda>k. \<not> k \<le> fst (last l))" "h = 0 \<Longrightarrow> tree_kvs N' h b = r"
    by (rule P(1) P(2); use k(3) inn in simp)+
  assume h: "h = Suc h'" "j < length r"
  have "child_of nb j = child_of n (length l + j) \<and> tree_kvs N' h' (child_of nb j) = tree_kvs N h' (child_of n (length l + j)) \<and>
    tree_nodes N' h' (child_of nb j) = tree_nodes N h' (child_of n (length l + j))"
    by (rule P(3) [OF _ _ _ _ h]) (use k(3) inn in simp_all)
  then show "tree_kvs N' h' (child_of nb j) = tree_kvs N h' (child_of (the (N p)) (length l + j)) \<and>
      tree_nodes N' h' (child_of nb j) = tree_nodes N h' (child_of (the (N p)) (length l + j))" unfolding n option.sel by blast
qed

lemma split_tree:
  assumes sr: "split_root N N' h p l r a b c"
  shows "tree N' (Suc h) c (\<lambda>_. True)" and "child_of (the (N' c)) 0 = a" and "child_of (the (N' c)) 1 = b"
    and "node_keys (the (N' c)) = [fst (last l), fst (last r)]" and "length (kvs (the (N' c))) = 2"
proof -
  obtain na nb nc where n: "N' a = Some na" "N' b = Some nb" "N' c = Some nc" "ptr_ok c" "l \<noteq> []" "r \<noteq> []"
    and f: "fresh_node [(fst (last l), word_bytes a), (fst (last r), word_bytes b)] nc" using split_rootD [OF sr] by metis
  note d = fresh_nodeD [OF f] and k = split_keys [OF sr]
  show cs: "child_of (the (N' c)) 0 = a" "child_of (the (N' c)) 1 = b" "node_keys (the (N' c)) = [fst (last l), fst (last r)]"
    "length (kvs (the (N' c))) = 2"
    using d n(3) by (simp_all add: child_of_def node_keys_def)
  have "inner_ok nc"
  proof (rule fresh_inner [OF f])
    have "fst (last l) < fst (last r)" using k(3) [of "last r"] n(6) by simp
    then show "sorted_wrt (<) (map fst [(fst (last l), word_bytes a), (fst (last r), word_bytes b)])" by simp
    show "\<forall>p \<in> set [(fst (last l), word_bytes a), (fst (last r), word_bytes b)]. c_string (fst p) \<and> length (snd p) = 8"
      using k(5) n(5,6) by simp
  qed simp
  moreover have "tree N' h a (\<lambda>k. True \<and> route [fst (last l), fst (last r)] k = 0)" "tree N' h b (\<lambda>k. True \<and> route [fst (last l), fst (last r)] k = 1)"
    using split_left(1) [OF sr n(1)] split_right(1) [OF sr n(2)] by (simp_all add: route_pair)
  ultimately show "tree N' (Suc h) c (\<lambda>_. True)"
    using n(3,4) d(4) cs by (auto simp: live_node_def less_2_cases_iff)
qed

lemma split_nodes_distinct:
  assumes sr: "split_root N N' h p l r a b c"
  shows "distinct (tree_nodes N' (Suc h) c)"
proof -
  obtain n na nb nc where n: "N p = Some n" "N' a = Some na" "N' b = Some nb" "N' c = Some nc" "distinct (tree_nodes N h p)"
    "fresh_node l na" "fresh_node r nb" using split_rootD [OF sr] by metis
  have ptr: "distinct [a, b, c]" "{a, b, c} \<inter> set (tree_nodes N h p) = {}" using sr by (auto simp: split_root_def)
  have e: "tree_nodes N' (Suc h) c = c # tree_nodes N' h a @ tree_nodes N' h b"
    using split_tree(2,3,5) [OF sr] by (simp add: upt_rec numeral_2_eq_2)
  show ?thesis
  proof (cases h)
    case 0
    then show ?thesis using ptr(1) unfolding e by auto
  next
    case (Suc h')
    let ?f = "\<lambda>j. tree_nodes N h' (child_of n j)"
    have kv: "kvs n = l @ r" using split_keys(4) [OF sr] n(1) Suc by simp
    have "map (\<lambda>j. tree_nodes N' h' (child_of na j)) [0..<length l] = map ?f [0..<length l]"
      using split_left(3) [OF sr n(2) Suc] n(1) by simp
    moreover have "map (\<lambda>j. tree_nodes N' h' (child_of nb j)) [0..<length r] = map ?f (map ((+) (length l)) [0..<length r])"
      using split_right(3) [OF sr n(3) Suc] n(1) by simp
    moreover have "map ((+) (length l)) [0..<length r] = [length l..<length l + length r]"
      by (rule nth_equalityI) simp_all
    ultimately have "tree_nodes N' (Suc h') a = a # concat (map ?f [0..<length l])"
      "tree_nodes N' (Suc h') b = b # concat (map ?f [length l..<length l + length r])"
      by (simp_all only: tree_nodes.simps n(2,3) fresh_nodeD(2) [OF n(6)] fresh_nodeD(2) [OF n(7)] option.sel)
    then have "tree_nodes N' (Suc h) c = c # (a # concat (map ?f [0..<length l])) @ (b # concat (map ?f [length l..<length l + length r]))"
      using e by (simp only: Suc)
    moreover have "tree_nodes N h p = p # concat (map ?f [0..<length l]) @ concat (map ?f [length l..<length l + length r])"
      unfolding Suc using n(1) kv upt_add_eq_append [of 0 "length l" "length r"] by simp
    ultimately show ?thesis using n(5) ptr by auto
  qed
qed

lemma split_map_leaf:
  assumes sr: "split_root N N' 0 p l r a b c"
  shows "map_of (tree_kvs N 0 p) k = map_of (if k \<le> fst (last l) then l else r) k"
proof -
  obtain n where n: "N p = Some n" "tree N 0 p (\<lambda>_. True)" "sort_key fst (kvs n) = l @ r" using split_rootD [OF sr] by metis
  have "distinct (map fst (kvs n))" using n by (auto simp: live_node_def leaf_ok_def node_keys_def)
  then have "map_of (tree_kvs N 0 p) k = map_of (l @ r) k" using sort_key_leaf(1) n by (metis option.sel tree_kvs.simps(1))
  moreover have "k \<le> fst (last l) \<Longrightarrow> map_of r k = None" "\<not> k \<le> fst (last l) \<Longrightarrow> map_of l k = None"
    using split_keys(2,3) [OF sr] by (auto simp: map_of_eq_None_iff)
  ultimately show ?thesis by (auto simp: map_add_def split: option.split)
qed

lemma split_map_inner:
  assumes sr: "split_root N N' (Suc h') p l r a b c"
  shows "map_of (tree_kvs N' (Suc h') (if k \<le> fst (last l) then a else b)) k = map_of (tree_kvs N (Suc h') p) k"
proof -
  obtain n na nb where n: "N p = Some n" "tree N (Suc h') p (\<lambda>_. True)" "N' a = Some na" "N' b = Some nb" "l \<noteq> []" "r \<noteq> []"
    "fresh_node l na" "fresh_node r nb" using split_rootD [OF sr] by metis
  have kn: "node_keys n = map fst l @ map fst r" using split_keys(4) [OF sr] n(1) by (simp add: node_keys_def)
  have kab: "node_keys na = map fst l" "node_keys nb = map fst r"
    using fresh_nodeD(2) [OF n(7)] fresh_nodeD(2) [OF n(8)] by (simp_all add: node_keys_def)
  have ne: "map fst l \<noteq> []" "map fst r \<noteq> []" using n(5,6) by simp_all
  have kl: "fst (last l) = last (map fst l)" using n(5) by (simp add: last_map)
  note rh = route_halves [OF split_keys(1) [OF sr] ne, folded kl]
  have whole: "map_of (tree_kvs N (Suc h') p) k = map_of (tree_kvs N h' (child_of n (route (node_keys n) k))) k"
    using tree_map_inner [OF n(2,1)] .
  have i: "route (map fst l) k < length l" "route (map fst r) k < length r" using route_less ne by (metis length_map)+
  show ?thesis
  proof (cases "k \<le> fst (last l)")
    case True
    have "map_of (tree_kvs N' (Suc h') a) k = map_of (tree_kvs N' h' (child_of na (route (map fst l) k))) k"
      using tree_map_inner [OF split_left(1) [OF sr n(3)] n(3)] kab(1) by simp
    then show ?thesis using split_left(3) [OF sr n(3) refl i(1)] True rh(1) [of k] kn whole n(1) by simp
  next
    case False
    have "map_of (tree_kvs N' (Suc h') b) k = map_of (tree_kvs N' h' (child_of nb (route (map fst r) k))) k"
      using tree_map_inner [OF split_right(1) [OF sr n(4)] n(4)] kab(2) by simp
    then show ?thesis using split_right(3) [OF sr n(4) refl i(2)] False rh(2) [of k] kn whole n(1) by simp
  qed
qed

lemma split_map:
  assumes sr: "split_root N N' h p l r a b c"
  shows "map_of (tree_kvs N' (Suc h) c) = map_of (tree_kvs N h p)"
proof
  fix k
  obtain na nb nc where n: "N' a = Some na" "N' b = Some nb" "N' c = Some nc" using split_rootD [OF sr] by metis
  have "map_of (tree_kvs N' (Suc h) c) k = map_of (tree_kvs N' h (if k \<le> fst (last l) then a else b)) k"
    using tree_map_inner [OF split_tree(1) [OF sr] n(3), of k] split_tree(2-4) [OF sr] n(3) by (simp add: route_pair split: if_splits)
  also have "\<dots> = map_of (tree_kvs N h p) k"
  proof (cases h)
    case 0
    then show ?thesis using split_map_leaf [of N N' p l r a b c k] sr split_left(2) [OF sr n(1)] split_right(2) [OF sr n(2)] by auto
  next
    case (Suc h')
    then show ?thesis using split_map_inner sr by blast
  qed
  finally show "map_of (tree_kvs N' (Suc h) c) k = map_of (tree_kvs N h p) k" .
qed

end
