(* ===== verification/BzRoot.thy ===== *)
theory BzRoot
  imports BzSplit
begin

text \<open>
  The modification of the root (\<open>find_leaf_parent_smo\<close>): freezing it, building its replacement under new metadata,
  installing that with one compare-and-swap, and handing the old objects to the garbage list.
\<close>

section \<open>Handing objects to the garbage list\<close>

definition push_slot :: "bz_callback garbage_list \<Rightarrow> nat \<Rightarrow> nat" where
  "push_slot gl j = unat ((gl_tail gl + of_nat j - 1) AND (gl_item_count gl - 1))"

text \<open>The next \<open>k\<close> slots of the ring are empty, and the epoch counter is not about to wrap.\<close>

definition push_ready :: "nat \<Rightarrow> bz_world \<Rightarrow> bool" where
  "push_ready k w \<longleftrightarrow> distinct (map (push_slot (garbage w)) [0..<k]) \<and>
     (\<forall>j < k. push_slot (garbage w) j < length (gl_items (garbage w)) \<and>
        removal_epoch (gl_items (garbage w) ! push_slot (garbage w) j) = 0) \<and>
     unat (current_epoch (managers (bew w) (bz_mgr w))) + k < 2 ^ 64"

lemma bump_keeps_in:
  assumes "bz_in tid w" and "unat (current_epoch (managers (bew w) (bz_mgr w))) + 1 < 2 ^ 64"
  obtains ew' where "BumpCurrentEpoch (bz_mgr w) (bew w) = Inr ew'" "bz_in tid (w\<lparr>bew := ew'\<rparr>)"
    "unat (current_epoch (managers ew' (bz_mgr w))) = unat (current_epoch (managers (bew w) (bz_mgr w))) + 1"
proof -
  let ?m = "bz_mgr w"
  have i: "mgr_inv ?m (bew w)" using assms(1) by (simp add: bz_in_def bz_idle_def)
  obtain ew' where b: "BumpCurrentEpoch ?m (bew w) = Inr ew'" "mgr_inv ?m ew'" "tls ew' = tls (bew w)"
    "entries ?m ew' = entries ?m (bew w)"
    "unat (current_epoch (managers ew' ?m)) = unat (current_epoch (managers (bew w) ?m)) + 1"
    using Bump_spec [OF i assms(2)] by metis
  have "current_epoch (managers ew' ?m) \<noteq> 0" using b(5) by (metis Suc_eq_plus1 nat.distinct(1) unat_0)
  then have "bz_in tid (w\<lparr>bew := ew'\<rparr>)"
    using assms(1) b by (auto simp: bz_in_def bz_idle_def has_room_def protected_at_def)
  then show thesis using that b by blast
qed

lemma bz_Push_ok:
  assumes w: "bz_in tid w" and r: "push_ready (Suc k) w"
  obtains gl' ew' where "bz_Push (Suc f) p w = Done () (w\<lparr>garbage := gl', bew := ew'\<rparr>)"
    "bz_in tid (w\<lparr>garbage := gl', bew := ew'\<rparr>)" "push_ready k (w\<lparr>garbage := gl', bew := ew'\<rparr>)"
proof -
  let ?gl = "garbage w" and ?m = "bz_mgr w"
  define slot where "slot = (gl_tail ?gl - 1) AND (gl_item_count ?gl - 1)"
  have s0: "push_slot ?gl 0 = unat slot" by (simp add: push_slot_def slot_def)
  have z: "removal_epoch (gl_items ?gl ! unat slot) = 0" "unat (current_epoch (managers (bew w) ?m)) + Suc k < 2 ^ 64"
    using r s0 by (auto simp: push_ready_def)
  obtain ew' where b: "round_bump (manager_ops ?m) (gl_item_count ?gl) slot (bew w) = Inr ew'" "bz_in tid (w\<lparr>bew := ew'\<rparr>)"
    "unat (current_epoch (managers ew' ?m)) \<le> unat (current_epoch (managers (bew w) ?m)) + 1"
  proof (cases "push_bit 2 slot AND (gl_item_count ?gl - 1) = 0")
    case True
    have c: "unat (current_epoch (managers (bew w) ?m)) + 1 < 2 ^ 64" using z(2) by linarith
    obtain ew' where "BumpCurrentEpoch ?m (bew w) = Inr ew'" "bz_in tid (w\<lparr>bew := ew'\<rparr>)"
      "unat (current_epoch (managers ew' ?m)) = unat (current_epoch (managers (bew w) ?m)) + 1"
      using bump_keeps_in [OF w c] .
    then show ?thesis using that [of ew'] True by (simp add: round_bump_def manager_ops_def)
  next
    case False
    then show ?thesis using that [of "bew w"] w by (simp add: round_bump_def)
  qed
  define it where "it = new_item (GetCurrentEpoch ?m (bew w)) DestroyNode 0 p"
  define gl' where "gl' = ?gl\<lparr>gl_tail := gl_tail ?gl + 1, gl_items := (gl_items ?gl)[unat slot := it]\<rparr>"
  have ps: "push_slot gl' j = push_slot ?gl (Suc j)" for j by (simp add: push_slot_def gl'_def add.commute)
  have ne: "invalid_epoch \<noteq> 0" by (simp add: invalid_epoch_def)
  have "Push_shared (Suc f) (manager_ops ?m) p DestroyNode 0 ?gl (bew w) = Inr (Status_OK, gl', ew', [])"
    using b(1) z(1) ne unfolding Push_shared_def
    by (simp add: Let_def slot_def [symmetric] gl'_def it_def manager_ops_def)
  then have run: "bz_Push (Suc f) p w = Done () (w\<lparr>garbage := gl', bew := ew'\<rparr>)"
    by (simp add: bz_Push_def upd_heap_def Status_ok_def Status_OK_def)
  have "bz_in tid (w\<lparr>garbage := gl', bew := ew'\<rparr>)" using b(2) by (simp add: bz_in_def bz_idle_def)
  moreover have "push_ready k (w\<lparr>garbage := gl', bew := ew'\<rparr>)"
  proof -
    have d: "distinct (map (push_slot ?gl) [0..<Suc k])" using r by (simp add: push_ready_def)
    have m: "map (push_slot ?gl) [0..<Suc k] = push_slot ?gl 0 # map (push_slot gl') [0..<k]"
      unfolding upt_conv_Cons [OF zero_less_Suc] by (simp add: ps map_Suc_upt [symmetric] comp_def del: upt_Suc)
    have "push_slot gl' j < length (gl_items gl') \<and> removal_epoch (gl_items gl' ! push_slot gl' j) = 0" if "j < k" for j
    proof -
      have "push_slot gl' j \<in> push_slot gl' ` {0..<k}" using that by simp
      then have "push_slot gl' j \<noteq> unat slot" using d unfolding m s0 by auto
      then show ?thesis using r that by (simp add: push_ready_def gl'_def ps [unfolded gl'_def])
    qed
    then show ?thesis using d b(3) z(2) unfolding m by (simp add: push_ready_def)
  qed
  ultimately show thesis using that run by blast
qed

section \<open>The compacted root\<close>

lemma tree_compact:
  assumes t: "tree N h p I" and n: "N p = Some n" and d: "distinct (tree_nodes N h p)"
    and new: "N' a = Some n'" "fresh_node (sort_key fst (kvs n)) n'" "ptr_ok a" "a \<notin> set (tree_nodes N h p)"
    and fr: "\<And>x. x \<in> set (tree_nodes N h p) \<Longrightarrow> x \<noteq> p \<Longrightarrow> N' x = N x"
  shows "tree N' h a I \<and> map_of (tree_kvs N' h a) = map_of (tree_kvs N h p) \<and> distinct (tree_nodes N' h a)"
proof (cases h)
  case 0
  have l: "leaf_ok n" "\<forall>q \<in> set (kvs n). I (fst q)" using t n 0 by (auto simp: live_node_def)
  then have ds: "distinct (map fst (kvs n))" by (simp add: leaf_ok_def node_keys_def)
  note s = sort_key_leaf [OF ds]
  have "leaf_ok n'" by (rule fresh_leaf [OF l(1) new(2)]) (use s in simp_all)
  then show ?thesis using new fresh_nodeD [OF new(2)] l(2) s(1) n 0 by (auto simp: live_node_def)
next
  case (Suc h')
  have i: "inner_ok n" using t n Suc by (auto simp: live_node_def)
  have sk: "sort_key fst (kvs n) = [] @ kvs n @ []" "kvs n \<noteq> []"
    using sort_key_sorted [of "kvs n"] i by (simp_all add: inner_ok_def node_keys_def)
  have f: "fresh_node (kvs n) n'" using new(2) sk(1) by simp
  note P = tree_part [OF t n sk new(1) f new(3) fr d]
  have tr: "tree N' h a I" by (rule P(1)) (simp_all add: Suc node_keys_def)
  have c: "tree_kvs N' h' (child_of n' j) = tree_kvs N h' (child_of n j) \<and>
      tree_nodes N' h' (child_of n' j) = tree_nodes N h' (child_of n j)" if "j < length (kvs n)" for j
  proof -
    have "child_of n' j = child_of n (length ([] :: kv list) + j) \<and>
      tree_kvs N' h' (child_of n' j) = tree_kvs N h' (child_of n (length ([] :: kv list) + j)) \<and>
      tree_nodes N' h' (child_of n' j) = tree_nodes N h' (child_of n (length ([] :: kv list) + j))"
      by (rule P(3) [OF _ _ _ _ Suc that]) (simp_all add: Suc node_keys_def)
    then show ?thesis unfolding list.size add_0 by blast
  qed
  have k: "kvs n' = kvs n" using fresh_nodeD(2) [OF f] .
  have "map (\<lambda>j. tree_kvs N' h' (child_of n' j)) [0..<length (kvs n)] = map (\<lambda>j. tree_kvs N h' (child_of n j)) [0..<length (kvs n)]"
    "map (\<lambda>j. tree_nodes N' h' (child_of n' j)) [0..<length (kvs n)] = map (\<lambda>j. tree_nodes N h' (child_of n j)) [0..<length (kvs n)]"
    using c by simp_all
  then have "tree_kvs N' h a = tree_kvs N h p" "tree_nodes N' h a = a # tl (tree_nodes N h p)"
    unfolding Suc tree_kvs.simps tree_nodes.simps new(1) n option.sel k by (simp_all only: list.sel)
  moreover have "distinct (a # tl (tree_nodes N h p))" using d new(4) unfolding Suc by simp
  ultimately show ?thesis using tr by simp
qed

section \<open>The new metadata\<close>

lemma push_ready_upd [simp]:
  "push_ready k (upd_heap f w) = push_ready k w" "push_ready k (w\<lparr>avail := ps\<rparr>) = push_ready k w"
  by (simp_all add: push_ready_def)

lemma install_root:
  assumes w: "bz_in tid w" and pr: "push_ready 2 w" and r: "root_md (heap w) = old" and c: "IsCleanPtr old" "IsCleanPtr m"
  obtains gl' ew' where "zbind (store_md m md') (\<lambda>_. zbind (bz_MwCAS tid [(RootLoc, old, m)]) (\<lambda>installed.
      if installed then zbind (bz_Push (Suc f) old) (\<lambda>_. zbind (bz_Push (Suc f) q) (\<lambda>_. zret True)) else X)) w =
    Done True ((upd_heap (\<lambda>H. (set_md m md' H)\<lparr>root_md := m\<rparr>) w)\<lparr>garbage := gl', bew := ew'\<rparr>)"
    "bz_in tid ((upd_heap (\<lambda>H. (set_md m md' H)\<lparr>root_md := m\<rparr>) w)\<lparr>garbage := gl', bew := ew'\<rparr>)"
proof -
  define w1 where "w1 = upd_heap (set_md m md') w"
  define w2 where "w2 = upd_heap (\<lambda>H. (set_md m md' H)\<lparr>root_md := m\<rparr>) w"
  have "bz_MwCAS tid [(RootLoc, old, m)] w1 = Done True (upd_heap (fold (\<lambda>e. set_loc (fst e) (snd (snd e))) [(RootLoc, old, m)]) w1)"
    by (rule bz_MwCAS_ok) (use w r c in \<open>simp_all add: w1_def entry_ok_def DESC_CAP_def\<close>)
  then have cas: "bz_MwCAS tid [(RootLoc, old, m)] w1 = Done True w2" by (simp add: w1_def w2_def)
  have i2: "bz_in tid w2" "push_ready (Suc (Suc 0)) w2" using w pr by (simp_all add: w2_def numeral_2_eq_2)
  obtain gl1 ew1 where p1: "bz_Push (Suc f) old w2 = Done () (w2\<lparr>garbage := gl1, bew := ew1\<rparr>)"
    "bz_in tid (w2\<lparr>garbage := gl1, bew := ew1\<rparr>)" "push_ready (Suc 0) (w2\<lparr>garbage := gl1, bew := ew1\<rparr>)"
    using bz_Push_ok [OF i2] by metis
  have e: "(w2\<lparr>garbage := gl1, bew := ew1\<rparr>)\<lparr>garbage := gl, bew := ew\<rparr> = w2\<lparr>garbage := gl, bew := ew\<rparr>" for gl ew by simp
  obtain gl2 ew2 where p2: "bz_Push (Suc f) q (w2\<lparr>garbage := gl1, bew := ew1\<rparr>) = Done () (w2\<lparr>garbage := gl2, bew := ew2\<rparr>)"
    "bz_in tid (w2\<lparr>garbage := gl2, bew := ew2\<rparr>)"
    using bz_Push_ok [OF p1(2,3), of f q] unfolding e by metis
  show thesis
  proof (rule that [of ew2 gl2])
    show "zbind (store_md m md') (\<lambda>_. zbind (bz_MwCAS tid [(RootLoc, old, m)]) (\<lambda>installed.
      if installed then zbind (bz_Push (Suc f) old) (\<lambda>_. zbind (bz_Push (Suc f) q) (\<lambda>_. zret True)) else X)) w =
    Done True ((upd_heap (\<lambda>H. (set_md m md' H)\<lparr>root_md := m\<rparr>) w)\<lparr>garbage := gl2, bew := ew2\<rparr>)"
      unfolding w2_def [symmetric] using cas p1(1) p2(1) by (simp add: store_md_def w1_def)
    show "bz_in tid ((upd_heap (\<lambda>H. (set_md m md' H)\<lparr>root_md := m\<rparr>) w)\<lparr>garbage := gl2, bew := ew2\<rparr>)"
      using p2(2) by (simp add: w2_def)
  qed
qed

section \<open>The root modification\<close>

definition splittable :: "node \<Rightarrow> bool" where
  "splittable n \<longleftrightarrow> 2 < length (kvs n) \<and> (\<forall>q \<in> set (kvs n). length (fst q) \<le> 104) \<and>
     (\<exists>sep. pivot (sort_key fst (kvs n)) = Inr sep)"

text \<open>What goes to the left and to the right node of a split.\<close>

definition halves :: "node \<Rightarrow> kv list \<times> kv list" where
  "halves n = (let srt = sort_key fst (kvs n) in case pivot srt of Inl e \<Rightarrow> (srt, []) | Inr sep \<Rightarrow> (take sep srt, drop sep srt))"

text \<open>The next objects of the allocator: metadata, then nodes that are not in the tree.\<close>

definition smo_room :: "nat \<Rightarrow> nat \<Rightarrow> bz_world \<Rightarrow> bool" where
  "smo_room k h w \<longleftrightarrow> k < length (avail w) \<and> ptr_ok (root_md (heap w)) \<and> ptr_ok (avail w ! 0) \<and>
     (\<forall>p \<in> set (take k (tl (avail w))). ptr_ok p \<and> p \<notin> set (tree_nodes (nodes (heap w)) h (root_of (heap w)))) \<and>
     distinct (take k (tl (avail w))) \<and> push_ready 2 w"

lemma freeze_root:
  assumes w: "bz_in tid w" and n: "nodes (heap w) p = Some n" "ptr_ok p" "node_ok n"
  defines "n1 \<equiv> n\<lparr>status_word := set_frozen True (status_word n)\<rparr>"
  shows "bz_MwCAS tid [freeze_entry p (status_word n)] w = Done True (upd_heap (set_node p n1) w)"
    and "kvs n1 = kvs n" and "node_ok n1"
proof -
  have "unat (delete_size (status_word n)) < 2 ^ 19"
    using n(3) node_ok_bounds [OF n(3)] by (simp add: node_ok_def)
  then show "bz_MwCAS tid [freeze_entry p (status_word n)] w = Done True (upd_heap (set_node p n1) w)"
    unfolding freeze_entry_def n1_def using n by (intro cas_status [OF w]) (simp_all add: ptr_ok_def set_frozen_def)
  show "kvs n1 = kvs n" "node_ok n1"
    using n(3) by (simp_all add: n1_def kvs_def slots_def set_frozen_def node_ok_def used_def)
qed

lemma root_change:
  assumes H: "bz_tree H h" and t: "tree (nodes H') h' r (\<lambda>_. True)" "distinct (tree_nodes (nodes H') h' r)"
    and m: "map_of (tree_kvs (nodes H') h' r) = map_of (tree_kvs (nodes H) h (root_of H))"
    and md: "root_md H' \<noteq> 0" "mds H' (root_md H') = Some md" "root_node md = r" "unat (height md) = Suc h'"
  shows "bz_tree H' h'" and "bz_map H' h' = bz_map H h"
proof -
  show "bz_tree H' h'" using md t by (auto simp: bz_tree_def)
  have "root_of H' = r" using md by (simp add: root_of_def)
  then show "bz_map H' h' = bz_map H h" using m by (auto simp: bz_map_def fun_eq_iff)
qed

lemma root_smo_run:
  assumes w: "bz_in tid w" and md: "mds (heap w) (root_md (heap w)) = Some md"
    and n: "nodes (heap w) (root_node md) = Some n" "ptr_ok (root_node md)" "node_ok n"
    and due: "root_needs_compact (status_word n) \<or> root_needs_split (status_word n)"
    and av: "avail w = m # avs" and rm: "ptr_ok (root_md (heap w))" "ptr_ok m"
    and build: "(if root_needs_compact (status_word n) then zbind (node_compact (root_node md)) (\<lambda>r. zret (r, height md))
        else zbind (node_split None (root_node md)) (\<lambda>(r, _). zret (r, height md + 1)))
        ((upd_heap (set_node (root_node md) (n\<lparr>status_word := set_frozen True (status_word n)\<rparr>)) w)\<lparr>avail := avs\<rparr>) = Done (a, ht) w2"
    and w2: "bz_in tid w2" "push_ready 2 w2" "root_md (heap w2) = root_md (heap w)"
  obtains w3 where "root_smo (Suc f) tid (root_md (heap w)) w = Done True w3" "bz_in tid w3" "nodes (heap w3) = nodes (heap w2)"
    "root_md (heap w3) = m" "mds (heap w3) m = Some \<lparr>root_node = a, height = ht, md_epoch = md_epoch md\<rparr>"
proof -
  let ?H = "heap w" and ?md = "\<lparr>root_node = a, height = ht, md_epoch = md_epoch md\<rparr>"
  have ptr: "IsCleanPtr (root_md ?H)" "IsCleanPtr m" using rm by (simp_all add: ptr_ok_def)
  obtain gl ew where r: "zbind (store_md m ?md) (\<lambda>_. zbind (bz_MwCAS tid [(RootLoc, root_md ?H, m)]) (\<lambda>installed.
      if installed then zbind (bz_Push (Suc f) (root_md ?H)) (\<lambda>_. zbind (bz_Push (Suc f) (root_node md)) (\<lambda>_. zret True))
      else zbind (zupd (upd_heap (\<lambda>h. set_md m \<lparr>root_node = 0, height = height md, md_epoch = md_epoch md\<rparr> (free_obj a h))))
        (\<lambda>_. zlift (Inl (BadAccess ''POBJ_FREE(nullptr)''))))) w2 =
    Done True ((upd_heap (\<lambda>H. (set_md m ?md H)\<lparr>root_md := m\<rparr>) w2)\<lparr>garbage := gl, bew := ew\<rparr>)"
    "bz_in tid ((upd_heap (\<lambda>H. (set_md m ?md H)\<lparr>root_md := m\<rparr>) w2)\<lparr>garbage := gl, bew := ew\<rparr>)"
    using install_root [OF w2 ptr] by metis
  define w3 where "w3 = (upd_heap (\<lambda>H. (set_md m ?md H)\<lparr>root_md := m\<rparr>) w2)\<lparr>garbage := gl, bew := ew\<rparr>"
  have "root_smo (Suc f) tid (root_md ?H) w = Done True w3"
    using md n(1) due freeze_root(1) [OF w n] build r(1) av unfolding w3_def [symmetric]
    by (simp add: root_smo_def Let_def znew_def)
  then show thesis by (rule that [of w3]) (use r(2) in \<open>simp_all add: w3_def\<close>)
qed

lemma root_smo_compact:
  assumes w: "bz_in tid w" and t: "bz_tree (heap w) h" and room: "smo_room 1 h w"
    and c: "root_needs_compact (status_word (the (nodes (heap w) (root_of (heap w)))))"
  obtains w' n' where "root_smo (Suc f) tid (root_md (heap w)) w = Done True w'" "bz_in tid w'" "bz_tree (heap w') h"
    "bz_map (heap w') h = bz_map (heap w) h" "nodes (heap w') (root_of (heap w')) = Some n'"
    "fresh_node (sort_key fst (kvs (the (nodes (heap w) (root_of (heap w)))))) n'"
proof -
  let ?H = "heap w" and ?r = "root_of (heap w)"
  obtain md where md: "mds ?H (root_md ?H) = Some md" "unat (height md) = Suc h" and e: "root_node md = ?r"
    and tr: "tree (nodes ?H) h ?r (\<lambda>_. True)" and d: "distinct (tree_nodes (nodes ?H) h ?r)" using bz_treeD [OF t] by metis
  obtain n where n: "nodes ?H ?r = Some n" "ptr_ok ?r" "node_ok n" using tree_live [OF tr] by (auto simp: live_node_def)
  obtain m a av where av: "avail w = m # a # av" using room unfolding smo_room_def by (cases "avail w"; cases "tl (avail w)") auto
  have rm: "ptr_ok (root_md ?H)" "ptr_ok m" "ptr_ok a" "a \<notin> set (tree_nodes (nodes ?H) h ?r)" "push_ready 2 w"
    using room av by (simp_all add: smo_room_def)
  define n1 where "n1 = n\<lparr>status_word := set_frozen True (status_word n)\<rparr>"
  note fz = freeze_root [OF w n, folded n1_def]
  obtain n' where c': "node_compact ?r ((upd_heap (set_node ?r n1) w)\<lparr>avail := a # av\<rparr>) =
      Done a (upd_heap (set_node a n') ((upd_heap (set_node ?r n1) w)\<lparr>avail := av\<rparr>))" "fresh_node (sort_key fst (kvs n)) n'"
    using node_compact_ok [of "(upd_heap (set_node ?r n1) w)\<lparr>avail := a # av\<rparr>" ?r n1 a av] fz by auto
  define w2 where "w2 = upd_heap (set_node a n') ((upd_heap (set_node ?r n1) w)\<lparr>avail := av\<rparr>)"
  have w2: "bz_in tid w2" "push_ready 2 w2" "root_md (heap w2) = root_md ?H" "nodes (heap w2) = (nodes ?H)(?r \<mapsto> n1, a \<mapsto> n')"
    using w rm(5) by (simp_all add: w2_def)
  have b: "(if root_needs_compact (status_word n) then zbind (node_compact ?r) (\<lambda>r. zret (r, height md))
      else zbind (node_split None ?r) (\<lambda>(r, _). zret (r, height md + 1))) ((upd_heap (set_node ?r n1) w)\<lparr>avail := a # av\<rparr>) =
      Done (a, height md) w2"
    using c'(1) c n(1) by (simp add: w2_def)
  have due: "root_needs_compact (status_word n) \<or> root_needs_split (status_word n)" using c n(1) by simp
  obtain w3 where r: "root_smo (Suc f) tid (root_md ?H) w = Done True w3" "bz_in tid w3" "nodes (heap w3) = nodes (heap w2)"
    "root_md (heap w3) = m" "mds (heap w3) m = Some \<lparr>root_node = a, height = height md, md_epoch = md_epoch md\<rparr>"
    using root_smo_run [OF w md(1), unfolded e, OF n due av rm(1,2) b [unfolded n1_def] w2(1,2,3)] .
  have T: "tree (nodes (heap w3)) h a (\<lambda>_. True) \<and> map_of (tree_kvs (nodes (heap w3)) h a) = map_of (tree_kvs (nodes ?H) h ?r) \<and>
      distinct (tree_nodes (nodes (heap w3)) h a)"
    by (rule tree_compact [OF tr n(1) d _ c'(2) rm(3,4)]) (use rm(4) in \<open>auto simp: r(3) w2(4)\<close>)
  have "bz_tree (heap w3) h" "bz_map (heap w3) h = bz_map ?H h"
    by (rule root_change [OF t, of "heap w3" h a "\<lparr>root_node = a, height = height md, md_epoch = md_epoch md\<rparr>"];
        use T r md(2) rm(2) in \<open>simp add: ptr_ok_def\<close>)+
  moreover have "nodes (heap w3) (root_of (heap w3)) = Some n'" using r(3-5) w2(4) by (simp add: root_of_def)
  ultimately show thesis using that [OF r(1,2)] c'(2) n(1) by simp
qed

lemma root_smo_split:
  assumes w: "bz_in tid w" and t: "bz_tree (heap w) h" and room: "smo_room 3 h w" and h: "Suc (Suc h) < 2 ^ 64"
    and c: "\<not> root_needs_compact (status_word (the (nodes (heap w) (root_of (heap w)))))"
      "root_needs_split (status_word (the (nodes (heap w) (root_of (heap w)))))" "splittable (the (nodes (heap w) (root_of (heap w))))"
  obtains w' p q na nb nc l r where "root_smo (Suc f) tid (root_md (heap w)) w = Done True w'" "bz_in tid w'"
    "bz_tree (heap w') (Suc h)" "bz_map (heap w') (Suc h) = bz_map (heap w) h"
    "halves (the (nodes (heap w) (root_of (heap w)))) = (l, r)" "nodes (heap w') (root_of (heap w')) = Some nc"
    "fresh_node [(fst (last l), word_bytes p), (fst (last r), word_bytes q)] nc"
    "nodes (heap w') p = Some na" "fresh_node l na" "nodes (heap w') q = Some nb" "fresh_node r nb" "l \<noteq> []" "r \<noteq> []"
proof -
  let ?H = "heap w" and ?r = "root_of (heap w)"
  obtain md where md: "mds ?H (root_md ?H) = Some md" "unat (height md) = Suc h" and e: "root_node md = ?r"
    and tr: "tree (nodes ?H) h ?r (\<lambda>_. True)" and d: "distinct (tree_nodes (nodes ?H) h ?r)" using bz_treeD [OF t] by metis
  obtain n where n: "nodes ?H ?r = Some n" "ptr_ok ?r" "node_ok n" using tree_live [OF tr] by (auto simp: live_node_def)
  obtain m p q s av where av: "avail w = m # p # q # s # av"
    using room unfolding smo_room_def
    by (cases "avail w"; cases "tl (avail w)"; cases "tl (tl (avail w))"; cases "tl (tl (tl (avail w)))") auto
  have rm: "ptr_ok (root_md ?H)" "ptr_ok m" "ptr_ok p" "ptr_ok q" "ptr_ok s" "distinct [p, q, s]"
    "{p, q, s} \<inter> set (tree_nodes (nodes ?H) h ?r) = {}" "push_ready 2 w"
    using room av by (auto simp: smo_room_def numeral_3_eq_3)
  define n1 where "n1 = n\<lparr>status_word := set_frozen True (status_word n)\<rparr>"
  note fz = freeze_root [OF w n, folded n1_def]
  obtain sep where sp: "2 < length (kvs n)" "\<forall>z \<in> set (kvs n). length (fst z) \<le> 104" "pivot (sort_key fst (kvs n)) = Inr sep"
    using c(3) n(1) by (auto simp: splittable_def)
  let ?l = "take sep (sort_key fst (kvs n))" and ?rt = "drop sep (sort_key fst (kvs n))"
  define w1 where "w1 = (upd_heap (set_node ?r n1) w)\<lparr>avail := p # q # s # av\<rparr>"
  have w1: "nodes (heap w1) ?r = Some n1" and w1': "avail w1 = [p, q, s] @ av" by (simp_all add: w1_def)
  obtain na nb nc where b: "node_split None ?r w1 =
      Done (s, p, q) (upd_heap (\<lambda>H. set_node s nc (set_node q nb (set_node p na H))) (w1\<lparr>avail := av\<rparr>))"
    "fresh_node ?l na" "fresh_node ?rt nb" "fresh_node [(fst (last ?l), word_bytes p), (fst (last ?rt), word_bytes q)] nc"
    "?l \<noteq> []" "?rt \<noteq> []"
    using node_split_root [OF w1 fz(3) w1', unfolded fz(2), OF sp(1,3,2)] .
  define w2 where "w2 = upd_heap (\<lambda>H. set_node s nc (set_node q nb (set_node p na H))) (w1\<lparr>avail := av\<rparr>)"
  have w2: "bz_in tid w2" "push_ready 2 w2" "root_md (heap w2) = root_md ?H"
    "nodes (heap w2) = (nodes ?H)(?r \<mapsto> n1, p \<mapsto> na, q \<mapsto> nb, s \<mapsto> nc)"
    using w rm(8) by (simp_all add: w2_def w1_def)
  have bd: "(if root_needs_compact (status_word n) then zbind (node_compact ?r) (\<lambda>r. zret (r, height md))
      else zbind (node_split None ?r) (\<lambda>(r, _). zret (r, height md + 1))) w1 = Done (s, height md + 1) w2"
    using b(1) c n(1) by (simp add: w2_def)
  have due: "root_needs_compact (status_word n) \<or> root_needs_split (status_word n)" using c n(1) by simp
  obtain w3 where r: "root_smo (Suc f) tid (root_md ?H) w = Done True w3" "bz_in tid w3" "nodes (heap w3) = nodes (heap w2)"
    "root_md (heap w3) = m" "mds (heap w3) m = Some \<lparr>root_node = s, height = height md + 1, md_epoch = md_epoch md\<rparr>"
    using root_smo_run [OF w md(1), unfolded e, OF n due av rm(1,2) bd [unfolded w1_def n1_def] w2(1,2,3)] .
  have sr: "split_root (nodes ?H) (nodes (heap w3)) h ?r ?l ?rt p q s"
    unfolding split_root_def using tr d n(1) b(2-6) rm(3-7) by (auto simp: r(3) w2(4))
  note T = split_tree(1) [OF sr] split_map [OF sr] split_nodes_distinct [OF sr]
  have ht: "unat (height md + 1) = Suc (Suc h)" using unat_plus_of_nat [of "height md" 1] md(2) h by simp
  have "bz_tree (heap w3) (Suc h)" "bz_map (heap w3) (Suc h) = bz_map ?H h"
    by (rule root_change [OF t, of "heap w3" "Suc h" s "\<lparr>root_node = s, height = height md + 1, md_epoch = md_epoch md\<rparr>"];
        use T r ht rm(2) in \<open>simp add: ptr_ok_def\<close>)+
  moreover have "halves (the (nodes ?H ?r)) = (?l, ?rt)" using sp(3) n(1) by (simp add: halves_def Let_def)
  moreover have "nodes (heap w3) (root_of (heap w3)) = Some nc" "nodes (heap w3) p = Some na" "nodes (heap w3) q = Some nb"
    using r(3-5) w2(4) rm(6) by (simp_all add: root_of_def)
  ultimately show thesis using that [OF r(1,2)] b(2-6) by blast
qed

end
