(* ===== verification/BzInsert.thy ===== *)
theory BzInsert
  imports BzRoot
begin

text \<open>
  The tree as a key-value store: the height is read from the metadata, an insertion or update may first compact or
  split the root leaf, and every operation of a lone thread is the operation on the abstract map.
\<close>

section \<open>The store\<close>

definition bz_height :: "bz_heap \<Rightarrow> nat" where
  "bz_height H = unat (height (the (mds H (root_md H)))) - 1"

definition bz_ok :: "bz_heap \<Rightarrow> bool" where
  "bz_ok H \<longleftrightarrow> bz_tree H (bz_height H)"

definition bz_contents :: "bz_heap \<Rightarrow> string \<Rightarrow> string option" where
  "bz_contents H = bz_map H (bz_height H)"

lemma bz_okI: "bz_tree H h \<Longrightarrow> bz_ok H \<and> bz_contents H = bz_map H h \<and> bz_height H = h"
  by (auto simp: bz_ok_def bz_contents_def bz_height_def bz_tree_def)

section \<open>Modifications of the root leaf before an insertion\<close>

definition root_leaf :: "bz_world \<Rightarrow> node" where
  "root_leaf w = the (nodes (heap w) (root_of (heap w)))"

text \<open>The root is a leaf with much deleted space, and its records leave room; or it is full, and its halves leave room
  and do not fit into one node again.\<close>

definition compacts_well :: "bz_world \<Rightarrow> bool" where
  "compacts_well w \<longleftrightarrow> bz_height (heap w) = 0 \<and> root_needs_compact (status_word (root_leaf w)) \<and> smo_room 1 0 w \<and>
     space (kvs (root_leaf w)) \<le> 192"

definition splits_well :: "bz_world \<Rightarrow> bool" where
  "splits_well w \<longleftrightarrow> bz_height (heap w) = 0 \<and> \<not> root_needs_compact (status_word (root_leaf w)) \<and>
     root_needs_split (status_word (root_leaf w)) \<and> splittable (root_leaf w) \<and> smo_room 3 0 w \<and>
     (let (l, r) = halves (root_leaf w) in space l \<le> 192 \<and> space r \<le> 192 \<and> 176 < space l + space r \<and>
        length (fst (last l)) + length (fst (last r)) \<le> 160)"

lemma fresh_calm:
  assumes "fresh_node ps n" and "space ps \<le> 192"
  shows "\<not> root_needs_compact (status_word n)" and "\<not> root_needs_split (status_word n)"
  using fresh_nodeD [OF assms(1)] assms(2)
  by (auto simp: root_needs_compact_def root_needs_split_def used_def bz_sizes)

lemma compacted_calm:
  assumes "nodes H (root_of H) = Some n" and "fresh_node ps n" and "space ps \<le> 192"
  shows "calm H 0 key"
  using fresh_calm [OF assms(2,3)] assms(1) by (simp add: calm_def)

lemma split_calm:
  assumes c: "nodes H (root_of H) = Some nc" "fresh_node [(kl, word_bytes p), (kr, word_bytes q)] nc" "length kl + length kr \<le> 160"
    and a: "nodes H p = Some na" "fresh_node l na" "space l \<le> 192" and b: "nodes H q = Some nb" "fresh_node r nb" "space r \<le> 192"
    and m: "176 < space l + space r"
  shows "calm H (Suc 0) key"
proof -
  have s: "space [(kl, word_bytes p), (kr, word_bytes q)] \<le> 192" using c(3) by (simp add: kv_space_def bz_sizes)
  have k: "kvs nc = [(kl, word_bytes p), (kr, word_bytes q)]" using fresh_nodeD [OF c(2)] by simp
  have ch: "child_of nc 0 = p" "child_of nc (Suc 0) = q" by (simp_all add: child_of_def k)
  have sp: "used na = space l" "del na = 0" "used nb = space r" "del nb = 0" "node_ok na" "node_ok nb"
    using fresh_nodeD [OF a(2)] fresh_nodeD [OF b(2)] by simp_all
  have fs: "unat (free_space (status_word na)) = 240 - space l" "unat (free_space (status_word nb)) = 240 - space r"
    using free_space_nat sp by metis+
  have "unat (free_space (status_word na) + free_space (status_word nb)) = (240 - space l) + (240 - space r)"
    unfolding fs [symmetric] using fs by (simp add: unat_word_ariths)
  then have "\<not> can_merge (status_word na) (status_word nb)" "\<not> can_merge (status_word nb) (status_word na)"
    using m a(3) b(3) by (simp_all add: can_merge_def add.commute bz_sizes)
  then have "calm_child (nodes H) nc i" if "i < 2" for i
    using that a b sp fs by (auto simp: calm_child_def Let_def less_2_cases_iff ch k bz_sizes)
  moreover have "route (node_keys nc) (cbytes key) < 2" using route_less [of "node_keys nc" "cbytes key"] by (simp add: node_keys_def k)
  ultimately show ?thesis using c(1) fresh_calm [OF c(2) s] by (simp add: calm_def Let_def)
qed

text \<open>The descent that such a modification precedes.\<close>

lemma find_leaf_root_smo:
  assumes w: "bz_in tid w" and t: "bz_ok (heap w)" and s: "compacts_well w \<or> splits_well w" and key: "NUL \<notin> set key"
  obtains w1 h where "find_leaf (Suc (Suc f)) tid key True w = Done (leaf_at (heap w1) h key) w1" "bz_in tid w1"
    "bz_tree (heap w1) h" "bz_map (heap w1) h = bz_contents (heap w)" "calm (heap w1) h key"
proof -
  have z: "bz_height (heap w) = 0" using s by (auto simp: compacts_well_def splits_well_def)
  then have t0: "bz_tree (heap w) 0" and c0: "bz_contents (heap w) = bz_map (heap w) 0" using t by (simp_all add: bz_ok_def bz_contents_def)
  have md: "root_md (heap w) \<noteq> 0" using t0 by (auto simp: bz_tree_def)
  show thesis
  proof (cases "compacts_well w")
    case True
    then obtain w1 n' where r: "root_smo (Suc (Suc f)) tid (root_md (heap w)) w = Done True w1" "bz_in tid w1" "bz_tree (heap w1) 0"
      "bz_map (heap w1) 0 = bz_map (heap w) 0" "nodes (heap w1) (root_of (heap w1)) = Some n'"
      "fresh_node (sort_key fst (kvs (root_leaf w))) n'"
      using root_smo_compact [OF w t0, of "Suc f"] unfolding compacts_well_def root_leaf_def by metis
    have c: "calm (heap w1) 0 key" by (rule compacted_calm [OF r(5,6)]) (use True in \<open>simp add: compacts_well_def\<close>)
    show thesis using that [OF find_leaf_retry [OF md r(1,3) key c] r(2,3)] r(4) c c0 by simp
  next
    case False
    then have s': "splits_well w" using s by simp
    have d: "smo_room 3 0 w" "\<not> root_needs_compact (status_word (root_leaf w))" "root_needs_split (status_word (root_leaf w))"
      "splittable (root_leaf w)" using s' by (simp_all add: splits_well_def)
    have lt: "Suc (Suc 0) < 2 ^ 64" by simp
    obtain w1 p q na nb nc l r where r: "root_smo (Suc (Suc f)) tid (root_md (heap w)) w = Done True w1" "bz_in tid w1"
      "bz_tree (heap w1) (Suc 0)" "bz_map (heap w1) (Suc 0) = bz_map (heap w) 0"
      and h: "halves (root_leaf w) = (l, r)" and nc: "nodes (heap w1) (root_of (heap w1)) = Some nc"
      "fresh_node [(fst (last l), word_bytes p), (fst (last r), word_bytes q)] nc"
      and n: "nodes (heap w1) p = Some na" "fresh_node l na" "nodes (heap w1) q = Some nb" "fresh_node r nb" "l \<noteq> []" "r \<noteq> []"
      using root_smo_split [where f = "Suc f", OF w t0 d(1) lt d(2-4) [unfolded root_leaf_def]] unfolding root_leaf_def .
    have c: "calm (heap w1) (Suc 0) key"
      by (rule split_calm [OF nc _ n(1,2) _ n(3,4)]) (use s' h [folded root_leaf_def] in \<open>simp_all add: splits_well_def\<close>)
    show thesis using that [OF find_leaf_retry [OF md r(1,3) key c] r(2,3)] r(4) c c0 by simp
  qed
qed

section \<open>Insertion and update\<close>

definition write_ready :: "string \<Rightarrow> string \<Rightarrow> bz_world \<Rightarrow> bool" where
  "write_ready key val w \<longleftrightarrow> fits key val \<and> (calm (heap w) (bz_height (heap w)) key \<or> compacts_well w \<or> splits_well w)"

lemma protect_push_ready:
  assumes w: "bz_idle tid w" and p: "bz_Protect tid w = Done () (w\<lparr>bew := ew1\<rparr>)"
  shows "push_ready k (w\<lparr>bew := ew1\<rparr>) = push_ready k w"
proof -
  have i: "mgr_inv (bz_mgr w) (bew w)" "has_room (bz_mgr w) tid (bew w)" "tid \<noteq> 0" using w by (simp_all add: bz_idle_def)
  have "Protect (bz_mgr w) tid (bew w) = Inr ew1"
    using p by (auto simp: bz_Protect_def zepoch_def dest: arg_cong [where f = bew] split: sum.splits)
  then have "current_epoch (managers ew1 (bz_mgr w)) = current_epoch (managers (bew w) (bz_mgr w))"
    using Protect_spec [OF i] by (metis sum.inject(2))
  then show ?thesis by (simp add: push_ready_def)
qed

lemma protect_ready:
  assumes w: "bz_idle tid w" and r: "write_ready key val w"
  obtains w0 where "bz_Protect tid w = Done () w0" "bz_in tid w0" "heap w0 = heap w" "write_ready key val w0"
proof -
  obtain ew1 where p: "bz_Protect tid w = Done () (w\<lparr>bew := ew1\<rparr>)" "bz_in tid (w\<lparr>bew := ew1\<rparr>)" using bz_Protect_ok [OF w] .
  have "write_ready key val (w\<lparr>bew := ew1\<rparr>)"
    using r protect_push_ready [OF w p(1)]
    by (simp add: write_ready_def compacts_well_def splits_well_def root_leaf_def smo_room_def)
  then show thesis using that p by simp
qed

lemma find_leaf_ready:
  assumes w: "bz_in tid w" and t: "bz_ok (heap w)" and r: "write_ready key val w"
  obtains w1 h where "find_leaf (Suc (Suc f)) tid key True w = Done (leaf_at (heap w1) h key) w1" "bz_in tid w1"
    "bz_tree (heap w1) h" "bz_map (heap w1) h = bz_contents (heap w)" "used (the (nodes (heap w1) (leaf_at (heap w1) h key))) + 48 \<le> 240"
proof -
  have key: "NUL \<notin> set key" using r fitsD(2) [of key val] by (simp add: write_ready_def)
  obtain w1 h where f: "find_leaf (Suc (Suc f)) tid key True w = Done (leaf_at (heap w1) h key) w1" "bz_in tid w1"
    "bz_tree (heap w1) h" "bz_map (heap w1) h = bz_contents (heap w)" "calm (heap w1) h key"
  proof (cases "calm (heap w) (bz_height (heap w)) key")
    case True
    have t': "bz_tree (heap w) (bz_height (heap w))" using t by (simp add: bz_ok_def)
    show ?thesis by (rule that [OF find_leaf_ok [OF t' key True] w t' _ True]) (simp add: bz_contents_def)
  next
    case False
    then have s: "compacts_well w \<or> splits_well w" using r by (simp add: write_ready_def)
    show ?thesis using find_leaf_root_smo [OF w t s key] that by metis
  qed
  show thesis by (rule that [OF f(1-4) calm_room [OF f(3,5)]])
qed

lemma insert_ok:
  assumes w: "bz_idle tid w" and t: "bz_ok (heap w)" and r: "write_ready key val w"
  shows "\<exists>w'. BzTree_insert (Suc (Suc (Suc f))) tid key val w = Done (bz_contents (heap w) key = None) w' \<and> bz_idle tid w' \<and>
    bz_ok (heap w') \<and> bz_contents (heap w') = (if bz_contents (heap w) key = None then (bz_contents (heap w))(key \<mapsto> val) else bz_contents (heap w))"
proof -
  obtain w0 where p: "bz_Protect tid w = Done () w0" "bz_in tid w0" "heap w0 = heap w" "write_ready key val w0" using protect_ready [OF w r] .
  obtain w1 h where f: "find_leaf (Suc (Suc f)) tid key True w0 = Done (leaf_at (heap w1) h key) w1" "bz_in tid w1"
    "bz_tree (heap w1) h" "bz_map (heap w1) h = bz_contents (heap w)" "used (the (nodes (heap w1) (leaf_at (heap w1) h key))) + 48 \<le> 240"
    using find_leaf_ready [OF p(2) _ p(4)] t p(3) by metis
  have fit: "fits key val" using r by (simp add: write_ready_def)
  show ?thesis
  proof (rule insert_found [OF p(1) f(1-3) fit f(5)])
    fix v ew' assume a: "bz_map (heap w1) h key = Some v" "BzTree_insert (Suc (Suc (Suc f))) tid key val w = Done False (w1\<lparr>bew := ew'\<rparr>)"
      "bz_idle tid (w1\<lparr>bew := ew'\<rparr>)"
    then show ?thesis using bz_okI [OF f(3)] f(4) by (intro exI [of _ "w1\<lparr>bew := ew'\<rparr>"]) simp
  next
    fix ew' H' assume a: "bz_map (heap w1) h key = None"
      "BzTree_insert (Suc (Suc (Suc f))) tid key val w = Done True (w1\<lparr>bew := ew', heap := H'\<rparr>)"
      "bz_idle tid (w1\<lparr>bew := ew', heap := H'\<rparr>)" "bz_tree H' h" "bz_map H' h = (bz_map (heap w1) h)(key \<mapsto> val)"
    then show ?thesis using bz_okI [OF a(4)] f(4) by (intro exI [of _ "w1\<lparr>bew := ew', heap := H'\<rparr>"]) simp
  qed
qed

lemma update_ok:
  assumes w: "bz_idle tid w" and t: "bz_ok (heap w)" and r: "write_ready key val w"
  shows "\<exists>w'. BzTree_update (Suc (Suc (Suc f))) tid key val w = Done (bz_contents (heap w) key \<noteq> None) w' \<and> bz_idle tid w' \<and>
    bz_ok (heap w') \<and> bz_contents (heap w') = (if bz_contents (heap w) key = None then bz_contents (heap w) else (bz_contents (heap w))(key \<mapsto> val))"
proof -
  obtain w0 where p: "bz_Protect tid w = Done () w0" "bz_in tid w0" "heap w0 = heap w" "write_ready key val w0" using protect_ready [OF w r] .
  obtain w1 h where f: "find_leaf (Suc (Suc f)) tid key True w0 = Done (leaf_at (heap w1) h key) w1" "bz_in tid w1"
    "bz_tree (heap w1) h" "bz_map (heap w1) h = bz_contents (heap w)" "used (the (nodes (heap w1) (leaf_at (heap w1) h key))) + 48 \<le> 240"
    using find_leaf_ready [OF p(2) _ p(4)] t p(3) by metis
  have fit: "fits key val" using r by (simp add: write_ready_def)
  show ?thesis
  proof (rule update_found [OF p(1) f(1-3) fit f(5)])
    fix ew' assume a: "bz_map (heap w1) h key = None" "BzTree_update (Suc (Suc (Suc f))) tid key val w = Done False (w1\<lparr>bew := ew'\<rparr>)"
      "bz_idle tid (w1\<lparr>bew := ew'\<rparr>)"
    then show ?thesis using bz_okI [OF f(3)] f(4) by (intro exI [of _ "w1\<lparr>bew := ew'\<rparr>"]) simp
  next
    fix v ew' H' assume a: "bz_map (heap w1) h key = Some v"
      "BzTree_update (Suc (Suc (Suc f))) tid key val w = Done True (w1\<lparr>bew := ew', heap := H'\<rparr>)"
      "bz_idle tid (w1\<lparr>bew := ew', heap := H'\<rparr>)" "bz_tree H' h" "bz_map H' h = (bz_map (heap w1) h)(key \<mapsto> val)"
    then show ?thesis using bz_okI [OF a(4)] f(4) by (intro exI [of _ "w1\<lparr>bew := ew', heap := H'\<rparr>"]) simp
  qed
qed

section \<open>The contract of a key-value store\<close>

fun bz_op :: "nat \<Rightarrow> u64 \<Rightarrow> (string, string) map_op \<Rightarrow> string answer bz" where
  "bz_op fuel tid (Find key) = zbind (BzTree_lookup fuel tid key) (\<lambda>r. zret (Value r))"
| "bz_op fuel tid (Erase key) = zbind (BzTree_erase fuel tid key) (\<lambda>r. zret (Changed r))"
| "bz_op fuel tid (Insert key val) = zbind (BzTree_insert fuel tid key val) (\<lambda>r. zret (Changed r))"
| "bz_op fuel tid (Update key val) = zbind (BzTree_update fuel tid key val) (\<lambda>r. zret (Changed r))"

definition bz_step :: "nat \<Rightarrow> u64 \<Rightarrow> (string, string) map_op \<Rightarrow> bz_world \<Rightarrow> string answer \<Rightarrow> bz_world \<Rightarrow> bool" where
  "bz_step fuel tid x w a w' \<longleftrightarrow> bz_op fuel tid x w = Done a w'"

fun bz_ready :: "(string, string) map_op \<Rightarrow> bz_world \<Rightarrow> bool" where
  "bz_ready (Find key) w \<longleftrightarrow> NUL \<notin> set key"
| "bz_ready (Erase key) w \<longleftrightarrow> NUL \<notin> set key"
| "bz_ready (Insert key val) w \<longleftrightarrow> write_ready key val w"
| "bz_ready (Update key val) w \<longleftrightarrow> write_ready key val w"

declare BzTree_insert.simps [simp del] BzTree_update.simps [simp del] BzTree_erase.simps [simp del]

lemma lookup_store:
  assumes "bz_idle tid w" and "bz_ok (heap w)" and "NUL \<notin> set key"
  shows "\<exists>w'. BzTree_lookup (Suc f) tid key w = Done (bz_contents (heap w) key) w' \<and> bz_idle tid w' \<and> heap w' = heap w"
proof -
  have t: "bz_tree (heap w) (bz_height (heap w))" using assms(2) by (simp add: bz_ok_def)
  show ?thesis
    by (rule lookup_ok [OF assms(1) t assms(3), of f]) (auto simp: bz_contents_def)
qed

lemma erase_store:
  assumes w: "bz_idle tid w" and "bz_ok (heap w)" and "NUL \<notin> set key"
  shows "\<exists>w'. BzTree_erase (Suc (Suc f)) tid key w = Done (bz_contents (heap w) key \<noteq> None) w' \<and> bz_idle tid w' \<and>
    (bz_contents (heap w) key \<noteq> None \<longrightarrow> bz_in tid w') \<and> bz_ok (heap w') \<and> bz_contents (heap w') = (bz_contents (heap w))(key := None)"
proof -
  have t: "bz_tree (heap w) (bz_height (heap w))" using assms(2) by (simp add: bz_ok_def)
  show ?thesis
  proof (rule erase_ok [OF w t assms(3), of f])
    fix ew' assume a: "bz_map (heap w) (bz_height (heap w)) key = None" "BzTree_erase (Suc (Suc f)) tid key w = Done False (w\<lparr>bew := ew'\<rparr>)"
      "bz_idle tid (w\<lparr>bew := ew'\<rparr>)"
    then show ?thesis using assms(2) by (intro exI [of _ "w\<lparr>bew := ew'\<rparr>"]) (simp add: bz_contents_def fun_upd_idem)
  next
    fix v ew' H' assume a: "bz_map (heap w) (bz_height (heap w)) key = Some v"
      "BzTree_erase (Suc (Suc f)) tid key w = Done True (w\<lparr>bew := ew', heap := H'\<rparr>)"
      "bz_in tid (w\<lparr>bew := ew', heap := H'\<rparr>)" "bz_tree H' (bz_height (heap w))"
      "bz_map H' (bz_height (heap w)) = (bz_map (heap w) (bz_height (heap w)))(key := None)"
    then show ?thesis using bz_okI [OF a(4)] bz_in_idle [OF a(3)]
      by (intro exI [of _ "w\<lparr>bew := ew', heap := H'\<rparr>"]) (simp add: bz_contents_def)
  qed
qed

interpretation bz: key_value_store "bz_step (Suc (Suc (Suc f))) tid" "\<lambda>w. bz_idle tid w \<and> bz_ok (heap w)"
  "\<lambda>w. bz_contents (heap w)" bz_ready for f tid
proof unfold_locales
  fix w x assume v: "bz_idle tid w \<and> bz_ok (heap w)" and r: "bz_ready x w"
  show "\<exists>s'. bz_step (Suc (Suc (Suc f))) tid x w (fst (spec_step x (bz_contents (heap w)))) s' \<and>
    (bz_idle tid s' \<and> bz_ok (heap s')) \<and> bz_contents (heap s') = snd (spec_step x (bz_contents (heap w)))"
  proof (cases x)
    case (Find key)
    then show ?thesis using lookup_store [of tid w key "Suc (Suc f)"] v r by (auto simp: bz_step_def)
  next
    case (Erase key)
    then show ?thesis using erase_store [of tid w key "Suc f"] v r by (auto simp: bz_step_def)
  next
    case (Insert key val)
    then show ?thesis using insert_ok [of tid w key val f] v r by (cases "bz_contents (heap w) key") (auto simp: bz_step_def)
  next
    case (Update key val)
    then show ?thesis using update_ok [of tid w key val f] v r by (cases "bz_contents (heap w) key") (auto simp: bz_step_def)
  qed
qed (simp add: bz_step_def)

end
