(* ===== verification/BzFaults.thy ===== *)
theory BzFaults
  imports BzInsert
begin

text \<open>
  Where the tree leaves the contract of a map: the assertion in the choice of the pivot that long keys violate, and the
  insertion of a key that another thread inserts between the search and the reservation.
\<close>

section \<open>The pivot\<close>

definition key_bytes :: "kv list \<Rightarrow> nat" where
  "key_bytes ps = sum_list (map (\<lambda>p. length (fst p)) ps)"

lemma pivot_loop_end:
  "ps \<noteq> [] \<Longrightarrow> s + s \<le> t \<Longrightarrow> pivot_loop ps t s sep = sep + length ps \<longleftrightarrow> s + key_bytes (butlast ps) + (s + key_bytes (butlast ps)) \<le> t"
proof (induction ps arbitrary: s sep)
  case (Cons p ps)
  show ?case
  proof (cases "ps = []")
    case False
    have "pivot_loop ps t (s + length (fst p)) (Suc sep) \<le> Suc sep + length ps" for s sep
      using pivot_loop_bounds [OF False] by blast
    moreover have "s + key_bytes (butlast (p # ps)) = (s + length (fst p)) + key_bytes (butlast ps)" using False by (simp add: key_bytes_def)
    moreover have "length ps \<noteq> 0" using False by simp
    ultimately show ?thesis using Cons.IH [OF False, of "s + length (fst p)" "Suc sep"] by (auto simp: Let_def)
  qed (use Cons.prems in \<open>simp add: Let_def key_bytes_def\<close>)
qed simp

lemma pivot_fails_iff:
  assumes "ps \<noteq> []"
  shows "pivot ps = Inl (AssertFail ''sep != sorted.end()'') \<longleftrightarrow> key_bytes (butlast ps) \<le> length (fst (last ps))"
proof -
  have "key_bytes ps = key_bytes (butlast ps) + length (fst (last ps))"
    using assms append_butlast_last_id [of ps] unfolding key_bytes_def
    by (metis (no_types, lifting) add.right_neutral list.simps(8,9) map_append sum_list.Cons sum_list.Nil sum_list_append)
  then show ?thesis
    using pivot_loop_end [OF assms, of 0 "key_bytes ps" 0] by (auto simp: pivot_def Let_def rbind_guard key_bytes_def)
qed

lemma zbind_Aborted: "m w = Aborted e \<Longrightarrow> zbind m f w = Aborted e"
  by (simp add: zbind_def)

lemma node_split_aborts:
  assumes "nodes (heap w) p = Some n" and "node_ok n" and "2 < length (kvs n)"
    and "key_bytes (butlast (sort_key fst (kvs n))) \<le> length (fst (last (sort_key fst (kvs n))))"
  shows "node_split parent p w = Aborted (AssertFail ''sep != sorted.end()'')"
proof -
  have "sort_key fst (kvs n) \<noteq> []" using assms(3) by (metis length_sort list.size(3) not_less_zero)
  then have "pivot (sort_key fst (kvs n)) = Inl (AssertFail ''sep != sorted.end()'')" using pivot_fails_iff assms(4) by blast
  then show ?thesis
    using zcopy_out_ok [OF assms(1,2)] assms(3) by (simp add: node_split_def zbind_Aborted)
qed

lemma root_smo_aborts:
  assumes w: "bz_in tid w" and t: "bz_tree (heap w) h" and av: "avail w = m # av"
    and n: "nodes (heap w) (root_of (heap w)) = Some n" "\<not> root_needs_compact (status_word n)" "root_needs_split (status_word n)"
      "2 < length (kvs n)" "key_bytes (butlast (sort_key fst (kvs n))) \<le> length (fst (last (sort_key fst (kvs n))))"
  shows "root_smo f tid (root_md (heap w)) w = Aborted (AssertFail ''sep != sorted.end()'')"
proof -
  obtain md where md: "mds (heap w) (root_md (heap w)) = Some md" "root_node md = root_of (heap w)"
    and tr: "tree (nodes (heap w)) h (root_of (heap w)) (\<lambda>_. True)" using bz_treeD [OF t] by metis
  have ok: "ptr_ok (root_of (heap w))" "node_ok n" using tree_live [OF tr] n(1) by (auto simp: live_node_def)
  define n1 where "n1 = n\<lparr>status_word := set_frozen True (status_word n)\<rparr>"
  note fz = freeze_root [OF w n(1) ok, folded n1_def]
  have "node_split None (root_of (heap w)) ((upd_heap (set_node (root_of (heap w)) n1) w)\<lparr>avail := av\<rparr>) =
      Aborted (AssertFail ''sep != sorted.end()'')"
    by (rule node_split_aborts [of _ _ n1]) (use fz n in simp_all)
  then show ?thesis
    using md n fz(1) av by (simp add: root_smo_def Let_def znew_def zbind_Aborted)
qed

section \<open>Another insertion of the key\<close>

lemma check_protected_others:
  "bz_check_protected tid w = Done () w \<Longrightarrow> bz_check_protected tid (w\<lparr>others := fs\<rparr>) = Done () (w\<lparr>others := fs\<rparr>)"
proof -
  assume a: "bz_check_protected tid w = Done () w"
  then obtain e where e: "IsProtected (pool_mgr w) tid (bew w) = Inr (True, e)" "w\<lparr>bew := e\<rparr> = w"
    by (auto simp: bz_check_protected_def split: sum.splits if_splits)
  then have "e = bew w" by (metis bz_world.select_convs(3) bz_world.surjective bz_world.update_convs(3))
  then show ?thesis using e(1) by (simp add: bz_check_protected_def)
qed

lemma bz_MwCAS_interfered:
  assumes w: "bz_in tid w" and "\<forall>e \<in> set es. entry_ok e" and "distinct (map fst es)" and "length es \<le> DESC_CAP"
    and "\<forall>e \<in> set es. loc_word (g (heap w)) (fst e) \<noteq> None" and "\<exists>e \<in> set es. loc_word (g (heap w)) (fst e) \<noteq> Some (fst (snd e))"
  shows "bz_MwCAS tid es (w\<lparr>others := [g]\<rparr>) = Done False (upd_heap g w)"
proof -
  have o: "others w = []" using w by (simp add: bz_in_def bz_idle_def)
  have "bz_AddEntries tid [] es (w\<lparr>others := [g]\<rparr>) = Done () (w\<lparr>others := [g]\<rparr>)"
    by (rule bz_AddEntries_checked) (use check_protected_others [OF bz_check_protected_ok [OF w]] assms in auto)
  moreover have e: "w\<lparr>heap := g (heap w), others := []\<rparr> = upd_heap g w" using o by (cases w) (simp add: upd_heap_def)
  moreover have "cas_words es (upd_heap g w) = Done False (upd_heap g w)"
    using assms(5,6) by (auto simp: cas_words_def)
  moreover have "interfere (w\<lparr>others := [g]\<rparr>) = Done () (upd_heap g w)" using e by (simp add: interfere_def)
  ultimately show ?thesis
    using o by (simp add: bz_MwCAS_def interfere_alone)
qed

lemma reserve_interfered:
  assumes w: "bz_in tid w" and nd: "nodes (heap w) leaf = Some n" and al: "unat leaf mod 8 = 0" and ok: "node_ok n"
    and sp: "used n + 8 + record_bytes key val \<le> 240" and n': "status_word n' \<noteq> status_word n" "length (body n') = 240"
  shows "reserve (Suc f) tid leaf key val (w\<lparr>others := [set_node leaf n']\<rparr>) =
    reserve f tid leaf key val (upd_heap (set_node leaf n') w)"
proof -
  define sw where "sw = (status_word n)\<lparr>block_size := block_size (status_word n) + of_nat (record_bytes key val),
      record_count := record_count (status_word n) + 1\<rparr>"
  define md where "md = (unpack_md 0)\<lparr>offset := ucast (global_epoch w OR GLOBAL_EPOCH_OFFSET_BIT)\<rparr>"
  have b: "length (body n) = 240" "8 * recs n + 8 \<le> 240" "del n \<le> 240"
    using sp node_ok_bounds [OF ok] by (simp_all add: used_def bz_sizes)
  have md0: "body_md (body n) (recs n) = unpack_md 0" by (rule free_slot [OF ok]) (use sp in linarith)
  have tl: "\<not> too_large (status_word n) (sizeof_metadata + record_bytes key val)"
    by (subst too_large_iff [OF ok]) (use sp in \<open>simp_all add: bz_sizes\<close>)
  have v: "\<not> visible (unpack_md 0)" "total_len (unpack_md 0) = 0" by (simp_all add: unpack_md_def)
  have al': "(unat leaf + 8) mod 8 = 0" "(unat leaf + 16 + 8 * recs n) mod 8 = 0" using al by presburger+
  let ?es = "[(StatusLoc leaf, pack_sw (status_word n), pack_sw sw), (nmd_loc leaf (recs n), pack_md (unpack_md 0), pack_md md)]"
  have "bz_MwCAS tid ?es (w\<lparr>others := [set_node leaf n']\<rparr>) = Done False (upd_heap (set_node leaf n') w)"
    by (rule bz_MwCAS_interfered [OF w])
      (use al' b n' v in \<open>auto simp: entry_ok_def clean_swI clean_mdI nmd_loc_def bz_sizes DESC_CAP_def sw_def md_def\<close>)
  then show ?thesis
    using nd tl b v(1) by (simp add: reserve.simps read_nmd_def md0 sw_def md_def Let_def)
qed

text \<open>\<open>n'\<close> is the leaf after the other thread's insertion. The first reservation fails; the second one succeeds, with
  no new search for the key in between.\<close>

lemma insert_interfered:
  assumes w: "bz_idle tid w" and t: "bz_tree (heap w) h" and f: "fits key val" and c: "calm (heap w) h key"
    and abs: "bz_map (heap w) h key = None" and l: "leaf = leaf_at (heap w) h key" "nodes (heap w) leaf = Some n"
    and o: "inserted n (cbytes key, cbytes other) n'" "used n' + 48 \<le> 240"
  obtains w' n'' where "BzTree_insert (Suc (Suc (Suc f'))) tid key val (w\<lparr>others := [set_node leaf n']\<rparr>) = Done True w'"
    "nodes (heap w') leaf = Some n''" "kvs n'' = kvs n @ [(cbytes key, cbytes other), (cbytes key, cbytes val)]" "bz_idle tid w'"
proof -
  note k = fitsD [OF f]
  let ?o = "[set_node leaf n']"
  obtain ew1 where p: "bz_Protect tid w = Done () (w\<lparr>bew := ew1\<rparr>)" "bz_in tid (w\<lparr>bew := ew1\<rparr>)" using bz_Protect_ok [OF w] .
  let ?w = "w\<lparr>bew := ew1\<rparr>"
  have p': "bz_Protect tid (w\<lparr>others := ?o\<rparr>) = Done () (?w\<lparr>others := ?o\<rparr>)"
    using p(1) by (auto simp: bz_Protect_def zepoch_def split: sum.splits dest: arg_cong [where f = bew])
  obtain n0 where n0: "nodes (heap w) leaf = Some n0" "unat leaf mod 8 = 0" "\<not> frozen (status_word n0)" "leaf_ok n0"
    "bz_map (heap w) h key = map_option butlast (map_of (kvs n0) (cbytes key))" using leaf_at_ok [OF t, of key] l(1) by metis
  have "n0 = n" using n0(1) l(2) by simp
  note n = n0(2-5) [unfolded this]
  have ok: "node_ok n" "node_ok n'" using n(3) o(1) by (simp_all add: leaf_ok_def inserted_def)
  have fl: "find_leaf (Suc (Suc f')) tid key True (?w\<lparr>others := ?o\<rparr>) = Done leaf (?w\<lparr>others := ?o\<rparr>)"
    using find_leaf_ok [of "?w\<lparr>others := ?o\<rparr>" h key True "Suc f'" tid] t k(2) c l(1) by simp
  have nf: "node_find n key = Inr None"
  proof (rule node_find_ok [OF ok(1) keys_ok_leaf [OF n(3)] k(2)])
    fix i v assume "i < recs n" "slots n ! i = Some (cbytes key, v)"
    then have "(cbytes key, v) \<in> set (kvs n)" using nth_mem [of i "slots n"] by (auto simp: kvs_def set_somes)
    then show ?thesis using abs n(4) by (force simp: map_of_eq_None_iff)
  qed
  have rc: "recs n' = Suc (recs n)" using o(1) length_slots [of n] length_slots [of n'] by (simp add: inserted_def del: length_slots)
  have sp: "used n + 8 + record_bytes key val \<le> 240" "used n' + 8 + record_bytes key val \<le> 240"
    using o k(1) by (simp_all add: inserted_def)
  define w1 where "w1 = upd_heap (set_node leaf n') ?w"
  have w1: "bz_in tid w1" "nodes (heap w1) leaf = Some n'" using p(2) by (simp_all add: w1_def)
  have "\<not> frozen (status_word n')" using n(2) o(1) by (simp add: inserted_def)
  then obtain w2 n'' where r: "reserve (Suc f') tid leaf key val w1 = Done () w2"
    "publish tid leaf key val w2 = Done True (upd_heap (set_node leaf n'') w1)" and i: "inserted n' (cbytes key, cbytes val) n''"
    using insert_leaf [OF w1 n(1) ok(2) _ sp(2), of f'] by auto
  have "status_word n' \<noteq> status_word n" using rc by auto
  then have "reserve (Suc (Suc f')) tid leaf key val (?w\<lparr>others := ?o\<rparr>) = Done () w2"
    using reserve_interfered [OF p(2) _ n(1) ok(1) sp(1), of n' "Suc f'"] l(2) node_ok_bounds(4) [OF ok(2)] r(1)
    unfolding w1_def by simp
  moreover have idle: "bz_idle tid (upd_heap (set_node leaf n'') w1)" using bz_in_idle [OF w1(1)] by simp
  obtain ew2 where u: "bz_Unprotect tid (upd_heap (set_node leaf n'') w1) = Done () ((upd_heap (set_node leaf n'') w1)\<lparr>bew := ew2\<rparr>)"
    "bz_idle tid ((upd_heap (set_node leaf n'') w1)\<lparr>bew := ew2\<rparr>)" using bz_Unprotect_ok [OF idle] .
  ultimately have "BzTree_insert (Suc (Suc (Suc f'))) tid key val (w\<lparr>others := ?o\<rparr>) = Done True ((upd_heap (set_node leaf n'') w1)\<lparr>bew := ew2\<rparr>)"
    using p' fl l(2) nf r(2) k(1) by (simp add: BzTree_insert.simps bz_sizes)
  moreover have "kvs n'' = kvs n @ [(cbytes key, cbytes other), (cbytes key, cbytes val)]"
    using i o(1) by (simp add: inserted_def kvs_def)
  ultimately show thesis using that u(2) by simp
qed

end
