(* ===== verification/BzProps.thy ===== *)
theory BzProps
  imports BzFaults
begin

text \<open>
  The properties of the BzTree, each with a concrete instance: a tree that is one leaf, empty or with five records.
\<close>

section \<open>Bits of a word\<close>

lemma small_iff_bits: "unat (w :: 'a::len word) < 2 ^ k \<longleftrightarrow> (\<forall>n. k \<le> n \<and> n < LENGTH('a) \<longrightarrow> \<not> bit w n)"
proof
  assume *: "\<forall>n. k \<le> n \<and> n < LENGTH('a) \<longrightarrow> \<not> bit w n"
  have "take_bit k w = w"
    by (rule bit_word_eqI) (use * in \<open>auto simp: bit_take_bit_iff not_less [symmetric]\<close>)
  then have "unat w = take_bit k (unat w)" by (metis unsigned_take_bit_eq)
  then show "unat w < 2 ^ k" by (metis take_bit_nat_less_exp)
qed (use not_bit_small in blast)

lemma flag_bits:
  "(\<forall>n. 19 \<le> n \<and> n < LENGTH(22) \<longrightarrow> P n) \<longleftrightarrow> P 19 \<and> P 20 \<and> P 21"
  "(\<forall>n. 13 \<le> n \<and> n < LENGTH(16) \<longrightarrow> P n) \<longleftrightarrow> P 13 \<and> P 14 \<and> P 15"
proof -
  have "19 \<le> n \<and> n < LENGTH(22) \<longleftrightarrow> n = 19 \<or> n = 20 \<or> n = 21" "13 \<le> n \<and> n < LENGTH(16) \<longleftrightarrow> n = 13 \<or> n = 14 \<or> n = 15"
    for n :: nat by (simp_all, presburger+)
  then show "(\<forall>n. 19 \<le> n \<and> n < LENGTH(22) \<longrightarrow> P n) \<longleftrightarrow> P 19 \<and> P 20 \<and> P 21"
    "(\<forall>n. 13 \<le> n \<and> n < LENGTH(16) \<longrightarrow> P n) \<longleftrightarrow> P 13 \<and> P 14 \<and> P 15" by auto
qed

section \<open>A small tree\<close>

definition five :: "kv list" where
  "five = map (\<lambda>c. (cbytes [c], cbytes (replicate 30 (CHR ''v'')))) ''abcde''"

definition demo :: "node \<Rightarrow> bz_world" where
  "demo n = \<lparr>heap = \<lparr>nodes = [2048 \<mapsto> n], mds = [1024 \<mapsto> \<lparr>root_node = 2048, height = 1, md_epoch = 0\<rparr>],
       root_md = 1024, root_pool = 512\<rparr>,
     avail = [4096, 8192, 12288, 16384], bew = world0, bz_mgr = 0, pool_mgr = 1,
     garbage = \<lparr>gl_epoch_manager = Some 0, gl_tail = 0, gl_item_count = 8, gl_items = replicate 8 empty_item\<rparr>,
     bz_pool = 512, global_epoch = 0, pop = True, others = [],
     lib = \<lparr>ew = world0, mem = \<lambda>_. 0, nv = \<lambda>_. 0, descs = \<lambda>_. zero_desc,
       pool = \<lparr>pool_size = 0, desc_per_partition = 0, descriptors = 0, partition_count = 0, partition_table = [],
         next_partition = 0, pool_epoch = 1, pmdk_pool = 0\<rparr>,
       freed = [], mstats = \<lparr>enabled = False, instance_cl = new_core_local\<rparr>, budget = None\<rparr>\<rparr>"

lemma five_facts:
  "space five = 205" "sort_key fst five = five" "pivot five = Inr 3" "length five = 5" "distinct (map fst five)"
  "\<forall>p \<in> set five. c_string (fst p) \<and> c_string (snd p) \<and> length (fst p) = 2"
proof -
  show "space five = 205" by (simp add: five_def kv_space_def cbytes_def bz_sizes)
  have "sorted_wrt (<) (map fst five)" by (simp add: five_def cbytes_def less_list_code)
  then show "sort_key fst five = five" by (rule sort_key_sorted)
  show "pivot five = Inr 3" by (simp add: five_def pivot_def Let_def cbytes_def)
  show "length five = 5" "distinct (map fst five)" by (simp_all add: five_def)
  show "\<forall>p \<in> set five. c_string (fst p) \<and> c_string (snd p) \<and> length (fst p) = 2" by (simp add: five_def NUL_def)
qed

lemma demo_ptrs: "ptr_ok 1024" "ptr_ok 2048" "ptr_ok 4096" "ptr_ok 8192" "ptr_ok 12288" "ptr_ok 16384"
  by (simp_all add: ptr_ok_def IsCleanPtr_def kCondCASFlag_def kMwCASFlag_def kDirtyFlag_def)

lemma demo_ok:
  assumes "leaf_ok n" and "\<not> frozen (status_word n)"
  shows "bz_idle 7 (demo n)" and "bz_tree (heap (demo n)) 0" and "bz_ok (heap (demo n))"
    and "bz_contents (heap (demo n)) key = map_option butlast (map_of (kvs n) (cbytes key))"
    and "root_leaf (demo n) = n" and "leaf_at (heap (demo n)) 0 key = 2048" and "bz_height (heap (demo n)) = 0"
proof -
  have "current_epoch (managers world0 0) = 1" using world0_epoch by (simp add: GetCurrentEpoch_def)
  then show "bz_idle 7 (demo n)" using world0_inv has_room_world0 by (simp add: bz_idle_def demo_def)
  show t: "bz_tree (heap (demo n)) 0"
    using assms demo_ptrs by (simp add: bz_tree_def demo_def live_node_def)
  then show "bz_ok (heap (demo n))" "bz_height (heap (demo n)) = 0" using bz_okI by blast+
  show "bz_contents (heap (demo n)) key = map_option butlast (map_of (kvs n) (cbytes key))"
    using bz_okI [OF t] by (simp add: bz_map_def demo_def root_of_def)
  show "root_leaf (demo n) = n" "leaf_at (heap (demo n)) 0 key = 2048"
    by (simp_all add: demo_def root_leaf_def root_of_def leaf_at_def)
qed

lemma demo_push: "push_ready 2 (demo n)"
proof -
  have "current_epoch (managers world0 0) = 1" using world0_epoch by (simp add: GetCurrentEpoch_def)
  moreover have "[0..<2] = [0, Suc 0]" by (simp add: upt_rec)
  ultimately show ?thesis by (auto simp: push_ready_def demo_def push_slot_def less_2_cases_iff empty_item_def)
qed

lemma five_leaf:
  assumes "fresh_node five n"
  shows "leaf_ok n" and "\<not> frozen (status_word n)" and "kvs n = five" and "splits_well (demo n)"
proof -
  note f = fresh_nodeD [OF assms]
  show k: "kvs n = five" and nf: "\<not> frozen (status_word n)" by (rule f)+
  show l: "leaf_ok n" using f five_facts(5,6) by (simp add: leaf_ok_def node_keys_def)
  have u: "blk n + 8 * recs n = 205" "del n = 0" using f five_facts(1) by (simp_all add: used_def bz_sizes)
  have "root_needs_split (status_word n)" "\<not> root_needs_compact (status_word n)"
    using u by (simp_all add: root_needs_split_def root_needs_compact_def bz_sizes)
  moreover have "splittable n" using five_facts by (simp add: splittable_def k)
  moreover have "smo_room 3 0 (demo n)"
    using demo_ptrs demo_push by (simp add: smo_room_def) (simp add: demo_def root_of_def numeral_3_eq_3)
  moreover have "halves n = (take 3 five, drop 3 five)" using five_facts by (simp add: halves_def Let_def k)
  ultimately show "splits_well (demo n)"
    unfolding splits_well_def demo_ok(5,7) [OF l nf]
    by (simp add: five_def kv_space_def cbytes_def bz_sizes)
qed

lemma zero_leaf: "leaf_ok zero_node" "\<not> frozen (status_word zero_node)" "kvs zero_node = []" "used zero_node = 0" "node_ok zero_node"
proof -
  have z: "recs zero_node = 0" "blk zero_node = 0" "del zero_node = 0" by (simp_all add: zero_node_def unpack_sw_def)
  then show u: "used zero_node = 0" by (simp add: used_def)
  show k: "kvs zero_node = []" using z by (simp add: kvs_def slots_def area_ok_zero(2))
  show "\<not> frozen (status_word zero_node)" by (simp add: zero_node_def unpack_sw_def)
  show ok: "node_ok zero_node" using z u k area_ok_zero(1) by (simp add: node_ok_def)
  show "leaf_ok zero_node" using ok k by (simp add: leaf_ok_def node_keys_def)
qed

lemma five_exists: "\<exists>n. fresh_node five n"
  using copy_in_ok [of five] five_facts(1) by auto

section \<open>The map\<close>

text \<open>C3. A thread that runs alone on a well-formed tree of any height sees a finite map: every sequence of \<open>lookup\<close>, \<open>erase\<close>,
  \<open>insert\<close> and \<open>update\<close> calls returns, answers as the same sequence on the abstract map does, and leaves a well-formed
  tree with the abstract result as its contents. \<open>lookup\<close> and \<open>erase\<close> are always ready; a write is ready when its record fits
  and either no structure modification is due on its path, or the root leaf is to be compacted or split and the new leaves
  have room.\<close>

theorem bz_runs_refine_map:
  assumes "bz_idle tid w" and "bz_ok (heap w)" and "ready_run (bz_step (Suc (Suc (Suc f))) tid) bz_ready xs w"
  shows "\<exists>w'. runs (bz_step (Suc (Suc (Suc f))) tid) xs w (fst (spec_run xs (bz_contents (heap w)))) w' \<and>
    bz_idle tid w' \<and> bz_ok (heap w') \<and> bz_contents (heap w') = snd (spec_run xs (bz_contents (heap w)))"
  using bz.run_refines [of tid w f xs] assms by blast

text \<open>The five records fill the leaf, so the insertion of a sixth one splits it.\<close>

theorem bz_runs_refine_map_witness:
  "\<exists>n w'. fresh_node five n \<and> splits_well (demo n) \<and>
    runs (bz_step 3 7) [Insert ''f'' ''x'', Find ''f'', Erase ''a'', Find ''a''] (demo n)
      [Changed True, Value (Some ''x''), Changed True, Value None] w' \<and> bz_ok (heap w')"
proof -
  obtain n where n: "fresh_node five n" using five_exists by blast
  note l = five_leaf [OF n] and d = demo_ok [OF five_leaf(1,2) [OF n]]
  let ?xs = "[Insert ''f'' ''x'', Find ''f'', Erase ''a'', Find ''a'']"
  have "fits ''f'' ''x''" by (simp add: fits_def record_bytes_def bz_sizes NUL_def)
  then have "write_ready ''f'' ''x'' (demo n)" using l(4) by (simp add: write_ready_def)
  then have r: "ready_run (bz_step (Suc (Suc (Suc 0))) 7) bz_ready ?xs (demo n)" by (simp add: NUL_def)
  have c: "bz_contents (heap (demo n)) ''f'' = None" "bz_contents (heap (demo n)) ''a'' \<noteq> None"
    unfolding d(4) l(3) by (simp_all add: five_def)
  have "fst (spec_run ?xs (bz_contents (heap (demo n)))) = [Changed True, Value (Some ''x''), Changed True, Value None]"
    using c by simp
  then show ?thesis
    using bz_runs_refine_map [OF d(1,3) r] n l(4) by (auto simp: numeral_3_eq_3)
qed

text \<open>C9. The modification of the root, run alone, installs a new root and keeps the map. When much of the root's space is
  deleted, the new root is its compacted copy: the live records in the order of their keys, no deleted space, not frozen. When
  the root is full and can be split, the new root has two records, with the largest keys of the two halves and pointers to
  two new nodes that hold exactly the halves, and the height grows by one.\<close>

theorem root_smo_keeps_map:
  assumes "bz_in tid w" and "bz_tree (heap w) h" and "Suc (Suc h) < 2 ^ 64"
    and "root_needs_compact (status_word (root_leaf w)) \<and> smo_room 1 h w \<or>
      \<not> root_needs_compact (status_word (root_leaf w)) \<and> root_needs_split (status_word (root_leaf w)) \<and>
      splittable (root_leaf w) \<and> smo_room 3 h w"
  shows "\<exists>w'. root_smo (Suc f) tid (root_md (heap w)) w = Done True w' \<and> bz_in tid w' \<and> bz_ok (heap w') \<and>
    bz_contents (heap w') = bz_contents (heap w) \<and>
    bz_height (heap w') = (if root_needs_compact (status_word (root_leaf w)) then h else Suc h) \<and>
    (if root_needs_compact (status_word (root_leaf w)) then fresh_node (sort_key fst (kvs (root_leaf w))) (root_leaf w')
     else \<exists>p q np nq. nodes (heap w') p = Some np \<and> nodes (heap w') q = Some nq \<and>
       fresh_node (fst (halves (root_leaf w))) np \<and> fresh_node (snd (halves (root_leaf w))) nq \<and>
       fresh_node [(fst (last (fst (halves (root_leaf w)))), word_bytes p), (fst (last (snd (halves (root_leaf w)))), word_bytes q)]
         (root_leaf w'))"
proof (cases "root_needs_compact (status_word (root_leaf w))")
  case True
  then have "smo_room 1 h w" using assms(4) by blast
  then obtain w' n' where w': "root_smo (Suc f) tid (root_md (heap w)) w = Done True w'" "bz_in tid w'" "bz_tree (heap w') h"
    "bz_map (heap w') h = bz_map (heap w) h" "nodes (heap w') (root_of (heap w')) = Some n'" "fresh_node (sort_key fst (kvs (root_leaf w))) n'"
    using root_smo_compact [OF assms(1,2)] True unfolding root_leaf_def by metis
  then have "root_leaf w' = n'" by (simp add: root_leaf_def)
  then show ?thesis using w' bz_okI [OF w'(3)] bz_okI [OF assms(2)] True by auto
next
  case False
  then have d: "smo_room 3 h w" "root_needs_split (status_word (root_leaf w))" "splittable (root_leaf w)" using assms(4) by blast+
  obtain w' p q na nb nc l r where w': "root_smo (Suc f) tid (root_md (heap w)) w = Done True w'" "bz_in tid w'" "bz_tree (heap w') (Suc h)"
    "bz_map (heap w') (Suc h) = bz_map (heap w) h" "halves (root_leaf w) = (l, r)" "nodes (heap w') (root_of (heap w')) = Some nc"
    "fresh_node [(fst (last l), word_bytes p), (fst (last r), word_bytes q)] nc"
    "nodes (heap w') p = Some na" "fresh_node l na" "nodes (heap w') q = Some nb" "fresh_node r nb" "l \<noteq> []" "r \<noteq> []"
    using root_smo_split [where f = f, OF assms(1,2) d(1) assms(3) False [unfolded root_leaf_def] d(2,3) [unfolded root_leaf_def],
        folded root_leaf_def] .
  have "root_leaf w' = nc" using w'(6) by (simp add: root_leaf_def)
  then show ?thesis using w' bz_okI [OF w'(3)] bz_okI [OF assms(2)] False by auto
qed

text \<open>The split of the leaf with five records\<close>

theorem root_smo_keeps_map_witness:
  "\<exists>n w w'. fresh_node five n \<and> heap w = heap (demo n) \<and> root_smo 1 7 1024 w = Done True w' \<and> bz_height (heap w') = 1 \<and>
    bz_contents (heap w') = bz_contents (heap (demo n)) \<and> length (kvs (root_leaf w')) = 2"
proof -
  obtain n where n: "fresh_node five n" using five_exists by blast
  note l = five_leaf [OF n] and d = demo_ok [OF five_leaf(1,2) [OF n]]
  obtain ew where p: "bz_in 7 ((demo n)\<lparr>bew := ew\<rparr>)" "push_ready 2 ((demo n)\<lparr>bew := ew\<rparr>)"
    using bz_Protect_ok [OF d(1)] protect_push_ready [OF d(1)] demo_push by metis
  let ?w = "(demo n)\<lparr>bew := ew\<rparr>"
  have rl: "root_leaf ?w = n" using d(5) by (simp add: root_leaf_def)
  have s: "smo_room 3 0 ?w" "\<not> root_needs_compact (status_word n)" "root_needs_split (status_word n)" "splittable n"
    using l(4) p(2) d(5) by (simp_all add: splits_well_def smo_room_def)
  have t: "bz_tree (heap ?w) 0" using d(2) by simp
  have md: "root_md (heap ?w) = 1024" by (simp add: demo_def)
  have "Suc (Suc 0) < 2 ^ 64" by simp
  from root_smo_keeps_map [OF p(1) t this, of 0] s rl
  obtain w' ps where w': "root_smo (Suc 0) 7 1024 ?w = Done True w'" "bz_contents (heap w') = bz_contents (heap ?w)" "bz_height (heap w') = Suc 0"
    "fresh_node ps (root_leaf w')" "length ps = 2"
    unfolding md rl by auto
  have "length (kvs (root_leaf w')) = 2" using fresh_nodeD(2) [OF w'(4)] w'(5) by simp
  then show ?thesis using n w' by (intro exI [of _ n] exI [of _ ?w] exI [of _ w']) simp
qed

section \<open>Nodes\<close>

text \<open>C10. Compaction is exact: copying the records of a well-formed node out and into a new node succeeds, and the new node
  has the same records in the order of their keys, uses exactly the space of these records, has no deleted space, and is
  copied out to the same list again.\<close>

theorem compaction_exact:
  assumes "node_ok n"
  shows "\<exists>ps n'. copy_out n = Inr ps \<and> copy_in ps = Inr n' \<and> node_ok n' \<and> kvs n' = ps \<and> mset ps = mset (kvs n) \<and>
    sorted (map fst ps) \<and> used n' = space (kvs n) \<and> used n' \<le> used n \<and> delete_size (status_word n') = 0 \<and> copy_out n' = Inr ps"
proof -
  let ?ps = "sort_key fst (kvs n)"
  obtain n' where n': "copy_in ?ps = Inr n'" "fresh_node ?ps n'" using copy_in_ok [of ?ps] node_space [OF assms] by auto
  note f = fresh_nodeD [OF n'(2)]
  have "copy_out n' = Inr ?ps" using copy_out_ok [OF f(1)] f(2) by (simp add: sort_key_id_if_sorted)
  moreover have "space (kvs n) \<le> used n" using assms by (simp add: node_ok_def)
  moreover have "delete_size (status_word n') = 0" using n'(2) by (simp add: fresh_node_def)
  ultimately show ?thesis using copy_out_ok [OF assms] n'(1) f by auto
qed

text \<open>The leaf with five records\<close>

theorem compaction_exact_witness:
  "\<exists>n ps n'. fresh_node five n \<and> copy_out n = Inr ps \<and> copy_in ps = Inr n' \<and> mset (kvs n') = mset five \<and> used n' = 205"
proof -
  obtain n where n: "fresh_node five n" using five_exists by blast
  note f = fresh_nodeD [OF n]
  show ?thesis using compaction_exact [OF f(1)] n five_facts(1) unfolding f(2) by auto
qed

text \<open>C12. The words of a well-formed node stay within their fields. The free space is 240 bytes less what is used, with no
  wrap-around, and the test that a record does not fit, computed in 64-bit arithmetic, is the exact comparison. The words that
  \<open>insert\<close>, \<open>update\<close>, \<open>erase\<close> and the freezing of a node enter into a compare-and-swap have the three flag bits of \<open>MwCAS\<close> clear: the
  status word with any size, count and frozen bit, and with the deleted space that \<open>update\<close> and \<open>erase\<close> add, which does not wrap;
  the metadata behind the last record, which is zero, when it is reserved and when it is published; the metadata of a
  visible record, also with a new place, a new length or made invisible. (Pointers to nodes, which the modifications
  of the tree swap, are addresses that the allocator returns.)\<close>

theorem node_words_in_bounds:
  fixes n :: node
  assumes "node_ok n" and "bytes < 2 ^ 13"
  defines "sw \<equiv> status_word n"
  shows "unat (free_space sw) + used n = 240 \<and> too_large sw bytes = (used n + bytes > 240) \<and>
    (\<forall>b r f. IsCleanPtr (pack_sw (sw\<lparr>block_size := b, record_count := r, frozen := f\<rparr>))) \<and>
    (used n + 8 \<le> 240 \<longrightarrow> body_md (body n) (recs n) = unpack_md 0) \<and>
    (\<forall>off k. IsCleanPtr (pack_md ((unpack_md 0)\<lparr>offset := off\<rparr>)) \<and>
       IsCleanPtr (pack_md ((unpack_md 0)\<lparr>offset := off, key_len := k, total_len := of_nat bytes, visible := True\<rparr>))) \<and>
    (\<forall>i m. i < recs n \<longrightarrow> m = body_md (body n) i \<longrightarrow> visible m \<longrightarrow>
       (\<forall>off v. IsCleanPtr (pack_md (m\<lparr>offset := off, visible := v\<rparr>)) \<and> IsCleanPtr (pack_md (m\<lparr>offset := off, total_len := of_nat bytes\<rparr>))) \<and>
       unat (delete_size sw + ucast (total_len m) + of_nat sizeof_metadata) = del n + unat (total_len m) + 8 \<and>
       (\<forall>b. IsCleanPtr (pack_sw (sw\<lparr>block_size := b, delete_size := delete_size sw + ucast (total_len m)\<rparr>)) \<and>
         IsCleanPtr (pack_sw (sw\<lparr>delete_size := delete_size sw + ucast (total_len m) + of_nat sizeof_metadata\<rparr>))))"
proof -
  note b = node_ok_bounds [OF assms(1)]
  have len: "unat (of_nat bytes :: u16) < 2 ^ 13" using assms(2) by (simp add: unat_of_nat)
  have zero: "unat (total_len (unpack_md 0)) < 2 ^ 13" by (simp add: unpack_md_def)
  have dsw: "unat (delete_size sw) \<le> 240" using b(2) by (simp add: sw_def)
  have "body_md (body n) (recs n) = unpack_md 0" if "used n + 8 \<le> 240" by (rule free_slot [OF assms(1) that])
  moreover have "(\<forall>off v. IsCleanPtr (pack_md (m\<lparr>offset := off, visible := v\<rparr>)) \<and> IsCleanPtr (pack_md (m\<lparr>offset := off, total_len := of_nat bytes\<rparr>))) \<and>
       unat (delete_size sw + ucast (total_len m) + of_nat sizeof_metadata) = del n + unat (total_len m) + 8 \<and>
       (\<forall>b. IsCleanPtr (pack_sw (sw\<lparr>block_size := b, delete_size := delete_size sw + ucast (total_len m)\<rparr>)) \<and>
         IsCleanPtr (pack_sw (sw\<lparr>delete_size := delete_size sw + ucast (total_len m) + of_nat sizeof_metadata\<rparr>)))"
    if i: "i < recs n" and m: "m = body_md (body n) i" "visible m" for i m
  proof -
    have "slots n ! i = Some (md_kv (body n) m)" using i m by (simp add: slots_def slot_of_def)
    then have t: "unat (total_len m) \<le> 240" using slot_visible(5) [OF assms(1) i] m(1) by simp
    have u: "unat (delete_size sw + ucast (total_len m)) = del n + unat (total_len m)" using unat_delete_add [OF dsw t] by (simp add: sw_def)
    moreover have "unat (delete_size sw + ucast (total_len m) + of_nat sizeof_metadata) = del n + unat (total_len m) + 8"
      using unat_plus_of_nat [of "delete_size sw + ucast (total_len m)" sizeof_metadata] u t dsw by (simp add: bz_sizes sw_def)
    ultimately show ?thesis using t len dsw by (auto intro!: clean_mdI clean_swI simp: sw_def)
  qed
  ultimately show ?thesis
    using free_space_nat [OF assms(1)] b(3) too_large_iff [OF assms(1), of bytes] assms(2) dsw len zero
    by (auto intro!: clean_mdI clean_swI simp: sw_def)
qed

text \<open>The leaf with five records, which uses 205 bytes\<close>

theorem node_words_in_bounds_witness:
  "\<exists>n m. fresh_node five n \<and> unat (free_space (status_word n)) = 35 \<and> \<not> too_large (status_word n) 35 \<and> too_large (status_word n) 36 \<and>
    m = body_md (body n) 0 \<and> visible m \<and> IsCleanPtr (pack_md (m\<lparr>offset := 0, visible := False\<rparr>))"
proof -
  obtain n where n: "fresh_node five n" using five_exists by blast
  note f = fresh_nodeD [OF n]
  have "slots n ! 0 = Some (five ! 0)" using n five_facts(4) by (simp add: fresh_node_def)
  then have v: "visible (body_md (body n) 0)" using slot_visible(1) [OF f(1), of 0] f(3) five_facts(4) by simp
  have u: "used n = 205" using f(6) five_facts(1) by simp
  show ?thesis
    using node_words_in_bounds [OF f(1), of 35] node_words_in_bounds [OF f(1), of 36] n u v f(3) five_facts(4)
    by (intro exI [of _ n] exI [of _ "body_md (body n) 0"]) auto
qed

text \<open>C11. The 64-bit images of the two bit-field structures are bijections: packing and unpacking a status word or the metadata
  of a record loses nothing in either direction, so comparing words compares the structures; the eight bytes of a word read
  back as that word; and the flag bits of \<open>MwCAS\<close> are the top three bits of \<open>delete_size\<close> and of \<open>total_len\<close>, not the field
  \<open>control\<close>.\<close>

theorem node_words_bijective:
  "unpack_sw (pack_sw s) = s \<and> pack_sw (unpack_sw v) = v \<and> unpack_md (pack_md m) = m \<and> pack_md (unpack_md v) = v \<and>
   bytes_word (word_bytes v) = v \<and>
   IsCleanPtr (pack_sw s) = (unat (delete_size s) < 2 ^ 19) \<and> IsCleanPtr (pack_md m) = (unat (total_len m) < 2 ^ 13)"
  unfolding clean_sw_iff clean_md_iff small_iff_bits flag_bits
  by (simp add: unpack_pack_sw pack_unpack_sw unpack_pack_md pack_unpack_md)

section \<open>Failures\<close>

text \<open>C16. A successful \<open>erase\<close> returns with the thread still protected: it has removed the key, but \<open>Unprotect\<close> is called only on
  the other paths, so the epoch of the call stays in the table.\<close>

theorem erase_stays_protected:
  assumes "bz_idle tid w" and "bz_ok (heap w)" and "NUL \<notin> set key" and "bz_contents (heap w) key \<noteq> None"
  shows "\<exists>w' e. BzTree_erase (Suc (Suc f)) tid key w = Done True w' \<and> bz_contents (heap w') = (bz_contents (heap w))(key := None) \<and>
    e \<noteq> 0 \<and> protected_at (bz_mgr w') tid e (bew w')"
  using erase_store [OF assms(1-3), of f] assms(4) by (auto simp: bz_in_def protected_at_def)

theorem erase_stays_protected_witness:
  "\<exists>n w' e. fresh_node five n \<and> BzTree_erase 2 7 ''c'' (demo n) = Done True w' \<and> bz_contents (heap w') ''c'' = None \<and>
    e \<noteq> 0 \<and> protected_at (bz_mgr w') 7 e (bew w')"
proof -
  obtain n where n: "fresh_node five n" using five_exists by blast
  note l = five_leaf [OF n] and d = demo_ok [OF five_leaf(1,2) [OF n]]
  have "bz_contents (heap (demo n)) ''c'' \<noteq> None" "NUL \<notin> set ''c''" unfolding d(4) l(3) by (simp_all add: five_def NUL_def)
  then obtain w' e where "BzTree_erase 2 7 ''c'' (demo n) = Done True w'" "bz_contents (heap w') ''c'' = None" "e \<noteq> 0"
    "protected_at (bz_mgr w') 7 e (bew w')"
    using erase_stays_protected [OF d(1,3), of "''c''" 0] by (auto simp: numeral_2_eq_2)
  then show ?thesis using n by blast
qed

text \<open>C15. An insertion into a full root leaf whose largest key is at least as long as all its other keys together terminates the
  process: the search for the pivot runs to the end of the records, which the code asserts to be impossible. (The sizes count
  the terminating zero of each key.)\<close>

theorem split_asserts_on_long_key:
  assumes "bz_idle tid w" and "bz_ok (heap w)" and "fits key val" and "avail w \<noteq> []"
    and "\<not> root_needs_compact (status_word (root_leaf w))" and "root_needs_split (status_word (root_leaf w))"
    and "2 < length (kvs (root_leaf w))"
    and "key_bytes (butlast (sort_key fst (kvs (root_leaf w)))) \<le> length (fst (last (sort_key fst (kvs (root_leaf w)))))"
  shows "BzTree_insert (Suc (Suc f)) tid key val w = Aborted (AssertFail ''sep != sorted.end()'')"
proof -
  obtain ew1 where p: "bz_Protect tid w = Done () (w\<lparr>bew := ew1\<rparr>)" "bz_in tid (w\<lparr>bew := ew1\<rparr>)" using bz_Protect_ok [OF assms(1)] .
  have t: "bz_tree (heap w) (bz_height (heap w))" using assms(2) by (simp add: bz_ok_def)
  then obtain n where n: "nodes (heap w) (root_of (heap w)) = Some n" and md: "root_md (heap w) \<noteq> 0"
    using tree_live unfolding live_node_def bz_tree_def root_of_def by (metis option.sel)
  obtain m av where av: "avail w = m # av" using assms(4) by (cases "avail w") auto
  have "root_smo (Suc f) tid (root_md (heap w)) (w\<lparr>bew := ew1\<rparr>) = Aborted (AssertFail ''sep != sorted.end()'')"
    using root_smo_aborts [OF p(2), of _ m av n "Suc f"] t av n assms(5-8) by (simp add: root_leaf_def)
  then have "find_leaf (Suc f) tid key True (w\<lparr>bew := ew1\<rparr>) = Aborted (AssertFail ''sep != sorted.end()'')"
    using md by (simp add: find_leaf_def get_metadata_def find_leaf_parent_smo_def zbind_Aborted)
  then show ?thesis using p(1) fitsD(1) [OF assms(3)] by (simp add: BzTree_insert.simps bz_sizes zbind_Aborted)
qed

definition long_last :: "kv list" where
  "long_last = map (\<lambda>c. (cbytes [c], cbytes (replicate 30 (CHR ''v'')))) ''abcd'' @ [(cbytes (replicate 30 (CHR ''z'')), cbytes ''vvvvvvv'')]"

theorem split_asserts_on_long_key_witness:
  "\<exists>n. fresh_node long_last n \<and> bz_ok (heap (demo n)) \<and>
    BzTree_insert 2 7 ''k'' ''x'' (demo n) = Aborted (AssertFail ''sep != sorted.end()'')"
proof -
  have s: "space long_last = 211" by (simp add: long_last_def kv_space_def cbytes_def bz_sizes)
  then obtain n where n: "fresh_node long_last n" using copy_in_ok [of long_last] by auto
  note f = fresh_nodeD [OF n]
  have srt: "sort_key fst long_last = long_last"
    by (rule sort_key_sorted) (simp add: long_last_def cbytes_def less_list_code numeral_eq_Suc)
  have l: "leaf_ok n" using f(1,2) by (simp add: leaf_ok_def node_keys_def long_last_def NUL_def numeral_eq_Suc)
  note d = demo_ok [OF l f(4)]
  have u: "blk n + 8 * recs n = 211" "del n = 0" using f s by (simp_all add: used_def bz_sizes)
  have fit: "fits ''k'' ''x''" by (simp add: fits_def record_bytes_def bz_sizes NUL_def)
  have "BzTree_insert (Suc (Suc 0)) 7 ''k'' ''x'' (demo n) = Aborted (AssertFail ''sep != sorted.end()'')"
  proof (rule split_asserts_on_long_key [OF d(1,3) fit], unfold d(5) f(2) srt)
    show "avail (demo n) \<noteq> []" by (simp add: demo_def)
    show "\<not> root_needs_compact (status_word n)" "root_needs_split (status_word n)"
      using u by (simp_all add: root_needs_split_def root_needs_compact_def bz_sizes)
    show "2 < length long_last" "key_bytes (butlast long_last) \<le> length (fst (last long_last))"
      by (simp_all add: long_last_def key_bytes_def cbytes_def)
  qed
  then show ?thesis using n d(3) by (auto simp: numeral_2_eq_2)
qed

text \<open>C14. Two insertions of the same new key can both succeed. When another thread inserts the key between the search and the
  reservation, the reservation fails and is repeated without a new search; the call returns \<open>true\<close>, the leaf holds two
  visible records with the key, and the value of this call is not the one that \<open>lookup\<close> finds. \<open>n'\<close> is the leaf with
  the other thread's record.\<close>

theorem insert_race_duplicates:
  assumes "bz_idle tid w" and "bz_ok (heap w)" and "fits key val" and "calm (heap w) (bz_height (heap w)) key"
    and "bz_contents (heap w) key = None" and "leaf = leaf_at (heap w) (bz_height (heap w)) key" and "nodes (heap w) leaf = Some n"
    and "inserted n (cbytes key, cbytes other) n'" and "used n' + 48 \<le> 240"
  shows "\<exists>w' n''. BzTree_insert (Suc (Suc (Suc f))) tid key val (w\<lparr>others := [set_node leaf n']\<rparr>) = Done True w' \<and>
    nodes (heap w') leaf = Some n'' \<and> \<not> distinct (node_keys n'') \<and> map_of (kvs n'') (cbytes key) = Some (cbytes other)"
proof -
  have t: "bz_tree (heap w) (bz_height (heap w))" using assms(2) by (simp add: bz_ok_def)
  have a: "bz_map (heap w) (bz_height (heap w)) key = None" using assms(5) by (simp add: bz_contents_def)
  obtain w' n'' where r: "BzTree_insert (Suc (Suc (Suc f))) tid key val (w\<lparr>others := [set_node leaf n']\<rparr>) = Done True w'"
    "nodes (heap w') leaf = Some n''" "kvs n'' = kvs n @ [(cbytes key, cbytes other), (cbytes key, cbytes val)]"
    using insert_interfered [OF assms(1) t assms(3,4) a assms(6-9)] by metis
  have "map_of (kvs n) (cbytes key) = None"
    using leaf_at_ok [OF t, of key] a assms(6,7) by (metis (no_types, lifting) map_option_is_None option.inject)
  then have "map_of (kvs n'') (cbytes key) = Some (cbytes other)" by (simp add: r(3) map_add_def)
  then show ?thesis using r by (auto simp: node_keys_def)
qed

theorem insert_race_duplicates_witness:
  "\<exists>n' w' n''. inserted zero_node (cbytes ''k'', cbytes ''x'') n' \<and>
    BzTree_insert 3 7 ''k'' ''y'' ((demo zero_node)\<lparr>others := [set_node 2048 n']\<rparr>) = Done True w' \<and>
    nodes (heap w') 2048 = Some n'' \<and> \<not> distinct (node_keys n'')"
proof -
  let ?p = "(cbytes ''k'', cbytes ''x'')"
  obtain n' where "fresh_node [?p] n'" using copy_in_ok [of "[?p]"] by (auto simp: kv_space_def cbytes_def bz_sizes)
  note f = this fresh_nodeD [OF this]
  note z = zero_leaf and d = demo_ok [OF zero_leaf(1,2)]
  have s0: "slots zero_node = []" by (simp add: slots_def zero_node_def unpack_sw_def area_ok_zero(2))
  have i: "inserted zero_node ?p n'"
    using f z(4) s0 by (simp add: inserted_def fresh_node_def) (simp add: zero_node_def unpack_sw_def)
  have u: "used n' + 48 \<le> 240" using f(7) by (simp add: kv_space_def cbytes_def bz_sizes)
  have "fresh_node [] zero_node"
    using z s0 by (simp add: fresh_node_def) (simp add: zero_node_def unpack_sw_def)
  then have c: "calm (heap (demo zero_node)) (bz_height (heap (demo zero_node))) ''k''"
    unfolding d(7) by (intro compacted_calm [of _ zero_node "[]"]) (simp_all add: demo_def root_of_def)
  have fit: "fits ''k'' ''y''" by (simp add: fits_def record_bytes_def bz_sizes NUL_def)
  have a: "bz_contents (heap (demo zero_node)) ''k'' = None" by (simp add: d(4) z(3))
  have lf: "2048 = leaf_at (heap (demo zero_node)) (bz_height (heap (demo zero_node))) ''k''" by (simp add: d(6,7))
  have nd: "nodes (heap (demo zero_node)) 2048 = Some zero_node" by (simp add: demo_def)
  from insert_race_duplicates [OF d(1,3) fit c a lf nd i u, of 0] i show ?thesis
    by (auto simp: numeral_3_eq_3)
qed

end
