(* ===== verification/BzNew.thy ===== *)
theory BzNew
  imports BzProps PoolInit
begin

text \<open>
  The constructor of the BzTree on an empty memory pool: the epoch managers of the tree and of its descriptor pool, the garbage
  list, the descriptor pool and the empty tree.
\<close>

section \<open>Two epoch managers\<close>

lemma Initialize_room:
  assumes "epoch_table (managers w m) = None"
  shows "has_room m tid (snd (Initialize True m w))" and "current_epoch (managers (snd (Initialize True m w)) m) = 1"
  using assms
  by (auto simp: has_room_def Initialize_def MinEpochTable_Initialize_def new_table_def IS_POWER_OF_TWO_def kDefaultSize_def
      entries_set_mgr set_mgr_def empty_entry_def entries_def)

lemma Initialize_other:
  assumes "m' \<noteq> m"
  shows "managers (snd (Initialize ok m w)) m' = managers w m'" and "tls (snd (Initialize ok m w)) = tls w"
  using assms by (auto simp: Initialize_def set_mgr_def case_prod_beta Let_def)

lemma manager_cong:
  assumes "managers w' m = managers w m" and "tls w' = tls w"
  shows "mgr_inv m w' = mgr_inv m w" and "has_room m tid w' = has_room m tid w"
proof -
  have "entries m w' = entries m w" using assms(1) by (simp add: entries_def)
  then show "mgr_inv m w' = mgr_inv m w" "has_room m tid w' = has_room m tid w"
    using assms by (simp_all add: mgr_inv_def has_room_def)
qed

section \<open>The constructor\<close>

lemma bz_pool_sizes: "rounded_pool_size POOL_SIZE = Inr (2 ^ 10)" "rounded_partitions POOL_THREADS = 2 ^ 4"
proof -
  have "0 < POOL_SIZE" "POOL_SIZE \<le> 2 ^ 31" by (simp_all add: POOL_SIZE_def)
  then obtain k where k: "rounded_pool_size POOL_SIZE = Inr (2 ^ k)" "POOL_SIZE \<le> 2 ^ k" "2 ^ k < 2 * POOL_SIZE"
    using rounded_pool_size_pow2 by blast
  have "\<not> k < 10" using k(2) power_increasing [of k 9 "2 :: nat"] by (auto simp: POOL_SIZE_def)
  moreover have "\<not> 10 < k" using k(3) power_increasing [of 11 k "2 :: nat"] by (auto simp: POOL_SIZE_def)
  ultimately have "k = 10" by simp
  then show "rounded_pool_size POOL_SIZE = Inr (2 ^ 10)" using k(1) by simp
  obtain j where j: "rounded_partitions POOL_THREADS = 2 ^ j" "POOL_THREADS \<le> 2 ^ j \<or> j = 9" "j = 0 \<or> 2 ^ (j - 1) < POOL_THREADS"
    using rounded_partitions_pow2 by blast
  have "\<not> j < 4" using j(2) power_increasing [of j 3 "2 :: nat"] by (auto simp: POOL_THREADS_def)
  moreover have "\<not> 4 < j"
  proof
    assume "4 < j"
    then have "(2 :: nat) ^ 4 \<le> 2 ^ (j - 1)" by (intro power_increasing) simp_all
    then show False using j(3) \<open>4 < j\<close> by (simp add: POOL_THREADS_def)
  qed
  ultimately have "j = 4" by simp
  then show "rounded_partitions POOL_THREADS = 2 ^ 4" using j(1) by simp
qed

text \<open>C13. The constructor on a memory pool with no tree allocates metadata, a root and the descriptor pool, and constructs the
  latter: it has 1024 descriptors in 16 partitions, all finished and on the free lists of their partitions, and its own
  initialized epoch manager. The tree is well-formed, of height one, and empty; its epoch manager has room for every
  thread and its garbage list is empty.\<close>

theorem new_tree_empty:
  assumes "bz_mgr w \<noteq> pool_mgr w" and "epoch_table (managers (bew w) (bz_mgr w)) = None" and "epoch_table (managers (bew w) (pool_mgr w)) = None"
    and "\<And>tid m i. tls (bew w) (tid, EpochEntryTls) \<noteq> EntryPtr m i" and "gl_epoch_manager (garbage w) = None" and "others w = []"
    and "root_md (heap w) = 0" and "avail w = [md, root, dp] @ av" and "md \<noteq> 0" and "ptr_ok root" and "budget (lib w) = None"
    and "descs_mem \<noteq> 0" and "unat descs_mem + 2 ^ 18 \<le> 2 ^ 61"
  shows "\<exists>w'. BzTree_new True True descs_mem pmdk w = Done () w' \<and> bz_ok (heap w') \<and> bz_contents (heap w') = Map.empty \<and>
    bz_height (heap w') = 0 \<and> bz_pool w' = dp \<and> root_pool (heap w') = dp \<and> (\<forall>tid. tid \<noteq> 0 \<longrightarrow> bz_idle tid w') \<and>
    wf_gl (garbage w') \<and> pending (garbage w') = [] \<and>
    pool_ready (lib w') \<and> pool_size (pool (lib w')) = 1024 \<and> partition_count (pool (lib w')) = 16 \<and>
    pool_epoch (pool (lib w')) = pool_mgr w' \<and> mgr_inv (pool_mgr w') (bew w')"
proof -
  let ?m = "bz_mgr w" and ?pm = "pool_mgr w"
  note i = Initialize_inv [OF assms(2,4)] and r = Initialize_room [OF assms(2)]
  define ew1 where "ew1 = snd (Initialize True ?m (bew w))"
  define ew2 where "ew2 = snd (Initialize True ?pm ew1)"
  have e1: "epoch_table (managers ew1 ?pm) = None" "tls ew1 = tls (bew w)"
    using Initialize_other [of ?pm ?m True "bew w"] assms(1,3) by (simp_all add: ew1_def)
  have pm: "Initialize True ?pm ew1 = (Status_OK, ew2)" "mgr_inv ?pm ew2"
    using Initialize_inv [OF e1(1)] e1(2) assms(4) by (simp_all add: ew2_def prod_eq_iff)
  have k: "managers ew2 ?m = managers ew1 ?m" "tls ew2 = tls ew1" using Initialize_other [of ?m ?pm True ew1] assms(1) by (simp_all add: ew2_def)
  define gl where "gl = snd (GarbageList_Initialize True (Some ?m) kGarbageItems (garbage w))"
  have gi: "Status_ok (fst (GarbageList_Initialize True (Some ?m) kGarbageItems (garbage w)))"
    using assms(5) by (simp add: GarbageList_Initialize_def kGarbageItems_def IS_POWER_OF_TWO_def Status_ok_def Status_OK_def)
  have gl: "wf_gl gl" "pending gl = []" using GarbageList_Initialize_wf [OF assms(5) gi] by (simp_all add: gl_def)
  have init: "bz_init True True w = Done () (w\<lparr>bew := ew1, garbage := gl\<rparr>)"
    using i(2) gi by (auto simp: bz_init_def ew1_def gl_def Status_ok_def Status_OK_def case_prod_beta)
  obtain s where s: "DescriptorPool POOL_SIZE POOL_THREADS False 0 ?pm descs_mem pmdk ((lib w)\<lparr>ew := ew1\<rparr>) = Done () s"
    "pool_ready s" "pool_size (pool s) = 2 ^ 10" "partition_count (pool s) = 2 ^ 4" "pool_epoch (pool s) = ?pm" "ew s = ew2"
    using DescriptorPool_ok [OF _ bz_pool_sizes _ assms(12), of ?pm "(lib w)\<lparr>ew := ew1\<rparr>" ew2 0 pmdk] pm(1) assms(11,13) by auto
  define H where "H = (heap w)\<lparr>nodes := (nodes (heap w))(root \<mapsto> zero_node),
    mds := (mds (heap w))(md \<mapsto> \<lparr>root_node = root, height = 1, md_epoch = 0\<rparr>), root_md := md, root_pool := dp\<rparr>"
  define w' where "w' = w\<lparr>bew := ew2, garbage := gl, pop := True, heap := H, avail := av, global_epoch := 0, bz_pool := dp, lib := s\<rparr>"
  have run: "BzTree_new True True descs_mem pmdk w = Done () w'"
    using init assms(7,8) s(1,6)
    by (simp add: BzTree_new_def get_metadata_def znew_def store_node_def store_md_def upd_heap_def set_node_def
        set_md_def run_lib_def w'_def H_def)
  have t: "bz_tree H 0" using assms(9,10) zero_leaf by (simp add: bz_tree_def H_def live_node_def)
  have "bz_map H 0 = Map.empty" using zero_leaf(3) by (simp add: bz_map_def H_def root_of_def fun_eq_iff)
  moreover have "bz_idle tid w'" if "tid \<noteq> 0" for tid
    using that i(1) r assms(6) k manager_cong [OF k] by (simp add: bz_idle_def ew1_def w'_def)
  ultimately show ?thesis using run bz_okI [OF t] s pm(2) gl by (intro exI [of _ w']) (simp add: w'_def, simp add: H_def)
qed

theorem new_tree_empty_witness:
  "\<exists>w'. BzTree_new True True 4096 4096 ((demo zero_node)\<lparr>heap := \<lparr>nodes = Map.empty, mds = Map.empty, root_md = 0, root_pool = 0\<rparr>,
      bew := \<lparr>tls = \<lambda>_. Nullptr, tls_registry = [], managers = \<lambda>_. new_manager\<rparr>, garbage := GarbageList_new\<rparr>) = Done () w' \<and>
    bz_contents (heap w') = Map.empty \<and> bz_idle 7 w' \<and> pool_ready (lib w') \<and> pool_size (pool (lib w')) = 1024"
proof -
  let ?w = "(demo zero_node)\<lparr>heap := \<lparr>nodes = Map.empty, mds = Map.empty, root_md = 0, root_pool = 0\<rparr>,
      bew := \<lparr>tls = \<lambda>_. Nullptr, tls_registry = [], managers = \<lambda>_. new_manager\<rparr>, garbage := GarbageList_new\<rparr>"
  have "\<exists>w'. BzTree_new True True 4096 4096 ?w = Done () w' \<and> bz_ok (heap w') \<and> bz_contents (heap w') = Map.empty \<and>
    bz_height (heap w') = 0 \<and> bz_pool w' = 12288 \<and> root_pool (heap w') = 12288 \<and> (\<forall>tid. tid \<noteq> 0 \<longrightarrow> bz_idle tid w') \<and>
    wf_gl (garbage w') \<and> pending (garbage w') = [] \<and>
    pool_ready (lib w') \<and> pool_size (pool (lib w')) = 1024 \<and> partition_count (pool (lib w')) = 16 \<and>
    pool_epoch (pool (lib w')) = pool_mgr w' \<and> mgr_inv (pool_mgr w') (bew w')"
    by (rule new_tree_empty [where md = 4096 and root = 8192 and av = "[16384]"])
      (simp_all add: demo_def new_manager_def GarbageList_new_def demo_ptrs)
  then show ?thesis by auto
qed

end
