(* ===== verification/EpochInterleaving.thy ===== *)
theory EpochInterleaving
  imports Epoch
begin

text \<open>
  The epoch manager under concurrency (\<open>common/epoch.h\<close>, \<open>common/epoch.cc\<close>): threads interleave between the atomic accesses
  of \<open>Protect\<close>, \<open>Unprotect\<close> and \<open>BumpCurrentEpoch\<close>, whose scan of the table reads one entry at a time. Clients follow
  the documented discipline: they read items of a data structure while protected, unlink an item with one
  compare-and-swap, stamp it with \<open>GetCurrentEpoch\<close> afterwards, and free it when \<open>IsSafeToReclaim\<close> says so.

  Memory orders: the relaxed load of \<open>Protect\<close> may return any epoch that the counter has had. A store to an entry goes
  to a first-in-first-out buffer of the thread, as on x86, from which it reaches memory later; a read-modify-write
  operation waits until the buffer is empty. \<open>MinEpochTable::Protect\<close> has two variants: the compiled one stores with release
  order and issues an acquire fence, which does not empty the buffer; the disabled one (\<open>#else\<close>) exchanges. The Boolean
  \<open>x\<close> of the step relation chooses the exchange. The result is that no thread ever holds a freed item with the
  exchange, and that there are runs in which one does with the store.

  Every thread has its entry of the table already; thread \<open>t\<close> has entry \<open>t\<close>.
\<close>

section \<open>State\<close>

text \<open>Where a thread is: outside, in \<open>Protect\<close> with the epoch it has read, inside, after it unlinked an item, or in the scan
  of \<open>BumpCurrentEpoch\<close> (called inside or outside) with the index of the next entry and the oldest epoch so far.\<close>

datatype place = Outside | Entering u64 | Inside | Unlinked nat | Scanning bool nat u64

record system =
  sys_current :: u64
  sys_safe :: u64
  sys_protected :: "nat \<Rightarrow> u64"
  store_buffer :: "nat \<Rightarrow> u64 list"
  place_of :: "nat \<Rightarrow> place"
  linked :: "nat set"
  held :: "nat \<Rightarrow> nat set"
  stamp_of :: "nat \<Rightarrow> u64 option"
  freed :: "nat set"

definition sys_init :: "nat set \<Rightarrow> system" where
  "sys_init items = \<lparr>sys_current = 1, sys_safe = 0, sys_protected = \<lambda>_. 0, store_buffer = \<lambda>_. [], place_of = \<lambda>_. Outside, linked = items,
     held = \<lambda>_. {}, stamp_of = \<lambda>_. None, freed = {}\<rparr>"

definition at_place :: "nat \<Rightarrow> place \<Rightarrow> system \<Rightarrow> system" where
  "at_place t p s = s\<lparr>place_of := (place_of s)(t := p)\<rparr>"

section \<open>The atomic accesses\<close>

text \<open>\<open>EpochManager::Protect\<close> reads the current epoch; \<open>MinEpochTable::Protect\<close> stores it in the entry, or exchanges it.\<close>

definition protect_load :: "nat \<Rightarrow> u64 \<Rightarrow> system \<Rightarrow> system" where
  "protect_load t e s = at_place t (Entering e) s"

definition protect_store :: "nat \<Rightarrow> u64 \<Rightarrow> system \<Rightarrow> system" where
  "protect_store t e s = at_place t Inside (s\<lparr>store_buffer := (store_buffer s)(t := store_buffer s t @ [e])\<rparr>)"

definition protect_exchange :: "nat \<Rightarrow> u64 \<Rightarrow> system \<Rightarrow> system" where
  "protect_exchange t e s = at_place t Inside (s\<lparr>sys_protected := (sys_protected s)(t := e)\<rparr>)"

definition unprotect_store :: "nat \<Rightarrow> system \<Rightarrow> system" where
  "unprotect_store t s = at_place t Outside (s\<lparr>store_buffer := (store_buffer s)(t := store_buffer s t @ [0]), held := (held s)(t := {})\<rparr>)"

text \<open>The oldest buffered store of a thread reaches memory.\<close>

definition drain :: "nat \<Rightarrow> system \<Rightarrow> system" where
  "drain t s = s\<lparr>sys_protected := (sys_protected s)(t := hd (store_buffer s t)),
     store_buffer := (store_buffer s)(t := tl (store_buffer s t))\<rparr>"

text \<open>\<open>current_epoch_.fetch_add(1)\<close>, one round of the loop over the table, and the store of its result\<close>

definition bump_fetch_add :: "nat \<Rightarrow> bool \<Rightarrow> system \<Rightarrow> system" where
  "bump_fetch_add t inside s = at_place t (Scanning inside 0 (sys_current s)) (s\<lparr>sys_current := sys_current s + 1\<rparr>)"

definition scan_entry :: "u64 \<Rightarrow> u64 \<Rightarrow> u64" where
  "scan_entry entry_epoch oldest = (if entry_epoch \<noteq> 0 \<and> entry_epoch < oldest then entry_epoch else oldest)"

definition scan_round :: "nat \<Rightarrow> bool \<Rightarrow> nat \<Rightarrow> u64 \<Rightarrow> system \<Rightarrow> system" where
  "scan_round t inside i oldest s = at_place t (Scanning inside (Suc i) (scan_entry (sys_protected s i) oldest)) s"

definition bump_publish :: "nat \<Rightarrow> bool \<Rightarrow> u64 \<Rightarrow> system \<Rightarrow> system" where
  "bump_publish t inside oldest s = at_place t (if inside then Inside else Outside) (s\<lparr>sys_safe := oldest - 1\<rparr>)"

definition is_safe :: "u64 \<Rightarrow> system \<Rightarrow> bool" where
  "is_safe e s \<longleftrightarrow> e \<le> sys_safe s"

section \<open>Interleavings\<close>

text \<open>One atomic access of one of the \<open>n\<close> threads. The second Boolean says whether it increments the current epoch.\<close>

inductive access :: "nat \<Rightarrow> bool \<Rightarrow> bool \<Rightarrow> system \<Rightarrow> system \<Rightarrow> bool" for n x where
  load: "t < n \<Longrightarrow> place_of s t = Outside \<Longrightarrow> 0 < e \<Longrightarrow> e \<le> sys_current s \<Longrightarrow> access n x False s (protect_load t e s)"
| store: "t < n \<Longrightarrow> place_of s t = Entering e \<Longrightarrow> \<not> x \<Longrightarrow> access n x False s (protect_store t e s)"
| exchange: "t < n \<Longrightarrow> place_of s t = Entering e \<Longrightarrow> x \<Longrightarrow> store_buffer s t = [] \<Longrightarrow> access n x False s (protect_exchange t e s)"
| leave: "t < n \<Longrightarrow> place_of s t = Inside \<Longrightarrow> access n x False s (unprotect_store t s)"
| drain: "t < n \<Longrightarrow> store_buffer s t \<noteq> [] \<Longrightarrow> access n x False s (drain t s)"
| read: "t < n \<Longrightarrow> place_of s t = Inside \<Longrightarrow> i \<in> linked s \<Longrightarrow> access n x False s (s\<lparr>held := (held s)(t := insert i (held s t))\<rparr>)"
| unlink: "t < n \<Longrightarrow> place_of s t = Inside \<Longrightarrow> store_buffer s t = [] \<Longrightarrow> i \<in> linked s \<Longrightarrow>
    access n x False s (at_place t (Unlinked i) (s\<lparr>linked := linked s - {i}\<rparr>))"
| stamp: "t < n \<Longrightarrow> place_of s t = Unlinked i \<Longrightarrow>
    access n x False s (at_place t Inside (s\<lparr>stamp_of := (stamp_of s)(i \<mapsto> sys_current s)\<rparr>))"
| bump_in: "t < n \<Longrightarrow> place_of s t = Inside \<Longrightarrow> store_buffer s t = [] \<Longrightarrow> access n x True s (bump_fetch_add t True s)"
| bump_out: "t < n \<Longrightarrow> place_of s t = Outside \<Longrightarrow> store_buffer s t = [] \<Longrightarrow> access n x True s (bump_fetch_add t False s)"
| scan: "t < n \<Longrightarrow> place_of s t = Scanning b j c \<Longrightarrow> j < n \<Longrightarrow> access n x False s (scan_round t b j c s)"
| publish: "t < n \<Longrightarrow> place_of s t = Scanning b n c \<Longrightarrow> access n x False s (bump_publish t b c s)"
| free: "stamp_of s i = Some e \<Longrightarrow> is_safe e s \<Longrightarrow>
    access n x False s (s\<lparr>stamp_of := (stamp_of s)(i := None), freed := insert i (freed s)\<rparr>)"

inductive_cases accessE: "access n x b s s'"

text \<open>The states that \<open>k\<close> increments of the epoch, and any number of other accesses, lead to.\<close>

inductive reached :: "nat \<Rightarrow> bool \<Rightarrow> nat set \<Rightarrow> nat \<Rightarrow> system \<Rightarrow> bool" for n x items where
  start: "reached n x items 0 (sys_init items)"
| step: "reached n x items k s \<Longrightarrow> access n x b s s' \<Longrightarrow> reached n x items (if b then Suc k else k) s'"

section \<open>The invariant\<close>

text \<open>What a thread's place says of its entry and of the items it holds; epochs that were read or scanned are from the past.\<close>

fun thread_ok :: "u64 \<Rightarrow> place \<Rightarrow> u64 \<Rightarrow> nat set \<Rightarrow> u64 list \<Rightarrow> bool" where
  "thread_ok cur Outside p h b \<longleftrightarrow> p \<le> cur \<and> h = {} \<and> b = (if p = 0 then [] else [0])"
| "thread_ok cur (Entering e) p h b \<longleftrightarrow> p \<le> cur \<and> h = {} \<and> b = (if p = 0 then [] else [0]) \<and> 0 < e \<and> e \<le> cur"
| "thread_ok cur Inside p h b \<longleftrightarrow> 0 < p \<and> p \<le> cur \<and> b = []"
| "thread_ok cur (Unlinked i) p h b \<longleftrightarrow> 0 < p \<and> p \<le> cur \<and> b = []"
| "thread_ok cur (Scanning r j c) p h b \<longleftrightarrow> 0 < c \<and> c < cur \<and> b = [] \<and> (if r then 0 < p \<and> p \<le> cur else p = 0 \<and> h = {})"

definition epochs_inv :: "system \<Rightarrow> bool" where
  "epochs_inv s \<longleftrightarrow> sys_safe s < sys_current s \<and>
     (\<forall>t. thread_ok (sys_current s) (place_of s t) (sys_protected s t) (held s t) (store_buffer s t)) \<and>
     (\<forall>i e. stamp_of s i = Some e \<longrightarrow> e \<le> sys_current s)"

text \<open>Items: linked, unlinked but not yet stamped, stamped and freed exclude each other.\<close>

definition items_inv :: "system \<Rightarrow> bool" where
  "items_inv s \<longleftrightarrow> linked s \<inter> freed s = {} \<and> linked s \<inter> dom (stamp_of s) = {} \<and> freed s \<inter> dom (stamp_of s) = {} \<and>
     (\<forall>t x. place_of s t = Unlinked x \<longrightarrow> x \<notin> linked s \<and> x \<notin> freed s \<and> x \<notin> dom (stamp_of s)) \<and>
     (\<forall>t u x. place_of s t = Unlinked x \<longrightarrow> place_of s u = Unlinked x \<longrightarrow> t = u)"

text \<open>A stamped item that a thread holds: the stamp is not older than the thread's epoch, not safe, and no scan will make
  it safe: a scan that has passed the thread's entry has an oldest epoch that is not newer than the stamp.\<close>

definition held_inv :: "nat \<Rightarrow> system \<Rightarrow> bool" where
  "held_inv n s \<longleftrightarrow> (\<forall>t < n. \<forall>x \<in> held s t. x \<notin> freed s \<and>
     (\<forall>e. stamp_of s x = Some e \<longrightarrow> sys_protected s t \<le> e \<and> sys_safe s < e \<and>
       (\<forall>u b i c. place_of s u = Scanning b i c \<longrightarrow> c \<le> e \<or> i \<le> t)))"

lemmas access_defs = protect_load_def protect_store_def protect_exchange_def drain_def unprotect_store_def bump_fetch_add_def scan_round_def
  bump_publish_def at_place_def

lemma scan_entry_bounds:
  "scan_entry p c \<le> c" "p \<noteq> 0 \<Longrightarrow> scan_entry p c \<le> p" "0 < c \<Longrightarrow> 0 < scan_entry p c"
  by (auto simp: scan_entry_def word_gt_0)

lemma pred_less: "0 < (c::u64) \<Longrightarrow> c \<le> e \<Longrightarrow> c - 1 < e"
  using word_pred_less [of c] by (metis order_less_le_trans word_gt_0)

lemma thread_ok_mono: "thread_ok cur p q h b \<Longrightarrow> cur \<le> cur' \<Longrightarrow> thread_ok cur' p q h b"
  by (cases p) auto

lemma epochs_step:
  assumes a: "access n True b s s'" and i: "epochs_inv s" and b: "b \<Longrightarrow> sys_current s < sys_current s + 1"
  shows "epochs_inv s'"
proof -
  have th: "thread_ok (sys_current s) (place_of s t) (sys_protected s t) (held s t) (store_buffer s t)" for t using i by (simp add: epochs_inv_def)
  have c: "sys_safe s < sys_current s" "\<And>x e. stamp_of s x = Some e \<Longrightarrow> e \<le> sys_current s" using i by (auto simp: epochs_inv_def)
  then have pos: "0 < sys_current s" by (metis word_gt_0 word_zero_le leD)
  have bump: "epochs_inv (bump_fetch_add t r s)"
    if t: "place_of s t = (if r then Inside else Outside)" "store_buffer s t = []" "sys_current s < sys_current s + 1" for t r
  proof -
    have "thread_ok (sys_current s + 1) (place_of s u) (sys_protected s u) (held s u) (store_buffer s u)" for u
      using thread_ok_mono [OF th] t(3) by (meson order_less_imp_le)
    moreover have "thread_ok (sys_current s + 1) (Scanning r 0 (sys_current s)) (sys_protected s t) (held s t) (store_buffer s t)"
      using th [of t] t pos by (auto split: if_splits)
    ultimately show ?thesis using c t(3) by (fastforce simp: epochs_inv_def access_defs)
  qed
  from a show ?thesis
  proof cases
    case (scan t r j old)
    have "scan_entry (sys_protected s j) old < sys_current s" "0 < scan_entry (sys_protected s j) old"
      using th [of t] scan scan_entry_bounds(1,3) [where p = "sys_protected s j" and c = old] by (auto intro: order_le_less_trans)
    then show ?thesis using scan c th th [of t] by (auto simp: epochs_inv_def access_defs)
  next
    case (publish t r old)
    then show ?thesis using c th th [of t] word_pred_less [of old] by (auto simp: epochs_inv_def access_defs word_gt_0)
  next
    case (bump_in t)
    then show ?thesis using bump [of t True] b by simp
  next
    case (bump_out t)
    then show ?thesis using bump [of t False] b by simp
  next
    case (exchange t e)
    then show ?thesis using c th th [of t] by (auto simp: epochs_inv_def access_defs)
  next
    case (drain t)
    then show ?thesis using c th th [of t] by (cases "place_of s t") (auto simp: epochs_inv_def access_defs split: if_splits)
  next
    case (leave t)
    then show ?thesis using c th th [of t] by (auto simp: epochs_inv_def access_defs)
  next
    case (unlink t i)
    then show ?thesis using c th th [of t] by (auto simp: epochs_inv_def access_defs)
  next
    case (stamp t i)
    then show ?thesis using c th th [of t] by (auto simp: epochs_inv_def access_defs)
  next
    case (read t i)
    then show ?thesis using c th th [of t] by (auto simp: epochs_inv_def)
  next
    case (load t e)
    then show ?thesis using c th th [of t] pos by (auto simp: epochs_inv_def access_defs)
  qed (use c th pos in \<open>auto simp: epochs_inv_def access_defs\<close>)
qed

lemma items_step:
  assumes a: "access n True b s s'" and i: "items_inv s"
  shows "items_inv s'"
  using a
proof cases
  case (unlink t i)
  then show ?thesis using i unfolding items_inv_def access_defs by (auto; blast)
next
  case (stamp t i)
  then show ?thesis using i unfolding items_inv_def access_defs by (auto; blast)
next
  case (free i e)
  then show ?thesis using i unfolding items_inv_def by (auto; blast)
qed (use i in \<open>auto simp: items_inv_def access_defs split: if_splits\<close>)

lemma held_step:
  assumes a: "access n True b s s'" and e: "epochs_inv s" and i: "items_inv s" and h: "held_inv n s"
  shows "held_inv n s'"
proof -
  have th: "thread_ok (sys_current s) (place_of s t) (sys_protected s t) (held s t) (store_buffer s t)" for t using e by (simp add: epochs_inv_def)
  have c: "sys_safe s < sys_current s" "\<And>x e. stamp_of s x = Some e \<Longrightarrow> e \<le> sys_current s" using e by (auto simp: epochs_inv_def)
  have un: "x \<notin> freed s \<and> stamp_of s x = None" if "x \<in> linked s" for x using i that by (auto simp: items_inv_def)
  have hd: "x \<notin> freed s" "stamp_of s x = Some e \<Longrightarrow> sys_protected s t \<le> e \<and> sys_safe s < e"
    "stamp_of s x = Some e \<Longrightarrow> place_of s u = Scanning r j old \<Longrightarrow> old \<le> e \<or> j \<le> t"
    if "t < n" "x \<in> held s t" for t x e u r j old using h that unfolding held_inv_def by blast+
  from a show ?thesis
  proof cases
    case (exchange t e)
    then have "held s t = {}" using th [of t] by simp
    then show ?thesis using exchange h by (auto simp: held_inv_def access_defs)
  next
    case (drain t)
    then have "held s t = {}" using th [of t] by (cases "place_of s t") (auto split: if_splits)
    then show ?thesis using drain h by (auto simp: held_inv_def access_defs)
  next
    case (read t i)
    then show ?thesis using h un by (auto simp: held_inv_def)
  next
    case (stamp t i)
    have "old \<le> sys_current s" if "place_of s u = Scanning r j old" for u r j old using th [of u] that by auto
    moreover have "sys_protected s u \<le> sys_current s" for u using th [of u] by (cases "place_of s u") (auto split: if_splits)
    ultimately show ?thesis using stamp h c(1) by (auto simp: held_inv_def access_defs split: if_splits)
  next
    case (scan t r j old)
    have "scan_entry (sys_protected s j) old \<le> e \<or> Suc j \<le> u" if u: "u < n" "x \<in> held s u" "stamp_of s x = Some e" for u x e
    proof (cases "j = u")
      case True
      have "sys_protected s u \<noteq> 0" using th [of u] u(2) by (cases "place_of s u") (auto split: if_splits)
      then show ?thesis using scan_entry_bounds(2) [of "sys_protected s u" old] hd(2) [OF u] True by (meson order_trans)
    next
      case False
      then show ?thesis using hd(3) [OF u scan(4)] scan_entry_bounds(1) [of "sys_protected s j" old] by (auto intro: order_trans)
    qed
    then show ?thesis using scan h by (auto simp: held_inv_def access_defs)
  next
    case (publish t r old)
    have "old - 1 < e" if u: "u < n" "x \<in> held s u" "stamp_of s x = Some e" for u x e
      using pred_less [of old e] hd(3) [OF u publish(4)] th [of t] publish(4) u(1) by auto
    then show ?thesis using publish h by (auto simp: held_inv_def access_defs split: if_splits)
  next
    case (free i e)
    have "i \<notin> held s t" if "t < n" for t using hd(2) [OF that _ free(3)] free(4) by (auto simp: is_safe_def)
    then show ?thesis using free h by (auto simp: held_inv_def)
  qed (use h in \<open>auto simp: held_inv_def access_defs split: if_splits\<close>)
qed

lemma reached_inv:
  assumes "reached n True items k s" and "k < 2 ^ 64 - 1"
  shows "unat (sys_current s) = Suc k \<and> epochs_inv s \<and> items_inv s \<and> held_inv n s"
  using assms
proof (induction rule: reached.induct)
  case start
  then show ?case by (simp add: sys_init_def epochs_inv_def items_inv_def held_inv_def)
next
  case (step k s b s')
  have k: "k < 2 ^ 64 - 1" using step.prems by (auto split: if_splits)
  note IH = step.IH [OF k]
  have cur: "unat (sys_current s') = (if b then Suc (Suc k) else Suc k)" "b \<Longrightarrow> sys_current s < sys_current s + 1"
  proof -
    have "unat (sys_current s + 1) = Suc (Suc k)" if b using IH step.prems that by (simp add: unat_word_ariths)
    then show "b \<Longrightarrow> sys_current s < sys_current s + 1" "unat (sys_current s') = (if b then Suc (Suc k) else Suc k)"
      using step.hyps(2) IH by (auto simp: word_less_nat_alt access_defs elim!: accessE)
  qed
  then show ?case using epochs_step items_step held_step step.hyps(2) IH by auto
qed

section \<open>Runs\<close>

lemma reached_quiet: "reached n x items k s \<Longrightarrow> access n x False s s' \<Longrightarrow> reached n x items k s'"
  using reached.step [of n x items k s False s'] by simp

lemma reached_bump: "reached n x items k s \<Longrightarrow> access n x True s s' \<Longrightarrow> reached n x items (Suc k) s'"
  using reached.step [of n x items k s True s'] by simp

text \<open>A scan that is not interrupted computes the minimum over the table, as \<open>oldest_call\<close> does.\<close>

fun scan_table :: "u64 list \<Rightarrow> u64 \<Rightarrow> u64" where
  "scan_table [] c = c"
| "scan_table (p # ps) c = scan_table ps (scan_entry p c)"

lemma scan_table_oldest_call: "scan_table (map protected_epoch es) c = oldest_call c es"
  by (induction es arbitrary: c) (simp_all add: scan_entry_def)

lemma scan_table_quiet: "\<forall>p \<in> set ps. p = 0 \<Longrightarrow> scan_table ps c = c"
  by (induction ps) (simp_all add: scan_entry_def)

lemma uninterrupted_bump:
  assumes r: "reached n x items k s" and t: "t < n" "place_of s t = (if b then Inside else Outside)" "store_buffer s t = []"
  shows "reached n x items (Suc k) (s\<lparr>sys_current := sys_current s + 1,
    sys_safe := scan_table (map (sys_protected s) [0..<n]) (sys_current s) - 1\<rparr>)"
proof -
  define s1 where "s1 = s\<lparr>sys_current := sys_current s + 1\<rparr>"
  have b: "reached n x items (Suc k) (at_place t (Scanning b 0 (sys_current s)) s1)"
    using reached_bump [OF r] access.bump_in [of t n s x] access.bump_out [of t n s x] t
    by (cases b) (simp_all add: bump_fetch_add_def s1_def)
  have "reached n x items (Suc k) (at_place t (Scanning b i (scan_table (map (sys_protected s) [0..<i]) (sys_current s))) s1)" if "i \<le> n" for i
    using that
  proof (induction i)
    case (Suc i)
    let ?c = "scan_table (map (sys_protected s) [0..<i]) (sys_current s)"
    have app: "scan_table (ps @ [p]) c = scan_entry p (scan_table ps c)" for ps p c by (induction ps arbitrary: c) simp_all
    have "access n x False (at_place t (Scanning b i ?c) s1) (scan_round t b i ?c (at_place t (Scanning b i ?c) s1))"
      using Suc.prems t(1) by (intro access.scan) (simp_all add: at_place_def)
    moreover have "scan_round t b i ?c (at_place t (Scanning b i ?c) s1) =
        at_place t (Scanning b (Suc i) (scan_table (map (sys_protected s) [0..<Suc i]) (sys_current s))) s1"
      by (simp add: scan_round_def at_place_def s1_def app)
    ultimately show ?case using reached_quiet Suc by (metis Suc_leD)
  qed (use b in simp)
  from this [of n] have "reached n x items (Suc k) (at_place t (Scanning b n (scan_table (map (sys_protected s) [0..<n]) (sys_current s))) s1)" by simp
  then have "reached n x items (Suc k) (bump_publish t b (scan_table (map (sys_protected s) [0..<n]) (sys_current s))
      (at_place t (Scanning b n (scan_table (map (sys_protected s) [0..<n]) (sys_current s))) s1))"
    by (rule reached_quiet) (intro access.publish; simp add: at_place_def t(1))
  moreover have "(place_of s)(t := if b then Inside else Outside) = place_of s" using t(2) by auto
  ultimately show ?thesis by (simp add: bump_publish_def at_place_def s1_def)
qed

text \<open>Thread 0 reads item 5 while its entry shows the epoch \<open>p\<close> and its buffer \<open>b\<close>; thread 1 unlinks and stamps the item and
  leaves. The item has the stamp 1.\<close>

definition stamped :: "u64 \<Rightarrow> u64 list \<Rightarrow> system" where
  "stamped p b = (sys_init {5})\<lparr>sys_protected := (\<lambda>_. 0)(0 := p), store_buffer := (\<lambda>_. [])(0 := b), place_of := (\<lambda>_. Outside)(0 := Inside),
     held := (\<lambda>_. {})(0 := {5}), linked := {}, stamp_of := [5 \<mapsto> 1]\<rparr>"

lemma thread1_stamps:
  assumes r: "reached n x {5} 0 s" and n: "1 < n"
    and s: "s = (sys_init {5})\<lparr>sys_protected := (\<lambda>_. 0)(0 := p), store_buffer := (\<lambda>_. [])(0 := b),
      place_of := (\<lambda>_. Outside)(0 := Inside), held := (\<lambda>_. {})(0 := {5})\<rparr>"
  shows "reached n x {5} 0 (stamped p b)"
proof -
  define s4 where "s4 = protect_load 1 1 s"
  define s5 where "s5 = protect_exchange 1 1 s4"
  define s6 where "s6 = at_place 1 (Unlinked 5) (s5\<lparr>linked := linked s5 - {5}\<rparr>)"
  define s7 where "s7 = at_place 1 Inside (s6\<lparr>stamp_of := (stamp_of s6)(5 \<mapsto> sys_current s6)\<rparr>)"
  define s8 where "s8 = unprotect_store 1 s7"
  have n1: "Suc 0 < n" using n by simp
  note defs = access_defs sys_init_def s s4_def s5_def s6_def s7_def s8_def
  have r4: "reached n x {5} 0 s4" unfolding s4_def by (rule reached_quiet [OF r]; rule access.load; simp add: defs n1)
  have "reached n x {5} 0 s5"
  proof (cases x)
    case True
    then show ?thesis unfolding s5_def by (intro reached_quiet [OF r4] access.exchange) (simp_all add: defs n1)
  next
    case False
    then have "reached n x {5} 0 (protect_store 1 1 s4)" by (intro reached_quiet [OF r4] access.store) (simp_all add: defs n1)
    then have "reached n x {5} 0 (drain 1 (protect_store 1 1 s4))" by (rule reached_quiet; intro access.drain; simp add: defs n1)
    moreover have "drain 1 (protect_store 1 1 s4) = s5" by (simp add: defs fun_eq_iff)
    ultimately show ?thesis by simp
  qed
  then have "reached n x {5} 0 s6" unfolding s6_def by (rule reached_quiet) (intro access.unlink; simp add: defs n1)
  then have "reached n x {5} 0 s7" unfolding s7_def by (rule reached_quiet) (intro access.stamp; simp add: defs n1)
  then have "reached n x {5} 0 s8" unfolding s8_def by (rule reached_quiet) (intro access.leave; simp add: defs n1)
  then have "reached n x {5} 0 (drain 1 s8)" by (rule reached_quiet) (intro access.drain; simp add: defs n1)
  moreover have "drain 1 s8 = stamped p b" by (simp add: defs stamped_def fun_eq_iff)
  ultimately show ?thesis by simp
qed

text \<open>With the release store, the epoch of thread 0 stays in its buffer; with the exchange it is in memory.\<close>

lemma stamped_reached:
  assumes n: "1 < n"
  shows "reached n False {5} 0 (stamped 0 [1])" and "reached n True {5} 0 (stamped 1 [])"
proof -
  define s1 where "s1 = protect_load 0 1 (sys_init {5})"
  have r1: "reached n x {5} 0 s1" for x
    unfolding s1_def by (rule reached_quiet [OF reached.start]; rule access.load; use n in \<open>simp add: sys_init_def\<close>)
  have rd: "reached n x {5} 0 (s\<lparr>held := (held s)(0 := insert 5 (held s 0))\<rparr>)"
    if "reached n x {5} 0 s" "place_of s 0 = Inside" "5 \<in> linked s" for x s
    by (rule reached_quiet [OF that(1)]; rule access.read; use that n in simp)
  have "reached n False {5} 0 (protect_store 0 1 s1)"
    by (rule reached_quiet [OF r1]; rule access.store; use n in \<open>simp add: s1_def access_defs\<close>)
  from thread1_stamps [OF rd [OF this] n, where p = 0 and b = "[1]"] show "reached n False {5} 0 (stamped 0 [1])"
    by (simp add: s1_def access_defs sys_init_def fun_eq_iff)
  have "reached n True {5} 0 (protect_exchange 0 1 s1)"
    by (rule reached_quiet [OF r1]; rule access.exchange; use n in \<open>simp add: s1_def access_defs sys_init_def\<close>)
  from thread1_stamps [OF rd [OF this] n, where p = 1 and b = "[]"] show "reached n True {5} 0 (stamped 1 [])"
    by (simp add: s1_def access_defs sys_init_def fun_eq_iff)
qed

lemma delayed_store_frees_held:
  assumes n: "1 < n"
  shows "\<exists>s. reached n False {5} 2 s \<and> 5 \<in> held s 0 \<and> 5 \<in> freed s"
proof -
  have z: "scan_table (map (sys_protected (stamped 0 [1])) [0..<n]) c = c" for c
    by (rule scan_table_quiet) (simp add: stamped_def)
  define s1 where "s1 = (stamped 0 [1])\<lparr>sys_current := 2, sys_safe := 0\<rparr>"
  define s2 where "s2 = (stamped 0 [1])\<lparr>sys_current := 3, sys_safe := 1\<rparr>"
  have "reached n False {5} (Suc 0) s1"
    using uninterrupted_bump [OF stamped_reached(1) [OF n], of 1 False] n unfolding z
    by (simp add: s1_def stamped_def sys_init_def)
  moreover have "sys_protected s1 = sys_protected (stamped 0 [1])" by (simp add: s1_def)
  ultimately have "reached n False {5} (Suc (Suc 0)) s2"
    using uninterrupted_bump [of n False "{5}" "Suc 0" s1 1 False] n z by (simp add: s1_def s2_def stamped_def sys_init_def)
  then have "reached n False {5} (Suc (Suc 0)) (s2\<lparr>stamp_of := (stamp_of s2)(5 := None), freed := insert 5 (freed s2)\<rparr>)"
    by (rule reached_quiet) (intro access.free [where e = 1]; simp add: s2_def stamped_def is_safe_def)
  then show ?thesis by (intro exI conjI) (assumption | simp add: s2_def stamped_def numeral_2_eq_2)+
qed

section \<open>The property\<close>

text \<open>C22. Whether a protected thread is safe depends on how \<open>MinEpochTable::Protect\<close> writes the entry. With the exchange of its
  disabled branch, no interleaving of the atomic accesses of any number of threads lets a thread hold an item that has been
  freed, as long as the epoch has been incremented fewer than \<open>2 ^ 64 - 1\<close> times: neither a \<open>Protect\<close> that enters a stale epoch, nor a
  scan that overlaps with \<open>Protect\<close> calls, nor scans that publish out of order make an item reclaimable while a protected
  thread that could reach it is still inside. With the compiled release store and acquire fence this fails: the store can
  wait in the store buffer while the thread reads an item, another thread unlinks it, and two increments of the epoch
  scan past the empty entry.\<close>

theorem protected_items_safe_iff_exchange:
  assumes "1 < n"
  shows "(\<forall>items k s t. reached n x items k s \<longrightarrow> k < 2 ^ 64 - 1 \<longrightarrow> t < n \<longrightarrow> held s t \<inter> freed s = {}) \<longleftrightarrow> x"
proof (cases x)
  case True
  have "held s t \<inter> freed s = {}" if "reached n True items k s" "k < 2 ^ 64 - 1" "t < n" for items k s t
    using reached_inv [OF that(1,2)] that(3) by (auto simp: held_inv_def)
  then show ?thesis using True by auto
next
  case False
  obtain s where s: "reached n False {5} 2 s" "5 \<in> held s 0" "5 \<in> freed s" using delayed_store_frees_held [OF assms] by blast
  moreover have "(2 :: nat) < 2 ^ 64 - 1" "0 < n" using assms by simp_all
  moreover have x: "x = False" using False by simp
  ultimately show ?thesis unfolding x by blast
qed

text \<open>Two threads: with the exchange, thread 0 keeps its item although the item is stamped; with the store, some thread loses one.\<close>

theorem protected_items_safe_iff_exchange_witness:
  "\<exists>s. reached 2 True {5} 0 s \<and> 5 \<in> held s 0 \<and> stamp_of s 5 = Some 1 \<and> held s 0 \<inter> freed s = {} \<and>
    (\<exists>items k s' t. reached 2 False items k s' \<and> t < 2 \<and> held s' t \<inter> freed s' \<noteq> {})"
proof -
  have two: "(1 :: nat) < 2" by simp
  note r = stamped_reached(2) [OF two]
  have "held (stamped 1 []) 0 \<inter> freed (stamped 1 []) = {}"
    using protected_items_safe_iff_exchange [OF two, of True] r by fastforce
  moreover have "\<exists>items k s' t. reached 2 False items k s' \<and> t < 2 \<and> held s' t \<inter> freed s' \<noteq> {}"
    using protected_items_safe_iff_exchange [OF two, of False] by blast
  ultimately show ?thesis using r by (intro exI [of _ "stamped 1 []"]) (simp add: stamped_def)
qed

end
