(* ===== verification/TlsAlloc.thy ===== *)
theory TlsAlloc
  imports Prelude
begin

text \<open>
  \<open>TlsAllocator\<close> (\<open>environment/environment_linux.h\<close>): every thread keeps its freed blocks in chains by size and cuts new
  blocks from a slab of 512 MB, which it takes from the memory of the NUMA node it runs on. Blocks are never
  returned to the system.

  Addresses are 64-bit words and null is 0. \<open>headers\<close> holds the hidden header in front of each block. The thread-local
  variables of \<open>GetTlsMap\<close> and \<open>GetTlsSlab\<close> are functions of the thread. \<open>numa_node_of_cpu(sched_getcpu())\<close> is an
  argument: the nodes on which the thread is found at its successive attempts to get a slab.
\<close>

section \<open>State\<close>

record header =
  hdr_size :: u64
  hdr_next :: u64

record block_list =
  bl_head :: u64
  bl_tail :: u64

record slab =
  slab_allocated :: u64
  slab_memory :: u64

record tls_allocator =
  headers :: "u64 \<rightharpoonup> header"
  tls_blocks :: "nat \<Rightarrow> u64 \<rightharpoonup> block_list"
  tls_slab :: "nat \<Rightarrow> slab"
  numa_memory :: "u64 list"
  numa_allocated :: "u64 list"

definition sizeof_Header :: u64 where "sizeof_Header = 64"
definition kCacheLineSize :: u64 where "kCacheLineSize = 64"
definition kSlabSize :: u64 where "kSlabSize = 512 * 1024 * 1024"
definition kNumaMemorySize :: u64 where "kNumaMemorySize = 4096 * (1024 * 1024)"

lemmas tls_sizes = sizeof_Header_def kCacheLineSize_def kSlabSize_def kNumaMemorySize_def

definition read_header :: "u64 \<Rightarrow> tls_allocator \<Rightarrow> header res" where
  "read_header a s = (case headers s a of None \<Rightarrow> Inl (BadAccess ''Header'') | Some h \<Rightarrow> Inr h)"

definition set_header :: "u64 \<Rightarrow> header \<Rightarrow> tls_allocator \<Rightarrow> tls_allocator" where
  "set_header a h s = s\<lparr>headers := (headers s)(a \<mapsto> h)\<rparr>"

section \<open>Chains of free blocks\<close>

text \<open>\<open>BlockList::Get\<close>: the data of the first block, or null.\<close>

definition BlockList_Get :: "block_list \<Rightarrow> tls_allocator \<Rightarrow> (u64 \<times> block_list) res" where
  "BlockList_Get bl s =
     (if bl_head bl \<noteq> 0 then
        let alloc = bl_head bl
        in if alloc = bl_tail bl then Inr (alloc + sizeof_Header, \<lparr>bl_head = 0, bl_tail = 0\<rparr>)
           else rbind (read_header alloc s) (\<lambda>h. Inr (alloc + sizeof_Header, bl\<lparr>bl_head := hdr_next h\<rparr>))
      else Inr (0, bl))"

text \<open>\<open>BlockList::Put\<close>: append a header.\<close>

definition BlockList_Put :: "u64 \<Rightarrow> block_list \<Rightarrow> tls_allocator \<Rightarrow> (block_list \<times> tls_allocator) res" where
  "BlockList_Put header bl s =
     rbind (if bl_head bl = 0 then
              rbind (guard (bl_tail bl = 0) (DCheck ''!tail'')) (\<lambda>_. Inr (\<lparr>bl_head = header, bl_tail = header\<rparr>, s))
            else
              rbind (read_header (bl_tail bl) s) (\<lambda>ht.
              let s1 = set_header (bl_tail bl) (ht\<lparr>hdr_next := header\<rparr>) s
              in rbind (read_header header s1) (\<lambda>hh.
                   Inr (bl\<lparr>bl_tail := header\<rparr>, set_header header (hh\<lparr>hdr_next := 0\<rparr>) s1)))) (\<lambda>(bl', s').
     rbind (read_header (bl_head bl') s') (\<lambda>h1.
     rbind (read_header header s') (\<lambda>h2.
     rbind (guard (hdr_size h1 = hdr_size h2) (DCheck ''head->size == header->size'')) (\<lambda>_. Inr (bl', s')))))"

section \<open>Slabs\<close>

text \<open>\<open>Slab::Allocate\<close>: cut from the slab, or take a new slab from the memory of the node and try again. The slab keeps its
  thread's allocator, so the state has only one.\<close>

fun Slab_Allocate :: "nat list \<Rightarrow> nat \<Rightarrow> u64 \<Rightarrow> tls_allocator \<Rightarrow> (u64 \<times> tls_allocator) res" where
  "Slab_Allocate nodes tid n s =
     (let sl = tls_slab s tid
      in if slab_memory sl \<noteq> 0 \<and> slab_allocated sl + n \<le> kSlabSize
         then Inr (slab_memory sl + slab_allocated sl,
                s\<lparr>tls_slab := (tls_slab s)(tid := sl\<lparr>slab_allocated := slab_allocated sl + n\<rparr>)\<rparr>)
         else case nodes of
           [] \<Rightarrow> Inl Spins
         | node # nodes' \<Rightarrow>
             if node < length (numa_memory s) then
               let off = numa_allocated s ! node;
                   s1 = s\<lparr>numa_allocated := (numa_allocated s)[node := off + kSlabSize]\<rparr>
               in if off < kNumaMemorySize
                  then Slab_Allocate nodes' tid n
                    (s1\<lparr>tls_slab := (tls_slab s1)(tid := \<lparr>slab_allocated = 0, slab_memory = numa_memory s ! node + off\<rparr>)\<rparr>)
                  else Inl (AssertFail ''off < tls_allocator->kNumaMemorySize'')
             else Inl (BadAccess ''numa_allocated_''))"

section \<open>The allocator\<close>

text \<open>The size with the header, rounded up to a multiple of the cache line; in 64-bit arithmetic.\<close>

definition rounded_size :: "u64 \<Rightarrow> u64" where
  "rounded_size n = (n + sizeof_Header + kCacheLineSize - 1) div kCacheLineSize * kCacheLineSize"

definition TlsAllocate :: "nat list \<Rightarrow> nat \<Rightarrow> u64 \<Rightarrow> tls_allocator \<Rightarrow> (u64 \<times> tls_allocator) res" where
  "TlsAllocate nodes tid n s =
     (let nSize = rounded_size n; z = nSize - sizeof_Header
      in rbind (case tls_blocks s tid z of
                  None \<Rightarrow> Inr (0, s)
                | Some bl \<Rightarrow> rbind (BlockList_Get bl s) (\<lambda>(p, bl').
                    Inr (p, s\<lparr>tls_blocks := (tls_blocks s)(tid := (tls_blocks s tid)(z \<mapsto> bl'))\<rparr>))) (\<lambda>(p, s1).
         rbind (if p \<noteq> 0 then Inr (p, s1)
                else rbind (Slab_Allocate nodes tid nSize s1) (\<lambda>(a, s2).
                  if a = 0 then Inr (0, s2)
                  else Inr (a + sizeof_Header, set_header a \<lparr>hdr_size = z, hdr_next = 0\<rparr> s2))) (\<lambda>(q, s3).
         rbind (guard (q \<noteq> 0) (DCheck ''pBytes'')) (\<lambda>_. Inr (q, s3)))))"

definition TlsAllocator_Allocate :: "nat list \<Rightarrow> nat \<Rightarrow> u64 \<Rightarrow> tls_allocator \<Rightarrow> (u64 \<times> tls_allocator) res" where
  "TlsAllocator_Allocate nodes tid n s =
     rbind (TlsAllocate nodes tid n s) (\<lambda>(mem, s'). rbind (guard (mem \<noteq> 0) (DCheck ''*mem'')) (\<lambda>_. Inr (mem, s')))"

definition TlsAllocator_AllocateAligned :: "nat list \<Rightarrow> nat \<Rightarrow> u64 \<Rightarrow> u32 \<Rightarrow> tls_allocator \<Rightarrow> (u64 \<times> tls_allocator) res" where
  "TlsAllocator_AllocateAligned nodes tid n alignment s =
     rbind (guard (alignment = 64) (RawCheck ''unsupported alignment.'')) (\<lambda>_. TlsAllocator_Allocate nodes tid n s)"

definition TlsAllocator_Free :: "nat \<Rightarrow> u64 \<Rightarrow> tls_allocator \<Rightarrow> tls_allocator res" where
  "TlsAllocator_Free tid p s =
     (let a = p - sizeof_Header
      in rbind (read_header a s) (\<lambda>h.
         let s1 = set_header a (h\<lparr>hdr_next := 0\<rparr>) s
         in rbind (guard (hdr_size h \<noteq> 0) (DCheck ''pHeader->size'')) (\<lambda>_.
            case tls_blocks s1 tid (hdr_size h) of
              None \<Rightarrow> Inr (s1\<lparr>tls_blocks := (tls_blocks s1)(tid := (tls_blocks s1 tid)(hdr_size h \<mapsto> \<lparr>bl_head = a, bl_tail = a\<rparr>))\<rparr>)
            | Some bl \<Rightarrow> rbind (BlockList_Put a bl s1) (\<lambda>(bl', s2).
                Inr (s2\<lparr>tls_blocks := (tls_blocks s2)(tid := (tls_blocks s2 tid)(hdr_size h \<mapsto> bl'))\<rparr>)))))"

definition TlsAllocator_FreeAligned :: "nat \<Rightarrow> u64 \<Rightarrow> tls_allocator \<Rightarrow> tls_allocator res" where
  "TlsAllocator_FreeAligned tid p s = TlsAllocator_Free tid p s"

text \<open>The constructor, with the memory that \<open>mmap\<close> returned for each of the \<open>numa_max_node() + 1\<close> nodes\<close>

definition TlsAllocator_new :: "u64 list \<Rightarrow> tls_allocator" where
  "TlsAllocator_new mem = \<lparr>headers = Map.empty, tls_blocks = \<lambda>_. Map.empty,
     tls_slab = \<lambda>_. \<lparr>slab_allocated = 0, slab_memory = 0\<rparr>, numa_memory = mem, numa_allocated = replicate (length mem) 0\<rparr>"

end
