(* ===== verification/TlsAllocInv.thy ===== *)
theory TlsAllocInv
  imports TlsAlloc
begin

text \<open>
  The invariant of \<open>TlsAllocator\<close>: the blocks it handed out or keeps in chains, the rest of every thread's slab and the rest
  of every node's memory are apart from each other; a thread's chains link free blocks of one size. Allocation and
  deallocation keep it, so two live blocks never overlap.
\<close>

section \<open>Areas of memory\<close>

datatype area = Block u64 | Rest nat | Numa nat

fun bytes :: "tls_allocator \<Rightarrow> area \<Rightarrow> nat set" where
  "bytes s (Block a) = (case headers s a of None \<Rightarrow> {} | Some h \<Rightarrow> {unat a..<unat a + 64 + unat (hdr_size h)})"
| "bytes s (Rest t) = (let sl = tls_slab s t in if slab_memory sl = 0 then {}
     else {unat (slab_memory sl) + unat (slab_allocated sl)..<unat (slab_memory sl) + 2 ^ 29})"
| "bytes s (Numa v) = (if v < length (numa_memory s)
     then {unat (numa_memory s ! v) + unat (numa_allocated s ! v)..<unat (numa_memory s ! v) + 2 ^ 32} else {})"

definition apart :: "(area \<Rightarrow> nat set) \<Rightarrow> bool" where
  "apart B \<longleftrightarrow> (\<forall>i j. i \<noteq> j \<longrightarrow> B i \<inter> B j = {})"

text \<open>A part of one area becomes, or replaces, another.\<close>

lemma apart_carve:
  assumes "apart B" and "i \<noteq> j" and "B' i \<union> B' j \<subseteq> B j" and "B' i \<inter> B' j = {}" and "\<And>k. k \<noteq> i \<Longrightarrow> k \<noteq> j \<Longrightarrow> B' k = B k"
  shows "apart B'"
  unfolding apart_def
proof (intro allI impI)
  fix x y :: area assume ne: "x \<noteq> y"
  have d: "B k \<inter> B j = {}" if "k \<noteq> j" for k using assms(1) that by (simp add: apart_def)
  have *: "B' u \<inter> B' k = {}" if "u = i \<or> u = j" "u \<noteq> k" for u k
    using that assms(3-5) d [of k] by (cases "k = i \<or> k = j") auto
  show "B' x \<inter> B' y = {}"
  proof (cases "(x = i \<or> x = j) \<or> (y = i \<or> y = j)")
    case True
    then show ?thesis using * [of x y] * [of y x] ne by blast
  next
    case False
    then show ?thesis using assms(1,5) ne by (simp add: apart_def)
  qed
qed

definition block_ok :: "u64 \<Rightarrow> header \<Rightarrow> bool" where
  "block_ok a h \<longleftrightarrow> a \<noteq> 0 \<and> unat a mod 64 = 0 \<and> unat (hdr_size h) mod 64 = 0 \<and>
     unat (hdr_size h) + 64 \<le> 2 ^ 29 \<and> unat a + 64 + unat (hdr_size h) < 2 ^ 64"

definition slab_ok :: "slab \<Rightarrow> bool" where
  "slab_ok sl \<longleftrightarrow> slab_memory sl \<noteq> 0 \<longrightarrow> unat (slab_memory sl) mod 64 = 0 \<and> unat (slab_memory sl) + 2 ^ 29 < 2 ^ 64 \<and>
     unat (slab_allocated sl) \<le> 2 ^ 29 \<and> unat (slab_allocated sl) mod 64 = 0"

definition numa_ok :: "u64 \<Rightarrow> u64 \<Rightarrow> bool" where
  "numa_ok mem off \<longleftrightarrow> mem \<noteq> 0 \<and> unat mem mod 64 = 0 \<and> unat mem + 2 ^ 32 < 2 ^ 64 \<and> unat off \<le> 2 ^ 32 \<and> unat off mod 2 ^ 29 = 0"

definition sizes_ok :: "tls_allocator \<Rightarrow> bool" where
  "sizes_ok s \<longleftrightarrow> (\<forall>a h. headers s a = Some h \<longrightarrow> block_ok a h) \<and> (\<forall>t. slab_ok (tls_slab s t)) \<and>
     length (numa_allocated s) = length (numa_memory s) \<and>
     (\<forall>v < length (numa_memory s). numa_ok (numa_memory s ! v) (numa_allocated s ! v))"

lemma data_not_null:
  assumes "sizes_ok s" and "headers s a = Some h"
  shows "a + 64 \<noteq> 0"
proof -
  have "block_ok a h" using assms by (simp add: sizes_ok_def)
  then have "unat a + 64 < 2 ^ 64" by (simp add: block_ok_def)
  then have "unat (a + 64) = unat a + 64" by (simp add: unat_word_ariths)
  then show ?thesis by (metis add_is_0 unat_0 zero_neq_numeral)
qed

section \<open>Chains\<close>

fun links :: "(u64 \<rightharpoonup> header) \<Rightarrow> u64 list \<Rightarrow> bool" where
  "links H [] \<longleftrightarrow> True"
| "links H [x] \<longleftrightarrow> True"
| "links H (x # y # zs) \<longleftrightarrow> (\<exists>h. H x = Some h \<and> hdr_next h = y) \<and> links H (y # zs)"

definition chain :: "(u64 \<rightharpoonup> header) \<Rightarrow> block_list \<Rightarrow> u64 list \<Rightarrow> bool" where
  "chain H bl xs \<longleftrightarrow> (if xs = [] then bl_head bl = 0 \<and> bl_tail bl = 0
     else bl_head bl = hd xs \<and> bl_tail bl = last xs \<and> links H xs) \<and> distinct xs \<and> 0 \<notin> set xs"

lemma links_cong: "links H xs \<Longrightarrow> (\<And>x. x \<in> set (butlast xs) \<Longrightarrow> H' x = H x) \<Longrightarrow> links H' xs"
  by (induction H xs rule: links.induct) auto

lemma links_append: "links H xs \<Longrightarrow> xs \<noteq> [] \<Longrightarrow> H (last xs) = Some h \<Longrightarrow> hdr_next h = a \<Longrightarrow> links H (xs @ [a])"
  by (induction H xs rule: links.induct) auto

lemma block_chain_cong: "chain H bl xs \<Longrightarrow> (\<And>x. x \<in> set xs \<Longrightarrow> H' x = H x) \<Longrightarrow> chain H' bl xs"
proof -
  assume c: "chain H bl xs" and e: "\<And>x. x \<in> set xs \<Longrightarrow> H' x = H x"
  have "links H xs \<Longrightarrow> links H' xs" by (erule links_cong) (simp add: e in_set_butlastD)
  then show ?thesis using c by (auto simp: chain_def)
qed

lemma chain_hd: "chain H bl xs \<Longrightarrow> xs \<noteq> [] \<Longrightarrow> bl_head bl = hd xs \<and> hd xs \<noteq> 0"
  unfolding chain_def by (metis hd_in_set)

lemma Get_chain:
  assumes "chain (headers s) bl xs"
  shows "xs = [] \<Longrightarrow> BlockList_Get bl s = Inr (0, bl)"
    and "xs = x # ys \<Longrightarrow> \<exists>bl'. BlockList_Get bl s = Inr (x + 64, bl') \<and> chain (headers s) bl' ys"
proof -
  show "xs = [] \<Longrightarrow> BlockList_Get bl s = Inr (0, bl)" using assms by (simp add: chain_def BlockList_Get_def)
  assume x: "xs = x # ys"
  show "\<exists>bl'. BlockList_Get bl s = Inr (x + 64, bl') \<and> chain (headers s) bl' ys"
  proof (cases ys)
    case Nil
    then show ?thesis using assms x by (auto simp: chain_def BlockList_Get_def Let_def tls_sizes)
  next
    case (Cons y zs)
    then have "x \<noteq> last ys" "x \<noteq> 0" "last xs = last ys" using assms x by (auto simp: chain_def)
    then show ?thesis using assms x Cons by (auto simp: chain_def BlockList_Get_def Let_def tls_sizes read_header_def)
  qed
qed

lemma Put_chain:
  assumes c: "chain (headers s) bl xs" and a: "a \<noteq> 0" "a \<notin> set xs" "headers s a = Some h"
    and z: "\<And>x. x \<in> set xs \<Longrightarrow> \<exists>g. headers s x = Some g \<and> hdr_size g = hdr_size h"
  shows "\<exists>bl' H'. BlockList_Put a bl s = Inr (bl', s\<lparr>headers := H'\<rparr>) \<and> chain H' bl' (xs @ [a]) \<and>
    (\<forall>x. map_option hdr_size (H' x) = map_option hdr_size (headers s x)) \<and> (\<forall>x. x \<notin> set xs \<longrightarrow> x \<noteq> a \<longrightarrow> H' x = headers s x)"
proof (cases "xs = []")
  case True
  then have "BlockList_Put a bl s = Inr (\<lparr>bl_head = a, bl_tail = a\<rparr>, s\<lparr>headers := headers s\<rparr>)"
    using c a by (simp add: BlockList_Put_def chain_def read_header_def)
  then show ?thesis using True a by (intro exI conjI) (auto simp: chain_def)
next
  case False
  let ?t = "last xs"
  obtain g where g: "headers s ?t = Some g" "hdr_size g = hdr_size h" using z [of ?t] False by auto
  define H' where "H' = (headers s)(?t \<mapsto> g\<lparr>hdr_next := a\<rparr>, a \<mapsto> h\<lparr>hdr_next := 0\<rparr>)"
  have ne: "?t \<noteq> a" "hd xs \<noteq> a" "bl_head bl = hd xs" "bl_tail bl = ?t" "bl_head bl \<noteq> 0"
    using c a(2) False chain_hd [OF c False] by (auto simp: chain_def)
  have hd: "\<exists>g. H' (hd xs) = Some g \<and> hdr_size g = hdr_size h" using z [of "hd xs"] False ne(2) g(2) by (auto simp: H'_def)
  have "BlockList_Put a bl s = Inr (bl\<lparr>bl_tail := a\<rparr>, s\<lparr>headers := H'\<rparr>)"
    using ne g(1) a(3) hd by (auto simp: BlockList_Put_def read_header_def set_header_def H'_def)
  moreover have "links H' (xs @ [a])"
  proof (rule links_append [OF _ False, where h = "g\<lparr>hdr_next := a\<rparr>"])
    have l: "links (headers s) xs" and d: "distinct (butlast xs @ [?t])" using c False by (simp_all add: chain_def)
    have "H' x = headers s x" if x: "x \<in> set (butlast xs)" for x
    proof -
      have "x \<noteq> ?t" "x \<noteq> a" using d x a(2) in_set_butlastD [OF x] by auto
      then show ?thesis by (simp add: H'_def)
    qed
    then show "links H' xs" by (rule links_cong [OF l])
  qed (use ne in \<open>simp_all add: H'_def\<close>)
  then have "chain H' (bl\<lparr>bl_tail := a\<rparr>) (xs @ [a])" using c a False ne by (simp add: chain_def)
  moreover have "map_option hdr_size (H' x) = map_option hdr_size (headers s x)" for x using g(1) a(3) by (simp add: H'_def)
  moreover have "H' x = headers s x" if "x \<notin> set xs" "x \<noteq> a" for x using that False by (auto simp: H'_def)
  ultimately show ?thesis by blast
qed

section \<open>The invariant\<close>

definition list_of :: "tls_allocator \<Rightarrow> nat \<Rightarrow> u64 \<Rightarrow> block_list" where
  "list_of s t z = (case tls_blocks s t z of None \<Rightarrow> \<lparr>bl_head = 0, bl_tail = 0\<rparr> | Some bl \<Rightarrow> bl)"

definition chains_ok :: "tls_allocator \<Rightarrow> (nat \<Rightarrow> u64 \<Rightarrow> u64 list) \<Rightarrow> bool" where
  "chains_ok s ch \<longleftrightarrow> (\<forall>t z. chain (headers s) (list_of s t z) (ch t z)) \<and>
     (\<forall>t z. \<forall>x \<in> set (ch t z). \<exists>h. headers s x = Some h \<and> hdr_size h = z) \<and>
     (\<forall>t u z w. (t, z) \<noteq> (u, w) \<longrightarrow> set (ch t z) \<inter> set (ch u w) = {})"

definition alloc_inv :: "tls_allocator \<Rightarrow> u64 set \<Rightarrow> bool" where
  "alloc_inv s live \<longleftrightarrow> apart (bytes s) \<and> sizes_ok s \<and>
     (\<exists>ch. chains_ok s ch \<and> live = dom (headers s) - (\<Union>t z. set (ch t z)))"

lemma alloc_invD:
  assumes "alloc_inv s live"
  obtains ch where "apart (bytes s)" "sizes_ok s" "chains_ok s ch" "live = dom (headers s) - (\<Union>t z. set (ch t z))"
  using assms by (auto simp: alloc_inv_def)

lemma chains_okD:
  assumes "chains_ok s ch"
  shows "chain (headers s) (list_of s t z) (ch t z)" and "x \<in> set (ch t z) \<Longrightarrow> \<exists>h. headers s x = Some h \<and> hdr_size h = z"
    and "(t, z) \<noteq> (u, w) \<Longrightarrow> set (ch t z) \<inter> set (ch u w) = {}"
  using assms unfolding chains_ok_def by blast+

text \<open>One chain of one thread changes, and headers keep their sizes.\<close>

lemma chains_update:
  assumes c: "chains_ok s ch" and s': "\<And>t' z'. list_of s' t' z' = (if t' = t \<and> z' = z then bl else list_of s t' z')"
    and bl: "chain (headers s') bl xs" and sz: "\<And>x h. headers s x = Some h \<Longrightarrow> \<exists>h'. headers s' x = Some h' \<and> hdr_size h' = hdr_size h"
    and xs: "\<And>x. x \<in> set xs \<Longrightarrow> \<exists>h. headers s' x = Some h \<and> hdr_size h = z"
    and new: "\<And>x t' z'. x \<in> set xs \<Longrightarrow> (t', z') \<noteq> (t, z) \<Longrightarrow> x \<notin> set (ch t' z')"
    and fr: "\<And>x t' z'. x \<in> set (ch t' z') \<Longrightarrow> (t', z') \<noteq> (t, z) \<Longrightarrow> headers s' x = headers s x"
  shows "chains_ok s' (\<lambda>t' z'. if t' = t \<and> z' = z then xs else ch t' z')"
proof -
  let ?ch = "\<lambda>t' z'. if t' = t \<and> z' = z then xs else ch t' z'"
  have "chain (headers s') (list_of s' t' z') (?ch t' z')" for t' z'
  proof (cases "t' = t \<and> z' = z")
    case False
    have "chain (headers s') (list_of s t' z') (ch t' z')"
      by (rule block_chain_cong [OF chains_okD(1) [OF c]]) (rule fr, use False in auto)
    then show ?thesis using False s' by auto
  qed (use bl s' in simp)
  moreover have "\<exists>h. headers s' x = Some h \<and> hdr_size h = z'" if "x \<in> set (?ch t' z')" for t' z' x
  proof (cases "t' = t \<and> z' = z")
    case False
    then have "x \<in> set (ch t' z')" using that by (simp split: if_splits)
    then obtain g where "headers s x = Some g" "hdr_size g = z'" using chains_okD(2) [OF c] by blast
    then show ?thesis using sz [of x g] by auto
  qed (use that xs in simp)
  moreover have "set (?ch t' z') \<inter> set (?ch u w) = {}" if "(t', z') \<noteq> (u, w)" for t' z' u w
    using that new chains_okD(3) [OF c that] by (auto split: if_splits)
  ultimately show ?thesis unfolding chains_ok_def by blast
qed

lemma in_chains:
  "x \<in> (\<Union>t' z'. set (if t' = t \<and> z' = z then xs else ch t' z')) \<longleftrightarrow> x \<in> set xs \<or> (\<exists>t' z'. (t', z') \<noteq> (t, z) \<and> x \<in> set (ch t' z'))"
proof
  assume a: "x \<in> set xs \<or> (\<exists>t' z'. (t', z') \<noteq> (t, z) \<and> x \<in> set (ch t' z'))"
  obtain t' z' where "x \<in> set (if t' = t \<and> z' = z then xs else ch t' z')"
  proof (cases "x \<in> set xs")
    case True
    show ?thesis by (rule that [of t z]) (use True in simp)
  next
    case False
    then obtain t' z' where "(t', z') \<noteq> (t, z)" "x \<in> set (ch t' z')" using a by blast
    then show ?thesis by (intro that [of t' z']) auto
  qed
  then show "x \<in> (\<Union>t' z'. set (if t' = t \<and> z' = z then xs else ch t' z'))" by blast
qed (auto split: if_splits)

lemma chains_append:
  "(\<Union>t' z'. set (if t' = t \<and> z' = z then ch t z @ [a] else ch t' z')) = insert a (\<Union>t z. set (ch t z))" (is "?U = _")
proof (rule set_eqI)
  fix x
  have "x \<in> ?U \<longleftrightarrow> x \<in> set (ch t z @ [a]) \<or> (\<exists>t' z'. (t', z') \<noteq> (t, z) \<and> x \<in> set (ch t' z'))" by (rule in_chains)
  then show "x \<in> ?U \<longleftrightarrow> x \<in> insert a (\<Union>t z. set (ch t z))" by (simp, metis)
qed

lemma chains_tail:
  assumes "chains_ok s ch" and "ch t z = a # xs"
  shows "(\<Union>t' z'. set (if t' = t \<and> z' = z then xs else ch t' z')) = (\<Union>t z. set (ch t z)) - {a}" (is "?U = _")
proof (rule set_eqI)
  fix x
  have U: "x \<in> ?U \<longleftrightarrow> x \<in> set xs \<or> (\<exists>t' z'. (t', z') \<noteq> (t, z) \<and> x \<in> set (ch t' z'))" by (rule in_chains)
  have "a \<notin> set xs" using chains_okD(1) [OF assms(1), of t z] assms(2) by (simp add: chain_def)
  moreover have "a \<notin> set (ch t' z')" if "(t', z') \<noteq> (t, z)" for t' z' using chains_okD(3) [OF assms(1) that] assms(2) by auto
  ultimately have "x \<in> ?U \<longleftrightarrow> (x \<in> set (ch t z) \<or> (\<exists>t' z'. (t', z') \<noteq> (t, z) \<and> x \<in> set (ch t' z'))) \<and> x \<noteq> a"
    unfolding U assms(2) by auto
  then show "x \<in> ?U \<longleftrightarrow> x \<in> (\<Union>t z. set (ch t z)) - {a}" by (simp, metis)
qed

lemma same_size:
  assumes "map_option hdr_size (headers s' x) = map_option hdr_size (headers s x)" and "headers s' x = Some h'"
  obtains h where "headers s x = Some h" "hdr_size h = hdr_size h'"
  using assms by (cases "headers s x") auto

lemma bytes_cong:
  assumes "\<And>x. map_option hdr_size (headers s' x) = map_option hdr_size (headers s x)" and "tls_slab s' = tls_slab s"
    and "numa_memory s' = numa_memory s" and "numa_allocated s' = numa_allocated s"
  shows "bytes s' = bytes s"
proof
  show "bytes s' i = bytes s i" for i
  proof (cases i)
    case (Block x)
    then show ?thesis using assms(1) [of x] by (cases "headers s' x"; cases "headers s x") auto
  qed (use assms(2-) in auto)
qed

lemma sizes_cong:
  assumes i: "sizes_ok s" and z: "\<And>x. map_option hdr_size (headers s' x) = map_option hdr_size (headers s x)" and "tls_slab s' = tls_slab s"
    and "numa_memory s' = numa_memory s" and "numa_allocated s' = numa_allocated s"
  shows "sizes_ok s'"
proof -
  have "block_ok a h" if h: "headers s' a = Some h" for a h
  proof -
    obtain g where "headers s a = Some g" "hdr_size g = hdr_size h" using same_size [OF z h] .
    then have "block_ok a g" using i by (simp add: sizes_ok_def)
    then show ?thesis using \<open>hdr_size g = hdr_size h\<close> by (simp add: block_ok_def)
  qed
  then show ?thesis using i assms(3-) by (simp add: sizes_ok_def)
qed

section \<open>Deallocation\<close>

lemma Free_ok:
  assumes i: "alloc_inv s live" and a: "a \<in> live" "headers s a = Some h" "hdr_size h \<noteq> 0"
  shows "\<exists>s'. TlsAllocator_Free tid (a + 64) s = Inr s' \<and> alloc_inv s' (live - {a}) \<and>
    (\<forall>x. map_option hdr_size (headers s' x) = map_option hdr_size (headers s x))"
proof -
  obtain ch where inv: "apart (bytes s)" "sizes_ok s" "chains_ok s ch" "live = dom (headers s) - (\<Union>t z. set (ch t z))"
    using alloc_invD [OF i] .
  note c = chains_okD [OF inv(3)]
  let ?z = "hdr_size h"
  have a0: "a \<noteq> 0" using inv(2) a(2) by (auto simp: sizes_ok_def block_ok_def)
  have free: "a \<notin> set (ch t z)" for t z using a(1) inv(4) by blast
  define s1 where "s1 = set_header a (h\<lparr>hdr_next := 0\<rparr>) s"
  have s1: "headers s1 = (headers s)(a \<mapsto> h\<lparr>hdr_next := 0\<rparr>)" "list_of s1 = list_of s" "tls_blocks s1 = tls_blocks s"
    by (simp_all add: s1_def set_header_def list_of_def fun_eq_iff)
  have c1: "chain (headers s1) (list_of s tid ?z) (ch tid ?z)"
    by (rule block_chain_cong [OF c(1)]) (use free in \<open>auto simp: s1\<close>)
  have z1: "\<exists>g. headers s1 x = Some g \<and> hdr_size g = hdr_size (h\<lparr>hdr_next := 0\<rparr>)" if "x \<in> set (ch tid ?z)" for x
    using c(2) [OF that] free that by (auto simp: s1)
  obtain bl' H' where p: "BlockList_Put a (list_of s tid ?z) s1 = Inr (bl', s1\<lparr>headers := H'\<rparr>)" "chain H' bl' (ch tid ?z @ [a])"
    "\<And>x. map_option hdr_size (H' x) = map_option hdr_size (headers s1 x)"
    "\<And>x. x \<notin> set (ch tid ?z) \<Longrightarrow> x \<noteq> a \<Longrightarrow> H' x = headers s1 x"
    using Put_chain [OF c1 a0 free, of "h\<lparr>hdr_next := 0\<rparr>"] z1 s1(1) by (auto simp del: map_option_eq_Some)
  define s' where "s' = s1\<lparr>headers := H', tls_blocks := (tls_blocks s)(tid := (tls_blocks s tid)(?z \<mapsto> bl'))\<rparr>"
  have run: "TlsAllocator_Free tid (a + 64) s = Inr s'"
  proof (cases "tls_blocks s tid ?z")
    case None
    then have "ch tid ?z = []" using chain_hd [OF c(1) [of tid ?z]] by (auto simp: list_of_def)
    then have "H' = headers s1" "bl' = \<lparr>bl_head = a, bl_tail = a\<rparr>"
      using p(1) None a0 s1(1) by (auto simp: list_of_def BlockList_Put_def read_header_def dest: arg_cong [where f = headers])
    then show ?thesis using None a(2,3)
      by (simp add: TlsAllocator_Free_def read_header_def tls_sizes s'_def s1_def [symmetric] s1(3) Let_def)
  next
    case (Some bl)
    then have "list_of s tid ?z = bl" by (simp add: list_of_def)
    then show ?thesis using Some a(2,3) p(1)
      by (simp add: TlsAllocator_Free_def read_header_def tls_sizes s'_def s1_def [symmetric] s1(3) Let_def)
  qed
  have sz: "map_option hdr_size (headers s' x) = map_option hdr_size (headers s x)" for x
    using p(3) [of x] a(2) by (auto simp: s'_def s1(1) split: if_splits)
  have same: "tls_slab s' = tls_slab s" "numa_memory s' = numa_memory s" "numa_allocated s' = numa_allocated s"
    by (simp_all add: s'_def s1_def set_header_def)
  have dom: "dom (headers s') = dom (headers s)" using sz by (metis (no_types, lifting) domIff map_option_is_None subsetI subset_antisym)
  have "chains_ok s' (\<lambda>t' z'. if t' = tid \<and> z' = ?z then ch tid ?z @ [a] else ch t' z')"
  proof (rule chains_update [OF inv(3), where bl = bl'])
    show "list_of s' t' z' = (if t' = tid \<and> z' = ?z then bl' else list_of s t' z')" for t' z' by (auto simp: s'_def list_of_def)
    show "chain (headers s') bl' (ch tid ?z @ [a])" using p(2) by (simp add: s'_def)
    show "\<exists>h'. headers s' x = Some h' \<and> hdr_size h' = hdr_size g" if "headers s x = Some g" for x g
      using sz [of x] that by (auto simp: map_option_eq_Some)
    show "\<exists>g. headers s' x = Some g \<and> hdr_size g = ?z" if "x \<in> set (ch tid ?z @ [a])" for x
      using sz [of x] that a(2) c(2) [of x tid ?z] by (auto simp: map_option_eq_Some)
    show "x \<notin> set (ch t' z')" if "x \<in> set (ch tid ?z @ [a])" "(t', z') \<noteq> (tid, ?z)" for x t' z'
      using that free c(3) [of tid ?z t' z'] by auto
    show "headers s' x = headers s x" if "x \<in> set (ch t' z')" "(t', z') \<noteq> (tid, ?z)" for x t' z'
      using p(4) [of x] that free c(3) [of t' z' tid ?z] by (auto simp: s'_def s1(1))
  qed
  moreover have "live - {a} = dom (headers s') - (\<Union>t' z'. set (if t' = tid \<and> z' = ?z then ch tid ?z @ [a] else ch t' z'))"
    unfolding chains_append inv(4) dom by blast
  moreover have "apart (bytes s')" using inv(1) bytes_cong [OF sz same] by simp
  ultimately have "alloc_inv s' (live - {a})"
    unfolding alloc_inv_def by (intro conjI exI) (assumption | rule sizes_cong [OF inv(2) sz same])+
  then show ?thesis using run sz by blast
qed

section \<open>Allocation\<close>

lemma unat_rounded_size:
  assumes "unat n \<le> 2 ^ 62"
  shows "unat (rounded_size n) = (unat n + 127) div 64 * 64" and "unat (rounded_size n - sizeof_Header) + 64 = unat (rounded_size n)"
proof -
  have u: "unat (n + 127) = unat n + 127" using assms by (simp add: unat_word_ariths)
  have e: "rounded_size n = (n + 127) div 64 * 64" by (simp add: rounded_size_def tls_sizes add.commute)
  have d: "unat ((n + 127) div 64) = (unat n + 127) div 64" using u by (simp add: unat_div)
  show r: "unat (rounded_size n) = (unat n + 127) div 64 * 64"
    unfolding e using d assms by (simp add: unat_word_ariths)
  have b: "64 \<le> unat (rounded_size n)" unfolding r by simp
  then have "64 \<le> rounded_size n" by (simp add: word_le_nat_alt)
  then have "unat (rounded_size n - 64) = unat (rounded_size n) - 64" by (simp add: unat_sub)
  then show "unat (rounded_size n - sizeof_Header) + 64 = unat (rounded_size n)" using b by (simp add: tls_sizes)
qed

lemma rounded_size_ok:
  assumes "unat n + 64 \<le> 2 ^ 29"
  shows "unat (rounded_size n) mod 64 = 0" and "unat n + 64 \<le> unat (rounded_size n)" and "unat (rounded_size n) \<le> 2 ^ 29"
    and "unat (rounded_size n - sizeof_Header) + 64 = unat (rounded_size n)"
proof -
  have n: "unat n \<le> 2 ^ 62" using assms by simp
  show "unat (rounded_size n) mod 64 = 0" "unat n + 64 \<le> unat (rounded_size n)" "unat (rounded_size n) \<le> 2 ^ 29"
    unfolding unat_rounded_size(1) [OF n] using assms by (presburger, presburger, simp)
  show "unat (rounded_size n - sizeof_Header) + 64 = unat (rounded_size n)" by (rule unat_rounded_size(2) [OF n])
qed

text \<open>A block cut from the slab of a thread\<close>

lemma cut_ok:
  assumes i: "apart (bytes s)" "sizes_ok s" and sl: "tls_slab s tid = sl" "slab_memory sl \<noteq> 0" "unat (slab_allocated sl) + unat R \<le> 2 ^ 29"
    and R: "unat R mod 64 = 0" "unat z + 64 = unat R"
  defines "a \<equiv> slab_memory sl + slab_allocated sl"
    and "s' \<equiv> s\<lparr>tls_slab := (tls_slab s)(tid := sl\<lparr>slab_allocated := slab_allocated sl + R\<rparr>),
      headers := (headers s)(slab_memory sl + slab_allocated sl \<mapsto> \<lparr>hdr_size = z, hdr_next = 0\<rparr>)\<rparr>"
  shows "headers s a = None" and "a \<noteq> 0" and "unat a mod 64 = 0" and "unat a + unat R < 2 ^ 64" and "apart (bytes s')" and "sizes_ok s'"
proof -
  have so: "unat (slab_memory sl) mod 64 = 0" "unat (slab_memory sl) + 2 ^ 29 < 2 ^ 64" "unat (slab_allocated sl) mod 64 = 0"
    using i(2) sl by (auto simp: sizes_ok_def slab_ok_def)
  have ua: "unat a = unat (slab_memory sl) + unat (slab_allocated sl)"
    unfolding a_def using so sl(3) by (subst unat_plus_simple [THEN iffD1]) (simp_all add: word_le_nat_alt unat_word_ariths)
  have m0: "unat (slab_memory sl) \<noteq> 0" using sl(2) by (simp add: unat_eq_zero)
  then show a0: "a \<noteq> 0" using ua by (metis add_is_0 unat_0)
  show am: "unat a mod 64 = 0" using ua so by presburger
  show aR: "unat a + unat R < 2 ^ 64" using ua sl(3) so(2) by linarith
  have uR: "unat (slab_allocated sl + R) = unat (slab_allocated sl) + unat R" using sl(3) by (simp add: unat_word_ariths)
  have R0: "0 < unat R" using R(2) by simp
  have rest: "bytes s (Rest tid) = {unat a..<unat (slab_memory sl) + 2 ^ 29}" using sl ua by (simp add: Let_def)
  show fresh: "headers s a = None"
  proof (rule ccontr)
    assume "headers s a \<noteq> None"
    then obtain h where h: "headers s a = Some h" by auto
    have "unat a \<in> bytes s (Block a)" using h by simp
    moreover have "unat a \<in> bytes s (Rest tid)" unfolding rest using ua sl(3) R0 by simp
    ultimately show False using i(1) unfolding apart_def by blast
  qed
  have b: "bytes s' (Block a) = {unat a..<unat a + unat R}" using R(2) by (simp add: s'_def a_def [symmetric] add.commute [of 64] add.assoc)
  have r': "bytes s' (Rest tid) = {unat a + unat R..<unat (slab_memory sl) + 2 ^ 29}"
    using sl(2) uR ua by (simp add: s'_def Let_def add.assoc)
  show "apart (bytes s')"
  proof (rule apart_carve [OF i(1), of "Block a" "Rest tid"])
    show "bytes s' (Block a) \<union> bytes s' (Rest tid) \<subseteq> bytes s (Rest tid)" unfolding b r' rest using ua sl(3) by auto
    show "bytes s' (Block a) \<inter> bytes s' (Rest tid) = {}" unfolding b r' by auto
    show "bytes s' k = bytes s k" if "k \<noteq> Block a" "k \<noteq> Rest tid" for k
      using that by (cases k) (auto simp: s'_def a_def)
  qed simp
  have "block_ok a \<lparr>hdr_size = z, hdr_next = 0\<rparr>" using a0 am aR R sl(3) by (simp add: block_ok_def) presburger
  moreover have "slab_ok (sl\<lparr>slab_allocated := slab_allocated sl + R\<rparr>)"
    using so sl uR R(1) by (simp add: slab_ok_def) presburger
  ultimately show "sizes_ok s'" using i(2) by (auto simp: sizes_ok_def s'_def a_def)
qed

text \<open>A new slab from the memory of a node\<close>

lemma new_slab_ok:
  fixes tid :: nat
  assumes i: "apart (bytes s)" "sizes_ok s" and v: "v < length (numa_memory s)" and off: "numa_allocated s ! v < kNumaMemorySize"
  defines "s' \<equiv> s\<lparr>numa_allocated := (numa_allocated s)[v := numa_allocated s ! v + kSlabSize],
      tls_slab := (tls_slab s)(tid := \<lparr>slab_allocated = 0, slab_memory = numa_memory s ! v + numa_allocated s ! v\<rparr>)\<rparr>"
  shows "apart (bytes s')" and "sizes_ok s'" and "slab_memory (tls_slab s' tid) \<noteq> 0"
proof -
  let ?m = "numa_memory s ! v" and ?o = "numa_allocated s ! v"
  have n: "?m \<noteq> 0" "unat ?m mod 64 = 0" "unat ?m + 2 ^ 32 < 2 ^ 64" "unat ?o mod 2 ^ 29 = 0"
    using i(2) v by (auto simp: sizes_ok_def numa_ok_def)
  have len: "v < length (numa_allocated s)" using i(2) v by (simp add: sizes_ok_def)
  have lt: "unat ?o < 2 ^ 32" using off by (simp add: word_less_nat_alt kNumaMemorySize_def)
  have o: "unat ?o + 2 ^ 29 \<le> 2 ^ 32"
  proof -
    obtain k where k: "unat ?o = 2 ^ 29 * k" using n(4) by (auto simp: mod_eq_0_iff_dvd elim: dvdE)
    then have "k < 8" using lt by simp
    then show ?thesis using k by simp
  qed
  have um: "unat (?m + ?o) = unat ?m + unat ?o" using n(3) lt by (simp add: unat_word_ariths)
  have uo: "unat (?o + kSlabSize) = unat ?o + 2 ^ 29" using o by (simp add: unat_word_ariths kSlabSize_def)
  have "unat ?m \<noteq> 0" using n(1) by (simp add: unat_eq_zero)
  then have m0: "?m + ?o \<noteq> 0" using um by (metis add_is_0 unat_0)
  then show "slab_memory (tls_slab s' tid) \<noteq> 0" by (simp add: s'_def)
  have b: "bytes s (Numa v) = {unat ?m + unat ?o..<unat ?m + 2 ^ 32}"
    "bytes s' (Numa v) = {unat ?m + unat ?o + 2 ^ 29..<unat ?m + 2 ^ 32}"
    "bytes s' (Rest tid) = {unat ?m + unat ?o..<unat ?m + unat ?o + 2 ^ 29}"
    using m0 um uo v len by (simp_all add: s'_def Let_def add.assoc)
  show "apart (bytes s')"
  proof (rule apart_carve [OF i(1), of "Rest tid" "Numa v"])
    show "bytes s' (Rest tid) \<union> bytes s' (Numa v) \<subseteq> bytes s (Numa v)" unfolding b using o by auto
    show "bytes s' (Rest tid) \<inter> bytes s' (Numa v) = {}" unfolding b by auto
    show "bytes s' k = bytes s k" if "k \<noteq> Rest tid" "k \<noteq> Numa v" for k using that by (cases k) (auto simp: s'_def)
  qed simp
  have "slab_ok \<lparr>slab_allocated = 0, slab_memory = ?m + ?o\<rparr>"
  proof -
    have "unat ?o mod 64 = 0" using n(4) by (auto simp: mod_eq_0_iff_dvd elim!: dvdE)
    then have "unat (?m + ?o) mod 64 = 0" unfolding um using n(2) by presburger
    then show ?thesis using um o n(3) by (simp add: slab_ok_def)
  qed
  moreover have "numa_ok ?m (?o + kSlabSize)"
  proof -
    have "(unat ?o + 2 ^ 29) mod 2 ^ 29 = 0" using n(4) by (simp add: mod_add_self2)
    then show ?thesis using n uo o by (simp add: numa_ok_def)
  qed
  ultimately show "sizes_ok s'" using i(2) len by (auto simp: sizes_ok_def s'_def nth_list_update)
qed

lemma too_large_no_fit:
  assumes "kSlabSize < R" and "unat R \<le> 2 ^ 63" and "sizes_ok s"
  shows "\<not> (slab_memory (tls_slab s tid) \<noteq> 0 \<and> slab_allocated (tls_slab s tid) + R \<le> kSlabSize)"
proof
  assume m: "slab_memory (tls_slab s tid) \<noteq> 0 \<and> slab_allocated (tls_slab s tid) + R \<le> kSlabSize"
  then have "unat (slab_allocated (tls_slab s tid)) \<le> 2 ^ 29" using assms(3) by (auto simp: sizes_ok_def slab_ok_def)
  then have "unat (slab_allocated (tls_slab s tid) + R) = unat (slab_allocated (tls_slab s tid)) + unat R"
    using assms(2) by (simp add: unat_word_ariths)
  then show False using m assms(1) by (simp add: word_le_nat_alt word_less_nat_alt)
qed

declare Slab_Allocate.simps [simp del]

lemma Slab_Allocate_ok:
  assumes i: "apart (bytes s)" "sizes_ok s" and v: "v < length (numa_memory s)"
    and R: "unat R mod 64 = 0" "unat z + 64 = unat R" "unat R \<le> 2 ^ 29"
  obtains (full) "Slab_Allocate (v # vs) tid R s = Inl (AssertFail ''off < tls_allocator->kNumaMemorySize'')"
      "numa_allocated s ! v \<ge> kNumaMemorySize"
  | (ok) a s1 where "Slab_Allocate (v # vs) tid R s = Inr (a, s1)" "headers s a = None" "a \<noteq> 0" "unat a mod 64 = 0"
      "unat a + unat R < 2 ^ 64" "headers s1 = headers s" "tls_blocks s1 = tls_blocks s"
      "apart (bytes (set_header a \<lparr>hdr_size = z, hdr_next = 0\<rparr> s1))" "sizes_ok (set_header a \<lparr>hdr_size = z, hdr_next = 0\<rparr> s1)"
proof -
  have fits: "slab_allocated (tls_slab s tid) + R \<le> kSlabSize \<longleftrightarrow> unat (slab_allocated (tls_slab s tid)) + unat R \<le> 2 ^ 29"
    if "slab_memory (tls_slab s tid) \<noteq> 0" "sizes_ok s" for s
  proof -
    have "unat (slab_allocated (tls_slab s tid)) \<le> 2 ^ 29" using that by (auto simp: sizes_ok_def slab_ok_def)
    then show ?thesis using R(3) by (simp add: word_le_nat_alt unat_word_ariths kSlabSize_def)
  qed
  have cut: thesis
    if j: "apart (bytes s2)" "sizes_ok s2" "slab_memory (tls_slab s2 tid) \<noteq> 0" "unat (slab_allocated (tls_slab s2 tid)) + unat R \<le> 2 ^ 29"
      and h: "headers s2 = headers s" "tls_blocks s2 = tls_blocks s" and r: "Slab_Allocate (v # vs) tid R s = Slab_Allocate ws tid R s2" for s2 ws
  proof -
    let ?sl = "tls_slab s2 tid"
    let ?a = "slab_memory ?sl + slab_allocated ?sl" and ?s1 = "s2\<lparr>tls_slab := (tls_slab s2)(tid := ?sl\<lparr>slab_allocated := slab_allocated ?sl + R\<rparr>)\<rparr>"
    note c = cut_ok [OF j(1,2) refl j(3,4) R(1,2)]
    have run: "Slab_Allocate (v # vs) tid R s = Inr (?a, ?s1)"
      unfolding r using j(3,4) fits [OF j(3,2)] by (subst Slab_Allocate.simps) (simp add: Let_def)
    have e: "set_header ?a \<lparr>hdr_size = z, hdr_next = 0\<rparr> ?s1 =
      s2\<lparr>tls_slab := (tls_slab s2)(tid := ?sl\<lparr>slab_allocated := slab_allocated ?sl + R\<rparr>),
        headers := (headers s2)(?a \<mapsto> \<lparr>hdr_size = z, hdr_next = 0\<rparr>)\<rparr>" by (simp add: set_header_def)
    have f: "headers s ?a = None" "headers ?s1 = headers s" "tls_blocks ?s1 = tls_blocks s" using c(1) h by simp_all
    show thesis by (rule ok [OF run f(1) c(2,3,4) f(2,3)]) (unfold e, rule c(5), rule c(6))
  qed
  let ?sl = "tls_slab s tid"
  show thesis
  proof (cases "slab_memory ?sl \<noteq> 0 \<and> unat (slab_allocated ?sl) + unat R \<le> 2 ^ 29")
    case True
    then show thesis using cut [of s "v # vs"] i by simp
  next
    case False
    then have nf: "\<not> (slab_memory ?sl \<noteq> 0 \<and> slab_allocated ?sl + R \<le> kSlabSize)" using fits i(2) by blast
    show thesis
    proof (cases "numa_allocated s ! v < kNumaMemorySize")
      case True
      let ?s = "s\<lparr>numa_allocated := (numa_allocated s)[v := numa_allocated s ! v + kSlabSize],
        tls_slab := (tls_slab s)(tid := \<lparr>slab_allocated = 0, slab_memory = numa_memory s ! v + numa_allocated s ! v\<rparr>)\<rparr>"
      note ns = new_slab_ok [OF i v True, of tid]
      have "Slab_Allocate (v # vs) tid R s = Slab_Allocate vs tid R ?s"
        using nf True v by (subst Slab_Allocate.simps) (auto simp: Let_def)
      then show thesis by (intro cut [OF ns(1,2,3)]) (use R(3) in simp_all)
    next
      case False
      then have "Slab_Allocate (v # vs) tid R s = Inl (AssertFail ''off < tls_allocator->kNumaMemorySize'')"
        using nf v by (subst Slab_Allocate.simps) (auto simp: Let_def)
      then show thesis using full False by (simp add: not_less)
    qed
  qed
qed

text \<open>A block from a chain\<close>

lemma reuse_ok:
  assumes i: "alloc_inv s live" and ch: "chains_ok s ch" "live = dom (headers s) - (\<Union>t z. set (ch t z))" and x: "ch tid z = a # xs"
  shows "\<exists>bl bl'. tls_blocks s tid z = Some bl \<and> BlockList_Get bl s = Inr (a + 64, bl') \<and> a \<notin> live \<and>
    alloc_inv (s\<lparr>tls_blocks := (tls_blocks s)(tid := (tls_blocks s tid)(z \<mapsto> bl'))\<rparr>) (insert a live)"
proof -
  note c = chains_okD [OF ch(1)]
  have "bl_head (list_of s tid z) \<noteq> 0" using chain_hd [OF c(1) [of tid z]] x by simp
  then obtain bl where bl: "tls_blocks s tid z = Some bl" "list_of s tid z = bl" by (auto simp: list_of_def split: option.splits)
  obtain bl' where g: "BlockList_Get bl s = Inr (a + 64, bl')" "chain (headers s) bl' xs"
    using Get_chain(2) [OF c(1) x] bl(2) by blast
  define s' where "s' = s\<lparr>tls_blocks := (tls_blocks s)(tid := (tls_blocks s tid)(z \<mapsto> bl'))\<rparr>"
  have same: "headers s' = headers s" "tls_slab s' = tls_slab s" "numa_memory s' = numa_memory s" "numa_allocated s' = numa_allocated s"
    by (simp_all add: s'_def)
  have "chains_ok s' (\<lambda>t' z'. if t' = tid \<and> z' = z then xs else ch t' z')"
  proof (rule chains_update [OF ch(1), where bl = bl'])
    show "list_of s' t' z' = (if t' = tid \<and> z' = z then bl' else list_of s t' z')" for t' z' by (auto simp: s'_def list_of_def)
    show "chain (headers s') bl' xs" using g(2) same by simp
    show "\<exists>h. headers s' y = Some h \<and> hdr_size h = z" if "y \<in> set xs" for y using c(2) [of y tid z] that x same by simp
    show "y \<notin> set (ch t' z')" if "y \<in> set xs" "(t', z') \<noteq> (tid, z)" for y t' z' using c(3) [OF that(2)] that(1) x by auto
  qed (simp_all add: same)
  moreover have "a \<in> set (ch tid z)" using x by simp
  moreover then have "a \<in> (\<Union>t z. set (ch t z))" by blast
  moreover have "a \<in> dom (headers s)" using x c(2) [of a tid z] by auto
  moreover have "apart (bytes s')" "sizes_ok s'" using i bytes_cong [of s' s] sizes_cong [of s s'] same by (auto simp: alloc_inv_def)
  ultimately have "alloc_inv s' (insert a live)"
    unfolding alloc_inv_def using ch(2) same(1) by (intro conjI exI) (assumption, assumption, assumption, unfold chains_tail [OF ch(1) x], auto)
  then show ?thesis using bl g ch(2) \<open>a \<in> (\<Union>t z. set (ch t z))\<close> unfolding s'_def by blast
qed

text \<open>A block with a new header\<close>

lemma fresh_ok:
  assumes ch: "chains_ok s ch" "live = dom (headers s) - (\<Union>t z. set (ch t z))" and a: "headers s a = None"
    and s': "headers s' = (headers s)(a \<mapsto> h)" "tls_blocks s' = tls_blocks s" "apart (bytes s')" "sizes_ok s'"
  shows "alloc_inv s' (insert a live)" and "a \<notin> live"
proof -
  have "list_of s' = list_of s" by (simp add: list_of_def fun_eq_iff s'(2))
  moreover have n: "a \<notin> set (ch t z)" for t z using chains_okD(2) [OF ch(1), of a t z] a by auto
  moreover have "chain (headers s') bl (ch t z)" if "chain (headers s) bl (ch t z)" for bl t z
    by (rule block_chain_cong [OF that]) (use n [of t z] s'(1) in auto)
  ultimately have "chains_ok s' ch" using ch(1) s'(1) unfolding chains_ok_def by (metis fun_upd_other)
  moreover have "insert a live = dom (headers s') - (\<Union>t z. set (ch t z))" using n s'(1) ch(2) by auto
  ultimately show "alloc_inv s' (insert a live)" using s'(3,4) unfolding alloc_inv_def by blast
  show "a \<notin> live" using a ch(2) by auto
qed

lemma empty_chain_get:
  assumes "chains_ok s ch" and "ch tid z = []"
  shows "(case tls_blocks s tid z of None \<Rightarrow> Inr (0, s)
      | Some bl \<Rightarrow> rbind (BlockList_Get bl s) (\<lambda>(p, bl'). Inr (p, s\<lparr>tls_blocks := (tls_blocks s)(tid := (tls_blocks s tid)(z \<mapsto> bl'))\<rparr>)))
    = Inr (0, s)"
  using Get_chain(1) [OF chains_okD(1) [OF assms(1), of tid z] assms(2)]
  by (auto simp: list_of_def map_upd_triv split: option.splits)

lemma TlsAllocate_ok:
  assumes i: "alloc_inv s live" and v: "v < length (numa_memory s)" and n: "unat n + 64 \<le> 2 ^ 29"
  obtains (full) "TlsAllocate (v # vs) tid n s = Inl (AssertFail ''off < tls_allocator->kNumaMemorySize'')"
      "numa_allocated s ! v \<ge> kNumaMemorySize"
  | (ok) a h s' where "TlsAllocate (v # vs) tid n s = Inr (a + 64, s')" "a \<notin> live" "alloc_inv s' (insert a live)"
      "headers s' a = Some h" "hdr_size h = rounded_size n - 64" "\<And>x. x \<noteq> a \<Longrightarrow> headers s' x = headers s x"
proof -
  obtain ch where inv: "apart (bytes s)" "sizes_ok s" "chains_ok s ch" "live = dom (headers s) - (\<Union>t z. set (ch t z))"
    using alloc_invD [OF i] .
  let ?R = "rounded_size n" and ?z = "rounded_size n - sizeof_Header"
  note R = rounded_size_ok [OF n]
  show thesis
  proof (cases "ch tid ?z")
    case (Cons a xs)
    obtain bl bl' where r: "tls_blocks s tid ?z = Some bl" "BlockList_Get bl s = Inr (a + 64, bl')" "a \<notin> live"
      "alloc_inv (s\<lparr>tls_blocks := (tls_blocks s)(tid := (tls_blocks s tid)(?z \<mapsto> bl'))\<rparr>) (insert a live)"
      using reuse_ok [OF i inv(3,4) Cons] by blast
    obtain h where h: "headers s a = Some h" "hdr_size h = ?z" using chains_okD(2) [OF inv(3), of a tid ?z] Cons by auto
    have "a + 64 \<noteq> 0" using inv(2) h(1) by (rule data_not_null)
    then show thesis using r h by (intro ok [OF _ r(3,4)]) (simp_all add: TlsAllocate_def Let_def tls_sizes)
  next
    case Nil
    note get = empty_chain_get [OF inv(3) Nil]
    show thesis
    proof (cases rule: Slab_Allocate_ok [OF inv(1,2) v R(1,4,3), of vs tid])
      case 1
      then show thesis using get by (intro full) (simp_all add: TlsAllocate_def Let_def)
    next
      case (2 a s1)
      let ?s = "set_header a \<lparr>hdr_size = ?z, hdr_next = 0\<rparr> s1"
      have f: "headers ?s = (headers s)(a \<mapsto> \<lparr>hdr_size = ?z, hdr_next = 0\<rparr>)" "tls_blocks ?s = tls_blocks s"
        using 2 by (simp_all add: set_header_def)
      note k = fresh_ok [OF inv(3,4) 2(2) f 2(8,9)]
      have "a + sizeof_Header \<noteq> 0" using data_not_null [OF 2(9), of a] f(1) by (simp add: tls_sizes)
      then have "TlsAllocate (v # vs) tid n s = Inr (a + sizeof_Header, ?s)"
        using get 2(1,3) by (simp add: TlsAllocate_def Let_def)
      then have "TlsAllocate (v # vs) tid n s = Inr (a + 64, ?s)" by (simp add: sizeof_Header_def)
      then show thesis by (rule ok [OF _ k(2,1), where h = "\<lparr>hdr_size = ?z, hdr_next = 0\<rparr>"]) (simp_all add: f, simp add: tls_sizes)
    qed
  qed
qed

text \<open>A request that does not fit in a slab takes slabs until the memory of the node is used up.\<close>

lemma Slab_Allocate_too_large:
  assumes R: "kSlabSize < R" "unat R \<le> 2 ^ 63" and "apart (bytes s)" and "sizes_ok s"
  shows "\<exists>e. Slab_Allocate nodes tid R s = Inl e"
  using assms(3,4)
proof (induction nodes arbitrary: s)
  case Nil
  then show ?case using too_large_no_fit [OF R] by (subst Slab_Allocate.simps) (auto simp: Let_def)
next
  case (Cons v vs)
  note nf = too_large_no_fit [OF R Cons.prems(2), of tid]
  show ?case
  proof (cases "v < length (numa_memory s) \<and> numa_allocated s ! v < kNumaMemorySize")
    case True
    note ns = new_slab_ok [OF Cons.prems, of v tid]
    show ?thesis using nf True Cons.IH [OF ns(1,2)] by (subst Slab_Allocate.simps) (auto simp: Let_def)
  next
    case False
    then show ?thesis using nf by (subst Slab_Allocate.simps) (auto simp: Let_def)
  qed
qed

lemma rounded_size_large:
  assumes "2 ^ 29 < unat n + 64" and "unat n \<le> 2 ^ 62"
  shows "kSlabSize < rounded_size n" and "unat (rounded_size n) \<le> 2 ^ 63"
  using assms by (simp_all add: word_less_nat_alt kSlabSize_def unat_rounded_size(1))

text \<open>A thread that stays on its node gets there after at most nine attempts, since the node has eight slabs.\<close>

lemma Slab_Allocate_exhausts:
  assumes R: "kSlabSize < R" "unat R \<le> 2 ^ 63" and "apart (bytes s)" "sizes_ok s" "v < length (numa_memory s)"
    and "2 ^ 32 < unat (numa_allocated s ! v) + k * 2 ^ 29"
  shows "Slab_Allocate (replicate k v) tid R s = Inl (AssertFail ''off < tls_allocator->kNumaMemorySize'')"
  using assms(3-)
proof (induction k arbitrary: s)
  case 0
  then show ?case by (auto simp: sizes_ok_def numa_ok_def)
next
  case (Suc k)
  note nf = too_large_no_fit [OF R Suc.prems(2), of tid]
  show ?case
  proof (cases "numa_allocated s ! v < kNumaMemorySize")
    case True
    note ns = new_slab_ok [OF Suc.prems(1-3) True, of tid]
    have "v < length (numa_allocated s)" using Suc.prems(2,3) by (simp add: sizes_ok_def)
    moreover have "unat (numa_allocated s ! v + kSlabSize) = unat (numa_allocated s ! v) + 2 ^ 29"
      using True by (simp add: unat_word_ariths tls_sizes word_less_nat_alt)
    ultimately show ?thesis using nf True Suc.prems(3,4) Suc.IH [OF ns(1,2)] by (subst Slab_Allocate.simps) (auto simp: Let_def)
  next
    case False
    then show ?thesis using nf Suc.prems(3) by (subst Slab_Allocate.simps) (auto simp: Let_def)
  qed
qed

lemma TlsAllocate_too_large:
  assumes i: "alloc_inv s live" and n: "2 ^ 29 < unat n + 64" "unat n \<le> 2 ^ 62"
  shows "\<exists>e. TlsAllocate nodes tid n s = Inl e"
    and "v < length (numa_memory s) \<Longrightarrow>
      TlsAllocate (replicate 9 v) tid n s = Inl (AssertFail ''off < tls_allocator->kNumaMemorySize'')"
proof -
  obtain ch where inv: "apart (bytes s)" "sizes_ok s" "chains_ok s ch" using alloc_invD [OF i] .
  let ?z = "rounded_size n - sizeof_Header"
  note R = rounded_size_large [OF n]
  have "ch tid ?z = []"
  proof (rule ccontr)
    assume "ch tid ?z \<noteq> []"
    then obtain x h where "headers s x = Some h" "hdr_size h = ?z" using chains_okD(2) [OF inv(3)] hd_in_set by blast
    then have "block_ok x h" "hdr_size h = ?z" using inv(2) by (simp_all add: sizes_ok_def)
    then have "unat ?z + 64 \<le> 2 ^ 29" by (simp add: block_ok_def)
    then show False using R(1) unat_rounded_size(2) [OF n(2)] by (simp add: word_less_nat_alt kSlabSize_def)
  qed
  note get = empty_chain_get [OF inv(3) this]
  show "\<exists>e. TlsAllocate nodes tid n s = Inl e"
    using get Slab_Allocate_too_large [OF R inv(1,2), of nodes tid] by (auto simp: TlsAllocate_def Let_def)
  assume "v < length (numa_memory s)"
  then have "Slab_Allocate (replicate 9 v) tid (rounded_size n) s = Inl (AssertFail ''off < tls_allocator->kNumaMemorySize'')"
    by (rule Slab_Allocate_exhausts [OF R inv(1,2)]) simp
  then show "TlsAllocate (replicate 9 v) tid n s = Inl (AssertFail ''off < tls_allocator->kNumaMemorySize'')"
    using get by (simp only: TlsAllocate_def Let_def) simp
qed

lemma AllocateAligned_eq:
  "TlsAllocator_AllocateAligned nodes tid n alignment s =
     rbind (guard (alignment = 64) (RawCheck ''unsupported alignment.'')) (\<lambda>_. TlsAllocate nodes tid n s)"
proof -
  have "p \<noteq> 0" if "TlsAllocate nodes tid n s = Inr (p, s')" for p s'
    using that by (auto simp: TlsAllocate_def Let_def rbind_Inr_iff)
  then have "TlsAllocator_Allocate nodes tid n s = TlsAllocate nodes tid n s"
    by (cases "TlsAllocate nodes tid n s") (auto simp: TlsAllocator_Allocate_def)
  then show ?thesis by (simp add: TlsAllocator_AllocateAligned_def)
qed

end
