(* ===== verification/TlsAllocProps.thy ===== *)
theory TlsAllocProps
  imports TlsAllocInv
begin

text \<open>
  Runs of \<open>TlsAllocator\<close>: any sequence of the requests of all threads, what \<open>mmap\<close> promises for the memory of the nodes,
  and the properties of the blocks that the program holds.
\<close>

section \<open>Runs\<close>

text \<open>The requests of all threads, in the order of their effects. \<open>L\<close> lists the blocks that the program was given and has not
  freed, with the sizes it asked for; a block that was handed out twice would be there twice. The program frees what it
  was given, once. Sizes are at most \<open>2^62\<close>.\<close>

inductive tls_run :: "u64 list \<Rightarrow> tls_allocator \<Rightarrow> (u64 \<times> u64) list \<Rightarrow> bool" for mem :: "u64 list" where
  start: "tls_run mem (TlsAllocator_new mem) []"
| alloc: "tls_run mem s L \<Longrightarrow> v < length mem \<Longrightarrow> unat n \<le> 2 ^ 62 \<Longrightarrow> TlsAllocator_AllocateAligned (v # vs) tid n 64 s = Inr (p, s')
    \<Longrightarrow> tls_run mem s' ((p, n) # L)"
| free: "tls_run mem s L \<Longrightarrow> (p, n) \<in> set L \<Longrightarrow> TlsAllocator_FreeAligned tid p s = Inr s' \<Longrightarrow> tls_run mem s' (remove1 (p, n) L)"

text \<open>What \<open>mmap\<close> promises: regions of 4 GB that are aligned, not null and apart\<close>

definition mapped :: "u64 list \<Rightarrow> bool" where
  "mapped mem \<longleftrightarrow> (\<forall>i < length mem. mem ! i \<noteq> 0 \<and> unat (mem ! i) mod 4096 = 0 \<and> unat (mem ! i) + 2 ^ 32 < 2 ^ 64) \<and>
     (\<forall>i < length mem. \<forall>j < length mem. i \<noteq> j \<longrightarrow> unat (mem ! i) + 2 ^ 32 \<le> unat (mem ! j) \<or> unat (mem ! j) + 2 ^ 32 \<le> unat (mem ! i))"

definition holds :: "tls_allocator \<Rightarrow> (u64 \<rightharpoonup> u64) \<Rightarrow> u64 set \<Rightarrow> bool" where
  "holds s L live \<longleftrightarrow> dom L = (\<lambda>a. a + 64) ` live \<and>
     (\<forall>a n. L (a + 64) = Some n \<longrightarrow> (\<exists>h. headers s a = Some h \<and> unat n + 64 \<le> 2 ^ 29 \<and> hdr_size h = rounded_size n - 64))"

lemma new_inv:
  assumes "mapped mem"
  shows "alloc_inv (TlsAllocator_new mem) {}"
proof -
  let ?s = "TlsAllocator_new mem"
  have "bytes ?s i \<inter> bytes ?s j = {}" if "i \<noteq> j" for i j
    using assms that by (cases i; cases j) (auto simp: TlsAllocator_new_def mapped_def Let_def, fastforce+)
  moreover have "unat (mem ! i) mod 64 = 0" if "i < length mem" for i
  proof -
    have "4096 dvd unat (mem ! i)" using assms that by (simp add: mapped_def mod_eq_0_iff_dvd)
    moreover have "(64 :: nat) dvd 4096" by simp
    ultimately have "64 dvd unat (mem ! i)" using dvd_trans by blast
    then show ?thesis by simp
  qed
  then have "sizes_ok ?s" using assms by (auto simp: sizes_ok_def TlsAllocator_new_def mapped_def slab_ok_def numa_ok_def)
  moreover have "chains_ok ?s (\<lambda>_ _. [])" by (simp add: chains_ok_def chain_def list_of_def TlsAllocator_new_def)
  ultimately show ?thesis by (auto simp: alloc_inv_def apart_def TlsAllocator_new_def intro!: exI [of _ "\<lambda>_ _. []"])
qed

lemma Slab_Allocate_memory: "Slab_Allocate nodes tid n s = Inr (p, s') \<Longrightarrow> numa_memory s' = numa_memory s"
proof (induction nodes arbitrary: s)
  case Nil
  then show ?case by (subst (asm) Slab_Allocate.simps) (auto simp: Let_def split: if_splits)
next
  case (Cons v vs)
  from Cons.prems show ?case
    by (subst (asm) Slab_Allocate.simps) (auto simp: Let_def split: if_splits dest: Cons.IH)
qed

lemma TlsAllocate_memory: "TlsAllocate nodes tid n s = Inr (p, s') \<Longrightarrow> numa_memory s' = numa_memory s"
  by (auto simp: TlsAllocate_def Let_def set_header_def rbind_Inr_iff split: option.splits if_splits dest!: Slab_Allocate_memory)

lemma BlockList_Put_memory: "BlockList_Put a bl s = Inr (bl', s') \<Longrightarrow> numa_memory s' = numa_memory s"
  by (auto simp: BlockList_Put_def Let_def set_header_def rbind_Inr_iff split: if_splits)

lemma Free_memory: "TlsAllocator_Free tid p s = Inr s' \<Longrightarrow> numa_memory s' = numa_memory s"
  by (auto simp: TlsAllocator_Free_def Let_def set_header_def rbind_Inr_iff split: option.splits dest!: BlockList_Put_memory)

lemma holdsD:
  assumes "holds s L live" and "L (a + 64) = Some n"
  obtains h where "a \<in> live" "headers s a = Some h" "unat n + 64 \<le> 2 ^ 29" "hdr_size h = rounded_size n - 64"
proof -
  have "a + 64 \<in> (\<lambda>a. a + 64) ` live" using assms by (auto simp: holds_def)
  then have "a \<in> live" by auto
  then show thesis using assms that unfolding holds_def by blast
qed

lemma holds_alloc:
  assumes L: "holds s L live" and a: "headers s' a = Some h" "hdr_size h = rounded_size n - 64" "unat n + 64 \<le> 2 ^ 29"
    and fr: "\<And>x. x \<noteq> a \<Longrightarrow> headers s' x = headers s x"
  shows "holds s' (L(a + 64 \<mapsto> n)) (insert a live)"
  unfolding holds_def
proof (intro conjI allI impI)
  show "dom (L(a + 64 \<mapsto> n)) = (\<lambda>a. a + 64) ` insert a live" using L by (auto simp: holds_def)
  show "\<exists>h. headers s' x = Some h \<and> unat m + 64 \<le> 2 ^ 29 \<and> hdr_size h = rounded_size m - 64"
    if "(L(a + 64 \<mapsto> n)) (x + 64) = Some m" for x m
    using that L a fr [of x] by (cases "x = a") (auto simp: holds_def)
qed

lemma holds_free:
  assumes L: "holds s L live" and fr: "\<And>x. map_option hdr_size (headers s' x) = map_option hdr_size (headers s x)"
  shows "holds s' (L(a + 64 := None)) (live - {a})"
  unfolding holds_def
proof (intro conjI allI impI)
  show "dom (L(a + 64 := None)) = (\<lambda>a. a + 64) ` (live - {a})" using L by (auto simp: holds_def)
  show "\<exists>h. headers s' x = Some h \<and> unat m + 64 \<le> 2 ^ 29 \<and> hdr_size h = rounded_size m - 64"
    if m: "(L(a + 64 := None)) (x + 64) = Some m" for x m
  proof -
    obtain h where "headers s x = Some h" "unat m + 64 \<le> 2 ^ 29" "hdr_size h = rounded_size m - 64"
      using holdsD [OF L, of x m] m by (auto split: if_splits)
    then show ?thesis using fr [of x] by auto
  qed
qed

lemma map_of_remove1:
  assumes "distinct (map fst L)" and "(p, n) \<in> set L"
  shows "map_of (remove1 (p, n) L) = (map_of L)(p := None) \<and> distinct (map fst (remove1 (p, n) L))"
  using assms
proof (induction L)
  case (Cons q L)
  show ?case
  proof (cases "q = (p, n)")
    case True
    then have "map_of L p = None" using Cons.prems(1) by (simp add: map_of_eq_None_iff)
    then show ?thesis using True Cons.prems(1) by (simp add: fun_eq_iff)
  next
    case False
    then have m: "(p, n) \<in> set L" using Cons.prems(2) by auto
    then have "p \<in> fst ` set L" by (metis fst_conv image_eqI)
    then have "fst q \<noteq> p" using Cons.prems(1) by auto
    moreover have "fst q \<notin> fst ` set (remove1 (p, n) L)" using Cons.prems(1) set_remove1_subset [of "(p, n)" L] by auto
    ultimately show ?thesis using Cons.IH m Cons.prems(1) False by (cases q) (auto simp: fun_eq_iff)
  qed
qed simp

lemma run_inv:
  assumes "tls_run mem s L" and "mapped mem"
  shows "\<exists>live. alloc_inv s live \<and> holds s (map_of L) live \<and> length (numa_memory s) = length mem \<and> distinct (map fst L)"
  using assms
proof (induction rule: tls_run.induct)
  case start
  then show ?case using new_inv by (auto simp: holds_def TlsAllocator_new_def)
next
  case (alloc s L v n vs tid p s')
  obtain live where i: "alloc_inv s live" "holds s (map_of L) live" "length (numa_memory s) = length mem" "distinct (map fst L)"
    using alloc.IH [OF alloc.prems] by blast
  have r: "TlsAllocate (v # vs) tid n s = Inr (p, s')" using alloc.hyps by (simp add: AllocateAligned_eq)
  have n: "unat n + 64 \<le> 2 ^ 29" using TlsAllocate_too_large(1) [OF i(1) _ alloc.hyps(3), of "v # vs" tid] r by (metis not_le sum.distinct(1))
  have v: "v < length (numa_memory s)" using alloc.hyps(2) i(3) by simp
  show ?case
  proof (cases rule: TlsAllocate_ok [OF i(1) v n, of vs tid])
    case (2 a h s2)
    then have e: "p = a + 64" "s2 = s'" using r by simp_all
    have "p \<notin> dom (map_of L)" using 2(2) i(2) e(1) by (auto simp: holds_def)
    then have "distinct (map fst ((p, n) # L))" using i(4) by (simp add: dom_map_of_conv_image_fst)
    moreover have "holds s' (map_of ((p, n) # L)) (insert a live)" using holds_alloc [OF i(2) 2(4,5) n 2(6)] e by simp
    ultimately show ?thesis using 2(3) e TlsAllocate_memory [OF r] i(3) by metis
  qed (use r in simp)
next
  case (free s L p n tid s')
  obtain live where i: "alloc_inv s live" "holds s (map_of L) live" "length (numa_memory s) = length mem" "distinct (map fst L)"
    using free.IH [OF free.prems] by blast
  have m: "map_of (remove1 (p, n) L) = (map_of L)(p := None)" "distinct (map fst (remove1 (p, n) L))"
    using map_of_remove1 [OF i(4) free.hyps(2)] by blast+
  have L: "map_of L p = Some n" using free.hyps(2) i(4) by simp
  then have "p \<in> (\<lambda>a. a + 64) ` live" using i(2) by (auto simp: holds_def)
  then obtain a where a: "a \<in> live" "p = a + 64" by blast
  have r: "TlsAllocator_Free tid p s = Inr s'" using free.hyps(3) by (simp add: TlsAllocator_FreeAligned_def)
  obtain h where h: "headers s a = Some h" using L unfolding a(2) by (rule holdsD [OF i(2)])
  have "hdr_size h \<noteq> 0" using r h a(2) by (auto simp: TlsAllocator_Free_def read_header_def tls_sizes Let_def)
  then have f: "alloc_inv s' (live - {a})" "\<And>x. map_option hdr_size (headers s' x) = map_option hdr_size (headers s x)"
    using Free_ok [OF i(1) a(1) h, of tid] r a(2) by auto
  have "holds s' (map_of (remove1 (p, n) L)) (live - {a})" using holds_free [OF i(2) f(2), of a] m(1) a(2) by simp
  then show ?case using f(1) Free_memory [OF r] i(3) m(2) by metis
qed

text \<open>A block that the program holds\<close>

lemma run_holds:
  assumes "tls_run mem s L" and "mapped mem" and "(p, n) \<in> set L"
  obtains a h where "p = a + 64" "headers s a = Some h" "unat n + 64 \<le> 2 ^ 29" "hdr_size h = rounded_size n - 64"
    "unat p = unat a + 64" "unat p mod 64 = 0" "unat p + unat n < 2 ^ 64" "{unat p..<unat p + unat n} \<subseteq> bytes s (Block a)"
    "apart (bytes s)"
proof -
  obtain live where i: "alloc_inv s live" "holds s (map_of L) live" "distinct (map fst L)" using run_inv [OF assms(1,2)] by blast
  have L: "map_of L p = Some n" using assms(3) i(3) by simp
  define a where "a = p - 64"
  have p: "p = a + 64" by (simp add: a_def)
  obtain h where h: "headers s a = Some h" "unat n + 64 \<le> 2 ^ 29" "hdr_size h = rounded_size n - 64"
    using holdsD [OF i(2)] L p by metis
  have b: "block_ok a h" "apart (bytes s)" using i(1) h(1) by (auto simp: alloc_inv_def sizes_ok_def)
  note R = rounded_size_ok [OF h(2)]
  have z: "unat n \<le> unat (hdr_size h)" using R(2,4) h(3) by (simp add: sizeof_Header_def)
  have u: "unat p = unat a + 64" using b(1) p by (simp add: block_ok_def unat_word_ariths)
  have m: "unat p mod 64 = 0" "unat p + unat n < 2 ^ 64" using b(1) z unfolding u block_ok_def by simp_all
  have "{unat p..<unat p + unat n} \<subseteq> bytes s (Block a)" unfolding u using z h(1) by auto
  then show thesis by (rule that [OF p h u m _ b(2)])
qed

section \<open>A run\<close>

text \<open>One node with memory at \<open>2^40\<close>; a thread asks for 100 bytes, then for 200 or for none.\<close>

definition demo_mem :: "u64 list" where "demo_mem = [0x10000000000]"

definition demo_first :: tls_allocator where
  "demo_first = \<lparr>headers = [0x10000000000 \<mapsto> \<lparr>hdr_size = 128, hdr_next = 0\<rparr>], tls_blocks = \<lambda>_. Map.empty,
     tls_slab = (\<lambda>_. \<lparr>slab_allocated = 0, slab_memory = 0\<rparr>)(0 := \<lparr>slab_allocated = 192, slab_memory = 0x10000000000\<rparr>),
     numa_memory = [0x10000000000], numa_allocated = [0x20000000]\<rparr>"

definition demo_second :: "u64 \<Rightarrow> tls_allocator" where
  "demo_second z = demo_first\<lparr>headers := (headers demo_first)(0x100000000C0 \<mapsto> \<lparr>hdr_size = z, hdr_next = 0\<rparr>),
     tls_slab := (tls_slab demo_first)(0 := \<lparr>slab_allocated = 256 + z, slab_memory = 0x10000000000\<rparr>)\<rparr>"

lemmas demo_defs = AllocateAligned_eq TlsAllocate_def rounded_size_def tls_sizes Slab_Allocate.simps set_header_def Let_def
  demo_mem_def demo_first_def

lemma mapped_demo: "mapped demo_mem"
  by (simp add: mapped_def demo_mem_def)

lemma demo_run_first: "tls_run demo_mem demo_first [(0x10000000040, 100)]"
proof -
  have "TlsAllocator_AllocateAligned [0] 0 100 64 (TlsAllocator_new demo_mem) = Inr (0x10000000040, demo_first)"
    by (simp add: demo_defs TlsAllocator_new_def)
  from tls_run.alloc [OF tls_run.start _ _ this] show ?thesis by (simp add: demo_mem_def)
qed

lemma demo_run_second:
  "tls_run demo_mem (demo_second 256) [(0x10000000100, 200), (0x10000000040, 100)]"
  "tls_run demo_mem (demo_second 0) [(0x10000000100, 0), (0x10000000040, 100)]"
proof -
  have "TlsAllocator_AllocateAligned [0] 0 200 64 demo_first = Inr (0x10000000100, demo_second 256)"
    "TlsAllocator_AllocateAligned [0] 0 0 64 demo_first = Inr (0x10000000100, demo_second 0)"
    by (simp_all add: demo_defs demo_second_def)
  note r = this [THEN tls_run.alloc [OF demo_run_first, rotated 2]]
  show "tls_run demo_mem (demo_second 256) [(0x10000000100, 200), (0x10000000040, 100)]"
    "tls_run demo_mem (demo_second 0) [(0x10000000100, 0), (0x10000000040, 100)]"
    by (rule r; simp add: demo_mem_def)+
qed

text \<open>Another thread has freed the first block and got it back: its chain for the size is in its map, and empty.\<close>

definition demo_emptied :: tls_allocator where
  "demo_emptied = demo_first\<lparr>tls_blocks := (\<lambda>_. Map.empty)(1 := [128 \<mapsto> \<lparr>bl_head = 0, bl_tail = 0\<rparr>])\<rparr>"

lemma demo_run_emptied: "tls_run demo_mem demo_emptied [(0x10000000040, 100)]"
proof -
  let ?s = "demo_first\<lparr>tls_blocks := (\<lambda>_. Map.empty)(1 := [128 \<mapsto> \<lparr>bl_head = 0x10000000000, bl_tail = 0x10000000000\<rparr>])\<rparr>"
  have "TlsAllocator_FreeAligned 1 0x10000000040 demo_first = Inr ?s"
    by (simp add: TlsAllocator_FreeAligned_def TlsAllocator_Free_def read_header_def demo_defs)
  from tls_run.free [OF demo_run_first _ this, of 100] have "tls_run demo_mem ?s []" by simp
  moreover have "TlsAllocator_AllocateAligned [0] 1 100 64 ?s = Inr (0x10000000040, demo_emptied)"
    by (simp add: demo_defs demo_emptied_def BlockList_Get_def)
  ultimately show ?thesis by (intro tls_run.alloc [of demo_mem ?s "[]" 0 100 "[]" 1]) (simp_all add: demo_mem_def)
qed

section \<open>Properties\<close>

text \<open>C35. Whatever blocks the threads allocate and free, with sizes up to \<open>2^62\<close> and from the memory of any node, every block
  that the program was given and has not freed is aligned to the cache line and lies below the end of the address space; no
  two requests share an address, and their blocks have no byte in common.
\<close>

theorem tls_blocks_apart:
  assumes "tls_run mem s L" and "mapped mem" and "i < length L" and "j < length L" and "i \<noteq> j" and "L ! i = (p, n)" and "L ! j = (q, m)"
  shows "unat p mod 64 = 0 \<and> unat p + unat n < 2 ^ 64 \<and> p \<noteq> q \<and> {unat p..<unat p + unat n} \<inter> {unat q..<unat q + unat m} = {}"
proof -
  have L: "(p, n) \<in> set L" "(q, m) \<in> set L" using assms(3,4,6,7) nth_mem by metis+
  have "distinct (map fst L)" using run_inv [OF assms(1,2)] by blast
  then have "map fst L ! i \<noteq> map fst L ! j" using assms(3,4,5) by (simp add: nth_eq_iff_index_eq del: nth_map)
  then have pq: "p \<noteq> q" using assms(3,4,6,7) by simp
  obtain a h where p: "p = a + 64" "headers s a = Some h" "unat n + 64 \<le> 2 ^ 29" "hdr_size h = rounded_size n - 64"
    "unat p = unat a + 64" "unat p mod 64 = 0" "unat p + unat n < 2 ^ 64" "{unat p..<unat p + unat n} \<subseteq> bytes s (Block a)"
    "apart (bytes s)" using run_holds [OF assms(1,2) L(1)] .
  obtain b g where q: "q = b + 64" "headers s b = Some g" "unat m + 64 \<le> 2 ^ 29" "hdr_size g = rounded_size m - 64"
    "unat q = unat b + 64" "unat q mod 64 = 0" "unat q + unat m < 2 ^ 64" "{unat q..<unat q + unat m} \<subseteq> bytes s (Block b)"
    "apart (bytes s)" using run_holds [OF assms(1,2) L(2)] .
  have "Block a \<noteq> Block b" using p(1) q(1) pq by auto
  then have "bytes s (Block a) \<inter> bytes s (Block b) = {}" using p(9) unfolding apart_def by (elim allE impE) assumption+
  then show ?thesis using p(6,7,8) q(8) pq by blast
qed

text \<open>Two requests of a thread\<close>

theorem tls_blocks_apart_witness:
  "\<exists>p q s1 s2. TlsAllocator_AllocateAligned [0] 0 100 64 (TlsAllocator_new demo_mem) = Inr (p, s1) \<and>
     TlsAllocator_AllocateAligned [0] 0 200 64 s1 = Inr (q, s2) \<and> tls_run demo_mem s2 [(q, 200), (p, 100)] \<and>
     q \<noteq> p \<and> {unat q..<unat q + 200} \<inter> {unat p..<unat p + 100} = {}"
proof -
  have r: "TlsAllocator_AllocateAligned [0] 0 100 64 (TlsAllocator_new demo_mem) = Inr (0x10000000040, demo_first)"
    "TlsAllocator_AllocateAligned [0] 0 200 64 demo_first = Inr (0x10000000100, demo_second 256)"
    by (simp_all add: demo_defs TlsAllocator_new_def demo_second_def)
  have "unat (0x10000000100 :: u64) mod 64 = 0 \<and> unat (0x10000000100 :: u64) + unat (200 :: u64) < 2 ^ 64 \<and>
     (0x10000000100 :: u64) \<noteq> 0x10000000040 \<and>
     {unat (0x10000000100 :: u64)..<unat (0x10000000100 :: u64) + unat (200 :: u64)} \<inter>
     {unat (0x10000000040 :: u64)..<unat (0x10000000040 :: u64) + unat (100 :: u64)} = {}"
    by (rule tls_blocks_apart [OF demo_run_second(1) mapped_demo, of 0 1]) simp_all
  then show ?thesis using r demo_run_second(1)
    by (intro exI [of _ "0x10000000040 :: u64"] exI [of _ "0x10000000100 :: u64"] exI [of _ demo_first] exI [of _ "demo_second 256"]) simp
qed

text \<open>C36. As long as the node of the thread has memory that was not given to a slab, a request of at most 512 MB less the
  header succeeds with a block that no one holds.
\<close>

theorem tls_allocation_succeeds:
  assumes "tls_run mem s L" and "mapped mem" and "v < length mem" and "unat n + 64 \<le> 2 ^ 29" and "numa_allocated s ! v < kNumaMemorySize"
  shows "\<exists>p s'. TlsAllocator_AllocateAligned (v # vs) tid n 64 s = Inr (p, s') \<and> p \<notin> fst ` set L \<and> tls_run mem s' ((p, n) # L)"
proof -
  obtain live where i: "alloc_inv s live" "holds s (map_of L) live" "length (numa_memory s) = length mem" using run_inv [OF assms(1,2)] by blast
  have v: "v < length (numa_memory s)" using assms(3) i(3) by simp
  show ?thesis
  proof (cases rule: TlsAllocate_ok [OF i(1) v assms(4), of vs tid])
    case (2 a h s')
    then have r: "TlsAllocator_AllocateAligned (v # vs) tid n 64 s = Inr (a + 64, s')" by (simp add: AllocateAligned_eq)
    have "a + 64 \<notin> dom (map_of L)" using 2(2) i(2) by (auto simp: holds_def)
    then have "a + 64 \<notin> fst ` set L" by (simp add: dom_map_of_conv_image_fst)
    moreover have "unat n \<le> 2 ^ 62" using assms(4) by simp
    ultimately show ?thesis using r tls_run.alloc [OF assms(1,3) _ r] by blast
  qed (use assms(5) in simp)
qed

theorem tls_allocation_succeeds_witness:
  "\<exists>p s'. TlsAllocator_AllocateAligned [0] 3 1000 64 demo_first = Inr (p, s') \<and> p \<notin> fst ` set [(0x10000000040, 100 :: u64)] \<and>
     tls_run demo_mem s' [(p, 1000), (0x10000000040, 100)]"
  by (rule tls_allocation_succeeds [OF demo_run_first mapped_demo]) (simp_all add: demo_mem_def demo_first_def kNumaMemorySize_def)

text \<open>C38. A request between 512 MB less the header and \<open>2^62\<close> bytes never succeeds. On a thread that stays on its node, nine
  attempts take the remaining slabs of the node and the assertion on the memory of the node fails.
\<close>

theorem tls_large_request_aborts:
  assumes "tls_run mem s L" and "mapped mem" and "2 ^ 29 < unat n + 64" and "unat n \<le> 2 ^ 62" and "v < length mem"
  shows "(\<exists>e. TlsAllocator_AllocateAligned nodes tid n alignment s = Inl e) \<and>
    TlsAllocator_AllocateAligned (replicate 9 v) tid n 64 s = Inl (AssertFail ''off < tls_allocator->kNumaMemorySize'')"
proof -
  obtain live where i: "alloc_inv s live" "length (numa_memory s) = length mem" using run_inv [OF assms(1,2)] by blast
  note large = TlsAllocate_too_large [OF i(1) assms(3,4)]
  have "\<exists>e. TlsAllocator_AllocateAligned nodes tid n alignment s = Inl e"
    using large(1) [of nodes tid] by (cases "alignment = 64") (simp_all add: AllocateAligned_eq)
  moreover have "TlsAllocator_AllocateAligned (replicate 9 v) tid n 64 s = Inl (AssertFail ''off < tls_allocator->kNumaMemorySize'')"
    using large(2) [of v tid] assms(5) i(2) by (simp only: AllocateAligned_eq) simp
  ultimately show ?thesis ..
qed

theorem tls_large_request_aborts_witness:
  "(\<exists>e. TlsAllocator_AllocateAligned [0, 0, 0] 0 0x20000000 64 demo_first = Inl e) \<and>
   TlsAllocator_AllocateAligned (replicate 9 0) 0 0x20000000 64 demo_first = Inl (AssertFail ''off < tls_allocator->kNumaMemorySize'')"
  by (rule tls_large_request_aborts [OF demo_run_first mapped_demo]) (simp_all add: demo_mem_def)

text \<open>C39. A block of size 0 can be allocated, but freeing it fails the check that its header has a size.\<close>

theorem tls_free_of_empty_block_aborts:
  assumes "tls_run mem s L" and "mapped mem" and "(p, 0) \<in> set L"
  shows "TlsAllocator_FreeAligned tid p s = Inl (DCheck ''pHeader->size'')"
proof -
  obtain a h where "p = a + 64" "headers s a = Some h" "unat (0 :: u64) + 64 \<le> 2 ^ 29" "hdr_size h = rounded_size 0 - 64"
    "unat p = unat a + 64" "unat p mod 64 = 0" "unat p + unat (0 :: u64) < 2 ^ 64" "{unat p..<unat p + unat (0 :: u64)} \<subseteq> bytes s (Block a)"
    "apart (bytes s)" using run_holds [OF assms] .
  then show ?thesis by (simp add: TlsAllocator_FreeAligned_def TlsAllocator_Free_def read_header_def tls_sizes rounded_size_def Let_def)
qed

theorem tls_free_of_empty_block_aborts_witness: "TlsAllocator_FreeAligned 0 0x10000000100 (demo_second 0) = Inl (DCheck ''pHeader->size'')"
  by (rule tls_free_of_empty_block_aborts [OF demo_run_second(2) mapped_demo]) simp

text \<open>C37. A thread whose chain for the size is empty, because there was none yet or because all its blocks were taken again, gets the block
  that it just freed back at the next request of that size, without using its slab, and its chain is empty again: both
  of its ends are null.
\<close>

theorem tls_freed_block_is_reused:
  assumes "tls_run mem s L" and "mapped mem" and "(p, n) \<in> set L" and "n \<noteq> 0" and "bl_head (list_of s tid (rounded_size n - 64)) = 0"
  shows "\<exists>s' s''. TlsAllocator_FreeAligned tid p s = Inr s' \<and> TlsAllocator_AllocateAligned nodes tid n 64 s' = Inr (p, s'') \<and>
    tls_slab s'' = tls_slab s \<and> list_of s'' tid (rounded_size n - 64) = \<lparr>bl_head = 0, bl_tail = 0\<rparr>"
proof -
  obtain a h where p: "p = a + 64" "headers s a = Some h" "unat n + 64 \<le> 2 ^ 29" "hdr_size h = rounded_size n - 64"
    "unat p = unat a + 64" "unat p mod 64 = 0" "unat p + unat n < 2 ^ 64" "{unat p..<unat p + unat n} \<subseteq> bytes s (Block a)"
    "apart (bytes s)" using run_holds [OF assms(1-3)] .
  let ?z = "rounded_size n - 64"
  have "0 < unat n" using assms(4) by (simp add: unat_gt_0)
  then have "unat ?z \<noteq> 0" using rounded_size_ok(2,4) [OF p(3)] by (simp add: tls_sizes)
  then have z: "?z \<noteq> 0" by (metis unat_0)
  have p0: "p \<noteq> 0" using p(5) by (metis add_is_0 unat_0 zero_neq_numeral)
  obtain live where live: "alloc_inv s live" using run_inv [OF assms(1,2)] by blast
  then have a0: "a \<noteq> 0" using p(2) by (auto simp: alloc_inv_def sizes_ok_def block_ok_def)
  obtain ch where "chains_ok s ch" using alloc_invD [OF live] .
  from chains_okD(1) [OF this, of tid ?z] have tail: "bl_tail (list_of s tid ?z) = 0"
    using chain_hd assms(5) by (fastforce simp: chain_def)
  let ?s = "s\<lparr>headers := (headers s)(a \<mapsto> h\<lparr>hdr_next := 0\<rparr>), tls_blocks := (tls_blocks s)(tid := (tls_blocks s tid)(?z \<mapsto> \<lparr>bl_head = a, bl_tail = a\<rparr>))\<rparr>"
  have "TlsAllocator_FreeAligned tid p s = Inr ?s"
    using p(1,2,4) z assms(5) tail
    by (auto simp: TlsAllocator_FreeAligned_def TlsAllocator_Free_def read_header_def set_header_def sizeof_Header_def Let_def
        BlockList_Put_def list_of_def split: option.splits)
  moreover have "\<exists>s''. TlsAllocator_AllocateAligned nodes tid n 64 ?s = Inr (p, s'') \<and> tls_slab s'' = tls_slab s \<and>
      list_of s'' tid ?z = \<lparr>bl_head = 0, bl_tail = 0\<rparr>"
    using p(1) p0 a0 by (simp add: AllocateAligned_eq TlsAllocate_def BlockList_Get_def sizeof_Header_def Let_def list_of_def)
  ultimately show ?thesis by blast
qed

text \<open>The chain was used and emptied before.\<close>

theorem tls_freed_block_is_reused_witness:
  "tls_blocks demo_emptied 1 128 \<noteq> None \<and> (\<exists>s' s''. TlsAllocator_FreeAligned 1 0x10000000040 demo_emptied = Inr s' \<and>
     TlsAllocator_AllocateAligned [] 1 100 64 s' = Inr (0x10000000040, s'') \<and> tls_slab s'' = tls_slab demo_emptied \<and>
     list_of s'' 1 (rounded_size 100 - 64) = \<lparr>bl_head = 0, bl_tail = 0\<rparr>)"
proof
  show "\<exists>s' s''. TlsAllocator_FreeAligned 1 0x10000000040 demo_emptied = Inr s' \<and>
     TlsAllocator_AllocateAligned [] 1 100 64 s' = Inr (0x10000000040, s'') \<and> tls_slab s'' = tls_slab demo_emptied \<and>
     list_of s'' 1 (rounded_size 100 - 64) = \<lparr>bl_head = 0, bl_tail = 0\<rparr>"
    by (rule tls_freed_block_is_reused [OF demo_run_emptied mapped_demo])
      (simp_all add: demo_emptied_def demo_first_def list_of_def rounded_size_def tls_sizes)
qed (simp add: demo_emptied_def)

text \<open>C40. The size with header and padding wraps around at 64 bits: a request of \<open>2^64 - 64\<close> bytes is rounded to 0 and given the
  next address of the slab without moving it, so a second request gets the same block.
\<close>

theorem tls_request_size_wraps:
  assumes "slab_memory (tls_slab s tid) \<noteq> 0" and "unat (slab_allocated (tls_slab s tid)) \<le> 2 ^ 29"
    and "unat (slab_memory (tls_slab s tid)) + 2 ^ 30 < 2 ^ 64" and "tls_blocks s tid (- 64) = None"
  shows "\<exists>p s' s''. TlsAllocator_AllocateAligned nodes tid (- 64) 64 s = Inr (p, s') \<and>
    TlsAllocator_AllocateAligned nodes' tid (- 64) 64 s' = Inr (p, s'')"
proof -
  let ?sl = "tls_slab s tid"
  let ?a = "slab_memory ?sl + slab_allocated ?sl"
  have "unat ?a = unat (slab_memory ?sl) + unat (slab_allocated ?sl)" using assms(2,3) by (simp add: unat_word_ariths)
  moreover have "0 < unat (slab_memory ?sl)" using assms(1) by (simp add: unat_gt_0)
  ultimately have a: "0 < unat ?a" "unat ?a + 64 < 2 ^ 64" using assms(2,3) by simp_all
  then have a0: "?a \<noteq> 0" by (metis less_irrefl unat_0)
  have "unat (?a + 64) = unat ?a + 64" using a(2) by (simp add: unat_word_ariths)
  then have p0: "?a + 64 \<noteq> 0" by (metis add_is_0 unat_0 zero_neq_numeral)
  have le: "slab_allocated ?sl \<le> kSlabSize" using assms(2) by (simp add: word_le_nat_alt kSlabSize_def)
  have R: "rounded_size (- 64) = 0" by (simp add: rounded_size_def tls_sizes)
  have once: "TlsAllocator_AllocateAligned ns tid (- 64) 64 u = Inr (?a + 64, set_header ?a \<lparr>hdr_size = - 64, hdr_next = 0\<rparr> u)"
    if "tls_slab u = tls_slab s" "tls_blocks u = tls_blocks s" for u ns
  proof -
    have "Slab_Allocate ns tid 0 u = Inr (?a, u)" using assms(1) le that by (subst Slab_Allocate.simps) (simp add: Let_def)
    then show ?thesis using R a0 p0 assms(4) that
      by (simp add: AllocateAligned_eq TlsAllocate_def sizeof_Header_def Let_def)
  qed
  show ?thesis using once [of s nodes] once [of "set_header ?a \<lparr>hdr_size = - 64, hdr_next = 0\<rparr> s" nodes']
    by (simp add: set_header_def)
qed

theorem tls_request_size_wraps_witness:
  "\<exists>p s' s''. TlsAllocator_AllocateAligned [] 0 (- 64) 64 demo_first = Inr (p, s') \<and>
     TlsAllocator_AllocateAligned [] 0 (- 64) 64 s' = Inr (p, s'')"
  by (rule tls_request_size_wraps) (simp_all add: demo_first_def)

end
