(* ===== verification/Spec2Isabelle.thy ===== *)
theory Spec2Isabelle
  imports MwHelp MwVolatile DListDurable BzNew EpochInterleaving TlsAllocProps
begin

text \<open>
  Verification of the persistent multi-word compare-and-swap library, of its doubly-linked lists and of the BzTree.

  \<^bold>\<open>The program.\<close> The library (\<open>src/mwcas\<close>) gives a thread the operation \<open>MwCAS\<close>: it fills a descriptor from a pool in persistent
  memory with up to four target words, their old and new values, and swaps all of them or none, also when other threads work
  on the same words and when the process dies in the middle; after a restart \<open>Recovery\<close> rolls every descriptor forward or
  back. Descriptors, and the nodes of the data structures, are recycled through epochs (\<open>src/common/epoch.*\<close>) and garbage
  lists (\<open>src/common/garbage_list*.h\<close>). Two doubly-linked lists (\<open>src/double-linked-list\<close>), one on single-word
  compare-and-swap and one on \<open>MwCAS\<close>, and a B-tree of byte strings, the BzTree (\<open>src/bztree\<close>), are its clients.

  \<^bold>\<open>Shared theories.\<close>
  \<^item> \<open>Prelude\<close>: machine words, the result type of code that may abort (\<open>'a res\<close>, with the failed check as the error), word lemmas.
  \<^item> \<open>Interfaces\<close>: the contracts as locales: \<open>epoch_service\<close> (what a garbage list asks of an epoch manager; interpreted on the
    manager's operations in \<open>Epoch\<close>, used by \<open>GarbageList\<close>) and \<open>key_value_store\<close> (a finite map with \<open>Find\<close>, \<open>Insert\<close>,
    \<open>Update\<close>, \<open>Erase\<close>, and its lemma on sequences of operations; interpreted on the BzTree in \<open>BzInsert\<close>). A third one,
    \<open>dlist_reader\<close>, is in \<open>DListCursor\<close> and is interpreted on both lists.

  \<^bold>\<open>Base.\<close>
  \<^item> \<open>StatusSlice\<close> (\<open>include/slice.h\<close>, \<open>include/status.h\<close>, \<open>util/status.cc\<close>), \<open>Util\<close> (hash, random numbers, clock, affinity), \<open>Library\<close>
    (\<open>InitLibrary\<close>, the singletons, the registry of thread-local variables), \<open>Metrics\<close> (\<open>metrics.h\<close>, \<open>core_local.h\<close>).
  \<^item> \<open>Epoch\<close>: \<open>EpochManager\<close> and \<open>MinEpochTable\<close>. All managers of a process are in one state, because the thread-local entry
    pointer is shared by them. Each operation is one step; \<open>Spins\<close> is the search for a free entry that never ends.
  \<^item> \<open>EpochInterleaving\<close>: the same protocol split into its atomic accesses, as a step relation with reachable states, for threads
    that have their entries. The load of \<open>Protect\<close> may be stale, and stores to entries wait in a buffer of the thread before they
    reach memory. The invariant, by rule induction, is that a stamped item in a thread's hands is younger than the
    thread's epoch, not safe, and not made safe by any scan in progress. It holds for the exchange in the disabled branch of
    \<open>MinEpochTable::Protect\<close>; for the compiled release store there is a run that frees an item in a thread's hands.
  \<^item> \<open>GarbageList\<close>: \<open>Push\<close> and \<open>Scavenge\<close> of both lists; they return the destruction calls they make.
  \<^item> \<open>TlsAlloc\<close>: \<open>TlsAllocator\<close> of \<open>environment/environment_linux.h\<close>: headers, chains of free blocks, slabs, the memory of the NUMA nodes.
    \<open>TlsAllocInv\<close>: the areas of memory are apart and the chains well-formed, kept by allocation and deallocation. \<open>TlsAllocProps\<close>:
    runs of all threads, and the properties. The addresses that \<open>mmap\<close> returns and the node of the thread are arguments;
    \<open>mapped\<close> is what \<open>mmap\<close> promises.

  \<^bold>\<open>MwCAS.\<close>
  \<^item> \<open>MwWord\<close>: the flag bits of target words. \<open>Descriptor\<close>: the state of the library (\<open>mw_world\<close>: application words, their durable
    image, descriptors, epoch state, per-thread data), the monad with its outcomes \<open>Done\<close>, \<open>Crashed\<close>, \<open>Aborted\<close> and \<open>NoFuel\<close>,
    \<open>AddEntry\<close> and the life cycle of a descriptor. \<open>MwCAS\<close>: \<open>CondCAS\<close>, \<open>PersistentMwCAS\<close> and the protected reads.
    \<open>DescPool\<close>: the pool, \<open>AllocateDescriptor\<close>, \<open>Recovery\<close>. These are the persistent build; \<open>MwVolatile\<close> has \<open>VolatileMwCAS\<close>,
    its variant that stops half-way and the reads of the volatile build, and their refinement of the same specification.
  \<^item> \<open>MwLogic\<close>: weakest preconditions with a crash condition. \<open>MwAtomic\<close>: one operation from any point at which its owner can
    have stopped. \<open>MwRecovery\<close>, \<open>PoolInit\<close>, \<open>MwCleanup\<close>: recovery, initialization and the end of an operation.
    \<open>MwRefine\<close>, \<open>MwExample\<close>, \<open>MwCrash\<close>, \<open>MwHelp\<close>: the specification and its refinement, a concrete state, crashes, helpers and readers.
  \<^item> \<^emph>\<open>Crashes\<close>: every store to shared memory takes one unit of \<open>budget\<close>; a run with a budget stops at that store.
    The theorems hold for every budget, so for a crash at any store.
    \<^emph>\<open>Fuel\<close>: retry loops and helping take fuel; the theorems say which fuel is enough and exclude \<open>NoFuel\<close>.

  \<^bold>\<open>Lists.\<close>
  \<^item> \<open>DList\<close>: \<open>IDList\<close>, \<open>CASDList\<close>, \<open>MwCASDList\<close> and the cursor. \<open>DListLogic\<close>, \<open>DListCAS\<close>: the representation of a list in memory and the operations
    of the list on single-word compare-and-swap. \<open>DListMw\<close>: those of the list on \<open>MwCAS\<close>. \<open>DListCursor\<close>: the cursor over the reader interface.
    \<open>DListProps\<close>, \<open>DListDurable\<close>: the properties, the second with crashes and recovery.

  \<^bold>\<open>BzTree.\<close>
  \<^item> \<open>BzWord\<close>, \<open>BzNode\<close>: the bit fields and the bytes of a node, the scan for a key, \<open>copy_out\<close> and \<open>copy_in\<close>. \<open>BzHeap\<close>: the
    persistent objects, the monad, \<open>MwCAS\<close> on words of these objects through its specification, with the checks of \<open>AddEntry\<close>.
    The field \<open>lib\<close> is the state of the library, on which the constructor of the tree builds the descriptor pool.
    \<open>BzTree\<close>: structure modifications and the descent (\<open>bztree_smos.cc\<close>, \<open>bztree_helpers.cc\<close>). \<open>BzOps\<close>: the public operations (\<open>bztree.cc\<close>).
    \<open>avail\<close> is what the allocator of the pool will return; \<open>others\<close> is what other threads do to the objects before and
    after each compare-and-swap, and is empty for a thread that runs alone.
  \<^item> \<open>BzArea\<close>, \<open>BzRecords\<close>: when the bytes of a node are well-formed and which records they hold. \<open>BzQuiet\<close>, \<open>BzLeaf\<close>: a lone thread on one node.
    \<open>BzPath\<close>, \<open>BzSearch\<close>, \<open>BzMap\<close>: trees of any height in the heap, the descent, and the map a tree stands for. \<open>BzSplit\<close>, \<open>BzRoot\<close>:
    compaction and splitting of the root. \<open>BzInsert\<close>: the store contract. \<open>BzFaults\<close>: long keys and racing insertions. \<open>BzProps\<close>,
    \<open>BzNew\<close>: the properties, the second the constructor with its descriptor pool.
  \<^item> \<^emph>\<open>Fuel\<close>: two or three rounds are enough for an operation that runs alone; a modification of the root takes one more round of the descent.

  \<^bold>\<open>What the theorems show.\<close> \<open>MwCAS\<close> refines an atomic multi-word update, across crashes at any store and with helpers; recovery leaves
  all or nothing. The list on \<open>MwCAS\<close> is the old or the new list after any crash. The lists and the tree refine abstract
  lists and a finite map. Epochs protect items across whole operations, and under every interleaving of their atomic accesses
  when \<open>Protect\<close> exchanges its entry. The blocks of the thread-local allocator do not overlap as long as no request exceeds
  \<open>2^62\<close> bytes; larger sizes wrap around, and two such requests can get the same block. Words, sizes and tables stay in
  their bounds, and their encodings are bijective. Where the code departs from its documentation, the departure is a theorem too: words
  that are never flushed, an epoch entry that is stored too late, volatile operations that help each other for ever, a sanity check that misses the tail, epoch managers that share an entry, readers that wait for an owner,
  an insertion race, an assertion that long keys violate, an \<open>erase\<close> that stays protected,
  requests that the allocator cannot serve or take back.

  \<^bold>\<open>Not modelled.\<close> Files, asynchronous input and output, shared memory and thread creation
  (\<open>environment_linux.*\<close>, \<open>environment_windows.*\<close>, \<open>async.h\<close>) are wrappers of system calls. The system's allocators and libpmemobj are outside the
  sources; the model has what they promise. Memory orders are taken as sequentially consistent, but for the
  accesses of \<open>EpochInterleaving\<close>. The transactional build of \<open>MwCAS\<close> (\<open>RTM\<close>) needs hardware instructions. \<open>std::sort\<close> of a
  descriptor's entries is one step, so a crash inside it is not covered. A crash is the death of the process: what was written stays
  in memory, and the pool is mapped at the same address again; the durable image, which \<open>Flush\<close> fills, is kept for the
  application's words only. The BzTree uses \<open>MwCAS\<close> through its specification: it always gets a descriptor, and the link to the refinement
  theorem of \<open>MwCAS\<close> is by that specification, not by a formal simulation. Interleavings of several threads inside \<open>MwCAS\<close> are covered for a stopped owner and its helpers, not
  for arbitrary schedules. Modifications of inner nodes of the BzTree (\<open>compact_child\<close>, \<open>split_child\<close>, \<open>merge_children\<close>) are modelled;
  the map theorem covers trees where none of them is due on the path of a write. Benchmarks, tests and third-party code are left out.
\<close>

end
